(* ===== verification/Prelude.thy ===== *)
theory Prelude
  imports "HOL-Library.Word" "HOL-Library.Monad_Syntax"
begin

unbundle bit_operations_syntax

text \<open>
  Shared vocabulary of the development: the machine types of the 32-bit MIPS
  target, the constants of \<^verbatim>\<open>kern/arch/mips/include/vm.h\<close>, the macros of
  \<^verbatim>\<open>kern/include/lib.h\<close>, the error numbers of \<^verbatim>\<open>kern/include/kern/errno.h\<close>
  that the modelled code returns, and the generic lemmas on words and lists
  the component theories share.

  Conventions. A kernel function that can stop the machine (\<^verbatim>\<open>panic\<close>, a failed
  \<^verbatim>\<open>KASSERT\<close>, the dereference of an invalid pointer) or that can fail to return
  has a result of type \<open>'a option\<close>, with \<^const>\<open>None\<close> for \<open>does not return\<close>;
  \<open>kassert\<close> is \<^verbatim>\<open>KASSERT\<close>. An error number handed back to the caller is a
  value of the sum type \<open>errno + 'a\<close>. A C pointer that may be \<^verbatim>\<open>NULL\<close> is an
  \<open>option\<close>. The state a function reads and writes is an explicit record.
\<close>

section \<open>Proof collections\<close>

named_theorems page_simps \<open>page arithmetic on 32-bit addresses\<close>
named_theorems frame_simps \<open>which fields of the state an operation leaves alone\<close>

text \<open>Quantifiers over pairs are not split: page table pointers are pairs.\<close>

declare split_paired_All [simp del] split_paired_Ex [simp del]

section \<open>Machine types and constants\<close>

type_synonym byte = "8 word"
type_synonym uint32 = "32 word"
type_synonym vaddr = "32 word"
type_synonym paddr = "32 word"

abbreviation (input) PAGE_SIZE :: nat where "PAGE_SIZE \<equiv> 4096"
abbreviation (input) MIPS_KSEG0 :: vaddr where "MIPS_KSEG0 \<equiv> 0x80000000"
abbreviation (input) USERSPACETOP :: vaddr where "USERSPACETOP \<equiv> MIPS_KSEG0"
abbreviation (input) USERSTACK :: vaddr where "USERSTACK \<equiv> USERSPACETOP"

definition PAGE_FRAME :: uint32 where
  "PAGE_FRAME = 0xfffff000"

datatype errno = ENOSYS | ENOMEM | EAGAIN | EFAULT | ENAMETOOLONG | EINVAL | EPERM | ENOEXEC | E2BIG | ENOTDIR
  | EISDIR | ENOENT | ENOTEMPTY | EEXIST | EXDEV | ENODEV | ENXIO | EBUSY | ENFILE | EIOCTL | EIO | ESPIPE | ENOSPC | EFBIG

definition PADDR_TO_KVADDR :: "paddr \<Rightarrow> vaddr" where
  "PADDR_TO_KVADDR pa = pa + MIPS_KSEG0"

definition KVADDR_TO_PADDR :: "vaddr \<Rightarrow> paddr" where
  "KVADDR_TO_PADDR va = va - MIPS_KSEG0"

definition DIVROUNDUP :: "uint32 \<Rightarrow> uint32 \<Rightarrow> uint32" where
  "DIVROUNDUP a b = (a + b - 1) div b"

definition ROUNDUP :: "uint32 \<Rightarrow> uint32 \<Rightarrow> uint32" where
  "ROUNDUP a b = DIVROUNDUP a b * b"

definition kassert :: "bool \<Rightarrow> unit option" where
  "kassert b = (if b then Some () else None)"

section \<open>Assertions and the option monad\<close>

lemma kassert_simps [simp]:
  "kassert True = Some ()" "kassert False = None"
  by (simp_all add: kassert_def)

lemma kassert_eq_Some [simp]: "kassert b = Some u \<longleftrightarrow> b"
  by (simp add: kassert_def)

lemma kassert_bind [simp]: "b \<Longrightarrow> Option.bind (kassert b) f = f ()"
  by simp

lemma bind_eq_SomeE:
  assumes "Option.bind m f = Some y"
  obtains x where "m = Some x" and "f x = Some y"
  using assms by (cases m) auto

section \<open>Page arithmetic on 32-bit words\<close>

lemma page_frame_mask: "PAGE_FRAME = NOT (mask 12)"
  by (simp add: PAGE_FRAME_def mask_eq_exp_minus_1)

lemma page_frame_eq: "(x :: uint32) AND PAGE_FRAME = x - x mod 4096"
proof -
  have m: "x mod 4096 = x AND mask 12"
    using take_bit_eq_mod [of 12 x] by (simp add: take_bit_eq_mask)
  have "x - (x AND mask 12) = x AND NOT (x AND mask 12)"
    by (rule disjunctive_diff_eq_and_not) (simp add: bit_eq_iff bit_simps)
  moreover have "x AND NOT (x AND mask 12) = x AND NOT (mask 12)"
    by (auto simp: bit_eq_iff bit_simps)
  ultimately show ?thesis by (simp add: m page_frame_mask)
qed

lemma unat_page_frame [page_simps]:
  "unat ((x :: uint32) AND PAGE_FRAME) = unat x div PAGE_SIZE * PAGE_SIZE"
proof -
  have "x mod 4096 \<le> x"
    by (simp add: word_le_nat_alt unat_mod_distrib)
  then have "unat (x - x mod 4096) = unat x - unat x mod PAGE_SIZE"
    by (simp only: unat_sub unat_mod_distrib) simp
  then show ?thesis
    by (simp only: page_frame_eq minus_mod_eq_div_mult)
qed

lemma page_offset_eq: "(x :: uint32) AND NOT PAGE_FRAME = x mod 4096"
proof -
  have "NOT PAGE_FRAME = mask 12"
    by (simp add: page_frame_mask)
  then show ?thesis
    using take_bit_eq_mod [of 12 x] by (simp add: take_bit_eq_mask)
qed

lemma unat_page_offset [page_simps]:
  "unat ((x :: uint32) AND NOT PAGE_FRAME) = unat x mod PAGE_SIZE"
  by (simp add: page_offset_eq unat_mod_distrib)

lemma unat_of_nat32 [page_simps]: "n < 2 ^ 32 \<Longrightarrow> unat (of_nat n :: uint32) = n"
  by (simp add: unat_of_nat)

lemma unat_less_2p32 [simp]: "unat (x :: uint32) < 4294967296"
  using unsigned_less [of x] by simp

text \<open>\<^verbatim>\<open>f * PAGE_SIZE\<close> as a \<^verbatim>\<open>paddr_t\<close>.\<close>

definition frame_addr :: "nat \<Rightarrow> paddr" where
  "frame_addr f = of_nat (f * PAGE_SIZE)"

lemma unat_frame_addr [page_simps]:
  "f < 2 ^ 20 \<Longrightarrow> unat (frame_addr f) = f * PAGE_SIZE"
  unfolding frame_addr_def by (rule unat_of_nat32) simp

lemma frame_addr_inject: "f < 2 ^ 20 \<Longrightarrow> g < 2 ^ 20 \<Longrightarrow> frame_addr f = frame_addr g \<longleftrightarrow> f = g"
  by (metis unat_frame_addr mult_right_cancel zero_neq_numeral)

lemma unat_add_small:
  "unat a + unat b < 2 ^ 32 \<Longrightarrow> unat (a + b :: uint32) = unat a + unat b"
  using unat_add_lem [of a b] by simp

lemma unat_ROUNDUP:
  assumes "unat a + 4095 < 2 ^ 32"
  shows "unat (ROUNDUP a 4096) = (unat a + 4095) div PAGE_SIZE * PAGE_SIZE"
proof -
  have s: "unat (a + 4096 - 1) = unat a + 4095"
  proof -
    have "a + 4096 - 1 = a + 4095" by simp
    then show ?thesis using assms by (simp add: unat_add_small)
  qed
  have d: "unat (DIVROUNDUP a 4096) = (unat a + 4095) div PAGE_SIZE"
    using s by (simp add: DIVROUNDUP_def unat_div_distrib)
  have "unat (DIVROUNDUP a 4096) * unat (4096 :: uint32) < 2 ^ 32"
    using d assms by simp
  then show ?thesis
    using unat_mult_lem [of "DIVROUNDUP a 4096" "4096 :: uint32"] by (simp add: ROUNDUP_def d)
qed

section \<open>Updating a range of a list\<close>

text \<open>A \<^verbatim>\<open>for\<close> loop that changes the elements \<open>b\<close>, \<open>b + 1\<close>, ... one after the other.\<close>

lemma fold_update_nth:
  assumes "b + n \<le> length xs"
  shows "length (fold (\<lambda>i ys. ys[b + i := f (ys ! (b + i))]) [0..<n] xs) = length xs"
    and "j < length xs \<Longrightarrow> fold (\<lambda>i ys. ys[b + i := f (ys ! (b + i))]) [0..<n] xs ! j =
      (if b \<le> j \<and> j < b + n then f (xs ! j) else xs ! j)"
proof -
  have "length (fold (\<lambda>i ys. ys[b + i := f (ys ! (b + i))]) [0..<n] xs) = length xs \<and>
    (\<forall>j < length xs. fold (\<lambda>i ys. ys[b + i := f (ys ! (b + i))]) [0..<n] xs ! j =
      (if b \<le> j \<and> j < b + n then f (xs ! j) else xs ! j))"
    using assms by (induction n) (auto simp: nth_list_update)
  then show "length (fold (\<lambda>i ys. ys[b + i := f (ys ! (b + i))]) [0..<n] xs) = length xs"
    and "j < length xs \<Longrightarrow> fold (\<lambda>i ys. ys[b + i := f (ys ! (b + i))]) [0..<n] xs ! j =
      (if b \<le> j \<and> j < b + n then f (xs ! j) else xs ! j)" by blast+
qed

section \<open>Runs and simulations\<close>

text \<open>A run of a labelled step relation, and the contract by which one relation refines another.\<close>

fun run :: "('s \<Rightarrow> 'e \<Rightarrow> 's \<Rightarrow> bool) \<Rightarrow> 's \<Rightarrow> 'e list \<Rightarrow> 's \<Rightarrow> bool" where
  "run R s [] s' \<longleftrightarrow> s' = s"
| "run R s (e # es) s' \<longleftrightarrow> (\<exists>s1. R s e s1 \<and> run R s1 es s')"

locale simulation =
  fixes inv :: "'s \<Rightarrow> bool" and cstep :: "'s \<Rightarrow> 'e \<Rightarrow> 's \<Rightarrow> bool" and astep :: "'a \<Rightarrow> 'e \<Rightarrow> 'a \<Rightarrow> bool"
    and abs_of :: "'s \<Rightarrow> 'a"
  assumes step: "inv s \<Longrightarrow> cstep s e s' \<Longrightarrow> inv s' \<and> astep (abs_of s) e (abs_of s')"
begin

lemma run_inv: "inv s \<Longrightarrow> run cstep s es s' \<Longrightarrow> inv s'"
  by (induction es arbitrary: s) (auto dest: step)

lemma run_refines: "inv s \<Longrightarrow> run cstep s es s' \<Longrightarrow> run astep (abs_of s) es (abs_of s')"
  by (induction es arbitrary: s) (auto dest: step)

end

end
