(* ===== verification/Tlb.thy ===== *)
theory Tlb
  imports Prelude
begin

unbundle bit_operations_syntax

text \<open>
  The software-managed TLB of \<^verbatim>\<open>kern/vm/vm_tlb.c\<close> with the entry format of
  \<^verbatim>\<open>kern/arch/mips/include/tlb.h\<close>, and the event counters of
  \<^verbatim>\<open>kern/vm/vmstats.c\<close>. \<open>tlb_maps\<close> is the set of user translations the TLB holds;
  \<open>tlb_ok\<close> says that every slot is either a user translation or the invalid
  entry of its own slot and that no virtual page occurs twice, which is what the
  processor requires.
\<close>

section \<open>Event counters\<close>

record stats_st =
  vmstats :: "uint32 list"

abbreviation (input) VMSTAT_TLB_FAULT :: nat where "VMSTAT_TLB_FAULT \<equiv> 0"
abbreviation (input) VMSTAT_TLB_FAULT_FREE :: nat where "VMSTAT_TLB_FAULT_FREE \<equiv> 1"
abbreviation (input) VMSTAT_TLB_FAULT_REPLACE :: nat where "VMSTAT_TLB_FAULT_REPLACE \<equiv> 2"
abbreviation (input) VMSTAT_TLB_INVALIDATION :: nat where "VMSTAT_TLB_INVALIDATION \<equiv> 3"
abbreviation (input) VMSTAT_TLB_RELOAD :: nat where "VMSTAT_TLB_RELOAD \<equiv> 4"
abbreviation (input) VMSTAT_PAGE_FAULT_ZERO :: nat where "VMSTAT_PAGE_FAULT_ZERO \<equiv> 5"
abbreviation (input) VMSTAT_PAGE_FAULT_DISK :: nat where "VMSTAT_PAGE_FAULT_DISK \<equiv> 6"
abbreviation (input) VMSTAT_PAGE_FAULT_ELF :: nat where "VMSTAT_PAGE_FAULT_ELF \<equiv> 7"
abbreviation (input) VMSTAT_PAGE_FAULT_SWAP :: nat where "VMSTAT_PAGE_FAULT_SWAP \<equiv> 8"
abbreviation (input) VMSTAT_SWAP_WRITE :: nat where "VMSTAT_SWAP_WRITE \<equiv> 9"

definition vmstats_hit :: "nat \<Rightarrow> 'a stats_st_scheme \<Rightarrow> 'a stats_st_scheme option" where
  "vmstats_hit stat s = do {
     kassert (stat < 10);
     Some (s\<lparr>vmstats := (vmstats s)[stat := vmstats s ! stat + 1]\<rparr>)
   }"

section \<open>The TLB\<close>

record tlb_st = stats_st +
  tlb :: "(uint32 \<times> uint32) list"
  tlb_victim :: nat
  tlb_free :: bool

abbreviation (input) NUM_TLB :: nat where "NUM_TLB \<equiv> 64"
abbreviation (input) TLBLO_DIRTY :: uint32 where "TLBLO_DIRTY \<equiv> 0x400"
abbreviation (input) TLBLO_VALID :: uint32 where "TLBLO_VALID \<equiv> 0x200"

definition TLBHI_INVALID :: "nat \<Rightarrow> uint32" where
  "TLBHI_INVALID entryno = push_bit 12 (0x80000 + of_nat entryno)"

definition TLBLO_INVALID :: uint32 where
  "TLBLO_INVALID = 0"

text \<open>The machine operation: write one slot (\<^verbatim>\<open>tlbwi\<close>).\<close>

definition tlb_write :: "uint32 \<Rightarrow> uint32 \<Rightarrow> nat \<Rightarrow> 'a tlb_st_scheme \<Rightarrow> 'a tlb_st_scheme" where
  "tlb_write ehi elo i s = s\<lparr>tlb := (tlb s)[i := (ehi, elo)]\<rparr>"

definition tlb_invalidate :: "'a tlb_st_scheme \<Rightarrow> 'a tlb_st_scheme option" where
  "tlb_invalidate s =
     (let s1 = fold (\<lambda>i t. tlb_write (TLBHI_INVALID i) TLBLO_INVALID i t) [0..<NUM_TLB] s in
      vmstats_hit VMSTAT_TLB_INVALIDATION (s1\<lparr>tlb_victim := 0, tlb_free := True\<rparr>))"

definition tlb_insert :: "vaddr \<Rightarrow> paddr \<Rightarrow> bool \<Rightarrow> 'a tlb_st_scheme \<Rightarrow> 'a tlb_st_scheme option" where
  "tlb_insert va pa ro s = do {
     kassert (pa AND PAGE_FRAME = pa);
     let ehi = va;
     let elo = pa OR TLBLO_VALID;
     let elo = (if \<not> ro then elo OR TLBLO_DIRTY else elo);
     let s = tlb_write ehi elo (tlb_victim s) s;
     let s = s\<lparr>tlb_victim := (tlb_victim s + 1) mod NUM_TLB\<rparr>;
     s \<leftarrow> (if tlb_free s then vmstats_hit VMSTAT_TLB_FAULT_FREE s
          else vmstats_hit VMSTAT_TLB_FAULT_REPLACE s);
     Some (if tlb_victim s = 0 then s\<lparr>tlb_free := False\<rparr> else s)
   }"

function tlb_remove_loop :: "paddr \<Rightarrow> nat \<Rightarrow> 'a tlb_st_scheme \<Rightarrow> 'a tlb_st_scheme" where
  "tlb_remove_loop pa i s =
     (if i < NUM_TLB then
        let (ehi, elo) = tlb s ! i in
        if pa = elo AND PAGE_FRAME then tlb_write (TLBHI_INVALID i) TLBLO_INVALID i s
        else tlb_remove_loop pa (i + 1) s
      else s)"
  by pat_completeness auto
termination
  by (relation "measure (\<lambda>(pa, i, s). NUM_TLB - i)") auto

declare tlb_remove_loop.simps [simp del]

definition tlb_remove_by_paddr :: "paddr \<Rightarrow> 'a tlb_st_scheme \<Rightarrow> 'a tlb_st_scheme option" where
  "tlb_remove_by_paddr pa s = do {
     kassert (unat pa mod PAGE_SIZE = 0);
     Some (tlb_remove_loop pa 0 s)
   }"

section \<open>What the processor sees\<close>

text \<open>The low word of a translation to the frame at \<open>pa\<close>, writable or not.\<close>

definition tlb_lo :: "paddr \<Rightarrow> bool \<Rightarrow> uint32" where
  "tlb_lo pa w = (if w then pa OR TLBLO_VALID OR TLBLO_DIRTY else pa OR TLBLO_VALID)"

definition page_aligned :: "uint32 \<Rightarrow> bool" where
  "page_aligned a \<longleftrightarrow> a AND PAGE_FRAME = a"

text \<open>\<open>(va, pa, w)\<close>: user page \<open>va\<close> is mapped to the frame at \<open>pa\<close>, writable iff \<open>w\<close>.\<close>

definition tlb_maps :: "'a tlb_st_scheme \<Rightarrow> (vaddr \<times> paddr \<times> bool) set" where
  "tlb_maps s = {(va, pa, w). va < MIPS_KSEG0 \<and> page_aligned pa \<and> (va, tlb_lo pa w) \<in> set (tlb s)}"

definition tlb_slot_ok :: "nat \<Rightarrow> uint32 \<times> uint32 \<Rightarrow> bool" where
  "tlb_slot_ok i e \<longleftrightarrow> e = (TLBHI_INVALID i, TLBLO_INVALID) \<or>
     (fst e < MIPS_KSEG0 \<and> page_aligned (fst e) \<and> (\<exists>pa w. page_aligned pa \<and> snd e = tlb_lo pa w))"

definition tlb_ok :: "'a tlb_st_scheme \<Rightarrow> bool" where
  "tlb_ok s \<longleftrightarrow> length (tlb s) = NUM_TLB \<and> tlb_victim s < NUM_TLB \<and>
     length (vmstats s) = 10 \<and>
     (\<forall>i < NUM_TLB. tlb_slot_ok i (tlb s ! i)) \<and>
     distinct (map fst (tlb s))"

section \<open>Entry words\<close>

lemma page_aligned_iff: "page_aligned a \<longleftrightarrow> unat a mod PAGE_SIZE = 0"
proof
  assume "page_aligned a"
  then have "unat a = unat a div PAGE_SIZE * PAGE_SIZE"
    using unat_page_frame [of a] by (simp add: page_aligned_def)
  then show "unat a mod PAGE_SIZE = 0" by (metis mod_mult_self2_is_0)
next
  assume "unat a mod PAGE_SIZE = 0"
  then have "unat (a AND PAGE_FRAME) = unat a"
    using unat_page_frame [of a] by (simp add: mod_eq_0_iff_dvd)
  then show "page_aligned a" by (simp add: page_aligned_def word_unat_eq_iff)
qed

lemma page_aligned_frame [simp]: "page_aligned (a AND PAGE_FRAME)"
  by (simp add: page_aligned_def and.assoc)

lemma page_aligned_frame_addr: "f < 2 ^ 20 \<Longrightarrow> page_aligned (frame_addr f)"
  by (simp only: page_aligned_iff unat_frame_addr) simp

lemma bit_page_frame: "bit PAGE_FRAME j \<longleftrightarrow> 12 \<le> j \<and> j < 32"
  by (auto simp: page_frame_mask bit_simps)

lemma page_aligned_low_bits: "page_aligned a \<Longrightarrow> j < 12 \<Longrightarrow> \<not> bit a j"
  by (metis bit_and_iff bit_page_frame not_le page_aligned_def)

lemma bit_tlb_lo:
  "bit (tlb_lo pa w) j \<longleftrightarrow> bit pa j \<or> j = 9 \<or> (w \<and> j = 10)"
proof -
  have "bit (TLBLO_VALID :: uint32) j \<longleftrightarrow> j = 9"
    using bit_exp_iff [where 'a = uint32, of 9 j] by auto
  moreover have "bit (TLBLO_DIRTY :: uint32) j \<longleftrightarrow> j = 10"
    using bit_exp_iff [where 'a = uint32, of 10 j] by auto
  ultimately show ?thesis by (simp only: tlb_lo_def bit_or_iff split: if_split) blast
qed

lemma tlb_lo_frame [simp]:
  assumes "page_aligned pa"
  shows "tlb_lo pa w AND PAGE_FRAME = pa"
proof (rule bit_word_eqI)
  fix n :: nat
  assume "n < LENGTH(32)"
  then show "bit (tlb_lo pa w AND PAGE_FRAME) n \<longleftrightarrow> bit pa n"
    using page_aligned_low_bits [OF assms, of n]
    by (cases "12 \<le> n") (auto simp: bit_and_iff bit_tlb_lo bit_page_frame)
qed

lemma tlb_lo_inject:
  assumes "page_aligned pa" and "page_aligned pa'"
  shows "tlb_lo pa w = tlb_lo pa' w' \<longleftrightarrow> pa = pa' \<and> w = w'"
proof
  assume eq: "tlb_lo pa w = tlb_lo pa' w'"
  then have "pa = pa'" using tlb_lo_frame assms by metis
  moreover from eq have "bit (tlb_lo pa w) 10 \<longleftrightarrow> bit (tlb_lo pa' w') 10" by simp
  then have "w = w'"
    using page_aligned_low_bits [OF assms(1), of 10] page_aligned_low_bits [OF assms(2), of 10]
    by (simp add: bit_tlb_lo)
  ultimately show "pa = pa' \<and> w = w'" ..
qed simp

lemma tlb_lo_not_invalid: "tlb_lo pa w \<noteq> TLBLO_INVALID"
proof
  assume "tlb_lo pa w = TLBLO_INVALID"
  moreover have "bit (tlb_lo pa w) 9" by (simp add: bit_tlb_lo)
  ultimately show False by (simp add: TLBLO_INVALID_def)
qed

lemma unat_TLBHI_INVALID:
  assumes "i < NUM_TLB"
  shows "unat (TLBHI_INVALID i) = 0x80000000 + i * PAGE_SIZE"
proof -
  have "TLBHI_INVALID i = of_nat (0x80000000 + i * PAGE_SIZE)"
    by (simp add: TLBHI_INVALID_def push_bit_eq_mult algebra_simps)
  moreover have "0x80000000 + i * PAGE_SIZE < 2 ^ 32" using assms by simp
  ultimately show ?thesis by (simp only: unat_of_nat32)
qed

lemma TLBHI_INVALID_kernel: "i < NUM_TLB \<Longrightarrow> \<not> TLBHI_INVALID i < MIPS_KSEG0"
  by (simp add: word_less_nat_alt unat_TLBHI_INVALID)

lemma TLBHI_INVALID_inject:
  "i < NUM_TLB \<Longrightarrow> j < NUM_TLB \<Longrightarrow> TLBHI_INVALID i = TLBHI_INVALID j \<longleftrightarrow> i = j"
  using unat_TLBHI_INVALID by (metis add_left_cancel mult_right_cancel zero_neq_numeral)

section \<open>Operations on the slots\<close>

lemma tlb_write_fields [simp]:
  "tlb (tlb_write h l i s) = (tlb s)[i := (h, l)]"
  "tlb_victim (tlb_write h l i s) = tlb_victim s"
  "tlb_free (tlb_write h l i s) = tlb_free s"
  "vmstats (tlb_write h l i s) = vmstats s"
  by (simp_all add: tlb_write_def)

lemma vmstats_hit_eq:
  "k < 10 \<Longrightarrow> vmstats_hit k s = Some (s\<lparr>vmstats := (vmstats s)[k := vmstats s ! k + 1]\<rparr>)"
  by (simp add: vmstats_hit_def)

lemma tlb_invalidate_fold:
  "n \<le> length (tlb s) \<Longrightarrow>
   fold (\<lambda>i t. tlb_write (TLBHI_INVALID i) TLBLO_INVALID i t) [0..<n] s =
   s\<lparr>tlb := map (\<lambda>i. (TLBHI_INVALID i, TLBLO_INVALID)) [0..<n] @ drop n (tlb s)\<rparr>"
proof (induction n)
  case 0
  then show ?case by simp
next
  case (Suc n)
  then have "drop n (tlb s) = tlb s ! n # drop (Suc n) (tlb s)"
    by (simp add: Cons_nth_drop_Suc)
  with Suc show ?case
    by (simp add: tlb_write_def list_update_append)
qed

definition tlb_empty :: "(uint32 \<times> uint32) list" where
  "tlb_empty = map (\<lambda>i. (TLBHI_INVALID i, TLBLO_INVALID)) [0..<NUM_TLB]"

lemma tlb_invalidate_eq:
  assumes "length (tlb s) = NUM_TLB"
  shows "tlb_invalidate s = Some (s\<lparr>tlb := tlb_empty, tlb_victim := 0, tlb_free := True,
     vmstats := (vmstats s)[VMSTAT_TLB_INVALIDATION := vmstats s ! VMSTAT_TLB_INVALIDATION + 1]\<rparr>)"
  using tlb_invalidate_fold [of NUM_TLB s] assms
  by (simp add: tlb_invalidate_def vmstats_hit_eq tlb_empty_def Let_def del: upt_rec_numeral)

lemma tlb_insert_eq:
  assumes "page_aligned pa"
  shows "tlb_insert va pa ro s =
    Some (s\<lparr>tlb := (tlb s)[tlb_victim s := (va, tlb_lo pa (\<not> ro))],
            tlb_victim := (tlb_victim s + 1) mod NUM_TLB,
            tlb_free := (tlb_free s \<and> (tlb_victim s + 1) mod NUM_TLB \<noteq> 0),
            vmstats := (if tlb_free s
              then (vmstats s)[VMSTAT_TLB_FAULT_FREE := vmstats s ! VMSTAT_TLB_FAULT_FREE + 1]
              else (vmstats s)[VMSTAT_TLB_FAULT_REPLACE := vmstats s ! VMSTAT_TLB_FAULT_REPLACE + 1])\<rparr>)"
  using assms
  by (auto simp: tlb_insert_def page_aligned_def vmstats_hit_eq tlb_lo_def Let_def or.assoc tlb_write_def)

section \<open>Effect on the translations\<close>

lemma tlb_ok_distinct: "tlb_ok s \<Longrightarrow> distinct (tlb s)"
  by (simp add: tlb_ok_def distinct_map)

lemma tlb_maps_unique:
  assumes "tlb_ok s" and "(va, pa, w) \<in> tlb_maps s" and "(va, pa', w') \<in> tlb_maps s"
  shows "pa = pa' \<and> w = w'"
proof -
  have "tlb_lo pa w = tlb_lo pa' w'"
    using assms eq_key_imp_eq_value [of "tlb s"] by (auto simp: tlb_ok_def tlb_maps_def)
  with assms(2,3) show ?thesis using tlb_lo_inject by (auto simp: tlb_maps_def)
qed

lemma length_tlb_empty: "length tlb_empty = NUM_TLB"
  by (simp add: tlb_empty_def del: upt_rec_numeral)

lemma nth_tlb_empty: "i < NUM_TLB \<Longrightarrow> tlb_empty ! i = (TLBHI_INVALID i, TLBLO_INVALID)"
  by (simp add: tlb_empty_def del: upt_rec_numeral)

lemma distinct_tlb_empty: "distinct (map fst tlb_empty)"
  unfolding distinct_conv_nth length_map length_tlb_empty
  by (intro allI impI) (simp add: nth_tlb_empty length_tlb_empty TLBHI_INVALID_inject)

lemma tlb_empty_slots: "\<forall>i < NUM_TLB. tlb_slot_ok i (tlb_empty ! i)"
  by (auto simp: nth_tlb_empty tlb_slot_ok_def)

lemma tlb_empty_ok:
  assumes "length x = 10"
  shows "tlb_ok (s\<lparr>tlb := tlb_empty, tlb_victim := 0, tlb_free := b, vmstats := x\<rparr>)"
  unfolding tlb_ok_def
  using assms tlb_empty_slots length_tlb_empty distinct_tlb_empty by simp

lemma tlb_empty_maps:
  assumes "tlb s = tlb_empty"
  shows "tlb_maps s = {}"
proof -
  have "\<not> fst e < MIPS_KSEG0" if "e \<in> set tlb_empty" for e
    using that TLBHI_INVALID_kernel
    by (auto simp: in_set_conv_nth length_tlb_empty nth_tlb_empty)
  with assms show ?thesis by (auto simp: tlb_maps_def)
qed

lemma tlb_maps_update:
  assumes "tlb_ok s" and "i < NUM_TLB"
  shows "tlb_maps (s\<lparr>tlb := (tlb s)[i := e]\<rparr>) =
     {(va, pa, w). va < MIPS_KSEG0 \<and> page_aligned pa \<and> (va, tlb_lo pa w) = e} \<union>
     {m \<in> tlb_maps s. fst m \<noteq> fst (tlb s ! i)}"
proof -
  have len: "length (tlb s) = NUM_TLB" and d: "distinct (map fst (tlb s))"
    using assms(1) by (simp_all add: tlb_ok_def)
  have "set ((tlb s)[i := e]) = insert e (set (tlb s) - {tlb s ! i})"
    using assms len tlb_ok_distinct by (intro set_update_distinct) simp_all
  moreover have "fst x = fst (tlb s ! i) \<longleftrightarrow> x = tlb s ! i" if "x \<in> set (tlb s)" for x
  proof (rule inj_on_eq_iff)
    show "inj_on fst (set (tlb s))" using d by (simp add: distinct_map)
    show "tlb s ! i \<in> set (tlb s)" using assms(2) len by simp
  qed (rule that)
  ultimately show ?thesis unfolding tlb_maps_def by auto
qed

lemma tlb_ok_update:
  assumes "tlb_ok s" and "i < NUM_TLB" and "tlb_slot_ok i e"
    and "fst e \<notin> fst ` set (tlb s) \<or> fst e = fst (tlb s ! i)"
  shows "tlb_ok (s\<lparr>tlb := (tlb s)[i := e]\<rparr>)"
proof -
  have len: "length (tlb s) = NUM_TLB" and d: "distinct (map fst (tlb s))"
    using assms(1) by (simp_all add: tlb_ok_def)
  have "distinct ((map fst (tlb s))[i := fst e])"
  proof (cases "fst e = fst (tlb s ! i)")
    case True
    then have "(map fst (tlb s))[i := fst e] = map fst (tlb s)"
      using assms(2) len by (simp add: list_update_same_conv)
    with d show ?thesis by simp
  next
    case False
    with assms(4) d show ?thesis by (intro distinct_list_update) auto
  qed
  then show ?thesis
    using assms(1-3) len by (auto simp: tlb_ok_def map_update nth_list_update)
qed

lemma tlb_slot_maps:
  assumes "tlb_ok s" and "i < NUM_TLB" and "tlb s ! i \<noteq> (TLBHI_INVALID i, TLBLO_INVALID)"
  obtains pa w where "(fst (tlb s ! i), pa, w) \<in> tlb_maps s" and "snd (tlb s ! i) = tlb_lo pa w"
    and "page_aligned pa"
proof -
  have "tlb_slot_ok i (tlb s ! i)" and len: "length (tlb s) = NUM_TLB"
    using assms(1,2) by (simp_all add: tlb_ok_def)
  with assms(3) obtain pa w where e: "fst (tlb s ! i) < MIPS_KSEG0" "page_aligned pa"
    "snd (tlb s ! i) = tlb_lo pa w" by (auto simp: tlb_slot_ok_def)
  have "tlb s ! i \<in> set (tlb s)" using assms(2) len by simp
  then have "(fst (tlb s ! i), tlb_lo pa w) \<in> set (tlb s)" using e(3) by (metis prod.collapse)
  with e have "(fst (tlb s ! i), pa, w) \<in> tlb_maps s" by (simp add: tlb_maps_def)
  with e that show thesis by blast
qed

text \<open>A page with no user translation is in no slot at all.\<close>

lemma tlb_no_slot:
  assumes "tlb_ok s" and "va < MIPS_KSEG0" and "\<forall>pa w. (va, pa, w) \<notin> tlb_maps s"
  shows "va \<notin> fst ` set (tlb s)"
proof
  assume "va \<in> fst ` set (tlb s)"
  then obtain i where i: "i < NUM_TLB" "fst (tlb s ! i) = va"
    using assms(1) by (auto simp: in_set_conv_nth tlb_ok_def)
  then have "tlb s ! i \<noteq> (TLBHI_INVALID i, TLBLO_INVALID)"
    using assms(2) TLBHI_INVALID_kernel by auto
  with tlb_slot_maps [OF assms(1) i(1)] i(2) assms(3) show False by metis
qed

lemma tlb_insert_spec:
  fixes ro :: bool
  assumes ok: "tlb_ok s" and va: "va < MIPS_KSEG0" "page_aligned va" and pa: "page_aligned pa"
    and miss: "\<forall>pa w. (va, pa, w) \<notin> tlb_maps s"
  defines "s1 \<equiv> s\<lparr>tlb := (tlb s)[tlb_victim s := (va, tlb_lo pa (\<not> ro))]\<rparr>"
  shows "tlb_ok s1"
    and "tlb_maps s1 = insert (va, pa, \<not> ro) {m \<in> tlb_maps s. fst m \<noteq> fst (tlb s ! tlb_victim s)}"
proof -
  have v: "tlb_victim s < NUM_TLB" using ok by (simp add: tlb_ok_def)
  have "tlb_slot_ok (tlb_victim s) (va, tlb_lo pa (\<not> ro))"
    using va pa by (auto simp: tlb_slot_ok_def)
  then show "tlb_ok s1"
    unfolding s1_def using tlb_no_slot [OF ok va(1) miss] by (intro tlb_ok_update ok v) simp_all
  have "{(a, p, w). a < MIPS_KSEG0 \<and> page_aligned p \<and> (a, tlb_lo p w) = (va, tlb_lo pa (\<not> ro))} =
      {(va, pa, \<not> ro)}"
    using va pa tlb_lo_inject by auto
  then show "tlb_maps s1 = insert (va, pa, \<not> ro) {m \<in> tlb_maps s. fst m \<noteq> fst (tlb s ! tlb_victim s)}"
    unfolding s1_def by (simp only: tlb_maps_update [OF ok v]) simp
qed

lemma tlb_invalid_update:
  assumes "tlb_ok s" and "i < NUM_TLB"
  defines "s1 \<equiv> s\<lparr>tlb := (tlb s)[i := (TLBHI_INVALID i, TLBLO_INVALID)]\<rparr>"
  shows "tlb_ok s1" and "tlb_maps s1 = {m \<in> tlb_maps s. fst m \<noteq> fst (tlb s ! i)}"
proof -
  have other: "fst (tlb s ! j) \<noteq> TLBHI_INVALID i" if "j < NUM_TLB" "j \<noteq> i" for j
  proof
    assume eq: "fst (tlb s ! j) = TLBHI_INVALID i"
    have "tlb_slot_ok j (tlb s ! j)" using assms(1) that by (simp add: tlb_ok_def)
    with eq have "TLBHI_INVALID i = TLBHI_INVALID j \<or> TLBHI_INVALID i < MIPS_KSEG0"
      by (auto simp: tlb_slot_ok_def)
    with that assms(2) show False using TLBHI_INVALID_inject TLBHI_INVALID_kernel by auto
  qed
  have "TLBHI_INVALID i = fst (tlb s ! i)" if "TLBHI_INVALID i \<in> fst ` set (tlb s)"
  proof -
    from that obtain j where "j < length (tlb s)" "fst (tlb s ! j) = TLBHI_INVALID i"
      by (auto simp: in_set_conv_nth)
    with other [of j] assms(1) show ?thesis by (cases "j = i") (auto simp: tlb_ok_def)
  qed
  then have "TLBHI_INVALID i \<notin> fst ` set (tlb s) \<or> TLBHI_INVALID i = fst (tlb s ! i)" by blast
  then show "tlb_ok s1"
    unfolding s1_def using assms by (intro tlb_ok_update) (simp_all add: tlb_slot_ok_def)
  show "tlb_maps s1 = {m \<in> tlb_maps s. fst m \<noteq> fst (tlb s ! i)}"
    unfolding s1_def using tlb_lo_not_invalid
    by (auto simp: tlb_maps_update [OF assms(1,2)])
qed

lemma tlb_remove_loop_cases:
  "(tlb_remove_loop pa i s = s \<and> (\<forall>j. i \<le> j \<and> j < NUM_TLB \<longrightarrow> snd (tlb s ! j) AND PAGE_FRAME \<noteq> pa)) \<or>
   (\<exists>j. i \<le> j \<and> j < NUM_TLB \<and> snd (tlb s ! j) AND PAGE_FRAME = pa \<and>
        tlb_remove_loop pa i s = s\<lparr>tlb := (tlb s)[j := (TLBHI_INVALID j, TLBLO_INVALID)]\<rparr>)"
proof (induction pa i s rule: tlb_remove_loop.induct)
  case (1 pa i s)
  consider (stop) "NUM_TLB \<le> i" | (hit) "i < NUM_TLB" "snd (tlb s ! i) AND PAGE_FRAME = pa"
    | (go) "i < NUM_TLB" "snd (tlb s ! i) AND PAGE_FRAME \<noteq> pa" by linarith
  then show ?case
  proof cases
    case stop
    then show ?thesis by (intro disjI1) (auto simp: tlb_remove_loop.simps [of pa i s])
  next
    case hit
    then have "tlb_remove_loop pa i s = s\<lparr>tlb := (tlb s)[i := (TLBHI_INVALID i, TLBLO_INVALID)]\<rparr>"
      by (subst tlb_remove_loop.simps) (auto simp: tlb_write_def split: prod.split)
    with hit show ?thesis by blast
  next
    case go
    then have "tlb_remove_loop pa i s = tlb_remove_loop pa (i + 1) s"
      by (subst tlb_remove_loop.simps) (auto split: prod.split)
    moreover have "j = i \<or> i + 1 \<le> j" if "i \<le> j" for j using that by linarith
    ultimately show ?thesis
      using "1.IH" [OF go(1) refl, of "fst (tlb s ! i)" "snd (tlb s ! i)"] go
      by (metis add_leD1 prod.collapse)
  qed
qed

lemma tlb_remove_spec:
  assumes ok: "tlb_ok s" and pa: "page_aligned pa" "pa \<noteq> 0"
    and single: "\<And>va w va' w'. (va, pa, w) \<in> tlb_maps s \<Longrightarrow> (va', pa, w') \<in> tlb_maps s \<Longrightarrow> va = va'"
  shows "\<exists>xs. tlb_remove_by_paddr pa s = Some (s\<lparr>tlb := xs\<rparr>) \<and> tlb_ok (s\<lparr>tlb := xs\<rparr>) \<and>
           tlb_maps (s\<lparr>tlb := xs\<rparr>) = {m \<in> tlb_maps s. fst (snd m) \<noteq> pa}"
proof -
  have run: "tlb_remove_by_paddr pa s = Some (tlb_remove_loop pa 0 s)"
    using pa by (simp add: tlb_remove_by_paddr_def page_aligned_iff)
  have len: "length (tlb s) = NUM_TLB" using ok by (simp add: tlb_ok_def)
  have frame: "\<exists>j < NUM_TLB. fst (tlb s ! j) = va \<and> snd (tlb s ! j) AND PAGE_FRAME = p"
    if "(va, p, w) \<in> tlb_maps s" for va p w
    using that len by (auto simp: tlb_maps_def in_set_conv_nth)
  from tlb_remove_loop_cases [of pa 0 s] show ?thesis
  proof
    assume none: "tlb_remove_loop pa 0 s = s \<and>
      (\<forall>j. 0 \<le> j \<and> j < NUM_TLB \<longrightarrow> snd (tlb s ! j) AND PAGE_FRAME \<noteq> pa)"
    then have "{m \<in> tlb_maps s. fst (snd m) \<noteq> pa} = tlb_maps s" using frame by fastforce
    with none run ok show ?thesis by (intro exI [of _ "tlb s"]) simp
  next
    assume "\<exists>j. 0 \<le> j \<and> j < NUM_TLB \<and> snd (tlb s ! j) AND PAGE_FRAME = pa \<and>
        tlb_remove_loop pa 0 s = s\<lparr>tlb := (tlb s)[j := (TLBHI_INVALID j, TLBLO_INVALID)]\<rparr>"
    then obtain j where j: "j < NUM_TLB" "snd (tlb s ! j) AND PAGE_FRAME = pa"
      and run': "tlb_remove_loop pa 0 s = s\<lparr>tlb := (tlb s)[j := (TLBHI_INVALID j, TLBLO_INVALID)]\<rparr>"
      by blast
    have "tlb s ! j \<noteq> (TLBHI_INVALID j, TLBLO_INVALID)" using j pa by (auto simp: TLBLO_INVALID_def)
    then obtain q w where q: "(fst (tlb s ! j), q, w) \<in> tlb_maps s" "snd (tlb s ! j) = tlb_lo q w"
      "page_aligned q" by (rule tlb_slot_maps [OF ok j(1)])
    with j(2) have m: "(fst (tlb s ! j), pa, w) \<in> tlb_maps s" by simp
    have "fst x = fst (tlb s ! j) \<longleftrightarrow> fst (snd x) = pa" if "x \<in> tlb_maps s" for x
    proof (cases x)
      case (fields va p u)
      with that single [of va u "fst (tlb s ! j)" w] m show ?thesis
        using tlb_maps_unique [OF ok m, of p u] by auto
    qed
    then have "{m \<in> tlb_maps s. fst m \<noteq> fst (tlb s ! j)} = {m \<in> tlb_maps s. fst (snd m) \<noteq> pa}" by auto
    with tlb_invalid_update [OF ok j(1)] run run' show ?thesis
      by (intro exI [of _ "(tlb s)[j := (TLBHI_INVALID j, TLBLO_INVALID)]"]) simp
  qed
qed

section \<open>The contract of the translation cache\<close>

text \<open>
  The fault handler and the page replacement code see the TLB as a set of
  translations with three operations. Each of them leaves the rest of the kernel
  state alone: \<open>same\<close> allows for counters, \<open>only\<close> does not. The client's question is coherence: do all translations
  stay inside a relation \<open>R\<close> of correct ones?
\<close>

locale translation_cache =
  fixes ok :: "'s \<Rightarrow> bool"
    and maps :: "'s \<Rightarrow> (vaddr \<times> paddr \<times> bool) set"
    and same :: "'s \<Rightarrow> 's \<Rightarrow> bool"
    and only :: "'s \<Rightarrow> 's \<Rightarrow> bool"
    and insert_tr :: "vaddr \<Rightarrow> paddr \<Rightarrow> bool \<Rightarrow> 's \<Rightarrow> 's option"
    and remove_tr :: "paddr \<Rightarrow> 's \<Rightarrow> 's option"
    and flush :: "'s \<Rightarrow> 's option"
  assumes insert_law: "ok s \<Longrightarrow> va < MIPS_KSEG0 \<Longrightarrow> page_aligned va \<Longrightarrow> page_aligned pa \<Longrightarrow>
      \<forall>p w. (va, p, w) \<notin> maps s \<Longrightarrow>
      \<exists>s' kept. insert_tr va pa ro s = Some s' \<and> ok s' \<and> same s s' \<and> kept \<subseteq> maps s \<and>
        maps s' = insert (va, pa, \<not> ro) kept"
    and remove_law: "ok s \<Longrightarrow> page_aligned pa \<Longrightarrow> pa \<noteq> 0 \<Longrightarrow>
      \<forall>va w va' w'. (va, pa, w) \<in> maps s \<longrightarrow> (va', pa, w') \<in> maps s \<longrightarrow> va = va' \<Longrightarrow>
      \<exists>s'. remove_tr pa s = Some s' \<and> ok s' \<and> only s s' \<and>
        maps s' = {m \<in> maps s. fst (snd m) \<noteq> pa}"
    and remove_stale: "ok s \<Longrightarrow> page_aligned pa \<Longrightarrow> pa \<noteq> 0 \<Longrightarrow>
      \<exists>s'. remove_tr pa s = Some s' \<and> ok s' \<and> only s s' \<and> maps s' \<subseteq> maps s"
    and flush_law: "ok s \<Longrightarrow> \<exists>s'. flush s = Some s' \<and> ok s' \<and> same s s' \<and> maps s' = {}"
begin

lemma insert_coherent:
  assumes "ok s" and "va < MIPS_KSEG0" and "page_aligned va" and "page_aligned pa"
    and "\<forall>p w. (va, p, w) \<notin> maps s" and "maps s \<subseteq> R" and "(va, pa, \<not> ro) \<in> R"
  obtains s' where "insert_tr va pa ro s = Some s'" and "ok s'" and "same s s'"
    and "maps s' \<subseteq> R" and "(va, pa, \<not> ro) \<in> maps s'"
proof -
  obtain s' kept where *: "insert_tr va pa ro s = Some s'" "ok s'" "same s s'" "kept \<subseteq> maps s"
    "maps s' = insert (va, pa, \<not> ro) kept"
    using insert_law [OF assms(1-5), of ro] by (elim exE conjE) (rule that)
  have R: "maps s' \<subseteq> R" unfolding *(5) using *(4) assms(6,7) by blast
  have new: "(va, pa, \<not> ro) \<in> maps s'" unfolding *(5) by (rule insertI1)
  show thesis by (rule that [OF *(1-3) R new])
qed

text \<open>
  Evicting the frame at \<open>pa\<close> from a coherent cache leaves it coherent with the
  translations that do not use that frame.
\<close>

lemma remove_coherent:
  assumes "ok s" and "page_aligned pa" and "pa \<noteq> 0" and "maps s \<subseteq> R"
    and "\<And>va w va' w'. (va, pa, w) \<in> R \<Longrightarrow> (va', pa, w') \<in> R \<Longrightarrow> va = va'"
  obtains s' where "remove_tr pa s = Some s'" and "ok s'" and "only s s'"
    and "maps s' \<subseteq> {m \<in> R. fst (snd m) \<noteq> pa}"
proof -
  have "\<forall>va w va' w'. (va, pa, w) \<in> maps s \<longrightarrow> (va', pa, w') \<in> maps s \<longrightarrow> va = va'"
    using assms(4,5) by blast
  from remove_law [OF assms(1-3) this] obtain s' where *: "remove_tr pa s = Some s'" "ok s'"
    "only s s'" "maps s' = {m \<in> maps s. fst (snd m) \<noteq> pa}"
    by (elim exE conjE) (rule that)
  have R: "maps s' \<subseteq> {m \<in> R. fst (snd m) \<noteq> pa}" unfolding *(4) using assms(4) by blast
  show thesis by (rule that [OF *(1-3) R])
qed

text \<open>When nothing is known about the translations, evicting a frame still adds none.\<close>

lemma remove_any:
  assumes "ok s" and "page_aligned pa" and "pa \<noteq> 0"
  obtains s' where "remove_tr pa s = Some s'" and "ok s'" and "only s s'" and "maps s' \<subseteq> maps s"
  using remove_stale [OF assms] by (elim exE conjE) (rule that)

lemma flush_coherent:
  assumes "ok s"
  obtains s' where "flush s = Some s'" and "ok s'" and "same s s'" and "maps s' \<subseteq> R"
  using flush_law [OF assms] that by blast

end

text \<open>
  The rest of the state is everything but the TLB itself and the three counters its
  operations hit.
\<close>

definition tlb_same :: "'a tlb_st_scheme \<Rightarrow> 'a tlb_st_scheme \<Rightarrow> bool" where
  "tlb_same s s' \<longleftrightarrow> tlb_st.more s' = tlb_st.more s \<and> length (vmstats s') = length (vmstats s) \<and>
     (\<forall>k. k \<noteq> VMSTAT_TLB_FAULT_FREE \<longrightarrow> k \<noteq> VMSTAT_TLB_FAULT_REPLACE \<longrightarrow>
        k \<noteq> VMSTAT_TLB_INVALIDATION \<longrightarrow> vmstats s' ! k = vmstats s ! k)"

text \<open>Removing a translation changes nothing but the slots.\<close>

definition tlb_only :: "'a tlb_st_scheme \<Rightarrow> 'a tlb_st_scheme \<Rightarrow> bool" where
  "tlb_only s s' \<longleftrightarrow> s' = s\<lparr>tlb := tlb s'\<rparr>"

lemma tlb_ok_fields:
  "tlb_ok s \<Longrightarrow> v < NUM_TLB \<Longrightarrow> length x = 10 \<Longrightarrow>
     tlb_ok (s\<lparr>tlb_victim := v, tlb_free := b, vmstats := x\<rparr>)"
  by (simp add: tlb_ok_def)

lemma tlb_maps_fields [simp]:
  "tlb_maps (s\<lparr>tlb_victim := v\<rparr>) = tlb_maps s"
  "tlb_maps (s\<lparr>tlb_free := b\<rparr>) = tlb_maps s"
  "tlb_maps (s\<lparr>vmstats := x\<rparr>) = tlb_maps s"
  by (simp_all add: tlb_maps_def)

lemma tlb_insert_law:
  assumes ok: "tlb_ok s" and va: "va < MIPS_KSEG0" "page_aligned va" and pa: "page_aligned pa"
    and miss: "\<forall>p w. (va, p, w) \<notin> tlb_maps s"
  shows "\<exists>s' kept. tlb_insert va pa ro s = Some s' \<and> tlb_ok s' \<and> tlb_same s s' \<and>
           kept \<subseteq> tlb_maps s \<and> tlb_maps s' = insert (va, pa, \<not> ro) kept"
proof -
  let ?s1 = "s\<lparr>tlb := (tlb s)[tlb_victim s := (va, tlb_lo pa (\<not> ro))]\<rparr>"
  obtain s' v b x where s': "tlb_insert va pa ro s = Some s'" "v < NUM_TLB" "length x = 10"
    "s' = ?s1\<lparr>tlb_victim := v, tlb_free := b, vmstats := x\<rparr>"
    "\<forall>k. k \<noteq> VMSTAT_TLB_FAULT_FREE \<longrightarrow> k \<noteq> VMSTAT_TLB_FAULT_REPLACE \<longrightarrow> x ! k = vmstats s ! k"
    using ok tlb_insert_eq [OF pa, of va ro s] by (auto simp: tlb_ok_def)
  have len: "length (vmstats s) = 10" using ok by (simp add: tlb_ok_def)
  note spec = tlb_insert_spec [OF ok va pa miss, of ro]
  have "tlb_ok s'" unfolding s'(4) by (intro tlb_ok_fields spec(1) s')
  moreover have "tlb_maps s' = insert (va, pa, \<not> ro) {m \<in> tlb_maps s. fst m \<noteq> fst (tlb s ! tlb_victim s)}"
    unfolding s'(4) using spec(2) by simp
  moreover have "tlb_same s s'" unfolding s'(4) using s'(3,5) len by (simp add: tlb_same_def)
  ultimately show ?thesis using s'(1) by blast
qed

lemma tlb_flush_law:
  assumes "tlb_ok s"
  shows "\<exists>s'. tlb_invalidate s = Some s' \<and> tlb_ok s' \<and> tlb_same s s' \<and> tlb_maps s' = {}"
proof -
  have len: "length (tlb s) = NUM_TLB" and x: "length (vmstats s) = 10"
    using assms by (simp_all add: tlb_ok_def)
  show ?thesis
    unfolding tlb_invalidate_eq [OF len]
    by (intro exI conjI, rule refl) (simp_all add: tlb_empty_ok x tlb_same_def tlb_empty_maps)
qed

lemma tlb_remove_stale:
  assumes ok: "tlb_ok s" and pa: "page_aligned pa" "pa \<noteq> 0"
  shows "\<exists>s'. tlb_remove_by_paddr pa s = Some s' \<and> tlb_ok s' \<and> tlb_only s s' \<and> tlb_maps s' \<subseteq> tlb_maps s"
proof -
  have run: "tlb_remove_by_paddr pa s = Some (tlb_remove_loop pa 0 s)"
    using pa by (simp add: tlb_remove_by_paddr_def page_aligned_iff)
  from tlb_remove_loop_cases [of pa 0 s] show ?thesis
  proof (elim disjE conjE exE)
    assume "tlb_remove_loop pa 0 s = s"
    with run ok show ?thesis by (simp add: tlb_only_def)
  next
    fix j
    assume j: "j < NUM_TLB"
      and run': "tlb_remove_loop pa 0 s = s\<lparr>tlb := (tlb s)[j := (TLBHI_INVALID j, TLBLO_INVALID)]\<rparr>"
    from tlb_invalid_update [OF ok j] run run' show ?thesis by (simp add: tlb_only_def)
  qed
qed

interpretation tc: translation_cache tlb_ok tlb_maps tlb_same tlb_only tlb_insert tlb_remove_by_paddr tlb_invalidate
proof (unfold_locales, goal_cases)
  case (1 s va pa ro)
  then show ?case by (rule tlb_insert_law)
next
  case (2 s pa)
  then obtain xs where "tlb_remove_by_paddr pa s = Some (s\<lparr>tlb := xs\<rparr>)"
    "tlb_ok (s\<lparr>tlb := xs\<rparr>)"
    "tlb_maps (s\<lparr>tlb := xs\<rparr>) = {m \<in> tlb_maps s. fst (snd m) \<noteq> pa}"
    using tlb_remove_spec [OF 2(1-3)] by blast
  then show ?case by (intro exI [of _ "s\<lparr>tlb := xs\<rparr>"]) (simp add: tlb_only_def)
next
  case (3 s pa)
  then show ?case by (rule tlb_remove_stale)
next
  case (4 s)
  then show ?case by (rule tlb_flush_law)
qed

end
