(* ===== verification/Addrspace.thy ===== *)
theory Addrspace
  imports Tlb
begin

unbundle bit_operations_syntax

text \<open>
  The layout of a user address space: the segments of \<^verbatim>\<open>kern/vm/segment.c\<close>, the
  set-up and lookup functions of \<^verbatim>\<open>kern/vm/addrspace.c\<close> and the page table index
  of \<^verbatim>\<open>kern/vm/pt.c\<close>. An address space has a text, a data and a stack segment;
  the page table has one entry for each page of a segment, the three segments
  one after the other. \<open>as_wf\<close> is the invariant the set-up establishes, and
  \<open>page_no\<close> the page a table index stands for.
\<close>

section \<open>Segments\<close>

record segment =
  seg_first_vaddr :: vaddr
  seg_last_vaddr :: vaddr
  seg_elf_size :: uint32
  seg_elf_offset :: int
  seg_npages :: uint32

text \<open>The argument is the outcome of \<^verbatim>\<open>kmalloc\<close>.\<close>

definition segment_create :: "bool \<Rightarrow> segment option" where
  "segment_create kmalloc_ok = do {
     kassert kmalloc_ok;
     Some \<lparr>seg_first_vaddr = 0, seg_last_vaddr = 0, seg_elf_size = 0, seg_elf_offset = 0, seg_npages = 0\<rparr>
   }"

definition segment_define ::
  "segment \<Rightarrow> int \<Rightarrow> vaddr \<Rightarrow> vaddr \<Rightarrow> vaddr \<Rightarrow> uint32 \<Rightarrow> uint32 \<Rightarrow> segment option" where
  "segment_define seg elf_offset base_vaddr first_vaddr last_vaddr npages elfsize = do {
     kassert (seg_elf_offset seg = 0);
     kassert (seg_first_vaddr seg = 0);
     kassert (seg_last_vaddr seg = 0);
     kassert (seg_npages seg = 0);
     kassert (seg_elf_size seg = 0);
     kassert (base_vaddr < USERSPACETOP);
     kassert (first_vaddr < USERSPACETOP);
     kassert (last_vaddr \<le> USERSPACETOP);
     let elfsize = (if elfsize > last_vaddr - first_vaddr then last_vaddr - first_vaddr else elfsize);
     Some (seg\<lparr>seg_elf_offset := elf_offset, seg_first_vaddr := first_vaddr,
               seg_last_vaddr := last_vaddr, seg_npages := npages, seg_elf_size := elfsize\<rparr>)
   }"

section \<open>Address spaces\<close>

text \<open>The page table is known by its number in the kernel heap, see the theory of the core map.\<close>

record addrspace =
  as_text :: "segment option"
  as_data :: "segment option"
  as_stack :: "segment option"
  as_ptable :: "nat option"

datatype segment_type = SEGMENT_NONE | SEGMENT_TEXT | SEGMENT_DATA | SEGMENT_STACK

abbreviation (input) VM_STACKPAGES :: uint32 where "VM_STACKPAGES \<equiv> 18"

definition as_create :: "bool \<Rightarrow> addrspace option" where
  "as_create kmalloc_ok =
     (if kmalloc_ok
      then Some \<lparr>as_text = None, as_data = None, as_stack = None, as_ptable = None\<rparr>
      else None)"

text \<open>
  \<^verbatim>\<open>as_define_region\<close>: all sums are taken modulo \<open>2 ^ 32\<close>, as \<^verbatim>\<open>size_t\<close> and
  \<^verbatim>\<open>vaddr_t\<close> are. A third region stops the machine.
\<close>

definition as_define_region ::
  "bool \<Rightarrow> addrspace \<Rightarrow> vaddr \<Rightarrow> uint32 \<Rightarrow> int \<Rightarrow> uint32 \<Rightarrow> addrspace option" where
  "as_define_region kmalloc_ok as first_vaddr memsize elf_offset elfsize = do {
     let last_vaddr = first_vaddr + memsize;
     kassert (memsize \<noteq> 0);
     let memsize = memsize + (first_vaddr AND NOT PAGE_FRAME);
     let npages = DIVROUNDUP memsize 4096;
     let base_vaddr = first_vaddr AND PAGE_FRAME;
     (if as_text as = None then do {
        seg \<leftarrow> segment_create kmalloc_ok;
        seg \<leftarrow> segment_define seg elf_offset base_vaddr first_vaddr last_vaddr npages elfsize;
        Some (as\<lparr>as_text := Some seg\<rparr>)
      }
      else if as_data as = None then do {
        seg \<leftarrow> segment_create kmalloc_ok;
        seg \<leftarrow> segment_define seg elf_offset base_vaddr first_vaddr last_vaddr npages elfsize;
        Some (as\<lparr>as_data := Some seg\<rparr>)
      }
      else None)
   }"

definition as_define_stack :: "bool \<Rightarrow> addrspace \<Rightarrow> (vaddr \<times> addrspace) option" where
  "as_define_stack kmalloc_ok as = do {
     seg \<leftarrow> segment_create kmalloc_ok;
     seg \<leftarrow> segment_define seg 0 (USERSTACK - VM_STACKPAGES * 4096)
              (USERSTACK - VM_STACKPAGES * 4096) USERSTACK VM_STACKPAGES 0;
     Some (USERSTACK, as\<lparr>as_stack := Some seg\<rparr>)
   }"

definition in_segment :: "segment \<Rightarrow> vaddr \<Rightarrow> bool" where
  "in_segment seg vaddr \<longleftrightarrow> vaddr \<ge> seg_first_vaddr seg \<and> vaddr < seg_last_vaddr seg"

definition as_get_segment_type :: "addrspace \<Rightarrow> vaddr \<Rightarrow> segment_type option" where
  "as_get_segment_type as vaddr = do {
     text \<leftarrow> as_text as;
     if in_segment text vaddr then Some SEGMENT_TEXT
     else do {
       data \<leftarrow> as_data as;
       if in_segment data vaddr then Some SEGMENT_DATA
       else do {
         stack \<leftarrow> as_stack as;
         if in_segment stack vaddr then Some SEGMENT_STACK
         else Some SEGMENT_NONE
       }
     }
   }"

definition as_get_segment :: "addrspace \<Rightarrow> vaddr \<Rightarrow> segment option" where
  "as_get_segment as vaddr = do {
     ty \<leftarrow> as_get_segment_type as vaddr;
     (case ty of
        SEGMENT_TEXT \<Rightarrow> as_text as
      | SEGMENT_DATA \<Rightarrow> as_data as
      | SEGMENT_STACK \<Rightarrow> as_stack as
      | SEGMENT_NONE \<Rightarrow> None)
   }"

definition as_check_in_elf :: "addrspace \<Rightarrow> vaddr \<Rightarrow> bool option" where
  "as_check_in_elf as vaddr = do {
     seg \<leftarrow> as_get_segment as vaddr;
     kassert (vaddr \<ge> seg_first_vaddr seg);
     kassert (vaddr < seg_last_vaddr seg);
     Some (vaddr < ROUNDUP (seg_first_vaddr seg + seg_elf_size seg) 4096)
   }"

definition pt_get_index :: "addrspace \<Rightarrow> vaddr \<Rightarrow> nat option" where
  "pt_get_index as vaddr = do {
     ty \<leftarrow> as_get_segment_type as vaddr;
     (case ty of
        SEGMENT_TEXT \<Rightarrow> do {
          text \<leftarrow> as_text as;
          let pt_index = (vaddr - (seg_first_vaddr text AND PAGE_FRAME)) div 4096;
          kassert (pt_index < seg_npages text);
          Some (unat pt_index)
        }
      | SEGMENT_DATA \<Rightarrow> do {
          text \<leftarrow> as_text as;
          data \<leftarrow> as_data as;
          let pt_index = seg_npages text + (vaddr - (seg_first_vaddr data AND PAGE_FRAME)) div 4096;
          kassert (pt_index < seg_npages text + seg_npages data);
          Some (unat pt_index)
        }
      | SEGMENT_STACK \<Rightarrow> do {
          text \<leftarrow> as_text as;
          data \<leftarrow> as_data as;
          stack \<leftarrow> as_stack as;
          let pt_index = seg_npages data + seg_npages text
                + (vaddr - (seg_first_vaddr stack AND PAGE_FRAME)) div 4096;
          kassert (pt_index < seg_npages data + seg_npages text + seg_npages stack);
          Some (unat pt_index)
        }
      | SEGMENT_NONE \<Rightarrow> None)
   }"

section \<open>Well-formed address spaces\<close>

definition vpn :: "vaddr \<Rightarrow> nat" where
  "vpn va = unat va div PAGE_SIZE"

definition seg_wf :: "segment \<Rightarrow> bool" where
  "seg_wf seg \<longleftrightarrow> seg_first_vaddr seg < seg_last_vaddr seg \<and> seg_last_vaddr seg \<le> USERSPACETOP \<and>
     seg_elf_size seg \<le> seg_last_vaddr seg - seg_first_vaddr seg \<and>
     unat (seg_npages seg) = (unat (seg_last_vaddr seg) - 1) div PAGE_SIZE - vpn (seg_first_vaddr seg) + 1"

definition seg_pages :: "segment \<Rightarrow> nat set" where
  "seg_pages seg = {vpn (seg_first_vaddr seg) ..< vpn (seg_first_vaddr seg) + unat (seg_npages seg)}"

text \<open>
  The three segments are there, well formed, no two of them share a page, and the
  stack has nothing in the executable.
\<close>

definition as_wf :: "addrspace \<Rightarrow> bool" where
  "as_wf as \<longleftrightarrow> (case (as_text as, as_data as, as_stack as) of
     (Some t, Some d, Some k) \<Rightarrow>
        seg_wf t \<and> seg_wf d \<and> seg_wf k \<and> seg_elf_size k = 0 \<and>
        seg_pages t \<inter> seg_pages d = {} \<and> seg_pages t \<inter> seg_pages k = {} \<and> seg_pages d \<inter> seg_pages k = {}
   | _ \<Rightarrow> False)"

definition as_npages :: "addrspace \<Rightarrow> nat" where
  "as_npages as = (case (as_text as, as_data as, as_stack as) of
     (Some t, Some d, Some k) \<Rightarrow> unat (seg_npages t) + unat (seg_npages d) + unat (seg_npages k)
   | _ \<Rightarrow> 0)"

text \<open>The virtual page number the entry with index \<open>k\<close> of the page table is for.\<close>

definition page_no :: "addrspace \<Rightarrow> nat \<Rightarrow> nat" where
  "page_no as k = (case (as_text as, as_data as, as_stack as) of
     (Some t, Some d, Some sk) \<Rightarrow>
        let nt = unat (seg_npages t); nd = unat (seg_npages d) in
        if k < nt then vpn (seg_first_vaddr t) + k
        else if k < nt + nd then vpn (seg_first_vaddr d) + (k - nt)
        else vpn (seg_first_vaddr sk) + (k - nt - nd)
   | _ \<Rightarrow> 0)"

definition text_index :: "addrspace \<Rightarrow> nat \<Rightarrow> bool" where
  "text_index as k = (case as_text as of Some t \<Rightarrow> k < unat (seg_npages t) | None \<Rightarrow> False)"

lemma as_wfE:
  assumes "as_wf as"
  obtains t d k where "as_text as = Some t" "as_data as = Some d" "as_stack as = Some k"
    "seg_wf t" "seg_wf d" "seg_wf k" "seg_elf_size k = 0"
    "seg_pages t \<inter> seg_pages d = {}" "seg_pages t \<inter> seg_pages k = {}" "seg_pages d \<inter> seg_pages k = {}"
  using assms by (auto simp: as_wf_def split: option.splits prod.splits)

lemma seg_wf_bounds:
  assumes "seg_wf seg"
  shows "unat (seg_first_vaddr seg) < unat (seg_last_vaddr seg)"
    and "unat (seg_last_vaddr seg) \<le> 2 ^ 31" and "unat (seg_npages seg) \<le> 2 ^ 19"
    and "unat (seg_first_vaddr seg) + unat (seg_elf_size seg) \<le> unat (seg_last_vaddr seg)"
    and "0 < unat (seg_npages seg)"
proof -
  show f: "unat (seg_first_vaddr seg) < unat (seg_last_vaddr seg)"
    and l: "unat (seg_last_vaddr seg) \<le> 2 ^ 31"
    using assms by (simp_all add: seg_wf_def word_less_nat_alt word_le_nat_alt)
  from l have "(unat (seg_last_vaddr seg) - 1) div PAGE_SIZE < 2 ^ 19" using f by simp
  moreover have n: "unat (seg_npages seg) = (unat (seg_last_vaddr seg) - 1) div PAGE_SIZE
      - vpn (seg_first_vaddr seg) + 1" using assms by (simp add: seg_wf_def)
  ultimately show "unat (seg_npages seg) \<le> 2 ^ 19" by simp
  show "0 < unat (seg_npages seg)" using n by simp
  have "seg_elf_size seg \<le> seg_last_vaddr seg - seg_first_vaddr seg" using assms by (simp add: seg_wf_def)
  moreover have "unat (seg_last_vaddr seg - seg_first_vaddr seg) =
      unat (seg_last_vaddr seg) - unat (seg_first_vaddr seg)"
    using f by (intro unat_sub) (simp add: word_le_nat_alt)
  ultimately show "unat (seg_first_vaddr seg) + unat (seg_elf_size seg) \<le> unat (seg_last_vaddr seg)"
    using f by (simp add: word_le_nat_alt)
qed

lemma in_segment_page:
  assumes "seg_wf seg" and "in_segment seg va"
  shows "vpn (seg_first_vaddr seg) \<le> vpn va"
    and "vpn va < vpn (seg_first_vaddr seg) + unat (seg_npages seg)"
    and "unat ((va - (seg_first_vaddr seg AND PAGE_FRAME)) div 4096) = vpn va - vpn (seg_first_vaddr seg)"
proof -
  let ?f = "unat (seg_first_vaddr seg)"
  have le: "?f \<le> unat va" and lt: "unat va < unat (seg_last_vaddr seg)"
    using assms(2) by (simp_all add: in_segment_def word_le_nat_alt word_less_nat_alt)
  show v: "vpn (seg_first_vaddr seg) \<le> vpn va" using le by (simp add: vpn_def div_le_mono)
  have "vpn va \<le> (unat (seg_last_vaddr seg) - 1) div PAGE_SIZE"
    unfolding vpn_def using lt by (intro div_le_mono) simp
  with assms(1) v show "vpn va < vpn (seg_first_vaddr seg) + unat (seg_npages seg)"
    by (simp add: seg_wf_def)
  have "unat (seg_first_vaddr seg AND PAGE_FRAME) \<le> unat va"
    using le unat_page_frame [of "seg_first_vaddr seg"]
    by (metis le_trans times_div_less_eq_dividend mult.commute)
  then have "unat (va - (seg_first_vaddr seg AND PAGE_FRAME)) = unat va - vpn (seg_first_vaddr seg) * PAGE_SIZE"
    by (simp add: unat_sub word_le_nat_alt unat_page_frame vpn_def)
  then have "unat ((va - (seg_first_vaddr seg AND PAGE_FRAME)) div 4096)
      = (unat va - vpn (seg_first_vaddr seg) * PAGE_SIZE) div PAGE_SIZE"
    by (simp add: unat_div_distrib)
  also have "\<dots> = vpn va - vpn (seg_first_vaddr seg)"
    unfolding vpn_def by linarith
  finally show "unat ((va - (seg_first_vaddr seg AND PAGE_FRAME)) div 4096) = vpn va - vpn (seg_first_vaddr seg)" .
qed

section \<open>The page table index\<close>

definition in_as :: "addrspace \<Rightarrow> vaddr \<Rightarrow> bool" where
  "in_as as va \<longleftrightarrow> (\<exists>seg. (as_text as = Some seg \<or> as_data as = Some seg \<or> as_stack as = Some seg) \<and>
     in_segment seg va)"

lemma in_segment_seg_pages: "seg_wf seg \<Longrightarrow> in_segment seg va \<Longrightarrow> vpn va \<in> seg_pages seg"
  using in_segment_page [of seg va] by (simp add: seg_pages_def)

lemma as_get_segment_type_total:
  assumes "as_wf as"
  shows "as_get_segment_type as va = Some SEGMENT_NONE \<longleftrightarrow> \<not> in_as as va"
    and "\<exists>ty. as_get_segment_type as va = Some ty"
  by (rule as_wfE [OF assms], auto simp: as_get_segment_type_def in_as_def)+

text \<open>
  The lookup of an address of a well-formed address space: the index is in range
  and stands for the page of the address; it is one of the text segment exactly
  when the address is.
\<close>

lemma pt_get_index_spec:
  assumes wf: "as_wf as" and va: "in_as as va"
  obtains k ty where "pt_get_index as va = Some k" and "k < as_npages as" and "page_no as k = vpn va"
    and "as_get_segment_type as va = Some ty" and "ty \<noteq> SEGMENT_NONE"
    and "ty = SEGMENT_TEXT \<longleftrightarrow> text_index as k"
proof -
  obtain t d k where as: "as_text as = Some t" "as_data as = Some d" "as_stack as = Some k"
    and sw: "seg_wf t" "seg_wf d" "seg_wf k" by (rule as_wfE [OF wf])
  note b = seg_wf_bounds(3) [OF sw(1)] seg_wf_bounds(3) [OF sw(2)] seg_wf_bounds(3) [OF sw(3)]
  have td: "unat (seg_npages t + seg_npages d) = unat (seg_npages t) + unat (seg_npages d)"
    using b by (intro unat_add_small) simp
  have tdk: "unat (seg_npages d + seg_npages t + seg_npages k) =
      unat (seg_npages t) + unat (seg_npages d) + unat (seg_npages k)"
    using b td by (subst unat_add_small) (simp_all add: add.commute)
  consider (T) "in_segment t va" | (D) "\<not> in_segment t va" "in_segment d va"
    | (K) "\<not> in_segment t va" "\<not> in_segment d va" "in_segment k va"
    using va as by (auto simp: in_as_def)
  then show thesis
  proof cases
    case T
    note p = in_segment_page [OF sw(1) T]
    show thesis
    proof (rule that [of "vpn va - vpn (seg_first_vaddr t)" SEGMENT_TEXT])
      show "pt_get_index as va = Some (vpn va - vpn (seg_first_vaddr t))"
        using p as T by (simp add: pt_get_index_def as_get_segment_type_def word_less_nat_alt)
    qed (use p as T in \<open>auto simp: as_npages_def page_no_def as_get_segment_type_def text_index_def Let_def\<close>)
  next
    case D
    note p = in_segment_page [OF sw(2) D(2)]
    let ?w = "seg_npages t + (va - (seg_first_vaddr d AND PAGE_FRAME)) div 4096"
    have w: "unat ?w = unat (seg_npages t) + (vpn va - vpn (seg_first_vaddr d))"
      using p b by (subst unat_add_small) simp_all
    show thesis
    proof (rule that [of "unat (seg_npages t) + (vpn va - vpn (seg_first_vaddr d))" SEGMENT_DATA])
      show "pt_get_index as va = Some (unat (seg_npages t) + (vpn va - vpn (seg_first_vaddr d)))"
        using p as D w td by (simp add: pt_get_index_def as_get_segment_type_def word_less_nat_alt Let_def)
    qed (use p as D in \<open>auto simp: as_npages_def page_no_def as_get_segment_type_def text_index_def Let_def\<close>)
  next
    case K
    note p = in_segment_page [OF sw(3) K(3)]
    let ?w = "seg_npages d + seg_npages t + (va - (seg_first_vaddr k AND PAGE_FRAME)) div 4096"
    let ?i = "unat (seg_npages t) + unat (seg_npages d) + (vpn va - vpn (seg_first_vaddr k))"
    have w: "unat ?w = ?i"
      using p b td by (subst unat_add_small) (simp_all add: add.commute)
    show thesis
    proof (rule that [of ?i SEGMENT_STACK])
      show "pt_get_index as va = Some ?i"
        using p as K w tdk by (simp add: pt_get_index_def as_get_segment_type_def word_less_nat_alt Let_def)
    qed (use p as K in \<open>auto simp: as_npages_def page_no_def as_get_segment_type_def text_index_def Let_def\<close>)
  qed
qed

lemma page_no_cases:
  assumes wf: "as_wf as" and k: "k < as_npages as"
  obtains seg j where "as_text as = Some seg \<and> k = j \<or>
      (\<exists>t. as_text as = Some t \<and> as_data as = Some seg \<and> k = unat (seg_npages t) + j) \<or>
      (\<exists>t d. as_text as = Some t \<and> as_data as = Some d \<and> as_stack as = Some seg \<and>
         k = unat (seg_npages t) + unat (seg_npages d) + j)"
    and "seg_wf seg" and "j < unat (seg_npages seg)" and "page_no as k = vpn (seg_first_vaddr seg) + j"
proof -
  obtain t d sk where as: "as_text as = Some t" "as_data as = Some d" "as_stack as = Some sk"
    and sw: "seg_wf t" "seg_wf d" "seg_wf sk" by (rule as_wfE [OF wf])
  let ?nt = "unat (seg_npages t)" and ?nd = "unat (seg_npages d)"
  consider "k < ?nt" | "?nt \<le> k" "k < ?nt + ?nd" | "?nt + ?nd \<le> k" by linarith
  then show thesis
  proof cases
    case 1
    then show thesis using as sw by (intro that [of t k]) (simp_all add: page_no_def)
  next
    case 2
    then show thesis using as sw by (intro that [of d "k - ?nt"]) (auto simp: page_no_def)
  next
    case 3
    then show thesis using as sw k
      by (intro that [of sk "k - ?nt - ?nd"]) (auto simp: page_no_def as_npages_def)
  qed
qed

lemma page_no_seg:
  assumes "as_wf as" and "k < as_npages as"
  shows "\<exists>seg. (as_text as = Some seg \<or> as_data as = Some seg \<or> as_stack as = Some seg) \<and>
           seg_wf seg \<and> page_no as k \<in> seg_pages seg"
proof -
  from page_no_cases [OF assms] obtain seg j where
    "as_text as = Some seg \<or> as_data as = Some seg \<or> as_stack as = Some seg"
    "seg_wf seg" "j < unat (seg_npages seg)" "page_no as k = vpn (seg_first_vaddr seg) + j" by blast
  then show ?thesis by (auto simp: seg_pages_def)
qed

lemma page_no_inj:
  assumes wf: "as_wf as"
  shows "inj_on (page_no as) {..<as_npages as}"
proof -
  obtain t d sk where as: "as_text as = Some t" "as_data as = Some d" "as_stack as = Some sk"
    and dj: "seg_pages t \<inter> seg_pages d = {}" "seg_pages t \<inter> seg_pages sk = {}" "seg_pages d \<inter> seg_pages sk = {}"
    by (rule as_wfE [OF wf])
  let ?nt = "unat (seg_npages t)" and ?nd = "unat (seg_npages d)" and ?nk = "unat (seg_npages sk)"
  have p1: "page_no as k = vpn (seg_first_vaddr t) + k" if "k < ?nt" for k
    using as that by (simp add: page_no_def)
  have p2: "page_no as k = vpn (seg_first_vaddr d) + (k - ?nt)" if "?nt \<le> k" "k < ?nt + ?nd" for k
    using as that by (simp add: page_no_def)
  have p3: "page_no as k = vpn (seg_first_vaddr sk) + (k - ?nt - ?nd)" if "?nt + ?nd \<le> k" for k
    using as that by (simp add: page_no_def)
  have s1: "page_no as k \<in> seg_pages t" if "k < ?nt" for k
    using p1 [OF that] that by (simp add: seg_pages_def)
  have s2: "page_no as k \<in> seg_pages d" if "?nt \<le> k" "k < ?nt + ?nd" for k
    using p2 [OF that] that by (auto simp: seg_pages_def)
  have s3: "page_no as k \<in> seg_pages sk" if "?nt + ?nd \<le> k" "k < as_npages as" for k
    using p3 [OF that(1)] that as by (auto simp: seg_pages_def as_npages_def)
  have less: "j = k" if "j \<le> k" "k < as_npages as" "page_no as j = page_no as k" for j k
  proof -
    consider "k < ?nt" | "j < ?nt" "?nt \<le> k" "k < ?nt + ?nd" | "j < ?nt" "?nt + ?nd \<le> k"
      | "?nt \<le> j" "k < ?nt + ?nd" | "?nt \<le> j" "j < ?nt + ?nd" "?nt + ?nd \<le> k" | "?nt + ?nd \<le> j"
      using that(1) by linarith
    then show ?thesis
    proof cases
      case 1
      with that p1 [of j] p1 [of k] show ?thesis by linarith
    next
      case 2
      with s1 [of j] s2 [of k] that dj show ?thesis by auto
    next
      case 3
      with s1 [of j] s3 [of k] that dj show ?thesis by auto
    next
      case 4
      with that p2 [of j] p2 [of k] show ?thesis by linarith
    next
      case 5
      with s2 [of j] s3 [of k] that dj show ?thesis by auto
    next
      case 6
      with that p3 [of j] p3 [of k] show ?thesis by linarith
    qed
  qed
  show ?thesis
  proof (rule inj_onI)
    fix j k
    assume "j \<in> {..<as_npages as}" "k \<in> {..<as_npages as}" "page_no as j = page_no as k"
    then show "j = k" using less [of j k] less [of k j] by (cases "j \<le> k") auto
  qed
qed

lemma page_no_user:
  assumes "as_wf as" and "k < as_npages as"
  shows "page_no as k < 2 ^ 19"
proof -
  from page_no_seg [OF assms] obtain seg where s: "seg_wf seg" "page_no as k \<in> seg_pages seg" by blast
  have "page_no as k < vpn (seg_first_vaddr seg) + unat (seg_npages seg)"
    using s(2) by (simp add: seg_pages_def)
  moreover have "unat (seg_npages seg) = (unat (seg_last_vaddr seg) - 1) div PAGE_SIZE
      - vpn (seg_first_vaddr seg) + 1" using s(1) by (simp add: seg_wf_def)
  moreover have "vpn (seg_first_vaddr seg) \<le> (unat (seg_last_vaddr seg) - 1) div PAGE_SIZE"
    unfolding vpn_def using seg_wf_bounds(1) [OF s(1)] by (intro div_le_mono) simp
  moreover have "(unat (seg_last_vaddr seg) - 1) div PAGE_SIZE < 2 ^ 19"
    using seg_wf_bounds(1,2) [OF s(1)] by simp
  ultimately show ?thesis by linarith
qed

text \<open>Every page of the table is met by some address of the address space.\<close>

lemma page_no_hit:
  assumes wf: "as_wf as" and k: "k < as_npages as"
  obtains va where "in_as as va" and "vpn va = page_no as k"
proof -
  from page_no_seg [OF assms] obtain seg where s: "seg_wf seg" "page_no as k \<in> seg_pages seg"
    and in_as: "as_text as = Some seg \<or> as_data as = Some seg \<or> as_stack as = Some seg" by blast
  let ?f = "unat (seg_first_vaddr seg)" and ?l = "unat (seg_last_vaddr seg)"
  define a where "a = max ?f (page_no as k * PAGE_SIZE)"
  have pk: "vpn (seg_first_vaddr seg) \<le> page_no as k" "page_no as k \<le> (?l - 1) div PAGE_SIZE"
    using s seg_wf_bounds(1) [OF s(1)] div_le_mono [of ?f "?l - 1" PAGE_SIZE]
    by (simp_all add: seg_pages_def seg_wf_def vpn_def)
  have fl: "?f < ?l" "?l \<le> 2 ^ 31" by (rule seg_wf_bounds [OF s(1)])+
  have "page_no as k * PAGE_SIZE \<le> ?l - 1" using pk(2) by (simp add: less_eq_div_iff_mult_less_eq)
  then have a: "?f \<le> a" "a < ?l" using fl by (simp_all add: a_def)
  have u: "unat (of_nat a :: vaddr) = a" using a fl by (intro unat_of_nat32) simp
  have d: "a div PAGE_SIZE = page_no as k"
  proof (cases "?f \<le> page_no as k * PAGE_SIZE")
    case False
    then have "?f div PAGE_SIZE = page_no as k"
      using pk(1) div_le_mono [of "page_no as k * PAGE_SIZE" ?f PAGE_SIZE] by (simp add: vpn_def)
    with False show ?thesis by (simp add: a_def max_def)
  qed (simp add: a_def max_def)
  show thesis
  proof (rule that [of "of_nat a"])
    have "in_segment seg (of_nat a)"
      using a by (simp add: in_segment_def word_le_nat_alt word_less_nat_alt u)
    with in_as show "in_as as (of_nat a)" by (auto simp: in_as_def)
    show "vpn (of_nat a) = page_no as k" by (simp add: vpn_def u d)
  qed
qed

section \<open>Setting up an address space\<close>

lemma pages_spanned:
  assumes "0 < (m :: nat)"
  shows "(m + a mod PAGE_SIZE + 4095) div PAGE_SIZE = (a + m - 1) div PAGE_SIZE - a div PAGE_SIZE + 1"
proof -
  have "m + a mod PAGE_SIZE + 4095 = (a mod PAGE_SIZE + m - 1) + PAGE_SIZE" using assms by simp
  then have "(m + a mod PAGE_SIZE + 4095) div PAGE_SIZE = (a mod PAGE_SIZE + m - 1) div PAGE_SIZE + 1" by simp
  moreover have "a + m - 1 = (a mod PAGE_SIZE + m - 1) + a div PAGE_SIZE * PAGE_SIZE"
    using assms div_mult_mod_eq [of a PAGE_SIZE] by simp
  then have "(a + m - 1) div PAGE_SIZE = (a mod PAGE_SIZE + m - 1) div PAGE_SIZE + a div PAGE_SIZE" by simp
  ultimately show ?thesis by simp
qed

lemma region_npages:
  assumes "memsize \<noteq> 0" and "unat first + unat memsize \<le> 2 ^ 31"
  shows "unat (DIVROUNDUP (memsize + (first AND NOT PAGE_FRAME)) 4096) =
     (unat (first + memsize) - 1) div PAGE_SIZE - vpn first + 1"
proof -
  have sum: "unat (first + memsize) = unat first + unat memsize"
    using assms(2) by (intro unat_add_small) simp
  have m: "0 < unat memsize" using assms(1) by (simp add: unat_gt_0)
  have off: "unat (memsize + (first AND NOT PAGE_FRAME)) = unat memsize + unat first mod PAGE_SIZE"
    using assms(2) by (subst unat_add_small) (simp_all add: unat_page_offset)
  have "unat (memsize + (first AND NOT PAGE_FRAME) + 4095) = unat memsize + unat first mod PAGE_SIZE + 4095"
    using assms(2) by (subst unat_add_small) (simp_all add: off)
  moreover have "memsize + (first AND NOT PAGE_FRAME) + 4096 - 1 = memsize + (first AND NOT PAGE_FRAME) + 4095"
    by simp
  ultimately have "unat (DIVROUNDUP (memsize + (first AND NOT PAGE_FRAME)) 4096) =
      (unat memsize + unat first mod PAGE_SIZE + 4095) div PAGE_SIZE"
    by (simp only: DIVROUNDUP_def unat_div_distrib) simp
  also have "\<dots> = (unat first + unat memsize - 1) div PAGE_SIZE - unat first div PAGE_SIZE + 1"
    using m by (rule pages_spanned)
  finally show ?thesis by (simp add: sum vpn_def)
qed

text \<open>A region that stays below the end of user space gives a well-formed segment.\<close>

definition region_segment :: "vaddr \<Rightarrow> uint32 \<Rightarrow> int \<Rightarrow> uint32 \<Rightarrow> segment" where
  "region_segment first memsize elf_offset elfsize =
     \<lparr>seg_first_vaddr = first, seg_last_vaddr = first + memsize, seg_elf_size = min elfsize memsize,
      seg_elf_offset = elf_offset, seg_npages = DIVROUNDUP (memsize + (first AND NOT PAGE_FRAME)) 4096\<rparr>"

lemma region_segment_wf:
  assumes "memsize \<noteq> 0" and "unat first + unat memsize \<le> 2 ^ 31"
  shows "seg_wf (region_segment first memsize elf_offset elfsize)"
proof -
  have sum: "unat (first + memsize) = unat first + unat memsize"
    using assms(2) by (intro unat_add_small) simp
  have m: "0 < unat memsize" using assms(1) by (simp add: unat_gt_0)
  have "unat (min elfsize memsize) \<le> unat memsize" by (simp flip: word_le_nat_alt)
  then show ?thesis
    using region_npages [OF assms] sum m assms
    by (simp add: seg_wf_def region_segment_def word_less_nat_alt word_le_nat_alt)
qed

lemma segment_define_region:
  assumes "memsize \<noteq> 0" and "unat first + unat memsize \<le> 2 ^ 31"
  shows "do { seg \<leftarrow> segment_create True;
              segment_define seg elf_offset (first AND PAGE_FRAME) first (first + memsize)
                (DIVROUNDUP (memsize + (first AND NOT PAGE_FRAME)) 4096) elfsize }
     = Some (region_segment first memsize elf_offset elfsize)"
proof -
  have sum: "unat (first + memsize) = unat first + unat memsize"
    using assms(2) by (intro unat_add_small) simp
  have m: "0 < unat memsize" using assms(1) by (simp add: unat_gt_0)
  have "first AND PAGE_FRAME < USERSPACETOP" "first < USERSPACETOP" "first + memsize \<le> USERSPACETOP"
    using assms m sum by (simp_all add: word_less_nat_alt word_le_nat_alt unat_page_frame)
  then show ?thesis
    by (auto simp: segment_create_def segment_define_def region_segment_def min_def Let_def)
qed

lemma as_define_region_eq:
  assumes "memsize \<noteq> 0" and "unat first + unat memsize \<le> 2 ^ 31"
  shows "as_text as = None \<Longrightarrow> as_define_region True as first memsize elf_offset elfsize =
      Some (as\<lparr>as_text := Some (region_segment first memsize elf_offset elfsize)\<rparr>)"
    and "as_text as = Some t \<Longrightarrow> as_data as = None \<Longrightarrow>
      as_define_region True as first memsize elf_offset elfsize =
      Some (as\<lparr>as_data := Some (region_segment first memsize elf_offset elfsize)\<rparr>)"
    and "as_text as = Some t \<Longrightarrow> as_data as = Some d \<Longrightarrow>
      as_define_region b as first memsize elf_offset elfsize = None"
  using assms(1) segment_define_region [OF assms, of elf_offset elfsize]
  by (simp_all add: as_define_region_def Let_def segment_create_def)

definition stack_segment :: segment where
  "stack_segment = \<lparr>seg_first_vaddr = 0x7ffee000, seg_last_vaddr = 0x80000000, seg_elf_size = 0,
     seg_elf_offset = 0, seg_npages = 18\<rparr>"

lemma as_define_stack_eq:
  "as_define_stack True as = Some (0x80000000, as\<lparr>as_stack := Some stack_segment\<rparr>)"
  by (simp add: as_define_stack_def segment_create_def segment_define_def stack_segment_def Let_def)

lemma seg_pages_stack: "seg_pages stack_segment = {0x7ffee..<0x80000}"
  by (simp add: seg_pages_def stack_segment_def vpn_def)

lemma stack_segment_wf: "seg_wf stack_segment"
  by (simp add: seg_wf_def stack_segment_def vpn_def)

section \<open>Properties\<close>

text \<open>
  Claim C11: in a well-formed address space \<^verbatim>\<open>pt_get_index\<close> numbers the pages of the
  segments without gaps: every address of a segment has an index below the size
  of the page table, two addresses have the same index exactly when they lie on the
  same page, and every index belongs to some address.
\<close>

theorem pt_index_numbers_pages:
  assumes "as_wf as"
  shows "(\<forall>va. in_as as va \<longrightarrow> (\<exists>k < as_npages as. pt_get_index as va = Some k)) \<and>
    (\<forall>va va'. in_as as va \<longrightarrow> in_as as va' \<longrightarrow>
       (pt_get_index as va = pt_get_index as va' \<longleftrightarrow> vpn va = vpn va')) \<and>
    (\<forall>k < as_npages as. \<exists>va. in_as as va \<and> pt_get_index as va = Some k)"
proof (intro conjI allI impI)
  fix va
  assume "in_as as va"
  from pt_get_index_spec [OF assms this] show "\<exists>k < as_npages as. pt_get_index as va = Some k" by metis
next
  fix va va'
  assume va: "in_as as va" and va': "in_as as va'"
  obtain k where k: "pt_get_index as va = Some k" "k < as_npages as" "page_no as k = vpn va"
    using pt_get_index_spec [OF assms va] by metis
  obtain k' where k': "pt_get_index as va' = Some k'" "k' < as_npages as" "page_no as k' = vpn va'"
    using pt_get_index_spec [OF assms va'] by metis
  have "k = k' \<longleftrightarrow> page_no as k = page_no as k'"
    using page_no_inj [OF assms] k(2) k'(2) by (simp add: inj_on_eq_iff)
  with k k' show "pt_get_index as va = pt_get_index as va' \<longleftrightarrow> vpn va = vpn va'" by simp
next
  fix k
  assume k: "k < as_npages as"
  obtain va where va: "in_as as va" "vpn va = page_no as k" by (rule page_no_hit [OF assms k])
  obtain k' where k': "pt_get_index as va = Some k'" "k' < as_npages as" "page_no as k' = vpn va"
    using pt_get_index_spec [OF assms va(1)] by metis
  with va k have "k' = k" using page_no_inj [OF assms] by (simp add: inj_on_eq_iff)
  with va k' show "\<exists>va. in_as as va \<and> pt_get_index as va = Some k" by blast
qed

text \<open>An address space with one page of text at 4 MB, part of a page of data and the stack.\<close>

definition as_example :: addrspace where
  "as_example = \<lparr>as_text = Some (region_segment 0x400000 0x1000 0 0x1000),
     as_data = Some (region_segment 0x500010 0x20 0x1000 0x10),
     as_stack = Some stack_segment, as_ptable = Some 0\<rparr>"

lemma as_example_segs:
  "region_segment 0x400000 0x1000 0 0x1000 = \<lparr>seg_first_vaddr = 0x400000, seg_last_vaddr = 0x401000,
     seg_elf_size = 0x1000, seg_elf_offset = 0, seg_npages = 1\<rparr>"
  "region_segment 0x500010 0x20 0x1000 0x10 = \<lparr>seg_first_vaddr = 0x500010, seg_last_vaddr = 0x500030,
     seg_elf_size = 0x10, seg_elf_offset = 0x1000, seg_npages = 1\<rparr>"
  by (simp_all add: region_segment_def DIVROUNDUP_def PAGE_FRAME_def min_def)

lemma as_example_wf: "as_wf as_example"
  by (simp add: as_wf_def as_example_def as_example_segs seg_wf_def vpn_def stack_segment_wf seg_pages_def
      stack_segment_def)

theorem pt_index_numbers_pages_witness:
  "as_wf as_example \<and> in_as as_example 0x500020 \<and>
   (\<exists>k < as_npages as_example. pt_get_index as_example 0x500020 = Some k)"
proof -
  have "in_as as_example 0x500020"
    by (auto simp: in_as_def as_example_def as_example_segs in_segment_def)
  with pt_index_numbers_pages [OF as_example_wf] as_example_wf show ?thesis by blast
qed

text \<open>The address space \<^verbatim>\<open>runprogram\<close> builds from two regions.\<close>

definition as_regions :: "segment \<Rightarrow> segment \<Rightarrow> nat option \<Rightarrow> addrspace" where
  "as_regions s1 s2 pt = \<lparr>as_text = Some s1, as_data = Some s2, as_stack = Some stack_segment, as_ptable = pt\<rparr>"

definition regions_apart :: "vaddr \<Rightarrow> uint32 \<Rightarrow> vaddr \<Rightarrow> uint32 \<Rightarrow> bool" where
  "regions_apart f1 m1 f2 m2 \<longleftrightarrow> m1 \<noteq> 0 \<and> m2 \<noteq> 0 \<and>
     unat f1 + unat m1 \<le> 0x7ffee000 \<and> unat f2 + unat m2 \<le> 0x7ffee000 \<and>
     ((unat f1 + unat m1 - 1) div PAGE_SIZE < unat f2 div PAGE_SIZE \<or>
      (unat f2 + unat m2 - 1) div PAGE_SIZE < unat f1 div PAGE_SIZE)"

lemma seg_pages_region:
  assumes "m \<noteq> 0" and "unat f + unat m \<le> 2 ^ 31"
  shows "seg_pages (region_segment f m off sz) = {unat f div PAGE_SIZE .. (unat f + unat m - 1) div PAGE_SIZE}"
proof -
  have "0 < unat m" using assms by (simp add: unat_gt_0)
  then have "unat f div PAGE_SIZE \<le> (unat f + unat m - 1) div PAGE_SIZE" by (intro div_le_mono) simp
  then show ?thesis
    using region_npages [OF assms] assms(2) by (auto simp: seg_pages_def region_segment_def vpn_def unat_add_small)
qed

lemma as_regions_wf:
  assumes "regions_apart f1 m1 f2 m2"
  shows "as_wf (as_regions (region_segment f1 m1 off1 sz1) (region_segment f2 m2 off2 sz2) pt)"
proof -
  let ?s1 = "region_segment f1 m1 off1 sz1" and ?s2 = "region_segment f2 m2 off2 sz2"
  have m: "m1 \<noteq> 0" "m2 \<noteq> 0" and e: "unat f1 + unat m1 \<le> 0x7ffee000" "unat f2 + unat m2 \<le> 0x7ffee000"
    using assms by (simp_all add: regions_apart_def)
  then have b: "unat f1 + unat m1 \<le> 2 ^ 31" "unat f2 + unat m2 \<le> 2 ^ 31" by simp_all
  have "0 < unat m1" "0 < unat m2" using m by (simp_all add: unat_gt_0)
  then have "(unat f1 + unat m1 - 1) div PAGE_SIZE < 0x7ffee" "(unat f2 + unat m2 - 1) div PAGE_SIZE < 0x7ffee"
    using e by (simp_all add: less_mult_imp_div_less)
  then have "seg_pages ?s1 \<inter> seg_pages stack_segment = {}" "seg_pages ?s2 \<inter> seg_pages stack_segment = {}"
    by (auto simp: seg_pages_region [OF m(1) b(1)] seg_pages_region [OF m(2) b(2)] seg_pages_stack)
  moreover have "seg_pages ?s1 \<inter> seg_pages ?s2 = {}"
    using assms by (auto simp: regions_apart_def seg_pages_region [OF m(1) b(1)] seg_pages_region [OF m(2) b(2)])
  ultimately show ?thesis
    using m b stack_segment_wf by (simp add: as_wf_def as_regions_def region_segment_wf) (simp add: stack_segment_def)
qed

lemma in_as_regions:
  assumes "regions_apart f1 m1 f2 m2"
  shows "in_as (as_regions (region_segment f1 m1 off1 sz1) (region_segment f2 m2 off2 sz2) pt) va \<longleftrightarrow>
    unat f1 \<le> unat va \<and> unat va < unat f1 + unat m1 \<or>
    unat f2 \<le> unat va \<and> unat va < unat f2 + unat m2 \<or> 0x7ffee000 \<le> unat va \<and> unat va < 2 ^ 31"
proof -
  have "unat (f1 + m1) = unat f1 + unat m1" "unat (f2 + m2) = unat f2 + unat m2"
    using assms by (simp_all add: regions_apart_def unat_add_small)
  then show ?thesis
    by (auto simp: in_as_def as_regions_def in_segment_def region_segment_def stack_segment_def word_le_nat_alt
        word_less_nat_alt)
qed

text \<open>
  Setting up an address space from two regions that end below the stack
  and share no page, the way \<^verbatim>\<open>load_elf\<close> and \<^verbatim>\<open>runprogram\<close> do, succeeds and gives a
  well-formed address space; its addresses are those of the two regions and of the
  18 stack pages.
\<close>

theorem as_setup:
  assumes "regions_apart f1 m1 f2 m2"
  shows "\<exists>as0 as1 as2 as3. as_create True = Some as0 \<and>
    as_define_region True as0 f1 m1 off1 sz1 = Some as1 \<and>
    as_define_region True as1 f2 m2 off2 sz2 = Some as2 \<and>
    as_define_stack True as2 = Some (USERSTACK, as3) \<and> as_wf as3 \<and>
    (\<forall>va. in_as as3 va \<longleftrightarrow> unat f1 \<le> unat va \<and> unat va < unat f1 + unat m1 \<or>
       unat f2 \<le> unat va \<and> unat va < unat f2 + unat m2 \<or> 0x7ffee000 \<le> unat va \<and> unat va < 2 ^ 31)"
proof -
  let ?as = "as_regions (region_segment f1 m1 off1 sz1) (region_segment f2 m2 off2 sz2) None"
  have "m1 \<noteq> 0" "m2 \<noteq> 0" "unat f1 + unat m1 \<le> 2 ^ 31" "unat f2 + unat m2 \<le> 2 ^ 31"
    using assms by (simp_all add: regions_apart_def)
  then show ?thesis
    using as_regions_wf [OF assms, of off1 sz1 off2 sz2 None] in_as_regions [OF assms, of off1 sz1 off2 sz2 None]
    by (simp add: as_create_def as_define_region_eq as_define_stack_eq as_regions_def)
qed

theorem as_setup_witness:
  "\<exists>as0 as1 as2 as3. as_create True = Some as0 \<and>
    as_define_region True as0 0x400000 0x1000 0 0x1000 = Some as1 \<and>
    as_define_region True as1 0x500010 0x20 0x1000 0x10 = Some as2 \<and>
    as_define_stack True as2 = Some (USERSTACK, as3) \<and> as_wf as3"
proof -
  have "regions_apart 0x400000 0x1000 0x500010 0x20" by (simp add: regions_apart_def)
  from as_setup [OF this, of 0 "0x1000" "0x1000" "0x10"] show ?thesis by blast
qed


end
