(* ===== verification/Bitmap.thy ===== *)
theory Bitmap
  imports Prelude
begin

unbundle bit_operations_syntax

text \<open>
  The bitmap of \<^verbatim>\<open>kern/lib/bitmap.c\<close>: a fixed-size array of bits kept in
  8-bit words, used by the swap file and by SFS to hand out slots. The state is
  the structure itself; \<open>marked\<close> is the set of slots in use it stands for, and
  \<open>bitmap_ok\<close> the invariant (the array has the right length and the bits past
  \<open>nbits\<close> in the last word are set). The locale \<open>slot_map\<close> is the contract the
  clients rely on; it is interpreted here on the bitmap.
\<close>

section \<open>Data and operations\<close>

record bitmap =
  nbits :: nat
  bm_v :: "byte list"

abbreviation (input) BITS_PER_WORD :: nat where "BITS_PER_WORD \<equiv> 8"
abbreviation (input) WORD_ALLBITS :: byte where "WORD_ALLBITS \<equiv> 0xff"

text \<open>\<^verbatim>\<open>((WORD_TYPE)1) << offset\<close>.\<close>

definition bit_mask :: "nat \<Rightarrow> byte" where
  "bit_mask offset = push_bit offset 1"

text \<open>
  \<^verbatim>\<open>bitmap_create\<close>: the two booleans are the outcomes of its two calls of
  \<^verbatim>\<open>kmalloc\<close>; an inner \<^const>\<open>None\<close> is the \<^verbatim>\<open>NULL\<close> result. \<^verbatim>\<open>unsigned\<close> is 32 bits
  wide, so the rounding up of \<open>nbits\<close> can wrap.
\<close>

definition bitmap_create :: "bool \<Rightarrow> bool \<Rightarrow> nat \<Rightarrow> bitmap option option" where
  "bitmap_create kmalloc_b kmalloc_v n =
     (let words = ((n + BITS_PER_WORD - 1) mod 2 ^ 32) div BITS_PER_WORD in
      if \<not> kmalloc_b then Some None
      else if \<not> kmalloc_v then Some None
      else
        let zeros = replicate words (0 :: byte) in
        if words > n div BITS_PER_WORD then
          let ix = words - 1; overbits = n - ix * BITS_PER_WORD in
          do {
            kassert (n div BITS_PER_WORD = words - 1);
            kassert (overbits > 0 \<and> overbits < BITS_PER_WORD);
            Some (Some \<lparr>nbits = n,
              bm_v = zeros[ix := fold (\<lambda>j w. w OR bit_mask j)
                                [overbits..<BITS_PER_WORD] (zeros ! ix)]\<rparr>)
          }
        else Some (Some \<lparr>nbits = n, bm_v = zeros\<rparr>))"

text \<open>The inner loop of \<^verbatim>\<open>bitmap_alloc\<close>: the first clear bit of a word.\<close>

function bitmap_alloc_offset :: "byte \<Rightarrow> nat \<Rightarrow> nat option" where
  "bitmap_alloc_offset w offset =
     (if offset < BITS_PER_WORD then
        if w AND bit_mask offset = 0 then Some offset
        else bitmap_alloc_offset w (offset + 1)
      else None)"
  by pat_completeness auto
termination
  by (relation "measure (\<lambda>(w, offset). BITS_PER_WORD - offset)") auto

declare bitmap_alloc_offset.simps [simp del]

function bitmap_alloc_loop :: "bitmap \<Rightarrow> nat \<Rightarrow> nat \<Rightarrow> (errno + nat \<times> bitmap) option" where
  "bitmap_alloc_loop b maxix ix =
     (if ix < maxix then
        if bm_v b ! ix \<noteq> WORD_ALLBITS then
          (case bitmap_alloc_offset (bm_v b ! ix) 0 of
             None \<Rightarrow> None
           | Some offset \<Rightarrow> do {
               kassert (ix * BITS_PER_WORD + offset < nbits b);
               Some (Inr (ix * BITS_PER_WORD + offset,
                          b\<lparr>bm_v := (bm_v b)[ix := bm_v b ! ix OR bit_mask offset]\<rparr>))
             })
        else bitmap_alloc_loop b maxix (ix + 1)
      else Some (Inl ENOSPC))"
  by pat_completeness auto
termination
  by (relation "measure (\<lambda>(b, maxix, ix). maxix - ix)") auto

declare bitmap_alloc_loop.simps [simp del]

definition bitmap_alloc :: "bitmap \<Rightarrow> (errno + nat \<times> bitmap) option" where
  "bitmap_alloc b =
     bitmap_alloc_loop b (((nbits b + BITS_PER_WORD - 1) mod 2 ^ 32) div BITS_PER_WORD) 0"

definition bitmap_translate :: "nat \<Rightarrow> nat \<times> byte" where
  "bitmap_translate bitno = (bitno div BITS_PER_WORD, bit_mask (bitno mod BITS_PER_WORD))"

definition bitmap_mark :: "bitmap \<Rightarrow> nat \<Rightarrow> bitmap option" where
  "bitmap_mark b index = do {
     kassert (index < nbits b);
     let (ix, mask) = bitmap_translate index;
     kassert (bm_v b ! ix AND mask = 0);
     Some (b\<lparr>bm_v := (bm_v b)[ix := bm_v b ! ix OR mask]\<rparr>)
   }"

definition bitmap_unmark :: "bitmap \<Rightarrow> nat \<Rightarrow> bitmap option" where
  "bitmap_unmark b index = do {
     kassert (index < nbits b);
     let (ix, mask) = bitmap_translate index;
     kassert (bm_v b ! ix AND mask \<noteq> 0);
     Some (b\<lparr>bm_v := (bm_v b)[ix := bm_v b ! ix AND NOT mask]\<rparr>)
   }"

definition bitmap_isset :: "bitmap \<Rightarrow> nat \<Rightarrow> bool" where
  "bitmap_isset b index =
     (let (ix, mask) = bitmap_translate index in bm_v b ! ix AND mask \<noteq> 0)"

text \<open>\<^verbatim>\<open>bitmap_getdata\<close> hands out the array itself, for saving it on disk.\<close>

definition bitmap_getdata :: "bitmap \<Rightarrow> byte list" where
  "bitmap_getdata b = bm_v b"

section \<open>Abstraction and invariant\<close>

definition marked :: "bitmap \<Rightarrow> nat set" where
  "marked b = {i. i < nbits b \<and> bit (bm_v b ! (i div BITS_PER_WORD)) (i mod BITS_PER_WORD)}"

definition bitmap_ok :: "bitmap \<Rightarrow> bool" where
  "bitmap_ok b \<longleftrightarrow>
     nbits b < 2 ^ 32 - BITS_PER_WORD \<and>
     length (bm_v b) = (nbits b + BITS_PER_WORD - 1) div BITS_PER_WORD \<and>
     (\<forall>i \<in> {nbits b ..< length (bm_v b) * BITS_PER_WORD}.
        bit (bm_v b ! (i div BITS_PER_WORD)) (i mod BITS_PER_WORD))"

section \<open>Bits of a word\<close>

lemma bit_bit_mask: "bit (bit_mask k) j \<longleftrightarrow> j = k \<and> k < BITS_PER_WORD"
  by (auto simp: bit_mask_def bit_simps)

lemma and_bit_mask_eq_0 [simp]: "w AND bit_mask k = 0 \<longleftrightarrow> \<not> (k < BITS_PER_WORD \<and> bit w k)"
proof
  assume z: "w AND bit_mask k = 0"
  show "\<not> (k < BITS_PER_WORD \<and> bit w k)"
  proof
    assume "k < BITS_PER_WORD \<and> bit w k"
    then have "bit (w AND bit_mask k) k" by (simp add: bit_and_iff bit_bit_mask)
    with z show False by simp
  qed
next
  assume "\<not> (k < BITS_PER_WORD \<and> bit w k)"
  then show "w AND bit_mask k = 0"
    by (intro bit_word_eqI) (auto simp: bit_and_iff bit_bit_mask)
qed

lemma bit_or_bit_mask: "k < BITS_PER_WORD \<Longrightarrow> bit (w OR bit_mask k) j \<longleftrightarrow> bit w j \<or> j = k"
  by (auto simp: bit_mask_def bit_simps)

lemma bit_and_not_bit_mask: "k < BITS_PER_WORD \<Longrightarrow> bit (w AND NOT (bit_mask k)) j \<longleftrightarrow> bit w j \<and> j \<noteq> k"
  by (auto simp: bit_mask_def bit_simps dest: bit_imp_le_length)

lemma byte_all_bits: "(w :: byte) = WORD_ALLBITS \<longleftrightarrow> (\<forall>k < BITS_PER_WORD. bit w k)"
proof -
  have "(WORD_ALLBITS :: byte) = mask 8"
    by (simp add: mask_eq_exp_minus_1)
  then show ?thesis
    by (auto simp: bit_eq_iff bit_simps)
qed


section \<open>Finding a clear bit\<close>

lemma bitmap_alloc_offset_Some:
  "bitmap_alloc_offset w off = Some k \<Longrightarrow>
     off \<le> k \<and> k < BITS_PER_WORD \<and> \<not> bit w k \<and> (\<forall>j. off \<le> j \<and> j < k \<longrightarrow> bit w j)"
proof (induction w off rule: bitmap_alloc_offset.induct)
  case (1 w off)
  show ?case
  proof (cases "w AND bit_mask off = 0")
    case True
    with "1.prems" show ?thesis
      by (subst (asm) bitmap_alloc_offset.simps) (auto split: if_splits)
  next
    case False
    with "1.prems" have "off < BITS_PER_WORD" and "bitmap_alloc_offset w (off + 1) = Some k"
      by (subst (asm) bitmap_alloc_offset.simps; simp split: if_splits)+
    with "1.IH" False have "off + 1 \<le> k \<and> k < BITS_PER_WORD \<and> \<not> bit w k \<and>
        (\<forall>j. off + 1 \<le> j \<and> j < k \<longrightarrow> bit w j)" by blast
    moreover from False have "bit w off" by simp
    ultimately show ?thesis by (metis Suc_eq_plus1 Suc_leI le_neq_implies_less le_trans le_add1)
  qed
qed

lemma bitmap_alloc_offset_None:
  "bitmap_alloc_offset w off = None \<Longrightarrow> off \<le> j \<Longrightarrow> j < BITS_PER_WORD \<Longrightarrow> bit w j"
proof (induction w off rule: bitmap_alloc_offset.induct)
  case (1 w off)
  from "1.prems" have off: "off < BITS_PER_WORD" by simp
  with "1.prems"(1) have nz: "w AND bit_mask off \<noteq> 0"
    and rec: "bitmap_alloc_offset w (off + 1) = None"
    by (subst (asm) bitmap_alloc_offset.simps; simp split: if_splits)+
  from nz have "bit w off" by simp
  with "1.IH" [OF off nz rec] "1.prems" show ?case
    by (cases "j = off") auto
qed

lemma bitmap_alloc_offset_exists:
  "w \<noteq> WORD_ALLBITS \<Longrightarrow> \<exists>k. bitmap_alloc_offset w 0 = Some k"
  using bitmap_alloc_offset_None [of w 0] byte_all_bits [of w]
  by (cases "bitmap_alloc_offset w 0") auto

lemma div_mod_slot: "(i :: nat) = k \<longleftrightarrow> i div 8 = k div 8 \<and> i mod 8 = k mod 8"
  by (metis div_mult_mod_eq)

lemma bitmap_ok_index: "bitmap_ok b \<Longrightarrow> i < nbits b \<Longrightarrow> i div BITS_PER_WORD < length (bm_v b)"
  by (simp add: bitmap_ok_def)

lemma bitmap_ok_length:
  "bitmap_ok b \<Longrightarrow> ((nbits b + BITS_PER_WORD - 1) mod 2 ^ 32) div BITS_PER_WORD = length (bm_v b)"
  by (simp add: bitmap_ok_def)

section \<open>Setting and clearing one bit\<close>

lemma nth_set_bit:
  assumes "k div BITS_PER_WORD < length bs" and "i div BITS_PER_WORD < length bs"
  shows "bit (bs[k div BITS_PER_WORD := bs ! (k div BITS_PER_WORD) OR bit_mask (k mod BITS_PER_WORD)]
               ! (i div BITS_PER_WORD)) (i mod BITS_PER_WORD)
         \<longleftrightarrow> bit (bs ! (i div BITS_PER_WORD)) (i mod BITS_PER_WORD) \<or> i = k"
  using assms div_mod_slot [of i k] by (auto simp: nth_list_update bit_or_bit_mask)

lemma nth_clear_bit:
  assumes "k div BITS_PER_WORD < length bs" and "i div BITS_PER_WORD < length bs"
  shows "bit (bs[k div BITS_PER_WORD := bs ! (k div BITS_PER_WORD) AND NOT (bit_mask (k mod BITS_PER_WORD))]
               ! (i div BITS_PER_WORD)) (i mod BITS_PER_WORD)
         \<longleftrightarrow> bit (bs ! (i div BITS_PER_WORD)) (i mod BITS_PER_WORD) \<and> i \<noteq> k"
  using assms div_mod_slot [of i k] by (auto simp: nth_list_update bit_and_not_bit_mask)

lemma bitmap_set_slot:
  assumes "bitmap_ok b" and "k < nbits b"
  defines "b' \<equiv> b\<lparr>bm_v := (bm_v b)[k div BITS_PER_WORD :=
      bm_v b ! (k div BITS_PER_WORD) OR bit_mask (k mod BITS_PER_WORD)]\<rparr>"
  shows "bitmap_ok b'" and "marked b' = insert k (marked b)" and "nbits b' = nbits b"
proof -
  have k: "k div BITS_PER_WORD < length (bm_v b)"
    using assms(1,2) by (rule bitmap_ok_index)
  show n: "nbits b' = nbits b" by (simp add: b'_def)
  have bits: "bit (bm_v b' ! (i div BITS_PER_WORD)) (i mod BITS_PER_WORD) \<longleftrightarrow>
      bit (bm_v b ! (i div BITS_PER_WORD)) (i mod BITS_PER_WORD) \<or> i = k"
    if "i div BITS_PER_WORD < length (bm_v b)" for i
    using nth_set_bit [OF k that] by (simp add: b'_def)
  show "marked b' = insert k (marked b)"
    using bits bitmap_ok_index [OF assms(1)] assms(2) by (auto simp: marked_def n)
  show "bitmap_ok b'"
    using assms(1) bits by (auto simp: bitmap_ok_def n b'_def less_mult_imp_div_less)
qed

lemma bitmap_clear_slot:
  assumes "bitmap_ok b" and "k < nbits b"
  defines "b' \<equiv> b\<lparr>bm_v := (bm_v b)[k div BITS_PER_WORD :=
      bm_v b ! (k div BITS_PER_WORD) AND NOT (bit_mask (k mod BITS_PER_WORD))]\<rparr>"
  shows "bitmap_ok b'" and "marked b' = marked b - {k}" and "nbits b' = nbits b"
proof -
  have k: "k div BITS_PER_WORD < length (bm_v b)"
    using assms(1,2) by (rule bitmap_ok_index)
  show n: "nbits b' = nbits b" by (simp add: b'_def)
  have bits: "bit (bm_v b' ! (i div BITS_PER_WORD)) (i mod BITS_PER_WORD) \<longleftrightarrow>
      bit (bm_v b ! (i div BITS_PER_WORD)) (i mod BITS_PER_WORD) \<and> i \<noteq> k"
    if "i div BITS_PER_WORD < length (bm_v b)" for i
    using nth_clear_bit [OF k that] by (simp add: b'_def)
  show "marked b' = marked b - {k}"
    using bits bitmap_ok_index [OF assms(1)] by (auto simp: marked_def n)
  show "bitmap_ok b'"
    using assms bits by (auto simp: bitmap_ok_def n b'_def less_mult_imp_div_less)
qed

section \<open>Behaviour of the operations\<close>

lemma bitmap_isset_iff: "i < nbits b \<Longrightarrow> bitmap_isset b i \<longleftrightarrow> i \<in> marked b"
  by (simp add: bitmap_isset_def bitmap_translate_def marked_def)

lemma bitmap_mark_eq:
  "bitmap_mark b i =
     (if i < nbits b \<and> i \<notin> marked b
      then Some (b\<lparr>bm_v := (bm_v b)[i div BITS_PER_WORD :=
        bm_v b ! (i div BITS_PER_WORD) OR bit_mask (i mod BITS_PER_WORD)]\<rparr>)
      else None)"
  by (auto simp: bitmap_mark_def bitmap_translate_def marked_def kassert_def)

lemma bitmap_unmark_eq:
  "bitmap_unmark b i =
     (if i \<in> marked b
      then Some (b\<lparr>bm_v := (bm_v b)[i div BITS_PER_WORD :=
        bm_v b ! (i div BITS_PER_WORD) AND NOT (bit_mask (i mod BITS_PER_WORD))]\<rparr>)
      else None)"
  by (auto simp: bitmap_unmark_def bitmap_translate_def marked_def kassert_def)

lemma marked_less: "i \<in> marked b \<Longrightarrow> i < nbits b"
  by (simp add: marked_def)

lemma bitmap_mark_spec:
  assumes "bitmap_ok b" and "i < nbits b" and "i \<notin> marked b"
  shows "\<exists>b'. bitmap_mark b i = Some b' \<and> bitmap_ok b' \<and> nbits b' = nbits b \<and>
           marked b' = insert i (marked b)"
  using bitmap_set_slot [OF assms(1,2)] assms(2,3) by (simp add: bitmap_mark_eq)

lemma bitmap_unmark_spec:
  assumes "bitmap_ok b" and "i \<in> marked b"
  shows "\<exists>b'. bitmap_unmark b i = Some b' \<and> bitmap_ok b' \<and> nbits b' = nbits b \<and>
           marked b' = marked b - {i}"
  using bitmap_clear_slot [OF assms(1) marked_less [OF assms(2)]] assms(2)
  by (simp add: bitmap_unmark_eq)

lemma bitmap_word_full:
  assumes "bitmap_ok b" and "ix < length (bm_v b)" and "bm_v b ! ix = WORD_ALLBITS"
    and "i div BITS_PER_WORD = ix" and "i < nbits b"
  shows "i \<in> marked b"
  using assms byte_all_bits [of "bm_v b ! ix"] by (simp add: marked_def)

lemma bitmap_free_slot:
  assumes "bitmap_ok b" and "ix < length (bm_v b)" and "k < BITS_PER_WORD" and "\<not> bit (bm_v b ! ix) k"
  shows "ix * BITS_PER_WORD + k < nbits b" and "ix * BITS_PER_WORD + k \<notin> marked b"
proof -
  have s: "ix * BITS_PER_WORD + k < length (bm_v b) * BITS_PER_WORD"
    using assms(2,3) by linarith
  have d: "(ix * BITS_PER_WORD + k) div BITS_PER_WORD = ix" "(ix * BITS_PER_WORD + k) mod BITS_PER_WORD = k"
    using assms(3) by simp_all
  show "ix * BITS_PER_WORD + k < nbits b"
  proof (rule ccontr)
    assume "\<not> ix * BITS_PER_WORD + k < nbits b"
    with s have "ix * BITS_PER_WORD + k \<in> {nbits b ..< length (bm_v b) * BITS_PER_WORD}" by simp
    with assms(1) have "bit (bm_v b ! ix) k"
      unfolding bitmap_ok_def using d by metis
    with assms(4) show False by simp
  qed
  show "ix * BITS_PER_WORD + k \<notin> marked b"
    using assms(4) d by (simp add: marked_def)
qed

lemma bitmap_alloc_loop_spec:
  assumes "bitmap_ok b" and "\<forall>i < nbits b. i div BITS_PER_WORD < ix \<longrightarrow> i \<in> marked b"
  shows "(\<exists>i b'. bitmap_alloc_loop b (length (bm_v b)) ix = Some (Inr (i, b')) \<and>
            i < nbits b \<and> i \<notin> marked b \<and> (\<forall>j < i. j \<in> marked b) \<and>
            bitmap_ok b' \<and> nbits b' = nbits b \<and> marked b' = insert i (marked b)) \<or>
         (bitmap_alloc_loop b (length (bm_v b)) ix = Some (Inl ENOSPC) \<and> {..<nbits b} \<subseteq> marked b)"
  using assms
proof (induction b "length (bm_v b)" ix rule: bitmap_alloc_loop.induct)
  case (1 b ix)
  consider (stop) "length (bm_v b) \<le> ix" | (full) "ix < length (bm_v b)" "bm_v b ! ix = WORD_ALLBITS"
    | (room) "ix < length (bm_v b)" "bm_v b ! ix \<noteq> WORD_ALLBITS" by linarith
  then show ?case
  proof cases
    case stop
    with "1.prems" show ?thesis
      using bitmap_ok_index [OF "1.prems"(1)]
      by (subst (2) bitmap_alloc_loop.simps) (auto dest: less_le_trans)
  next
    case full
    have "\<forall>i < nbits b. i div BITS_PER_WORD < ix + 1 \<longrightarrow> i \<in> marked b"
      using "1.prems" full bitmap_word_full by (metis Suc_eq_plus1 less_Suc_eq)
    with "1.hyps" full "1.prems" show ?thesis
      by (simp add: bitmap_alloc_loop.simps [of b "length (bm_v b)" ix])
  next
    case room
    then obtain k where k: "bitmap_alloc_offset (bm_v b ! ix) 0 = Some k"
      using bitmap_alloc_offset_exists by blast
    let ?i = "ix * BITS_PER_WORD + k"
    from bitmap_alloc_offset_Some [OF k] have k8: "k < BITS_PER_WORD"
      and clear: "\<not> bit (bm_v b ! ix) k" and low: "\<forall>j < k. bit (bm_v b ! ix) j" by auto
    note slot = bitmap_free_slot [OF "1.prems"(1) room(1) k8 clear]
    have d: "?i div BITS_PER_WORD = ix" "?i mod BITS_PER_WORD = k" using k8 by simp_all
    have least: "j \<in> marked b" if "j < ?i" for j
    proof (cases "j div BITS_PER_WORD < ix")
      case True
      with "1.prems"(2) slot(1) that show ?thesis by auto
    next
      case False
      with that d(1) have jx: "j div BITS_PER_WORD = ix"
        by (metis div_le_mono le_antisym less_imp_le not_le)
      with that have "j mod BITS_PER_WORD < k"
        using div_mult_mod_eq [of j BITS_PER_WORD] by simp
      with jx low slot(1) that show ?thesis by (simp add: marked_def)
    qed
    show ?thesis
      using room k k8 slot least bitmap_set_slot [OF "1.prems"(1) slot(1)]
      by (simp add: bitmap_alloc_loop.simps [of b "length (bm_v b)" ix] d)
  qed
qed

lemma bitmap_alloc_cases:
  assumes "bitmap_ok b"
  shows "(\<exists>i b'. bitmap_alloc b = Some (Inr (i, b')) \<and>
            i < nbits b \<and> i \<notin> marked b \<and> (\<forall>j < i. j \<in> marked b) \<and>
            bitmap_ok b' \<and> nbits b' = nbits b \<and> marked b' = insert i (marked b)) \<or>
         (bitmap_alloc b = Some (Inl ENOSPC) \<and> {..<nbits b} \<subseteq> marked b)"
  using bitmap_alloc_loop_spec [OF assms, of 0] bitmap_ok_length [OF assms]
  by (simp add: bitmap_alloc_def)

lemma fold_or_bit_mask:
  "set js \<subseteq> {..<BITS_PER_WORD} \<Longrightarrow>
     bit (fold (\<lambda>j w. w OR bit_mask j) js w) k \<longleftrightarrow> bit w k \<or> k \<in> set js"
  by (induction js arbitrary: w) (auto simp: bit_or_bit_mask)

section \<open>The contract of a slot allocator\<close>

text \<open>
  What the swap file (and the block map of SFS) relies on: a slot map stands for
  the set of slots in use, allocation hands out a slot that was free or reports
  \<^const>\<open>ENOSPC\<close> exactly when none is, and releasing a slot that is not in use
  stops the machine.
\<close>

locale slot_map =
  fixes inv :: "'m \<Rightarrow> bool"
    and cap :: "'m \<Rightarrow> nat"
    and used :: "'m \<Rightarrow> nat set"
    and alloc :: "'m \<Rightarrow> (errno + nat \<times> 'm) option"
    and release :: "'m \<Rightarrow> nat \<Rightarrow> 'm option"
    and isset :: "'m \<Rightarrow> nat \<Rightarrow> bool"
  assumes used_less: "inv m \<Longrightarrow> i \<in> used m \<Longrightarrow> i < cap m"
    and alloc_room: "inv m \<Longrightarrow> used m \<noteq> {..<cap m} \<Longrightarrow>
      \<exists>i m'. alloc m = Some (Inr (i, m')) \<and> i < cap m \<and> i \<notin> used m \<and>
        inv m' \<and> cap m' = cap m \<and> used m' = insert i (used m)"
    and alloc_full: "inv m \<Longrightarrow> used m = {..<cap m} \<Longrightarrow> alloc m = Some (Inl ENOSPC)"
    and release_used: "inv m \<Longrightarrow> i \<in> used m \<Longrightarrow>
      \<exists>m'. release m i = Some m' \<and> inv m' \<and> cap m' = cap m \<and> used m' = used m - {i}"
    and release_unused: "inv m \<Longrightarrow> i \<notin> used m \<Longrightarrow> release m i = None"
    and isset_used: "inv m \<Longrightarrow> i < cap m \<Longrightarrow> isset m i \<longleftrightarrow> i \<in> used m"
begin

lemma finite_used: "inv m \<Longrightarrow> finite (used m)"
  by (rule finite_subset [of _ "{..<cap m}"]) (auto dest: used_less)

lemma alloc_InrD:
  assumes "inv m" and "alloc m = Some (Inr (i, m'))"
  shows "i < cap m" and "i \<notin> used m" and "inv m'" and "cap m' = cap m"
    and "used m' = insert i (used m)"
proof -
  have "used m \<noteq> {..<cap m}" using alloc_full [OF assms(1)] assms(2) by auto
  from alloc_room [OF assms(1) this] assms(2)
  show "i < cap m" and "i \<notin> used m" and "inv m'" and "cap m' = cap m"
    and "used m' = insert i (used m)" by simp_all
qed

lemma alloc_returns: "inv m \<Longrightarrow> \<exists>r. alloc m = Some r"
  using alloc_room [of m] alloc_full [of m] by (cases "used m = {..<cap m}") blast+

lemma alloc_ENOSPC_iff:
  assumes i: "inv m"
  shows "alloc m = Some (Inl ENOSPC) \<longleftrightarrow> card (used m) = cap m"
proof (cases "used m = {..<cap m}")
  case True
  with alloc_full [OF i] show ?thesis by simp
next
  case False
  have "used m \<subset> {..<cap m}" using used_less [OF i] False by auto
  from psubset_card_mono [OF _ this] have "card (used m) \<noteq> cap m" by simp
  moreover from alloc_room [OF i False] have "alloc m \<noteq> Some (Inl ENOSPC)" by auto
  ultimately show ?thesis by simp
qed

lemma alloc_release:
  assumes "inv m" and "alloc m = Some (Inr (i, m'))"
  obtains m'' where "release m' i = Some m''" and "inv m''" and "used m'' = used m"
    and "cap m'' = cap m"
proof -
  note a = alloc_InrD [OF assms]
  obtain m'' where "release m' i = Some m''" "inv m''" "cap m'' = cap m'" "used m'' = used m' - {i}"
    using release_used [OF a(3)] a(5) by blast
  with a that show thesis by simp
qed

end

lemma bitmap_alloc_room:
  assumes "bitmap_ok b" and "marked b \<noteq> {..<nbits b}"
  shows "\<exists>i b'. bitmap_alloc b = Some (Inr (i, b')) \<and> i < nbits b \<and> i \<notin> marked b \<and>
           bitmap_ok b' \<and> nbits b' = nbits b \<and> marked b' = insert i (marked b)"
  using bitmap_alloc_cases [OF assms(1)] assms(2) marked_less by fastforce

lemma bitmap_alloc_full:
  assumes "bitmap_ok b" and "marked b = {..<nbits b}"
  shows "bitmap_alloc b = Some (Inl ENOSPC)"
  using bitmap_alloc_cases [OF assms(1)] assms(2) by auto

lemma bitmap_unmark_unused: "i \<notin> marked b \<Longrightarrow> bitmap_unmark b i = None"
  by (simp add: bitmap_unmark_eq)

interpretation bm: slot_map bitmap_ok nbits marked bitmap_alloc bitmap_unmark bitmap_isset
  by unfold_locales
    (simp_all add: marked_less bitmap_alloc_room bitmap_alloc_full bitmap_unmark_spec
       bitmap_unmark_unused bitmap_isset_iff)

section \<open>A fresh bitmap\<close>

lemma bitmap_create_aligned:
  assumes "n < 2 ^ 32 - BITS_PER_WORD" and "n mod BITS_PER_WORD = 0"
  shows "\<exists>b. bitmap_create True True n = Some (Some b) \<and> bitmap_ok b \<and> nbits b = n \<and> marked b = {}"
proof -
  have w: "(n + BITS_PER_WORD - 1) div BITS_PER_WORD = n div BITS_PER_WORD" 
    using assms(2) by (auto simp: mod_eq_0_iff_dvd elim!: dvdE)
  have m: "(n + BITS_PER_WORD - 1) mod 2 ^ 32 = n + BITS_PER_WORD - 1" using assms by simp
  have l: "n div BITS_PER_WORD * BITS_PER_WORD = n" using assms(2) by auto
  let ?b = "\<lparr>nbits = n, bm_v = replicate (n div BITS_PER_WORD) 0\<rparr>"
  have "bitmap_create True True n = Some (Some ?b)"
    by (simp only: bitmap_create_def m w Let_def) simp
  moreover have "bitmap_ok ?b" using assms w l by (simp add: bitmap_ok_def)
  moreover have "marked ?b = {}"
    using l by (auto simp: marked_def less_mult_imp_div_less)
  ultimately show ?thesis by auto
qed

lemma bitmap_create_ragged:
  assumes "n < 2 ^ 32 - BITS_PER_WORD" and "n mod BITS_PER_WORD \<noteq> 0"
  shows "\<exists>b. bitmap_create True True n = Some (Some b) \<and> bitmap_ok b \<and> nbits b = n \<and> marked b = {}"
proof -
  define q r where "q = n div BITS_PER_WORD" and "r = n mod BITS_PER_WORD"
  have n: "n = q * BITS_PER_WORD + r" by (simp add: q_def r_def)
  have r: "0 < r" "r < BITS_PER_WORD" using assms(2) by (simp_all add: r_def)
  have w: "(n + BITS_PER_WORD - 1) div BITS_PER_WORD = Suc q"
    using n r by simp
  have m: "(n + BITS_PER_WORD - 1) mod 2 ^ 32 = n + BITS_PER_WORD - 1" using assms by simp
  have over: "n - (Suc q - 1) * BITS_PER_WORD = r" using n by simp
  let ?b = "\<lparr>nbits = n, bm_v = (replicate (Suc q) 0)[q := fold (\<lambda>j w. w OR bit_mask j) [r..<BITS_PER_WORD] (0 :: byte)]\<rparr>"
  have c: "bitmap_create True True n = Some (Some ?b)"
    using r by (simp only: bitmap_create_def m w Let_def over q_def [symmetric]) 
      (simp add: nth_append del: upt_rec_numeral replicate_Suc)
  have bits: "bit (bm_v ?b ! (i div BITS_PER_WORD)) (i mod BITS_PER_WORD) \<longleftrightarrow> n \<le> i"
    if i: "i < Suc q * BITS_PER_WORD" for i
  proof (cases "i div BITS_PER_WORD = q")
    case True
    then have "i = q * BITS_PER_WORD + i mod BITS_PER_WORD" by (metis div_mult_mod_eq)
    then have "r \<le> i mod BITS_PER_WORD \<longleftrightarrow> n \<le> i" using n by linarith
    moreover have "bm_v ?b ! q = fold (\<lambda>j w. w OR bit_mask j) [r..<BITS_PER_WORD] 0"
      by (simp del: replicate_Suc)
    moreover have "bit (fold (\<lambda>j w. w OR bit_mask j) [r..<BITS_PER_WORD] 0) k \<longleftrightarrow> k \<in> {r..<BITS_PER_WORD}" for k
      by (subst fold_or_bit_mask) auto
    ultimately show ?thesis using True by (simp del: upt_rec_numeral replicate_Suc bitmap.simps)
  next
    case False
    with less_mult_imp_div_less [OF i] have lt: "i div BITS_PER_WORD < q" by simp
    then have "i < q * BITS_PER_WORD" by (simp add: div_less_iff_less_mult)
    with n have "\<not> n \<le> i" by linarith
    with lt show ?thesis by (simp del: replicate_Suc upt_rec_numeral)
  qed
  have "bitmap_ok ?b"
    unfolding bitmap_ok_def using assms w bits by (simp del: upt_rec_numeral replicate_Suc)
  moreover have "marked ?b = {}"
  proof -
    have "i < nbits ?b \<Longrightarrow> i < Suc q * BITS_PER_WORD" for i using n r by simp
    then show ?thesis using bits by (auto simp: marked_def simp del: upt_rec_numeral replicate_Suc)
  qed
  ultimately show ?thesis using c by auto
qed
lemma bitmap_create_fresh:
  assumes "n < 2 ^ 32 - BITS_PER_WORD"
  shows "\<exists>b. bitmap_create True True n = Some (Some b) \<and> bitmap_ok b \<and> nbits b = n \<and> marked b = {}"
  using bitmap_create_aligned [OF assms] bitmap_create_ragged [OF assms]
  by (cases "n mod BITS_PER_WORD = 0") simp_all

section \<open>Properties\<close>

text \<open>
  Claim C13: on a well-formed bitmap \<^verbatim>\<open>bitmap_alloc\<close> always returns. If every slot is in
  use the result is \<^const>\<open>ENOSPC\<close>; otherwise it hands out the least slot that is
  not in use, the new bitmap is well formed and has exactly that slot more in
  use, and \<^verbatim>\<open>bitmap_unmark\<close> of the slot gives back a bitmap with the old set.
\<close>

theorem bitmap_alloc_first_fit:
  assumes "bitmap_ok b"
  shows "if {..<nbits b} \<subseteq> marked b then bitmap_alloc b = Some (Inl ENOSPC)
         else let i = (LEAST i. i \<notin> marked b) in
           \<exists>b' b''. bitmap_alloc b = Some (Inr (i, b')) \<and> i < nbits b \<and>
             bitmap_ok b' \<and> nbits b' = nbits b \<and> marked b' = insert i (marked b) \<and>
             bitmap_unmark b' i = Some b'' \<and> bitmap_ok b'' \<and> marked b'' = marked b"
proof (cases "{..<nbits b} \<subseteq> marked b")
  case True
  moreover have "marked b \<subseteq> {..<nbits b}" by (auto dest: marked_less)
  ultimately have "marked b = {..<nbits b}" by (rule subset_antisym [rotated])
  with bm.alloc_full [OF assms] show ?thesis by simp
next
  case False
  then obtain i b' where a: "bitmap_alloc b = Some (Inr (i, b'))" "i < nbits b" "i \<notin> marked b"
    "\<forall>j < i. j \<in> marked b" "bitmap_ok b'" "nbits b' = nbits b" "marked b' = insert i (marked b)"
    using bitmap_alloc_cases [OF assms] by blast
  have "(LEAST i. i \<notin> marked b) = i"
    using a(3,4) by (intro Least_equality) (auto simp: not_less [symmetric])
  moreover obtain b'' where "bitmap_unmark b' i = Some b''" "bitmap_ok b''" "marked b'' = marked b"
    by (rule bm.alloc_release [OF assms a(1)])
  ultimately show ?thesis using False a by (simp only: Let_def if_False) blast
qed

theorem bitmap_alloc_first_fit_witness:
  "let b = \<lparr>nbits = 3, bm_v = [0xf9]\<rparr> in
   bitmap_ok b \<and> \<not> {..<nbits b} \<subseteq> marked b \<and>
   (\<exists>b' b''. bitmap_alloc b = Some (Inr (LEAST i. i \<notin> marked b, b')) \<and>
      marked b' = insert (LEAST i. i \<notin> marked b) (marked b) \<and>
      bitmap_unmark b' (LEAST i. i \<notin> marked b) = Some b'' \<and> marked b'' = marked b)"
proof -
  let ?b = "\<lparr>nbits = 3, bm_v = [0xf9]\<rparr> :: bitmap"
  have "{3..<8 :: nat} = {3, 4, 5, 6, 7}" by auto
  then have ok: "bitmap_ok ?b" by (simp add: bitmap_ok_def)
  have "1 \<notin> marked ?b" by (simp add: marked_def)
  moreover have "1 \<in> {..<nbits ?b}" by simp
  ultimately have n: "\<not> {..<nbits ?b} \<subseteq> marked ?b" by blast
  show ?thesis using bitmap_alloc_first_fit [OF ok] ok n by (simp only: Let_def if_False) blast
qed

end
