(* ===== verification/Cstring.thy ===== *)
theory Cstring
  imports Prelude
begin

unbundle bit_operations_syntax

text \<open>
  Byte-addressed memory and the string routines shared by the kernel and libc
  (\<^verbatim>\<open>common/libc/string/*.c\<close> and \<^verbatim>\<open>common/libc/stdlib/atoi.c\<close>). Memory is a
  function from addresses to bytes, and each routine is written with the loops
  of its source: \<^verbatim>\<open>bzero\<close>, \<^verbatim>\<open>memcpy\<close> and \<^verbatim>\<open>memmove\<close> with their
  word-at-a-time and byte-at-a-time branches, the scans for the terminating
  zero as partial functions, because a string without one is read forever. The
  lemmas give each routine its meaning on blocks (\<open>mem_put\<close>, \<open>mem_get\<close>) and on
  zero-terminated strings (\<open>cstr\<close>); they include the overlapping cases.
\<close>

section \<open>Memory\<close>

type_synonym memory = "nat \<Rightarrow> byte"

definition mem_put :: "memory \<Rightarrow> nat \<Rightarrow> byte list \<Rightarrow> memory" where
  "mem_put m a bs = (\<lambda>x. if a \<le> x \<and> x < a + length bs then bs ! (x - a) else m x)"

definition mem_get :: "memory \<Rightarrow> nat \<Rightarrow> nat \<Rightarrow> byte list" where
  "mem_get m a n = map (\<lambda>i. m (a + i)) [0..<n]"

section \<open>The routines\<close>

text \<open>A \<^verbatim>\<open>long\<close> has four bytes.\<close>

abbreviation (input) LONGSIZE :: nat where "LONGSIZE \<equiv> 4"

definition bzero :: "nat \<Rightarrow> nat \<Rightarrow> memory \<Rightarrow> memory" where
  "bzero block len m =
     (if block mod LONGSIZE = 0 \<and> len mod LONGSIZE = 0
      then fold (\<lambda>i m. mem_put m (block + LONGSIZE * i) [0, 0, 0, 0]) [0..<len div LONGSIZE] m
      else fold (\<lambda>i m. m(block + i := 0)) [0..<len] m)"

definition memcpy :: "nat \<Rightarrow> nat \<Rightarrow> nat \<Rightarrow> memory \<Rightarrow> memory" where
  "memcpy dst src len m =
     (if dst mod LONGSIZE = 0 \<and> src mod LONGSIZE = 0 \<and> len mod LONGSIZE = 0
      then fold (\<lambda>i m. mem_put m (dst + LONGSIZE * i) (mem_get m (src + LONGSIZE * i) LONGSIZE))
             [0..<len div LONGSIZE] m
      else fold (\<lambda>i m. m(dst + i := m (src + i))) [0..<len] m)"

definition memmove :: "nat \<Rightarrow> nat \<Rightarrow> nat \<Rightarrow> memory \<Rightarrow> memory" where
  "memmove dst src len m =
     (if dst < src then memcpy dst src len m
      else if dst mod LONGSIZE = 0 \<and> src mod LONGSIZE = 0 \<and> len mod LONGSIZE = 0
      then fold (\<lambda>i m. mem_put m (dst + LONGSIZE * i) (mem_get m (src + LONGSIZE * i) LONGSIZE))
             (rev [0..<len div LONGSIZE]) m
      else fold (\<lambda>i m. m(dst + i := m (src + i))) (rev [0..<len]) m)"

definition memset :: "nat \<Rightarrow> uint32 \<Rightarrow> nat \<Rightarrow> memory \<Rightarrow> memory" where
  "memset ptr ch len m = fold (\<lambda>i m. m(ptr + i := ucast ch)) [0..<len] m"

partial_function (option) strlen_loop :: "memory \<Rightarrow> nat \<Rightarrow> nat \<Rightarrow> nat option" where
  "strlen_loop m str ret = (if m (str + ret) \<noteq> 0 then strlen_loop m str (ret + 1) else Some ret)"

definition strlen :: "memory \<Rightarrow> nat \<Rightarrow> nat option" where
  "strlen m str = strlen_loop m str 0"

partial_function (option) strcpy_loop :: "nat \<Rightarrow> nat \<Rightarrow> nat \<Rightarrow> memory \<Rightarrow> (nat \<times> memory) option" where
  "strcpy_loop dest src i m =
     (if m (src + i) \<noteq> 0 then strcpy_loop dest src (i + 1) (m(dest + i := m (src + i)))
      else Some (i, m))"

definition strcpy :: "nat \<Rightarrow> nat \<Rightarrow> memory \<Rightarrow> memory option" where
  "strcpy dest src m = do {
     (i, m) \<leftarrow> strcpy_loop dest src 0 m;
     Some (m(dest + i := 0)) }"

definition strcat :: "nat \<Rightarrow> nat \<Rightarrow> memory \<Rightarrow> memory option" where
  "strcat dest src m = do {
     offset \<leftarrow> strlen m dest;
     strcpy (dest + offset) src m }"

partial_function (option) strchr :: "memory \<Rightarrow> nat \<Rightarrow> byte \<Rightarrow> nat option option" where
  "strchr m s ch =
     (if m s \<noteq> 0 then (if m s = ch then Some (Some s) else strchr m (s + 1) ch)
      else if m s = ch then Some (Some s) else Some None)"

primrec strrchr_loop :: "memory \<Rightarrow> nat \<Rightarrow> byte \<Rightarrow> nat \<Rightarrow> nat option" where
  "strrchr_loop m s ch 0 = None"
| "strrchr_loop m s ch (Suc i) = (if m (s + i) = ch then Some (s + i) else strrchr_loop m s ch i)"

definition strrchr :: "memory \<Rightarrow> nat \<Rightarrow> byte \<Rightarrow> nat option option" where
  "strrchr m s ch = do {
     n \<leftarrow> strlen m s;
     Some (strrchr_loop m s ch (n + 1)) }"

partial_function (option) strcmp_loop :: "memory \<Rightarrow> nat \<Rightarrow> nat \<Rightarrow> nat \<Rightarrow> nat option" where
  "strcmp_loop m a b i =
     (if m (a + i) \<noteq> 0 \<and> m (a + i) = m (b + i) then strcmp_loop m a b (i + 1) else Some i)"

definition char_order :: "byte \<Rightarrow> byte \<Rightarrow> int" where
  "char_order x y = (if x > y then 1 else if x = y then 0 else -1)"

definition strcmp :: "memory \<Rightarrow> nat \<Rightarrow> nat \<Rightarrow> int option" where
  "strcmp m a b = do {
     i \<leftarrow> strcmp_loop m a b 0;
     Some (char_order (m (a + i)) (m (b + i))) }"

text \<open>\<^verbatim>\<open>strtok_r\<close>: the two scans, then the routine with its context pointer.\<close>

partial_function (option) strtok_skip :: "memory \<Rightarrow> nat \<Rightarrow> nat \<Rightarrow> nat option" where
  "strtok_skip m seps head =
     (if m head \<noteq> 0
      then do { r \<leftarrow> strchr m seps (m head);
                if r \<noteq> None then strtok_skip m seps (head + 1) else Some head }
      else Some head)"

partial_function (option) strtok_word :: "memory \<Rightarrow> nat \<Rightarrow> nat \<Rightarrow> nat option" where
  "strtok_word m seps tail =
     (if m tail \<noteq> 0
      then do { r \<leftarrow> strchr m seps (m tail);
                if r = None then strtok_word m seps (tail + 1) else Some tail }
      else Some tail)"

definition strtok_r :: "nat option \<Rightarrow> nat \<Rightarrow> nat option \<Rightarrow> memory \<Rightarrow>
    (nat option \<times> nat option \<times> memory) option" where
  "strtok_r str seps ctx m =
     (let ctx = (if str \<noteq> None then str else ctx) in
      case ctx of None \<Rightarrow> Some (None, ctx, m)
      | Some head \<Rightarrow> do {
          head \<leftarrow> strtok_skip m seps head;
          if m head = 0 then Some (None, None, m)
          else do {
            tail \<leftarrow> strtok_word m seps head;
            if m tail = 0 then Some (Some head, None, m)
            else Some (Some head, Some (tail + 1), m(tail := 0)) } })"

text \<open>\<^verbatim>\<open>atoi\<close>; \<open>digits\<close> is the address of its table of digits.\<close>

partial_function (option) atoi_blanks :: "memory \<Rightarrow> nat \<Rightarrow> nat option" where
  "atoi_blanks m s = (if m s = 0x20 \<or> m s = 0x09 then atoi_blanks m (s + 1) else Some s)"

partial_function (option) atoi_loop :: "memory \<Rightarrow> nat \<Rightarrow> nat \<Rightarrow> uint32 \<Rightarrow> uint32 option" where
  "atoi_loop m digits s val =
     (if m s \<noteq> 0
      then do { pos \<leftarrow> strchr m digits (m s);
                case pos of None \<Rightarrow> Some val
                | Some w \<Rightarrow> atoi_loop m digits (s + 1) (val * 10 + of_nat (w - digits)) }
      else Some val)"

definition atoi :: "memory \<Rightarrow> nat \<Rightarrow> nat \<Rightarrow> uint32 option" where
  "atoi m digits s = do {
     s \<leftarrow> atoi_blanks m s;
     let neg = (m s = 0x2d);
     let s = (if m s = 0x2d \<or> m s = 0x2b then s + 1 else s);
     val \<leftarrow> atoi_loop m digits s 0;
     Some (if neg then - val else val) }"

section \<open>Blocks\<close>

lemma length_mem_get [simp]: "length (mem_get m a n) = n"
  by (simp add: mem_get_def)

lemma nth_mem_get [simp]: "i < n \<Longrightarrow> mem_get m a n ! i = m (a + i)"
  by (simp add: mem_get_def)

lemma mem_put_in: "i < length bs \<Longrightarrow> mem_put m a bs (a + i) = bs ! i"
  by (simp add: mem_put_def)

lemma mem_put_out: "x < a \<or> a + length bs \<le> x \<Longrightarrow> mem_put m a bs x = m x"
  by (auto simp: mem_put_def)

lemma mem_put_single: "mem_put m a [b] = m(a := b)"
  by (auto simp: mem_put_def fun_eq_iff)

lemma mem_put_nil [simp]: "mem_put m a [] = m"
  by (auto simp: mem_put_def fun_eq_iff)

lemma mem_get_one [simp]: "mem_get m a (Suc 0) = [m a]"
  by (simp add: mem_get_def)

lemma mem_get_zero [simp]: "mem_get m a 0 = []"
  by (simp add: mem_get_def)

lemma mem_get_add: "mem_get m a (n + k) = mem_get m a n @ mem_get m (a + n) k"
  by (rule nth_equalityI) (auto simp: nth_append)

lemma mem_put_append: "mem_put (mem_put m a xs) (a + length xs) ys = mem_put m a (xs @ ys)"
  by (auto simp: mem_put_def fun_eq_iff nth_append)

lemma mem_get_put_same [simp]: "mem_get (mem_put m a bs) a (length bs) = bs"
  by (rule nth_equalityI) (auto simp: mem_put_in)

lemma mem_get_put_other:
  "a + n \<le> b \<or> b + length bs \<le> a \<Longrightarrow> mem_get (mem_put m b bs) a n = mem_get m a n"
  by (auto simp: mem_get_def mem_put_def)

lemma mem_put_commute_below:
  "mem_put (mem_put m (a + length xs) ys) a xs = mem_put m a (xs @ ys)"
  by (auto simp: mem_put_def fun_eq_iff nth_append)

text \<open>
  Copying blocks of \<open>k\<close> bytes from the lowest address upwards is the copy when the target is not
  inside the source; copying downwards is the copy when the source does not start above the target.
\<close>

lemma copy_up:
  assumes "d \<le> s \<or> s + k * n \<le> d"
  shows "fold (\<lambda>i m. mem_put m (d + k * i) (mem_get m (s + k * i) k)) [0..<n] m =
    mem_put m d (mem_get m s (k * n))"
  using assms
proof (induction n)
  case (Suc n)
  then have IH: "fold (\<lambda>i m. mem_put m (d + k * i) (mem_get m (s + k * i) k)) [0..<n] m =
      mem_put m d (mem_get m s (k * n))" by auto
  have "mem_get (mem_put m d (mem_get m s (k * n))) (s + k * n) k = mem_get m (s + k * n) k"
    using Suc.prems by (intro mem_get_put_other) auto
  moreover have "k * Suc n = k * n + k" by simp
  ultimately show ?case
    using mem_put_append [of m d "mem_get m s (k * n)"] by (simp add: IH mem_get_add del: mult_Suc_right)
qed simp

lemma copy_down:
  assumes "s \<le> d"
  shows "fold (\<lambda>i m. mem_put m (d + k * i) (mem_get m (s + k * i) k)) (rev [0..<n]) m =
    mem_put m d (mem_get m s (k * n))"
proof (induction n arbitrary: m)
  case (Suc n)
  have "mem_get (mem_put m (d + k * n) (mem_get m (s + k * n) k)) s (k * n) = mem_get m s (k * n)"
    using assms by (intro mem_get_put_other) auto
  moreover have "k * Suc n = k * n + k" by simp
  ultimately show ?case
    using mem_put_commute_below [of m d "mem_get m s (k * n)"]
    by (simp add: Suc.IH mem_get_add del: mult_Suc_right)
qed simp

lemma byte_copies:
  "(\<lambda>i m. m(d + i := m (s + i))) = (\<lambda>i m. mem_put m (d + 1 * i) (mem_get m (s + 1 * i) 1))"
  by (simp add: fun_eq_iff mem_put_def)

lemma mod_div_4: "n mod 4 = 0 \<Longrightarrow> 4 * (n div 4) = (n :: nat)"
  by auto

lemma memcpy_eq:
  assumes "d \<le> s \<or> s + n \<le> d"
  shows "memcpy d s n m = mem_put m d (mem_get m s n)"
  using assms copy_up [of d s 4 "n div 4" m] copy_up [of d s 1 n m]
  unfolding memcpy_def byte_copies by (auto simp: mod_div_4 simp del: One_nat_def)

lemma memmove_eq: "memmove d s n m = mem_put m d (mem_get m s n)"
  using memcpy_eq [of d s n m] copy_down [of s d 4 "n div 4" m] copy_down [of s d 1 n m]
  unfolding memmove_def byte_copies by (auto simp: mod_div_4 simp del: One_nat_def)

lemma fill_up:
  "fold (\<lambda>i m. mem_put m (a + k * i) (replicate k c)) [0..<n] m = mem_put m a (replicate (k * n) c)"
proof (induction n)
  case (Suc n)
  then show ?case
    using mem_put_append [of m a "replicate (k * n) c" "replicate k c"]
    by (simp add: replicate_add [symmetric] add.commute)
qed simp

lemma byte_fills: "(\<lambda>i m. m(a + i := c)) = (\<lambda>i m. mem_put m (a + 1 * i) (replicate 1 c))"
  by (simp add: mem_put_single fun_eq_iff)

lemma memset_eq: "memset p ch n m = mem_put m p (replicate n (ucast ch))"
  using fill_up [of p 1 "ucast ch" n m] unfolding memset_def byte_fills by simp

lemma four_zeros: "[0, 0, 0, 0] = replicate 4 (0 :: byte)"
  by (simp add: numeral_eq_Suc)

lemma bzero_eq: "bzero a n m = mem_put m a (replicate n 0)"
proof (cases "a mod 4 = 0 \<and> n mod 4 = 0")
  case True
  then show ?thesis
    using fill_up [of a 4 0 "n div 4" m] by (simp add: bzero_def four_zeros mod_div_4)
next
  case False
  then show ?thesis
    using fill_up [of a 1 0 n m] unfolding bzero_def byte_fills by auto
qed

lemma bzero_apply: "bzero a n m x = (if a \<le> x \<and> x < a + n then 0 else m x)"
  by (auto simp: bzero_eq mem_put_def)

section \<open>Zero-terminated strings\<close>

primrec cstr :: "memory \<Rightarrow> nat \<Rightarrow> byte list \<Rightarrow> bool" where
  "cstr m a [] \<longleftrightarrow> m a = 0"
| "cstr m a (b # bs) \<longleftrightarrow> m a = b \<and> b \<noteq> 0 \<and> cstr m (a + 1) bs"

lemma cstr_append:
  "cstr m a (xs @ ys) \<longleftrightarrow> mem_get m a (length xs) = xs \<and> 0 \<notin> set xs \<and> cstr m (a + length xs) ys"
proof (induction xs arbitrary: a)
  case (Cons x xs)
  have "mem_get m a (Suc (length xs)) = m a # mem_get m (a + 1) (length xs)"
    using mem_get_add [of m a 1 "length xs"] by simp
  with Cons show ?case by auto
qed simp

lemma cstr_iff: "cstr m a bs \<longleftrightarrow> mem_get m a (length bs) = bs \<and> 0 \<notin> set bs \<and> m (a + length bs) = 0"
  using cstr_append [of m a bs "[]"] by simp

lemma cstr_nth: "cstr m a bs \<Longrightarrow> i \<le> length bs \<Longrightarrow> m (a + i) = (bs @ [0]) ! i"
  by (metis cstr_iff le_neq_implies_less nth_append nth_append_length nth_mem_get)

lemma cstr_not_zero: "cstr m a bs \<Longrightarrow> 0 \<notin> set bs"
  by (simp add: cstr_iff)

lemma cstr_put: "0 \<notin> set bs \<Longrightarrow> cstr (mem_put m a (bs @ [0])) a bs"
proof -
  assume "0 \<notin> set bs"
  moreover have "mem_put m a (bs @ [0]) (a + length bs) = 0" by (simp add: mem_put_def)
  moreover have "mem_get (mem_put m a (bs @ [0])) a (length bs) = bs"
    by (rule nth_equalityI) (auto simp: mem_put_def nth_append)
  ultimately show ?thesis by (simp add: cstr_iff)
qed

lemma cstr_cong: "\<forall>i\<le>length bs. m' (a + i) = m (a + i) \<Longrightarrow> cstr m' a bs = cstr m a bs"
proof -
  assume *: "\<forall>i\<le>length bs. m' (a + i) = m (a + i)"
  then have "mem_get m' a (length bs) = mem_get m a (length bs)" by (simp add: mem_get_def)
  with * show ?thesis by (simp add: cstr_iff)
qed

lemma cstr_unique: "cstr m a xs \<Longrightarrow> cstr m a ys \<Longrightarrow> xs = ys"
proof (induction xs arbitrary: a ys)
  case Nil
  then show ?case by (cases ys) auto
next
  case (Cons x xs)
  then show ?case by (cases ys) auto
qed

lemma strlen_loop_cstr: "cstr m (a + i) bs \<Longrightarrow> strlen_loop m a i = Some (i + length bs)"
proof (induction bs arbitrary: i)
  case Nil
  then show ?case by (subst strlen_loop.simps) simp
next
  case (Cons b bs)
  then show ?case by (subst strlen_loop.simps) (simp add: Cons.IH [of "i + 1"])
qed

lemma strlen_cstr: "cstr m a bs \<Longrightarrow> strlen m a = Some (length bs)"
  using strlen_loop_cstr [of m a 0 bs] by (simp add: strlen_def)

lemma strchr_cstr:
  "cstr m a bs \<Longrightarrow>
    strchr m a c = Some (if c \<in> set (bs @ [0]) then Some (a + length (takeWhile (\<lambda>x. x \<noteq> c) bs)) else None)"
proof (induction bs arbitrary: a)
  case Nil
  then show ?case by (subst strchr.simps) auto
next
  case (Cons b bs)
  then show ?case by (subst strchr.simps) (auto simp: Cons.IH [of "a + 1"])
qed

lemma strchr_set: "cstr m a bs \<Longrightarrow> c \<noteq> 0 \<Longrightarrow> \<exists>r. strchr m a c = Some r \<and> (r \<noteq> None \<longleftrightarrow> c \<in> set bs)"
  by (auto simp: strchr_cstr)

lemma length_takeWhile_before: "c \<in> set xs \<Longrightarrow> length (takeWhile (\<lambda>x. x \<noteq> c) xs) < length xs"
  by (induction xs) auto

text \<open>\<^verbatim>\<open>strcmp\<close> is the lexicographic order on unsigned characters.\<close>

definition compare_bytes :: "byte list \<Rightarrow> byte list \<Rightarrow> int" where
  "compare_bytes xs ys = (if xs = ys then 0 else if ord_class.lexordp xs ys then -1 else 1)"

lemma strcmp_suffix:
  "cstr m (a + i) xs \<Longrightarrow> cstr m (b + i) ys \<Longrightarrow>
    \<exists>j. strcmp_loop m a b i = Some j \<and>
      char_order (m (a + j)) (m (b + j)) = compare_bytes xs ys"
proof (induction xs arbitrary: i ys)
  case Nil
  then show ?case
    by (cases ys; subst strcmp_loop.simps) (auto simp: compare_bytes_def char_order_def word_gt_0)
next
  case (Cons x xs)
  show ?case
  proof (cases "ys = [] \<or> hd ys \<noteq> x")
    case True
    with Cons.prems show ?thesis
      by (cases ys; subst strcmp_loop.simps) (auto simp: compare_bytes_def char_order_def word_gt_0)
  next
    case False
    with Cons.prems obtain zs where ys: "ys = x # zs" by (cases ys) auto
    with Cons.prems Cons.IH [of "i + 1" zs] show ?thesis
      by (subst strcmp_loop.simps) (auto simp: compare_bytes_def)
  qed
qed

lemma strcmp_cstr: "cstr m a xs \<Longrightarrow> cstr m b ys \<Longrightarrow> strcmp m a b = Some (compare_bytes xs ys)"
  using strcmp_suffix [of m a 0 xs b ys] by (auto simp: strcmp_def)

lemma strcmp_equal: "cstr m a xs \<Longrightarrow> cstr m b ys \<Longrightarrow> strcmp m a b = Some 0 \<longleftrightarrow> xs = ys"
  by (simp add: strcmp_cstr compare_bytes_def)

text \<open>\<^verbatim>\<open>strcpy\<close> is right when the target does not start inside the source.\<close>

lemma strcpy_loop_cstr:
  assumes "cstr m s bs" and "d \<le> s \<or> s + length bs < d" and "i \<le> length bs"
  shows "strcpy_loop d s i (mem_put m d (take i bs)) = Some (length bs, mem_put m d bs)"
  using assms(3)
proof (induction "length bs - i" arbitrary: i)
  case 0
  then have i: "i = length bs" by simp
  have "mem_put m d bs (s + length bs) = 0"
    using assms(1,2) cstr_nth [OF assms(1), of "length bs"] by (auto simp: mem_put_def)
  then show ?case by (subst strcpy_loop.simps) (simp add: i)
next
  case (Suc k)
  then have i: "i < length bs" by simp
  have m: "mem_put m d (take i bs) (s + i) = bs ! i"
    using assms(2) cstr_nth [OF assms(1), of i] i by (auto simp: mem_put_def nth_append)
  have nz: "bs ! i \<noteq> 0" using cstr_not_zero [OF assms(1)] i nth_mem by metis
  have "(mem_put m d (take i bs))(d + i := bs ! i) = mem_put m d (take (i + 1) bs)"
    using i mem_put_append [of m d "take i bs" "[bs ! i]"]
    by (simp add: mem_put_single take_Suc_conv_app_nth)
  with Suc.hyps Suc.prems i m nz show ?case
    by (subst strcpy_loop.simps) simp
qed

lemma strcpy_cstr:
  assumes "cstr m s bs" and "d \<le> s \<or> s + length bs < d"
  shows "strcpy d s m = Some (mem_put m d (bs @ [0]))"
  using strcpy_loop_cstr [OF assms, of 0] mem_put_append [of m d bs "[0]"]
  by (simp add: strcpy_def mem_put_single)

lemma strcat_cstr:
  assumes "cstr m d xs" and "cstr m s ys" and "d + length xs \<le> s \<or> s + length ys < d + length xs"
  shows "strcat d s m = Some (mem_put m (d + length xs) (ys @ [0]))"
  using strcpy_cstr [OF assms(2,3)] by (simp add: strcat_def strlen_cstr [OF assms(1)])

lemma strchr_first:
  assumes "cstr m a xs"
  shows "\<exists>i. strchr m a c = Some i \<and>
      (case i of None \<Rightarrow> c \<notin> set (xs @ [0])
       | Some p \<Rightarrow> a \<le> p \<and> p \<le> a + length xs \<and> m p = c \<and> (\<forall>q. a \<le> q \<longrightarrow> q < p \<longrightarrow> m q \<noteq> c))"
proof (cases "c \<in> set (xs @ [0])")
  case True
  let ?k = "length (takeWhile (\<lambda>x. x \<noteq> c) xs)"
  have k: "?k \<le> length xs" by (rule length_takeWhile_le)
  have "(xs @ [0]) ! ?k = c"
  proof (cases "c \<in> set xs")
    case True
    then have "?k < length xs" by (rule length_takeWhile_before)
    then show ?thesis using nth_length_takeWhile [of "\<lambda>x. x \<noteq> c" xs] by (simp add: nth_append)
  next
    case False
    then have "takeWhile (\<lambda>x. x \<noteq> c) xs = xs" by (auto simp: takeWhile_eq_all_conv)
    then have "?k = length xs" by (simp only:)
    with True False show ?thesis by (simp add: nth_append)
  qed
  then have hit: "m (a + ?k) = c" using cstr_nth [OF assms k] by simp
  have "m q \<noteq> c" if "a \<le> q" "q < a + ?k" for q
  proof -
    have "takeWhile (\<lambda>x. x \<noteq> c) xs ! (q - a) \<noteq> c"
      using that nth_mem [of "q - a" "takeWhile (\<lambda>x. x \<noteq> c) xs"] set_takeWhileD by fastforce
    then show ?thesis
      using that k cstr_nth [OF assms, of "q - a"] by (auto simp: takeWhile_nth nth_append)
  qed
  with hit True show ?thesis using strchr_cstr [OF assms, of c] k by auto
next
  case False
  then show ?thesis using strchr_cstr [OF assms, of c] by simp
qed

lemma strrchr_loop_last:
  "case strrchr_loop m a c n of None \<Rightarrow> \<forall>i<n. m (a + i) \<noteq> c
   | Some p \<Rightarrow> a \<le> p \<and> p < a + n \<and> m p = c \<and> (\<forall>q. p < q \<longrightarrow> q < a + n \<longrightarrow> m q \<noteq> c)"
proof (induction n)
  case (Suc n)
  then show ?case by (auto simp: less_Suc_eq split: option.splits)
qed simp

lemma strrchr_last:
  assumes "cstr m a xs"
  shows "\<exists>i. strrchr m a c = Some i \<and>
      (case i of None \<Rightarrow> c \<notin> set (xs @ [0])
       | Some p \<Rightarrow> a \<le> p \<and> p \<le> a + length xs \<and> m p = c \<and> (\<forall>q. p < q \<longrightarrow> q \<le> a + length xs \<longrightarrow> m q \<noteq> c))"
proof -
  have "c \<notin> set (xs @ [0])" if "\<forall>i<Suc (length xs). m (a + i) \<noteq> c"
  proof
    assume "c \<in> set (xs @ [0])"
    then obtain i where "i < length (xs @ [0])" "(xs @ [0]) ! i = c" by (meson in_set_conv_nth)
    with that cstr_nth [OF assms, of i] show False by simp
  qed
  with strrchr_loop_last [where m = m and a = a and c = c and n = "Suc (length xs)"] show ?thesis
    by (auto simp: strrchr_def strlen_cstr [OF assms] less_Suc_eq_le simp del: strrchr_loop.simps
        split: option.splits)
qed

lemma strcat_result:
  assumes "cstr m d xs" and "cstr m s ys" and "d + length xs \<le> s \<or> s + length ys < d + length xs"
  shows "\<exists>m'. strcat d s m = Some m' \<and> cstr m' d (xs @ ys) \<and>
      (\<forall>x. x < d + length xs \<or> d + length xs + length ys < x \<longrightarrow> m' x = m x)"
proof -
  let ?m = "mem_put m (d + length xs) (ys @ [0])"
  have "mem_get ?m d (length xs) = xs"
    using mem_get_put_other [of d "length xs" "d + length xs" "ys @ [0]" m] assms(1) by (simp add: cstr_iff)
  then have "cstr ?m d (xs @ ys)"
    using cstr_put [of ys m "d + length xs"] cstr_not_zero [OF assms(2)] assms(1)
    by (simp add: cstr_append cstr_not_zero)
  then show ?thesis using strcat_cstr [OF assms] by (auto simp: mem_put_def)
qed

section \<open>Splitting a line into words\<close>

text \<open>
  \<open>next_word\<close> is what one call finds in a string: the separators before the word, the word, and
  the rest of the string after the separator that ends it, if there is one.
\<close>

definition next_word :: "byte list \<Rightarrow> byte list \<Rightarrow> byte list \<times> byte list \<times> byte list option" where
  "next_word sp bs =
     (let blank = takeWhile (\<lambda>x. x \<in> set sp) bs; rest = dropWhile (\<lambda>x. x \<in> set sp) bs;
          w = takeWhile (\<lambda>x. x \<notin> set sp) rest
      in (blank, w, case dropWhile (\<lambda>x. x \<notin> set sp) rest of [] \<Rightarrow> None | _ # r \<Rightarrow> Some r))"

lemma next_word_parts:
  assumes "next_word sp bs = (blank, w, r)"
  shows "\<exists>c. bs = blank @ w @ (case r of None \<Rightarrow> [] | Some r \<Rightarrow> c # r)"
proof -
  define more where "more = dropWhile (\<lambda>x. x \<notin> set sp) (dropWhile (\<lambda>x. x \<in> set sp) bs)"
  have parts: "bs = blank @ w @ more"
    using assms by (auto simp: next_word_def Let_def more_def)
  have "r = (case more of [] \<Rightarrow> None | _ # r \<Rightarrow> Some r)"
    using assms by (simp add: next_word_def Let_def more_def)
  then have "\<exists>c. more = (case r of None \<Rightarrow> [] | Some r \<Rightarrow> c # r)" by (cases more) auto
  with parts show ?thesis by metis
qed

lemma next_word_shorter: "next_word sp bs = (blank, w, Some r) \<Longrightarrow> length r < length bs"
  using next_word_parts [of sp bs blank w "Some r"] by auto

lemma next_word_Nil: "next_word sp bs = (blank, [], r) \<Longrightarrow> blank = bs \<and> r = None"
proof -
  assume *: "next_word sp bs = (blank, [], r)"
  let ?rest = "dropWhile (\<lambda>x. x \<in> set sp) bs"
  have "takeWhile (\<lambda>x. x \<notin> set sp) ?rest = []" using * by (simp add: next_word_def Let_def)
  then have "?rest = []" using hd_dropWhile [of "\<lambda>x. x \<in> set sp" bs] by (cases ?rest) (auto split: if_splits)
  with * show ?thesis by (auto simp: next_word_def Let_def dropWhile_eq_Nil_conv takeWhile_eq_all_conv)
qed

function words :: "byte list \<Rightarrow> byte list \<Rightarrow> byte list list" where
  "words sp bs = (case next_word sp bs of (_, w, r) \<Rightarrow>
     if w = [] then [] else w # (case r of None \<Rightarrow> [] | Some r \<Rightarrow> words sp r))"
  by auto
termination
  by (relation "measure (\<lambda>(sp, bs). length bs)") (auto dest: next_word_shorter [OF sym])

declare words.simps [simp del]

lemma strtok_skip_cstr:
  "cstr m a bs \<Longrightarrow> cstr m seps sp \<Longrightarrow>
    strtok_skip m seps a = Some (a + length (takeWhile (\<lambda>x. x \<in> set sp) bs))"
proof (induction bs arbitrary: a)
  case Nil
  then show ?case by (subst strtok_skip.simps) simp
next
  case (Cons b bs)
  obtain r where "strchr m seps b = Some r" "r \<noteq> None \<longleftrightarrow> b \<in> set sp"
    using strchr_set [OF Cons.prems(2), of b] Cons.prems(1) by auto
  with Cons.prems Cons.IH [of "a + 1"] show ?case
    by (subst strtok_skip.simps) auto
qed

lemma strtok_word_cstr:
  "cstr m a bs \<Longrightarrow> cstr m seps sp \<Longrightarrow>
    strtok_word m seps a = Some (a + length (takeWhile (\<lambda>x. x \<notin> set sp) bs))"
proof (induction bs arbitrary: a)
  case Nil
  then show ?case by (subst strtok_word.simps) simp
next
  case (Cons b bs)
  obtain r where "strchr m seps b = Some r" "r \<noteq> None \<longleftrightarrow> b \<in> set sp"
    using strchr_set [OF Cons.prems(2), of b] Cons.prems(1) by auto
  with Cons.prems Cons.IH [of "a + 1"] show ?case
    by (subst strtok_word.simps) auto
qed

text \<open>One call of \<^verbatim>\<open>strtok_r\<close>, by the word it finds.\<close>

lemma strtok_r_cstr:
  assumes line: "cstr m a bs" and seps: "cstr m seps sp" and word: "next_word sp bs = (blank, w, r)"
    and at: "str = Some a \<or> str = None \<and> ctx = Some a"
  shows "strtok_r str seps ctx m =
    (if w = [] then Some (None, None, m)
     else Some (Some (a + length blank), map_option (\<lambda>_. a + length blank + length w + 1) r,
       m(a + length blank + length w := 0)))"
proof -
  let ?rest = "dropWhile (\<lambda>x. x \<in> set sp) bs"
  have split: "bs = blank @ ?rest" and w: "w = takeWhile (\<lambda>x. x \<notin> set sp) ?rest"
    using word by (auto simp: next_word_def Let_def)
  have rest: "cstr m (a + length blank) ?rest"
    using line cstr_append [of m a blank ?rest] split by simp
  have skip: "strtok_skip m seps a = Some (a + length blank)"
    using strtok_skip_cstr [OF line seps] word by (simp add: next_word_def Let_def)
  have tok: "strtok_word m seps (a + length blank) = Some (a + length blank + length w)"
    using strtok_word_cstr [OF rest seps] w by simp
  have empty: "m (a + length blank) = 0 \<longleftrightarrow> w = []"
    using next_word_Nil [of sp bs blank r] word rest split w
    by (cases ?rest) (auto split: if_splits)
  obtain c where c: "bs = (blank @ w) @ (case r of None \<Rightarrow> [] | Some r \<Rightarrow> c # r)"
    using next_word_parts [OF word] by auto
  then have tl: "cstr m (a + length blank + length w) (case r of None \<Rightarrow> [] | Some r \<Rightarrow> c # r)"
    using line cstr_append [of m a "blank @ w"] by (metis add.assoc length_append)
  then have "m (a + length blank + length w) = 0 \<longleftrightarrow> r = None"
    by (cases r) auto
  moreover have "m = m(a + length blank + length w := 0)" if "r = None"
    using tl that by auto
  ultimately show ?thesis
    using at skip tok empty by (auto simp: strtok_r_def Let_def)
qed

section \<open>Numbers\<close>

text \<open>The value of a run of decimal digits, as \<^verbatim>\<open>atoi\<close> accumulates it.\<close>

definition digit_chars :: "byte list" where
  "digit_chars = [0x30, 0x31, 0x32, 0x33, 0x34, 0x35, 0x36, 0x37, 0x38, 0x39]"

definition dec_value :: "byte list \<Rightarrow> nat" where
  "dec_value ds = foldl (\<lambda>v d. v * 10 + unat (d - 0x30)) 0 ds"

lemma digit_chars_set: "d \<in> set digit_chars \<longleftrightarrow> 0x30 \<le> d \<and> d \<le> 0x39"
proof
  assume "0x30 \<le> d \<and> d \<le> 0x39"
  then have "48 \<le> unat d" "unat d < 58" by (auto simp: word_le_nat_alt)
  then have "unat d \<in> {48, 49, 50, 51, 52, 53, 54, 55, 56, 57}"
    unfolding insert_iff empty_iff by presburger
  then show "d \<in> set digit_chars"
    by (simp add: digit_chars_def word_unat_eq_iff)
qed (auto simp: digit_chars_def word_le_nat_alt)

lemma digit_position:
  assumes "d \<in> set digit_chars"
  shows "length (takeWhile (\<lambda>x. x \<noteq> d) digit_chars) = unat (d - 0x30)"
  using assms by (auto simp: digit_chars_def)

lemma strchr_digits:
  assumes "cstr m t digit_chars" and "d \<noteq> 0"
  shows "strchr m t d = Some (if d \<in> set digit_chars then Some (t + unat (d - 0x30)) else None)"
  using strchr_cstr [OF assms(1), of d] assms(2) digit_position [of d] by simp

lemma atoi_loop_cstr:
  assumes "cstr m t digit_chars" and "set ds \<subseteq> set digit_chars"
    and "cstr m s (ds @ rest)" and "rest = [] \<or> hd rest \<notin> set digit_chars"
  shows "atoi_loop m t s val = Some (foldl (\<lambda>v d. v * 10 + of_nat (unat (d - 0x30))) val ds)"
  using assms(2,3)
proof (induction ds arbitrary: s val)
  case Nil
  show ?case
  proof (cases rest)
    case Nil
    with \<open>cstr m s ([] @ rest)\<close> show ?thesis by (subst atoi_loop.simps) simp
  next
    case (Cons c cs)
    with \<open>cstr m s ([] @ rest)\<close> assms(1,4) show ?thesis
      by (subst atoi_loop.simps) (simp add: strchr_digits)
  qed
next
  case (Cons d ds)
  then have "strchr m t (m s) = Some (Some (t + unat (d - 0x30)))"
    using strchr_digits [OF assms(1), of d] by simp
  with Cons show ?case by (subst atoi_loop.simps) simp
qed

lemma foldl_dec_value:
  "foldl (\<lambda>v d. v * 10 + of_nat (unat (d - 0x30))) (of_nat k) ds =
    (of_nat (foldl (\<lambda>v d. v * 10 + unat (d - 0x30)) k ds) :: uint32)"
  for ds :: "byte list"
proof (induction ds arbitrary: k)
  case (Cons d ds)
  show ?case using Cons.IH [of "k * 10 + unat (d - 0x30)"] by simp
qed simp

lemma atoi_blanks_cstr:
  assumes "\<forall>b\<in>set bl. b = 0x20 \<or> b = 0x09" and "cstr m s (bl @ rest)"
    and "rest = [] \<or> hd rest \<noteq> 0x20 \<and> hd rest \<noteq> 0x09"
  shows "atoi_blanks m s = Some (s + length bl)"
  using assms(1,2)
proof (induction bl arbitrary: s)
  case Nil
  with assms(3) show ?case by (cases rest; subst atoi_blanks.simps) auto
next
  case (Cons b bl)
  then show ?case by (subst atoi_blanks.simps) auto
qed

lemma atoi_cstr:
  assumes "cstr m t digit_chars" and "\<forall>b\<in>set bl. b = 0x20 \<or> b = 0x09" and "set ds \<subseteq> set digit_chars"
    and "sg \<in> {[], [0x2d], [0x2b]}" and "rest = [] \<or> hd rest \<notin> set digit_chars" and "ds \<noteq> []"
    and "cstr m s (bl @ sg @ ds @ rest)"
  shows "atoi m t s = Some (if sg = [0x2d] then - of_nat (dec_value ds) else of_nat (dec_value ds))"
proof -
  obtain d ds' where ds: "ds = d # ds'" using assms(6) by (cases ds) auto
  then have d: "d \<noteq> 0x20" "d \<noteq> 0x09" "d \<noteq> 0x2d" "d \<noteq> 0x2b"
    using assms(3) by (auto simp: digit_chars_def)
  have blanks: "atoi_blanks m s = Some (s + length bl)"
    using assms(2,4,7) ds d by (intro atoi_blanks_cstr [of bl _ _ "sg @ ds @ rest"]) auto
  have sg: "cstr m (s + length bl) (sg @ ds @ rest)"
    using assms(7) cstr_append [of m s bl] by simp
  then have "cstr m (s + length bl + length sg) (ds @ rest)"
    using cstr_append [of m "s + length bl" sg] by simp
  then have "atoi_loop m t (s + length bl + length sg) 0 = Some (of_nat (dec_value ds))"
    using atoi_loop_cstr [OF assms(1,3) _ assms(5)] foldl_dec_value [of 0 ds] by (simp add: dec_value_def)
  with blanks sg d assms(4) ds show ?thesis
    by (auto simp: atoi_def Let_def)
qed

section \<open>What the routines guarantee\<close>

text \<open>
  Claim C18: block moves are right for every overlap and every alignment. \<^verbatim>\<open>memmove\<close> leaves at the
  target the bytes that were at the source, whether it goes by words or by bytes, upwards or
  downwards; \<^verbatim>\<open>memcpy\<close> does so unless the target starts inside the source; \<^verbatim>\<open>bzero\<close> and \<^verbatim>\<open>memset\<close>
  fill exactly their block. No other byte changes.
\<close>

theorem block_routines:
  "memmove d s n m = mem_put m d (mem_get m s n) \<and>
   (d \<le> s \<or> s + n \<le> d \<longrightarrow> memcpy d s n m = mem_put m d (mem_get m s n)) \<and>
   bzero d n m = mem_put m d (replicate n 0) \<and>
   memset d ch n m = mem_put m d (replicate n (ucast ch))"
  by (simp add: memmove_eq memcpy_eq bzero_eq memset_eq)

theorem block_routines_witness:
  "memmove 8 4 8 (mem_put (\<lambda>_. 0) 4 [1, 2, 3, 4, 5, 6, 7, 8]) 9 = 2 \<and>
   memcpy 4 8 8 (mem_put (\<lambda>_. 0) 4 [1, 2, 3, 4, 5, 6, 7, 8]) 5 = 6"
  using block_routines [of 8 4 8 "mem_put (\<lambda>_. 0) 4 [1, 2, 3, 4, 5, 6, 7, 8]" 0]
    block_routines [of 4 8 8 "mem_put (\<lambda>_. 0) 4 [1, 2, 3, 4, 5, 6, 7, 8]" 0]
  by (simp add: mem_put_def)

text \<open>
  Claim C19: the string routines on terminated strings. \<^verbatim>\<open>strlen\<close> returns the length, \<^verbatim>\<open>strcmp\<close> the
  lexicographic order of the unsigned characters, \<^verbatim>\<open>strchr\<close> and \<^verbatim>\<open>strrchr\<close> the first and the last
  position of a character, the terminator included, and \<^verbatim>\<open>NULL\<close> when there is none; \<^verbatim>\<open>strcat\<close> leaves
  the concatenation when the source is not overwritten before it is read. Each of them returns.
\<close>

theorem string_routines:
  assumes a: "cstr m a xs" and b: "cstr m b ys"
  shows "strlen m a = Some (length xs) \<and>
    strcmp m a b = Some (compare_bytes xs ys) \<and>
    (\<exists>i. strchr m a c = Some i \<and>
      (case i of None \<Rightarrow> c \<notin> set (xs @ [0])
       | Some p \<Rightarrow> a \<le> p \<and> p \<le> a + length xs \<and> m p = c \<and> (\<forall>q. a \<le> q \<longrightarrow> q < p \<longrightarrow> m q \<noteq> c))) \<and>
    (\<exists>i. strrchr m a c = Some i \<and>
      (case i of None \<Rightarrow> c \<notin> set (xs @ [0])
       | Some p \<Rightarrow> a \<le> p \<and> p \<le> a + length xs \<and> m p = c \<and> (\<forall>q. p < q \<longrightarrow> q \<le> a + length xs \<longrightarrow> m q \<noteq> c))) \<and>
    (a + length xs \<le> b \<or> b + length ys < a + length xs \<longrightarrow>
      (\<exists>m'. strcat a b m = Some m' \<and> cstr m' a (xs @ ys) \<and>
        (\<forall>x. x < a + length xs \<or> a + length xs + length ys < x \<longrightarrow> m' x = m x)))"
  using strchr_first [OF a, of c] strrchr_last [OF a, of c] strcat_result [OF a b]
  by (simp add: strlen_cstr [OF a] strcmp_cstr [OF a b])

theorem string_routines_witness:
  "strcmp (mem_put (\<lambda>_. 0) 4 [1, 2, 3, 0, 1, 2, 0]) 4 8 = Some 1 \<and>
   (\<exists>m'. strcat 8 4 (mem_put (\<lambda>_. 0) 4 [1, 2, 3, 0, 1, 2, 0]) = Some m' \<and> cstr m' 8 [1, 2, 1, 2, 3])"
  using string_routines [of "mem_put (\<lambda>_. 0) 4 [1, 2, 3, 0, 1, 2, 0]" 4 "[1, 2, 3]" 8 "[1, 2]" 0]
    string_routines [of "mem_put (\<lambda>_. 0) 4 [1, 2, 3, 0, 1, 2, 0]" 8 "[1, 2]" 4 "[1, 2, 3]" 0]
  by (auto simp: mem_put_def compare_bytes_def)

end
