(* ===== verification/Vnode.thy ===== *)
theory Vnode
  imports Cstring
begin

text \<open>
  Files and physical memory as the virtual memory code sees them. The kernel
  reaches a file only through \<^verbatim>\<open>VOP_READ\<close> and \<^verbatim>\<open>VOP_WRITE\<close> on a \<^verbatim>\<open>uio\<close> set up
  by \<^verbatim>\<open>uio_kinit\<close>; what stands behind them (the host file system behind the
  \<^verbatim>\<open>emu0:\<close> device) is not part of the repository. So the two operations are a
  parameter, the record \<open>vnode_ops\<close>, and \<open>regular_file\<close> is what the code relies
  on: reads return the bytes of the file, short at its end, and writes replace
  them. Physical memory is a function from addresses to bytes; \<^verbatim>\<open>PADDR_TO_KVADDR\<close>
  maps it one to one into the kernel's address space.
\<close>

section \<open>The operations of a file\<close>

text \<open>
  \<open>vop_read vo f off n\<close> is the error or the bytes transferred, so that the
  \<^verbatim>\<open>uio_resid\<close> left over is \<open>n\<close> minus their number; \<open>vop_write\<close> gives the new
  file and the number of bytes taken.
\<close>

record 'f vnode_ops =
  vop_read :: "'f \<Rightarrow> int \<Rightarrow> nat \<Rightarrow> errno + byte list"
  vop_write :: "'f \<Rightarrow> int \<Rightarrow> byte list \<Rightarrow> errno + 'f \<times> nat"

text \<open>The contents of a file after \<open>bs\<close> is written at \<open>off\<close>; a gap is filled with zeros.\<close>

definition file_put :: "byte list \<Rightarrow> nat \<Rightarrow> byte list \<Rightarrow> byte list" where
  "file_put xs off bs =
     take off (xs @ replicate (off - length xs) 0) @ bs @ drop (off + length bs) xs"

abbreviation (input) MAX_FILE :: nat where "MAX_FILE \<equiv> 2 ^ 31"

definition regular_file :: "'f vnode_ops \<Rightarrow> ('f \<Rightarrow> byte list) \<Rightarrow> bool" where
  "regular_file vo content \<longleftrightarrow>
     (\<forall>f off n. vop_read vo f (int off) n = Inr (take n (drop off (content f)))) \<and>
     (\<forall>f off bs. off + length bs \<le> MAX_FILE \<longrightarrow>
        (\<exists>f'. vop_write vo f (int off) bs = Inr (f', length bs) \<and>
              content f' = file_put (content f) off bs))"

lemma regular_file_read:
  "regular_file vo content \<Longrightarrow> vop_read vo f (int off) n = Inr (take n (drop off (content f)))"
  by (simp add: regular_file_def)

lemma regular_file_write:
  assumes "regular_file vo content" and "off + length bs \<le> MAX_FILE"
  obtains f' where "vop_write vo f (int off) bs = Inr (f', length bs)"
    and "content f' = file_put (content f) off bs"
  using assms unfolding regular_file_def by blast

lemma length_file_put: "length (file_put xs off bs) = max (length xs) (off + length bs)"
  by (simp add: file_put_def)

lemma nth_file_put:
  assumes "i < max (length xs) (off + length bs)"
  shows "file_put xs off bs ! i =
     (if off \<le> i \<and> i < off + length bs then bs ! (i - off)
      else if i < length xs then xs ! i else 0)"
  using assms by (auto simp: file_put_def nth_append min_def)

text \<open>A file that is a list of bytes has these operations: the hypothesis can be met.\<close>

definition list_vnode_ops :: "byte list vnode_ops" where
  "list_vnode_ops = \<lparr>
     vop_read = (\<lambda>f off n. if off < 0 then Inl EINVAL else Inr (take n (drop (nat off) f))),
     vop_write = (\<lambda>f off bs. if off < 0 then Inl EINVAL
                              else Inr (file_put f (nat off) bs, length bs))\<rparr>"

lemma list_vnode_ops_regular: "regular_file list_vnode_ops (\<lambda>f. f)"
  by (simp add: regular_file_def list_vnode_ops_def)

section \<open>Page frames in memory\<close>

text \<open>Bytes of two different page frames do not meet.\<close>

lemma frame_bytes_disjoint:
  assumes "f \<noteq> g" and "i < PAGE_SIZE" and "j < PAGE_SIZE"
  shows "f * PAGE_SIZE + i \<noteq> g * PAGE_SIZE + j"
proof
  assume "f * PAGE_SIZE + i = g * PAGE_SIZE + j"
  then have "(f * PAGE_SIZE + i) div PAGE_SIZE = (g * PAGE_SIZE + j) div PAGE_SIZE" by simp
  with assms show False by simp
qed

lemma frame_byte_range:
  assumes "i < PAGE_SIZE"
  shows "f * PAGE_SIZE \<le> g * PAGE_SIZE + i \<and> g * PAGE_SIZE + i < f * PAGE_SIZE + PAGE_SIZE \<longleftrightarrow> f = g"
  using assms by (auto simp: not_less)

end
