(* ===== verification/Swapfile.thy ===== *)
theory Swapfile
  imports Bitmap Tlb Vnode
begin

text \<open>
  The swap file of \<^verbatim>\<open>kern/vm/swapfile.c\<close>: a file of page-sized slots with a
  bitmap of the slots in use. The state is \<open>swap_st\<close>, the globals \<^verbatim>\<open>swapfile\<close> and
  \<^verbatim>\<open>swapmap\<close> and physical memory on top of the TLB and the counters. \<open>swap_abs\<close>
  is the partial map from slots to pages it stands for; the locale \<open>page_store\<close>
  is the contract the page replacement code relies on, and is interpreted here.
  The spinlock around the bitmap operations has no effect in a sequential
  execution and is left out.
\<close>

section \<open>State and operations\<close>

record 'f swap_st = tlb_st +
  swapmap :: bitmap
  swapfile :: 'f
  ram :: memory

abbreviation (input) SWAPFILE_SIZE :: nat where "SWAPFILE_SIZE \<equiv> 9 * 1024 * 1024"
abbreviation (input) SWAPFILE_NPAGES :: nat where "SWAPFILE_NPAGES \<equiv> 2304"

text \<open>
  \<^verbatim>\<open>swap_bootstrap\<close>: \<open>opened\<close> is the result of \<^verbatim>\<open>vfs_open\<close> with \<^verbatim>\<open>O_TRUNC\<close>,
  \<open>kmalloc_b\<close> and \<open>kmalloc_v\<close> are the outcomes of the two allocations of
  \<^verbatim>\<open>bitmap_create\<close>. A \<^verbatim>\<open>NULL\<close> bitmap is not looked at before its first use, which
  stops the machine.
\<close>

definition swap_bootstrap ::
  "errno + 'f \<Rightarrow> bool \<Rightarrow> bool \<Rightarrow> ('f, 'a) swap_st_scheme \<Rightarrow> ('f, 'a) swap_st_scheme option" where
  "swap_bootstrap opened kmalloc_b kmalloc_v s = do {
     kassert (SWAPFILE_SIZE mod PAGE_SIZE = 0);
     (case opened of
        Inl err \<Rightarrow> None
      | Inr f \<Rightarrow> do {
          b \<leftarrow> bitmap_create kmalloc_b kmalloc_v SWAPFILE_NPAGES;
          m \<leftarrow> b;
          Some (s\<lparr>swapfile := f, swapmap := m\<rparr>)
        })
   }"

definition swap_in ::
  "'f vnode_ops \<Rightarrow> paddr \<Rightarrow> nat \<Rightarrow> ('f, 'a) swap_st_scheme \<Rightarrow> ('f, 'a) swap_st_scheme option" where
  "swap_in vo page_paddr swap_index s = do {
     s \<leftarrow> vmstats_hit VMSTAT_PAGE_FAULT_DISK s;
     s \<leftarrow> vmstats_hit VMSTAT_PAGE_FAULT_SWAP s;
     kassert (unat page_paddr mod PAGE_SIZE = 0);
     kassert (swap_index < SWAPFILE_NPAGES);
     kassert (bitmap_isset (swapmap s) swap_index);
     let swap_offset = (swap_index * PAGE_SIZE) mod 2 ^ 32;
     (case vop_read vo (swapfile s) (int swap_offset) PAGE_SIZE of
        Inl err \<Rightarrow> None
      | Inr bs \<Rightarrow> do {
          let s = s\<lparr>ram := mem_put (ram s) (unat page_paddr) bs\<rparr>;
          kassert (PAGE_SIZE - length bs = 0);
          m \<leftarrow> bitmap_unmark (swapmap s) swap_index;
          Some (s\<lparr>swapmap := m\<rparr>)
        })
   }"

text \<open>\<^verbatim>\<open>swap_out\<close> does not look at the number of bytes the write took.\<close>

definition swap_out ::
  "'f vnode_ops \<Rightarrow> paddr \<Rightarrow> ('f, 'a) swap_st_scheme \<Rightarrow> (nat \<times> ('f, 'a) swap_st_scheme) option" where
  "swap_out vo page_paddr s = do {
     s \<leftarrow> vmstats_hit VMSTAT_SWAP_WRITE s;
     kassert (unat page_paddr mod PAGE_SIZE = 0);
     r \<leftarrow> bitmap_alloc (swapmap s);
     (case r of
        Inl err \<Rightarrow> None
      | Inr (swap_index, m) \<Rightarrow> do {
          let s = s\<lparr>swapmap := m\<rparr>;
          let swap_offset = (swap_index * PAGE_SIZE) mod 2 ^ 32;
          (case vop_write vo (swapfile s) (int swap_offset) (mem_get (ram s) (unat page_paddr) PAGE_SIZE) of
             Inl err \<Rightarrow> None
           | Inr (f, taken) \<Rightarrow> Some (swap_index, s\<lparr>swapfile := f\<rparr>))
        })
   }"

definition swap_free :: "nat \<Rightarrow> ('f, 'a) swap_st_scheme \<Rightarrow> ('f, 'a) swap_st_scheme option" where
  "swap_free swap_index s = do {
     m \<leftarrow> bitmap_unmark (swapmap s) swap_index;
     Some (s\<lparr>swapmap := m\<rparr>)
   }"

section \<open>What the swap file holds\<close>

definition file_page :: "byte list \<Rightarrow> nat \<Rightarrow> byte list" where
  "file_page xs i = take PAGE_SIZE (drop (i * PAGE_SIZE) xs)"

text \<open>The page kept in each slot that is in use.\<close>

definition swap_abs :: "('f \<Rightarrow> byte list) \<Rightarrow> ('f, 'a) swap_st_scheme \<Rightarrow> nat \<rightharpoonup> byte list" where
  "swap_abs content s i =
     (if i \<in> marked (swapmap s) then Some (file_page (content (swapfile s)) i) else None)"

definition swap_ok :: "'f vnode_ops \<Rightarrow> ('f \<Rightarrow> byte list) \<Rightarrow> ('f, 'a) swap_st_scheme \<Rightarrow> bool" where
  "swap_ok vo content s \<longleftrightarrow> regular_file vo content \<and>
     bitmap_ok (swapmap s) \<and> nbits (swapmap s) = SWAPFILE_NPAGES \<and> length (vmstats s) = 10 \<and>
     (\<forall>i \<in> marked (swapmap s). (i + 1) * PAGE_SIZE \<le> length (content (swapfile s)))"

lemma length_file_page: "(i + 1) * PAGE_SIZE \<le> length xs \<Longrightarrow> length (file_page xs i) = PAGE_SIZE"
  by (simp add: file_page_def)

lemma nth_file_page:
  "(i + 1) * PAGE_SIZE \<le> length xs \<Longrightarrow> k < PAGE_SIZE \<Longrightarrow> file_page xs i ! k = xs ! (i * PAGE_SIZE + k)"
  by (simp add: file_page_def)

lemma file_page_put_same:
  assumes "length bs = PAGE_SIZE"
  shows "file_page (file_put xs (i * PAGE_SIZE) bs) i = bs"
proof (rule nth_equalityI)
  have l: "(i + 1) * PAGE_SIZE \<le> length (file_put xs (i * PAGE_SIZE) bs)"
    using assms by (simp add: length_file_put)
  show "length (file_page (file_put xs (i * PAGE_SIZE) bs) i) = length bs"
    using length_file_page [OF l] assms by simp
  fix k
  assume "k < length (file_page (file_put xs (i * PAGE_SIZE) bs) i)"
  with length_file_page [OF l] have k: "k < PAGE_SIZE" by simp
  then show "file_page (file_put xs (i * PAGE_SIZE) bs) i ! k = bs ! k"
    unfolding nth_file_page [OF l k] using assms by (subst nth_file_put) auto
qed

lemma file_page_put_other:
  assumes "length bs = PAGE_SIZE" and "j \<noteq> i" and "(j + 1) * PAGE_SIZE \<le> length xs"
  shows "file_page (file_put xs (i * PAGE_SIZE) bs) j = file_page xs j"
proof (rule nth_equalityI)
  have l: "(j + 1) * PAGE_SIZE \<le> length (file_put xs (i * PAGE_SIZE) bs)"
    using assms(3) by (simp add: length_file_put)
  show "length (file_page (file_put xs (i * PAGE_SIZE) bs) j) = length (file_page xs j)"
    using length_file_page [OF l] length_file_page [OF assms(3)] by simp
  fix k
  assume "k < length (file_page (file_put xs (i * PAGE_SIZE) bs) j)"
  with length_file_page [OF l] have k: "k < PAGE_SIZE" by simp
  have "\<not> (i * PAGE_SIZE \<le> j * PAGE_SIZE + k \<and> j * PAGE_SIZE + k < i * PAGE_SIZE + length bs)"
    using frame_byte_range [OF k, of i j] assms(1,2) by simp
  moreover have "j * PAGE_SIZE + k < length xs" using assms(3) k by simp
  ultimately show "file_page (file_put xs (i * PAGE_SIZE) bs) j ! k = file_page xs j ! k"
    unfolding nth_file_page [OF l k] nth_file_page [OF assms(3) k]
    by (subst nth_file_put) auto
qed

section \<open>Behaviour of the operations\<close>

definition stat_add :: "nat \<Rightarrow> uint32 list \<Rightarrow> uint32 list" where
  "stat_add k xs = xs[k := xs ! k + 1]"

lemma length_stat_add [simp]: "length (stat_add k xs) = length xs"
  by (simp add: stat_add_def)

lemma nth_stat_add:
  "k < length xs \<Longrightarrow> stat_add k xs ! j = (if j = k then xs ! k + 1 else xs ! j)"
  by (simp add: stat_add_def)

lemma vmstats_hit_add: "k < 10 \<Longrightarrow> vmstats_hit k s = Some (s\<lparr>vmstats := stat_add k (vmstats s)\<rparr>)"
  by (simp add: vmstats_hit_eq stat_add_def)

lemma slot_offset: "i < SWAPFILE_NPAGES \<Longrightarrow> (i * PAGE_SIZE) mod 2 ^ 32 = i * PAGE_SIZE"
  by simp

lemma swap_abs_SomeD:
  assumes "swap_ok vo content s" and "swap_abs content s i = Some bs"
  shows "i \<in> marked (swapmap s)" and "i < SWAPFILE_NPAGES" and "length bs = PAGE_SIZE"
    and "bs = file_page (content (swapfile s)) i"
  using assms marked_less [of i "swapmap s"] length_file_page
  by (auto simp: swap_abs_def swap_ok_def split: if_splits)

lemma swap_in_spec:
  assumes ok: "swap_ok vo content s" and pa: "page_aligned pa" and i: "swap_abs content s i = Some bs"
  shows "\<exists>m. swap_in vo pa i s = Some (s\<lparr>
             vmstats := stat_add VMSTAT_PAGE_FAULT_SWAP (stat_add VMSTAT_PAGE_FAULT_DISK (vmstats s)),
             ram := mem_put (ram s) (unat pa) bs, swapmap := m\<rparr>) \<and>
           bitmap_ok m \<and> nbits m = SWAPFILE_NPAGES \<and> marked m = marked (swapmap s) - {i}"
proof -
  note D = swap_abs_SomeD [OF ok i]
  have b: "bitmap_ok (swapmap s)" "nbits (swapmap s) = SWAPFILE_NPAGES" "regular_file vo content"
    using ok by (simp_all add: swap_ok_def)
  obtain m where m: "bitmap_unmark (swapmap s) i = Some m" "bitmap_ok m"
    "nbits m = nbits (swapmap s)" "marked m = marked (swapmap s) - {i}"
    using bm.release_used [OF b(1) D(1)] by blast
  have rd: "vop_read vo (swapfile s) (int (i * PAGE_SIZE)) PAGE_SIZE = Inr bs"
    using regular_file_read [OF b(3), of "swapfile s" "i * PAGE_SIZE" PAGE_SIZE] D(4)
    by (simp add: file_page_def)
  have "swap_in vo pa i s = Some (s\<lparr>
             vmstats := stat_add VMSTAT_PAGE_FAULT_SWAP (stat_add VMSTAT_PAGE_FAULT_DISK (vmstats s)),
             ram := mem_put (ram s) (unat pa) bs, swapmap := m\<rparr>)"
    using D(1-3) pa b m(1) rd
    unfolding swap_in_def Let_def slot_offset [OF D(2)]
    by (simp add: vmstats_hit_add page_aligned_iff bitmap_isset_iff)
  with m b show ?thesis by auto
qed

lemma swap_out_spec:
  assumes ok: "swap_ok vo content s" and pa: "page_aligned pa"
    and room: "marked (swapmap s) \<noteq> {..<SWAPFILE_NPAGES}"
  shows "\<exists>i m f. swap_out vo pa s = Some (i, s\<lparr>vmstats := stat_add VMSTAT_SWAP_WRITE (vmstats s),
             swapmap := m, swapfile := f\<rparr>) \<and>
           i < SWAPFILE_NPAGES \<and> i \<notin> marked (swapmap s) \<and>
           bitmap_ok m \<and> nbits m = SWAPFILE_NPAGES \<and> marked m = insert i (marked (swapmap s)) \<and>
           content f = file_put (content (swapfile s)) (i * PAGE_SIZE) (mem_get (ram s) (unat pa) PAGE_SIZE)"
proof -
  have b: "bitmap_ok (swapmap s)" "nbits (swapmap s) = SWAPFILE_NPAGES" "regular_file vo content"
    using ok by (simp_all add: swap_ok_def)
  obtain i m where m: "bitmap_alloc (swapmap s) = Some (Inr (i, m))" "i < SWAPFILE_NPAGES"
    "i \<notin> marked (swapmap s)" "bitmap_ok m" "nbits m = SWAPFILE_NPAGES"
    "marked m = insert i (marked (swapmap s))"
    using bm.alloc_room [OF b(1)] room b(2) by auto
  let ?bs = "mem_get (ram s) (unat pa) PAGE_SIZE"
  have "i * PAGE_SIZE + length ?bs \<le> MAX_FILE" using m(2) by simp
  then obtain f where f: "vop_write vo (swapfile s) (int (i * PAGE_SIZE)) ?bs = Inr (f, length ?bs)"
    "content f = file_put (content (swapfile s)) (i * PAGE_SIZE) ?bs"
    by (rule regular_file_write [OF b(3)])
  have "swap_out vo pa s = Some (i, s\<lparr>vmstats := stat_add VMSTAT_SWAP_WRITE (vmstats s),
             swapmap := m, swapfile := f\<rparr>)"
    using pa m(1,2) f(1)
    by (simp add: swap_out_def Let_def vmstats_hit_add page_aligned_iff)
  with m f(2) show ?thesis by blast
qed

text \<open>The same in terms of the pages held.\<close>

lemma swap_out_abs:
  fixes s :: "('f, 'a) swap_st_scheme"
  assumes ok: "swap_ok vo content s" and pa: "page_aligned pa"
    and room: "marked (swapmap s) \<noteq> {..<SWAPFILE_NPAGES}"
  shows "\<exists>i m f. swap_out vo pa s = Some (i, s\<lparr>vmstats := stat_add VMSTAT_SWAP_WRITE (vmstats s),
             swapmap := m, swapfile := f\<rparr>) \<and> i < SWAPFILE_NPAGES \<and> swap_abs content s i = None \<and>
           marked m = insert i (marked (swapmap s)) \<and>
           (\<forall>s' :: ('f, 'a) swap_st_scheme. swapmap s' = m \<longrightarrow> swapfile s' = f \<longrightarrow>
              swap_abs content s' = (swap_abs content s)(i \<mapsto> mem_get (ram s) (unat pa) PAGE_SIZE) \<and>
              (length (vmstats s') = 10 \<longrightarrow> swap_ok vo content s'))"
proof -
  let ?bs = "mem_get (ram s) (unat pa) PAGE_SIZE"
  obtain i m f where o: "swap_out vo pa s = Some (i, s\<lparr>vmstats := stat_add VMSTAT_SWAP_WRITE (vmstats s),
             swapmap := m, swapfile := f\<rparr>)" "i < SWAPFILE_NPAGES" "i \<notin> marked (swapmap s)"
    "bitmap_ok m" "nbits m = SWAPFILE_NPAGES" "marked m = insert i (marked (swapmap s))"
    "content f = file_put (content (swapfile s)) (i * PAGE_SIZE) ?bs"
    using swap_out_spec [OF assms] by blast
  have old: "(j + 1) * PAGE_SIZE \<le> length (content (swapfile s))" if "j \<in> marked (swapmap s)" for j
    using ok that by (simp add: swap_ok_def)
  have "file_page (content f) j = file_page (content (swapfile s)) j" if "j \<in> marked (swapmap s)" for j
    unfolding o(7) using that o(3) by (intro file_page_put_other old) auto
  moreover have "file_page (content f) i = ?bs"
    unfolding o(7) by (rule file_page_put_same) simp
  ultimately have abs: "swap_abs content s' = (swap_abs content s)(i \<mapsto> ?bs)"
    if "swapmap s' = m" "swapfile s' = f" for s' :: "('f, 'a) swap_st_scheme"
    using that o(6) by (auto simp: swap_abs_def fun_eq_iff)
  have len: "\<forall>j \<in> marked m. (j + 1) * PAGE_SIZE \<le> length (content f)"
    unfolding o(6,7) length_file_put using old by fastforce
  have "swap_ok vo content s'" if "swapmap s' = m" "swapfile s' = f" "length (vmstats s') = 10"
    for s' :: "('f, 'a) swap_st_scheme"
    using ok that o(4,5) len by (simp add: swap_ok_def)
  with abs o show ?thesis
    by (intro exI [of _ i] exI [of _ m] exI [of _ f]) (simp add: swap_abs_def)
qed

lemma swap_in_abs:
  fixes s :: "('f, 'a) swap_st_scheme"
  assumes ok: "swap_ok vo content s" and pa: "page_aligned pa" and i: "swap_abs content s i = Some bs"
  shows "\<exists>m. swap_in vo pa i s = Some (s\<lparr>
             vmstats := stat_add VMSTAT_PAGE_FAULT_SWAP (stat_add VMSTAT_PAGE_FAULT_DISK (vmstats s)),
             ram := mem_put (ram s) (unat pa) bs, swapmap := m\<rparr>) \<and>
           marked m = marked (swapmap s) - {i} \<and>
           (\<forall>s' :: ('f, 'a) swap_st_scheme. swapmap s' = m \<longrightarrow> swapfile s' = swapfile s \<longrightarrow>
              swap_abs content s' = (swap_abs content s)(i := None) \<and>
              (length (vmstats s') = 10 \<longrightarrow> swap_ok vo content s'))"
proof -
  from swap_in_spec [OF assms] obtain m where m: "swap_in vo pa i s = Some (s\<lparr>
             vmstats := stat_add VMSTAT_PAGE_FAULT_SWAP (stat_add VMSTAT_PAGE_FAULT_DISK (vmstats s)),
             ram := mem_put (ram s) (unat pa) bs, swapmap := m\<rparr>)" "bitmap_ok m"
    "nbits m = SWAPFILE_NPAGES" "marked m = marked (swapmap s) - {i}"
    by blast
  with ok show ?thesis by (intro exI [of _ m]) (auto simp: swap_abs_def swap_ok_def fun_eq_iff)
qed

lemma swap_free_abs:
  fixes s :: "('f, 'a) swap_st_scheme"
  assumes ok: "swap_ok vo content s" and i: "swap_abs content s i = Some bs"
  shows "\<exists>m. swap_free i s = Some (s\<lparr>swapmap := m\<rparr>) \<and> marked m = marked (swapmap s) - {i} \<and>
           (\<forall>s' :: ('f, 'a) swap_st_scheme. swapmap s' = m \<longrightarrow> swapfile s' = swapfile s \<longrightarrow>
              swap_abs content s' = (swap_abs content s)(i := None) \<and>
              (length (vmstats s') = 10 \<longrightarrow> swap_ok vo content s'))"
proof -
  have b: "bitmap_ok (swapmap s)" "nbits (swapmap s) = SWAPFILE_NPAGES"
    using ok by (simp_all add: swap_ok_def)
  obtain m where m: "bitmap_unmark (swapmap s) i = Some m" "bitmap_ok m"
    "nbits m = nbits (swapmap s)" "marked m = marked (swapmap s) - {i}"
    using bm.release_used [OF b(1) swap_abs_SomeD(1) [OF ok i]] by blast
  with ok b show ?thesis
    by (intro exI [of _ m]) (auto simp: swap_free_def swap_abs_def swap_ok_def fun_eq_iff)
qed

section \<open>The contract of a page store\<close>

text \<open>
  What page replacement relies on: swapping out puts the page at \<open>pa\<close> into a slot
  that was empty, swapping in fetches the page of a slot into the frame at \<open>pa\<close>
  and empties the slot, and a slot that is not in use cannot be read or freed.
\<close>

locale page_store =
  fixes inv :: "'s \<Rightarrow> bool"
    and cap :: nat
    and slots :: "'s \<Rightarrow> nat \<rightharpoonup> byte list"
    and page :: "'s \<Rightarrow> paddr \<Rightarrow> byte list"
    and out :: "paddr \<Rightarrow> 's \<Rightarrow> (nat \<times> 's) option"
    and fetch :: "paddr \<Rightarrow> nat \<Rightarrow> 's \<Rightarrow> 's option"
    and free :: "nat \<Rightarrow> 's \<Rightarrow> 's option"
  assumes slots_less: "inv s \<Longrightarrow> dom (slots s) \<subseteq> {..<cap}"
    and out_room: "inv s \<Longrightarrow> page_aligned pa \<Longrightarrow> dom (slots s) \<noteq> {..<cap} \<Longrightarrow>
      \<exists>i s'. out pa s = Some (i, s') \<and> inv s' \<and> slots s i = None \<and>
        slots s' = (slots s)(i \<mapsto> page s pa) \<and> page s' = page s"
    and out_full: "inv s \<Longrightarrow> dom (slots s) = {..<cap} \<Longrightarrow> out pa s = None"
    and fetch_law: "inv s \<Longrightarrow> page_aligned pa \<Longrightarrow> slots s i = Some bs \<Longrightarrow>
      \<exists>s'. fetch pa i s = Some s' \<and> inv s' \<and> slots s' = (slots s)(i := None) \<and>
        page s' pa = bs \<and> (\<forall>pb. page_aligned pb \<longrightarrow> pb \<noteq> pa \<longrightarrow> page s' pb = page s pb)"
    and fetch_empty: "inv s \<Longrightarrow> slots s i = None \<Longrightarrow> fetch pa i s = None"
    and free_law: "inv s \<Longrightarrow> slots s i = Some bs \<Longrightarrow>
      \<exists>s'. free i s = Some s' \<and> inv s' \<and> slots s' = (slots s)(i := None) \<and> page s' = page s"
    and free_empty: "inv s \<Longrightarrow> slots s i = None \<Longrightarrow> free i s = None"
begin

lemma out_fetch:
  assumes "inv s" and "page_aligned pa" and "page_aligned pb" and "dom (slots s) \<noteq> {..<cap}"
  shows "\<exists>i s1 s2. out pa s = Some (i, s1) \<and> fetch pb i s1 = Some s2 \<and> inv s2 \<and>
     slots s2 = slots s \<and> page s2 pb = page s pa \<and>
     (\<forall>pc. page_aligned pc \<longrightarrow> pc \<noteq> pb \<longrightarrow> page s2 pc = page s pc)"
proof -
  obtain i s1 where o: "out pa s = Some (i, s1)" "inv s1" "slots s i = None"
    "slots s1 = (slots s)(i \<mapsto> page s pa)" "page s1 = page s"
    using out_room [OF assms(1,2,4)] by (elim exE conjE) (rule that)
  have "slots s1 i = Some (page s pa)" using o(4) by simp
  from fetch_law [OF o(2) assms(3) this]
  obtain s2 where f: "fetch pb i s1 = Some s2" "inv s2" "slots s2 = (slots s1)(i := None)"
    "page s2 pb = page s pa" "\<forall>pc. page_aligned pc \<longrightarrow> pc \<noteq> pb \<longrightarrow> page s2 pc = page s1 pc"
    by (elim exE conjE) (rule that)
  have "slots s2 = slots s" unfolding f(3) o(4) using o(3) by (simp add: fun_upd_idem)
  with o f show ?thesis by metis
qed

text \<open>Two fetches of the same slot, or a fetch after a free, stop the machine.\<close>

lemma fetch_twice: "inv s \<Longrightarrow> page_aligned pa \<Longrightarrow> fetch pa i s = Some s' \<Longrightarrow> fetch pb i s' = None"
proof -
  assume i: "inv s" and pa: "page_aligned pa" and f: "fetch pa i s = Some s'"
  obtain bs where "slots s i = Some bs" using fetch_empty [OF i] f by (cases "slots s i") auto
  from fetch_law [OF i pa this] f have "inv s'" "slots s' i = None" by auto
  then show ?thesis by (rule fetch_empty)
qed

end

definition ram_page :: "('f, 'a) swap_st_scheme \<Rightarrow> paddr \<Rightarrow> byte list" where
  "ram_page s pa = mem_get (ram s) (unat pa) PAGE_SIZE"

lemma ram_page_put_same: "length bs = PAGE_SIZE \<Longrightarrow> mem_get (mem_put m a bs) a PAGE_SIZE = bs"
  by (rule nth_equalityI) (simp_all add: mem_put_in)

lemma ram_page_put_other:
  assumes "page_aligned pa" and "page_aligned pb" and "pb \<noteq> pa" and "length bs = PAGE_SIZE"
  shows "mem_get (mem_put m (unat pa) bs) (unat pb) PAGE_SIZE = mem_get m (unat pb) PAGE_SIZE"
proof (rule nth_equalityI)
  fix i
  assume "i < length (mem_get (mem_put m (unat pa) bs) (unat pb) PAGE_SIZE)"
  then have i: "i < PAGE_SIZE" by simp
  obtain f g where fg: "unat pa = f * PAGE_SIZE" "unat pb = g * PAGE_SIZE"
    using assms(1,2) by (auto simp: page_aligned_iff mod_eq_0_iff_dvd elim!: dvdE)
  with assms(3) have "f \<noteq> g" by (metis word_unat_eq_iff)
  with frame_byte_range [OF i, of f g] have "unat pb + i < unat pa \<or> unat pa + length bs \<le> unat pb + i"
    unfolding fg assms(4) by linarith
  with i show "mem_get (mem_put m (unat pa) bs) (unat pb) PAGE_SIZE ! i = mem_get m (unat pb) PAGE_SIZE ! i"
    by (simp add: mem_put_out)
qed simp

lemma dom_swap_abs: "dom (swap_abs content s) = marked (swapmap s)"
  by (auto simp: swap_abs_def dom_def)

lemma swap_out_full:
  assumes "swap_ok vo content s" and "marked (swapmap s) = {..<SWAPFILE_NPAGES}"
  shows "swap_out vo pa s = None"
proof -
  have "bitmap_alloc (swapmap s) = Some (Inl ENOSPC)"
    using assms by (intro bm.alloc_full) (simp_all add: swap_ok_def)
  then show ?thesis by (simp add: swap_out_def vmstats_hit_add Let_def kassert_def)
qed

lemma swap_in_empty:
  assumes "swap_ok vo content s" and "swap_abs content s i = None"
  shows "swap_in vo pa i s = None"
proof (cases "i < SWAPFILE_NPAGES")
  case True
  with assms have "\<not> bitmap_isset (swapmap s) i"
    by (simp add: bitmap_isset_iff swap_ok_def swap_abs_def split: if_splits)
  then show ?thesis by (simp add: swap_in_def vmstats_hit_add Let_def kassert_def)
qed (simp add: swap_in_def vmstats_hit_add Let_def kassert_def)

interpretation ps: page_store "swap_ok vo content" SWAPFILE_NPAGES "swap_abs content" ram_page
    "swap_out vo" "swap_in vo" swap_free for vo content
proof (unfold_locales, goal_cases)
  case (1 s)
  then show ?case using marked_less [of _ "swapmap s"] by (auto simp: dom_swap_abs swap_ok_def)
next
  case (2 s pa)
  from 2(1) have "length (vmstats s) = 10" by (simp add: swap_ok_def)
  with swap_out_abs [OF 2(1,2)] 2(3) show ?case
    unfolding dom_swap_abs by (fastforce simp: ram_page_def fun_eq_iff)
next
  case (3 s pa)
  then show ?case by (simp add: dom_swap_abs swap_out_full)
next
  case (4 s pa i bs)
  from 4(1) have "length (vmstats s) = 10" by (simp add: swap_ok_def)
  with swap_in_abs [OF 4] swap_abs_SomeD(3) [OF 4(1,3)] show ?case
    by (fastforce simp: ram_page_def ram_page_put_same ram_page_put_other [OF 4(2)])
next
  case (5 s i pa)
  then show ?case by (rule swap_in_empty)
next
  case (6 s i bs)
  from 6(1) have "length (vmstats s) = 10" by (simp add: swap_ok_def)
  with swap_free_abs [OF 6] show ?case by (fastforce simp: ram_page_def fun_eq_iff)
next
  case (7 s i)
  then show ?case by (simp add: swap_free_def bm.release_unused swap_ok_def swap_abs_def split: if_splits)
qed

section \<open>Booting\<close>

text \<open>The bitmap of a swap file with no slot in use, and a state with it for concrete runs.\<close>

definition swapmap_empty :: bitmap where
  "swapmap_empty = \<lparr>nbits = SWAPFILE_NPAGES, bm_v = replicate 288 0\<rparr>"

lemma swapmap_empty_ok:
  "bitmap_ok swapmap_empty" "nbits swapmap_empty = SWAPFILE_NPAGES" "marked swapmap_empty = {}"
  by (auto simp: swapmap_empty_def bitmap_ok_def marked_def less_mult_imp_div_less)

lemma swap_bootstrap_ok:
  assumes "regular_file vo content" and "length (vmstats s) = 10"
  shows "\<exists>s'. swap_bootstrap (Inr f) True True s = Some s' \<and> swap_ok vo content s' \<and>
           swap_abs content s' = Map.empty \<and> swapfile s' = f \<and> ram s' = ram s"
proof -
  obtain b where "bitmap_create True True SWAPFILE_NPAGES = Some (Some b)" "bitmap_ok b"
    "nbits b = SWAPFILE_NPAGES" "marked b = {}"
    using bitmap_create_fresh [of SWAPFILE_NPAGES] by auto
  with assms show ?thesis
    by (simp add: swap_bootstrap_def swap_ok_def swap_abs_def fun_eq_iff)
qed

definition swap_example :: "byte list swap_st" where
  "swap_example = \<lparr>vmstats = replicate 10 0, tlb = tlb_empty, tlb_victim = 0, tlb_free = True,
     swapmap = swapmap_empty, swapfile = [], ram = (\<lambda>a. of_nat a)\<rparr>"

lemma swap_example_ok: "swap_ok list_vnode_ops (\<lambda>f. f) swap_example"
  by (simp add: swap_ok_def swap_example_def swapmap_empty_ok list_vnode_ops_regular)

section \<open>Properties\<close>

text \<open>
  Claim C10: while a slot is free, \<^verbatim>\<open>swap_out\<close> of the page at \<open>pa\<close> followed by
  \<^verbatim>\<open>swap_in\<close> of the slot it returned into the frame at \<open>pb\<close> succeeds; afterwards
  the frame at \<open>pb\<close> holds the bytes the frame at \<open>pa\<close> had, every other frame and
  every page kept in the swap file are unchanged, and the slot is free again.
\<close>

theorem swap_out_swap_in:
  assumes "swap_ok vo content s" and "page_aligned pa" and "page_aligned pb"
    and "marked (swapmap s) \<noteq> {..<SWAPFILE_NPAGES}"
  shows "\<exists>i s1 s2. swap_out vo pa s = Some (i, s1) \<and> swap_in vo pb i s1 = Some s2 \<and>
           swap_ok vo content s2 \<and> ram_page s2 pb = ram_page s pa \<and>
           (\<forall>pc. page_aligned pc \<longrightarrow> pc \<noteq> pb \<longrightarrow> ram_page s2 pc = ram_page s pc) \<and>
           swap_abs content s2 = swap_abs content s"
  using ps.out_fetch [OF assms(1-3)] assms(4) unfolding dom_swap_abs by fastforce

theorem swap_out_swap_in_witness:
  "\<exists>i s1 s2. swap_out list_vnode_ops 0x1000 swap_example = Some (i, s1) \<and>
     swap_in list_vnode_ops 0x3000 i s1 = Some s2 \<and>
     ram_page s2 0x3000 = ram_page swap_example 0x1000 \<and>
     swap_abs (\<lambda>f. f) s2 = swap_abs (\<lambda>f. f) swap_example"
proof -
  have "page_aligned 0x1000" "page_aligned 0x3000" by (simp_all add: page_aligned_def PAGE_FRAME_def)
  moreover have "marked (swapmap swap_example) \<noteq> {..<SWAPFILE_NPAGES}"
    by (simp add: swap_example_def swapmap_empty_ok lessThan_empty_iff eq_commute [of "{}"])
  ultimately show ?thesis using swap_out_swap_in [OF swap_example_ok, of "0x1000" "0x3000"] by blast
qed

end
