(* ===== verification/Pagetable.thy ===== *)
theory Pagetable
  imports Swapfile
begin

text \<open>
  Page table entries of \<^verbatim>\<open>kern/vm/pt.c\<close> and \<^verbatim>\<open>kern/include/pt.h\<close>. A page table is an
  array on the kernel heap, so the state keeps the tables under numbers and a
  \<^verbatim>\<open>struct pt_entry *\<close> is a pair of the number of a table and an index: the core
  map and the fault handler share entries through such pointers.
\<close>

datatype pt_status = NOT_LOADED | IN_MEMORY | IN_SWAP | IN_MEMORY_RDONLY

record pt_entry =
  pt_frame_index :: nat
  pt_swap_index :: nat
  pt_status :: pt_status

type_synonym pt_ptr = "nat \<times> nat"

text \<open>\<^verbatim>\<open>pt_create\<close>: the result \<^const>\<open>None\<close> is the \<^verbatim>\<open>NULL\<close> of a failed \<^verbatim>\<open>kmalloc\<close>.\<close>

definition pt_create :: "bool \<Rightarrow> nat \<Rightarrow> pt_entry list option" where
  "pt_create kmalloc_ok pagetable_size =
     (if \<not> kmalloc_ok then None
      else Some (map (\<lambda>i. \<lparr>pt_frame_index = 0, pt_swap_index = 0, pt_status = NOT_LOADED\<rparr>)
                     [0..<pagetable_size]))"

text \<open>The bit fields keep 20 bits of the frame number and 12 bits of the slot number.\<close>

definition pt_set_entry :: "pt_entry \<Rightarrow> paddr \<Rightarrow> nat \<Rightarrow> pt_status \<Rightarrow> pt_entry option" where
  "pt_set_entry pt_row paddr swap_index status = do {
     kassert (status = IN_MEMORY \<or> status = IN_MEMORY_RDONLY \<or> status = IN_SWAP \<or> status = NOT_LOADED);
     kassert (swap_index < 0xfff);
     Some (pt_row\<lparr>pt_frame_index := (unat paddr div PAGE_SIZE) mod 2 ^ 20,
                  pt_swap_index := swap_index mod 2 ^ 12, pt_status := status\<rparr>)
   }"

section \<open>Page tables on the heap\<close>

record 'f pt_st = "'f swap_st" +
  ptables :: "nat \<Rightarrow> pt_entry list option"

definition pt_read :: "('f, 'a) pt_st_scheme \<Rightarrow> pt_ptr \<Rightarrow> pt_entry option" where
  "pt_read s p = (case ptables s (fst p) of
     None \<Rightarrow> None
   | Some es \<Rightarrow> if snd p < length es then Some (es ! snd p) else None)"

definition pt_write :: "pt_ptr \<Rightarrow> pt_entry \<Rightarrow> ('f, 'a) pt_st_scheme \<Rightarrow> ('f, 'a) pt_st_scheme" where
  "pt_write p e s = (case ptables s (fst p) of
     None \<Rightarrow> s
   | Some es \<Rightarrow> s\<lparr>ptables := (ptables s)(fst p \<mapsto> es[snd p := e])\<rparr>)"

text \<open>\<^verbatim>\<open>pt_set_entry\<close> through a pointer.\<close>

definition pt_set :: "pt_ptr \<Rightarrow> paddr \<Rightarrow> nat \<Rightarrow> pt_status \<Rightarrow>
    ('f, 'a) pt_st_scheme \<Rightarrow> ('f, 'a) pt_st_scheme option" where
  "pt_set p paddr swap_index status s = do {
     e \<leftarrow> pt_read s p;
     e \<leftarrow> pt_set_entry e paddr swap_index status;
     Some (pt_write p e s)
   }"

lemma pt_write_fields [simp]:
  "vmstats (pt_write p e s) = vmstats s" "tlb (pt_write p e s) = tlb s"
  "tlb_victim (pt_write p e s) = tlb_victim s" "tlb_free (pt_write p e s) = tlb_free s"
  "swapmap (pt_write p e s) = swapmap s" "swapfile (pt_write p e s) = swapfile s"
  "ram (pt_write p e s) = ram s" "pt_st.more (pt_write p e s) = pt_st.more s"
  by (simp_all add: pt_write_def split: option.split)

lemma pt_read_write:
  "pt_read s p = Some e0 \<Longrightarrow> pt_read (pt_write p e s) q = (if q = p then Some e else pt_read s q)"
  by (cases p, cases q) (auto simp: pt_read_def pt_write_def split: option.splits if_splits)

lemma pt_tables_write:
  "pt_read s p = Some e0 \<Longrightarrow> ptables (pt_write p e s) t = None \<longleftrightarrow> ptables s t = None"
  "pt_read s p = Some e0 \<Longrightarrow>
     map_option length (ptables (pt_write p e s) t) = map_option length (ptables s t)"
  by (auto simp: pt_read_def pt_write_def split: option.splits if_splits)

lemma pt_read_cong: "ptables s = ptables s' \<Longrightarrow> pt_read s = pt_read s'"
  by (simp add: pt_read_def fun_eq_iff)

lemma pt_set_eq:
  assumes "pt_read s p = Some e" and "i < 0xfff"
  shows "pt_set p pa i st s = Some (pt_write p \<lparr>pt_frame_index = (unat pa div PAGE_SIZE) mod 2 ^ 20,
     pt_swap_index = i, pt_status = st\<rparr> s)"
proof -
  have "i mod 2 ^ 12 = i" using assms(2) by simp
  moreover have "st = IN_MEMORY \<or> st = IN_MEMORY_RDONLY \<or> st = IN_SWAP \<or> st = NOT_LOADED"
    by (cases st) simp_all
  ultimately show ?thesis
    using assms by (cases e) (simp add: pt_set_def pt_set_entry_def)
qed

text \<open>The page is in a frame of memory.\<close>

definition in_mem :: "pt_entry \<Rightarrow> bool" where
  "in_mem e \<longleftrightarrow> pt_status e = IN_MEMORY \<or> pt_status e = IN_MEMORY_RDONLY"

end
