(* ===== verification/Coremap.thy ===== *)
theory Coremap
  imports Pagetable
begin

text \<open>
  The core map of \<^verbatim>\<open>kern/vm/coremap.c\<close>: one entry for each frame of physical memory,
  the search for free frames, the choice of a victim, and page replacement. The
  state \<open>vm_st\<close> adds the globals \<^verbatim>\<open>coremap\<close> and \<^verbatim>\<open>victim_index\<close> to the page tables; the
  length of \<open>coremap\<close> is \<^verbatim>\<open>nRamFrames\<close>. As in the source \<open>cm_free\<close> is set for a
  frame in use. The functions run to completion one after the other, so the
  spinlock \<^verbatim>\<open>cm_spinlock\<close> is left out; \<open>cm_lock\<close> is kept.
\<close>

section \<open>State\<close>

record cm_entry =
  cm_free :: bool
  cm_size_alloc :: nat
  cm_lock :: bool
  cm_ptentry :: "pt_ptr option"

record 'f vm_st = "'f pt_st" +
  coremap :: "cm_entry list"
  victim_index :: nat

section \<open>Operations\<close>

text \<open>
  \<^verbatim>\<open>coremap_bootstrap\<close>: \<open>ramsize\<close> is the result of \<^verbatim>\<open>mainbus_ramsize\<close>, \<open>firstfree\<close> the
  address \<^verbatim>\<open>start.S\<close> saved, \<open>entry_size\<close> is \<^verbatim>\<open>sizeof(struct cm_entry)\<close>. Marking more frames
  than there are writes past the map, which does not return here.
\<close>

definition coremap_bootstrap ::
  "paddr \<Rightarrow> vaddr \<Rightarrow> nat \<Rightarrow> ('f, 'a) vm_st_scheme \<Rightarrow> ('f, 'a) vm_st_scheme option" where
  "coremap_bootstrap ramsize firstfree entry_size s = do {
     let lastpaddr = (if ramsize > 512 * 1024 * 1024 then 512 * 1024 * 1024 else ramsize);
     let firstpaddr = KVADDR_TO_PADDR firstfree;
     kassert (unat lastpaddr mod PAGE_SIZE = 0);
     kassert (unat firstpaddr mod PAGE_SIZE = 0);
     let nRamFrames = unat lastpaddr div PAGE_SIZE;
     let coremap_size = entry_size * nRamFrames;
     let coremap_pages = (coremap_size + PAGE_SIZE - 1) div PAGE_SIZE;
     let kernel_pages = unat firstpaddr div PAGE_SIZE;
     let cm = replicate nRamFrames
                \<lparr>cm_free = False, cm_size_alloc = 0, cm_lock = False, cm_ptentry = None\<rparr>;
     kassert (kernel_pages + coremap_pages \<le> nRamFrames);
     let cm = fold (\<lambda>i cm. cm[i := (cm ! i)\<lparr>cm_free := True, cm_size_alloc := 1\<rparr>])
                [0..<kernel_pages + coremap_pages] cm;
     Some (s\<lparr>coremap := cm\<rparr>)
   }"

partial_function (option) coremap_find_loop ::
  "cm_entry list \<Rightarrow> nat \<Rightarrow> nat \<Rightarrow> int \<Rightarrow> (nat \<times> int) option" where
  "coremap_find_loop cm npages end beginning =
     (if end < length cm then
        if cm_free (cm ! end) then
          coremap_find_loop cm npages (end + cm_size_alloc (cm ! end)) (- 1)
        else
          let beginning = (if beginning = - 1 then int end else beginning);
              end = end + 1
          in if int end - beginning = int npages then Some (end, beginning)
             else coremap_find_loop cm npages end beginning
      else Some (end, beginning))"

text \<open>\<^verbatim>\<open>coremap_find_freeframes\<close>: the index of the first frame, or \<open>-1\<close>.\<close>

definition coremap_find_freeframes :: "nat \<Rightarrow> cm_entry list \<Rightarrow> int option" where
  "coremap_find_freeframes npages cm = do {
     (end, beginning) \<leftarrow> coremap_find_loop cm npages 0 (- 1);
     let beginning = (if int end - beginning \<noteq> int npages then - 1 else beginning);
     Some beginning
   }"

primrec coremap_get_victim_loop ::
  "nat \<Rightarrow> ('f, 'a) vm_st_scheme \<Rightarrow> (int \<times> ('f, 'a) vm_st_scheme) option" where
  "coremap_get_victim_loop 0 s = Some (- 1, s)"
| "coremap_get_victim_loop (Suc n) s =
     (let s = s\<lparr>victim_index := (victim_index s + 1) mod length (coremap s)\<rparr>;
          e = coremap s ! victim_index s
      in if cm_ptentry e \<noteq> None \<and> \<not> cm_lock e then do {
           kassert (cm_free e);
           kassert (cm_size_alloc e = 1);
           Some (int (victim_index s), s)
         }
         else coremap_get_victim_loop n s)"

definition coremap_get_victim ::
  "('f, 'a) vm_st_scheme \<Rightarrow> (int \<times> ('f, 'a) vm_st_scheme) option" where
  "coremap_get_victim s = coremap_get_victim_loop (length (coremap s)) s"

definition cm_set_lock :: "nat \<Rightarrow> bool \<Rightarrow> ('f, 'a) vm_st_scheme \<Rightarrow> ('f, 'a) vm_st_scheme" where
  "cm_set_lock i b s = s\<lparr>coremap := (coremap s)[i := (coremap s ! i)\<lparr>cm_lock := b\<rparr>]\<rparr>"

definition coremap_swapout ::
  "'f vnode_ops \<Rightarrow> nat \<Rightarrow> ('f, 'a) vm_st_scheme \<Rightarrow> (int \<times> ('f, 'a) vm_st_scheme) option" where
  "coremap_swapout vo npages s = do {
     kassert (\<not> npages > 1);
     (victim, s) \<leftarrow> coremap_get_victim s;
     kassert (victim \<noteq> - 1);
     let vi = nat victim;
     p \<leftarrow> cm_ptentry (coremap s ! vi);
     e \<leftarrow> pt_read s p;
     if pt_status e = IN_MEMORY_RDONLY then do {
       s \<leftarrow> pt_set p 0 0 NOT_LOADED s;
       s \<leftarrow> tlb_remove_by_paddr (frame_addr vi) s;
       Some (victim, s)
     }
     else do {
       let s = cm_set_lock vi True s;
       (swap_index, s) \<leftarrow> swap_out vo (frame_addr vi) s;
       let s = cm_set_lock vi False s;
       p \<leftarrow> cm_ptentry (coremap s ! vi);
       s \<leftarrow> pt_set p 0 swap_index IN_SWAP s;
       s \<leftarrow> tlb_remove_by_paddr (frame_addr vi) s;
       Some (victim, s)
     }
   }"

definition coremap_mark :: "nat \<Rightarrow> nat \<Rightarrow> pt_ptr option \<Rightarrow> cm_entry list \<Rightarrow> cm_entry list" where
  "coremap_mark beginning npages ptentry cm =
     fold (\<lambda>i cm. cm[beginning + i := (cm ! (beginning + i))\<lparr>cm_free := True, cm_ptentry := ptentry\<rparr>])
       [0..<npages]
       (cm[beginning := (cm ! beginning)\<lparr>cm_size_alloc := npages mod 2 ^ 20\<rparr>])"

definition coremap_getppages ::
  "'f vnode_ops \<Rightarrow> nat \<Rightarrow> pt_ptr option \<Rightarrow> ('f, 'a) vm_st_scheme \<Rightarrow> (paddr \<times> ('f, 'a) vm_st_scheme) option" where
  "coremap_getppages vo npages ptentry s = do {
     beginning \<leftarrow> coremap_find_freeframes npages (coremap s);
     (beginning, s) \<leftarrow> (if beginning = - 1 then coremap_swapout vo npages s else Some (beginning, s));
     if beginning = - 1 then Some (0, s)
     else do {
       let b = nat beginning;
       let s = s\<lparr>ram := bzero (b * PAGE_SIZE) (PAGE_SIZE * npages) (ram s)\<rparr>;
       let s = s\<lparr>coremap := coremap_mark b npages ptentry (coremap s)\<rparr>;
       Some (frame_addr b, s)
     }
   }"

fun coremap_free_loop :: "nat \<Rightarrow> nat \<Rightarrow> cm_entry list \<Rightarrow> cm_entry list option" where
  "coremap_free_loop 0 i cm = Some cm"
| "coremap_free_loop (Suc k) i cm = do {
     kassert (i < length cm);
     kassert (cm_free (cm ! i));
     coremap_free_loop k (i + 1) (cm[i := (cm ! i)\<lparr>cm_free := False\<rparr>])
   }"

text \<open>
  \<^verbatim>\<open>coremap_freeppages\<close>: an address past the end of memory makes it read and clear an
  entry past the map before the assertion stops the machine.
\<close>

definition coremap_freeppages :: "paddr \<Rightarrow> ('f, 'a) vm_st_scheme \<Rightarrow> ('f, 'a) vm_st_scheme option" where
  "coremap_freeppages addr s = do {
     kassert (unat addr mod PAGE_SIZE = 0);
     let first = unat addr div PAGE_SIZE;
     kassert (length (coremap s) > first);
     let allocSize = cm_size_alloc (coremap s ! first);
     let s = s\<lparr>coremap := (coremap s)[first := (coremap s ! first)\<lparr>cm_size_alloc := 0\<rparr>]\<rparr>;
     kassert (allocSize > 0);
     cm \<leftarrow> coremap_free_loop allocSize first (coremap s);
     Some (s\<lparr>coremap := cm\<rparr>)
   }"

section \<open>Blocks of frames\<close>

text \<open>
  Frames are allocated in blocks; the first frame of a block holds its size. A free
  frame has size 0, a block lies inside the map and its other frames are in use
  with size 0, and every frame in use belongs to a block.
\<close>

definition frames_ok :: "cm_entry list \<Rightarrow> bool" where
  "frames_ok cm \<longleftrightarrow>
     (\<forall>i < length cm. \<not> cm_free (cm ! i) \<longrightarrow> cm_size_alloc (cm ! i) = 0) \<and>
     (\<forall>i < length cm. 0 < cm_size_alloc (cm ! i) \<longrightarrow> i + cm_size_alloc (cm ! i) \<le> length cm \<and>
        (\<forall>j. i < j \<and> j < i + cm_size_alloc (cm ! i) \<longrightarrow> cm_free (cm ! j) \<and> cm_size_alloc (cm ! j) = 0)) \<and>
     (\<forall>i < length cm. cm_free (cm ! i) \<longrightarrow> (\<exists>h \<le> i. i < h + cm_size_alloc (cm ! h)))"

definition free_run :: "cm_entry list \<Rightarrow> nat \<Rightarrow> nat \<Rightarrow> bool" where
  "free_run cm b n \<longleftrightarrow> b + n \<le> length cm \<and> (\<forall>i. b \<le> i \<and> i < b + n \<longrightarrow> \<not> cm_free (cm ! i))"

text \<open>No block spans the boundary before frame \<open>k\<close>.\<close>

definition block_boundary :: "cm_entry list \<Rightarrow> nat \<Rightarrow> bool" where
  "block_boundary cm k \<longleftrightarrow> (\<forall>h < k. h < length cm \<longrightarrow> h + cm_size_alloc (cm ! h) \<le> k)"

lemma frames_ok_free: "frames_ok cm \<Longrightarrow> i < length cm \<Longrightarrow> \<not> cm_free (cm ! i) \<Longrightarrow> cm_size_alloc (cm ! i) = 0"
  unfolding frames_ok_def by blast

lemma frames_ok_block:
  assumes "frames_ok cm" and "i < length cm" and "0 < cm_size_alloc (cm ! i)"
  shows "i + cm_size_alloc (cm ! i) \<le> length cm"
    and "i < j \<Longrightarrow> j < i + cm_size_alloc (cm ! i) \<Longrightarrow> cm_free (cm ! j) \<and> cm_size_alloc (cm ! j) = 0"
    and "cm_free (cm ! i)"
proof -
  have "i + cm_size_alloc (cm ! i) \<le> length cm \<and>
      (\<forall>j. i < j \<and> j < i + cm_size_alloc (cm ! i) \<longrightarrow> cm_free (cm ! j) \<and> cm_size_alloc (cm ! j) = 0)"
    using assms unfolding frames_ok_def by blast
  then show "i + cm_size_alloc (cm ! i) \<le> length cm"
    and "i < j \<Longrightarrow> j < i + cm_size_alloc (cm ! i) \<Longrightarrow> cm_free (cm ! j) \<and> cm_size_alloc (cm ! j) = 0"
    by blast+
  show "cm_free (cm ! i)" using frames_ok_free [OF assms(1,2)] assms(3) by auto
qed

lemma frames_ok_head:
  assumes "frames_ok cm" and "i < length cm" and "cm_free (cm ! i)"
  obtains h where "h \<le> i" and "i < h + cm_size_alloc (cm ! h)"
  using assms unfolding frames_ok_def by blast

lemma boundary_used:
  assumes "frames_ok cm" and "block_boundary cm k" and "k < length cm" and "cm_free (cm ! k)"
  shows "0 < cm_size_alloc (cm ! k)"
proof -
  obtain h where h: "h \<le> k" "k < h + cm_size_alloc (cm ! h)" by (rule frames_ok_head [OF assms(1,3,4)])
  with assms(2,3) have "h = k" unfolding block_boundary_def by (metis le_neq_implies_less less_trans not_le)
  with h show ?thesis by simp
qed

lemma boundary_step:
  assumes "frames_ok cm" and "block_boundary cm k" and "k < length cm"
  shows "cm_free (cm ! k) \<Longrightarrow> block_boundary cm (k + cm_size_alloc (cm ! k))"
    and "\<not> cm_free (cm ! k) \<Longrightarrow> block_boundary cm (k + 1)"
proof -
  assume u: "cm_free (cm ! k)"
  let ?n = "cm_size_alloc (cm ! k)"
  have n: "0 < ?n" by (rule boundary_used [OF assms u])
  show "block_boundary cm (k + ?n)"
    unfolding block_boundary_def
  proof (intro allI impI)
    fix h
    assume h: "h < k + ?n" "h < length cm"
    consider "h < k" | "h = k" | "k < h" by linarith
    then show "h + cm_size_alloc (cm ! h) \<le> k + ?n"
    proof cases
      case 1
      with assms(2) h have "h + cm_size_alloc (cm ! h) \<le> k" by (simp add: block_boundary_def)
      then show ?thesis by simp
    next
      case 3
      with frames_ok_block(2) [OF assms(1,3) n] h show ?thesis by simp
    qed simp
  qed
next
  assume "\<not> cm_free (cm ! k)"
  with assms show "block_boundary cm (k + 1)"
    unfolding block_boundary_def
    by (metis add.right_neutral frames_ok_free less_Suc_eq Suc_eq_plus1 le_Suc_eq nat_less_le)
qed

section \<open>Finding free frames\<close>

text \<open>
  The state of the search: \<open>k\<close> is at a block boundary, the frames from \<open>b\<close> (when it is
  not \<open>-1\<close>) up to \<open>k\<close> are free and fewer than asked for, and a long enough run
  of free frames can only start there or later.
\<close>

definition find_inv :: "cm_entry list \<Rightarrow> nat \<Rightarrow> nat \<Rightarrow> int \<Rightarrow> bool" where
  "find_inv cm n k b \<longleftrightarrow> k \<le> length cm \<and> block_boundary cm k \<and> - 1 \<le> b \<and> b \<le> int k \<and>
     (b \<noteq> - 1 \<longrightarrow> int k - b < int n \<and> (\<forall>i. nat b \<le> i \<and> i < k \<longrightarrow> \<not> cm_free (cm ! i))) \<and>
     (\<forall>a. free_run cm a n \<longrightarrow> (if b = - 1 then k else nat b) \<le> a)"

lemma find_inv_used:
  assumes ok: "frames_ok cm" and inv: "find_inv cm n k b" and k: "k < length cm"
    and u: "cm_free (cm ! k)" and n: "0 < n"
  shows "find_inv cm n (k + cm_size_alloc (cm ! k)) (- 1)"
proof -
  let ?m = "cm_size_alloc (cm ! k)"
  have bd: "block_boundary cm k" using inv by (simp add: find_inv_def)
  have m: "0 < ?m" by (rule boundary_used [OF ok bd k u])
  have blk: "cm_free (cm ! j)" if "k \<le> j" "j < k + ?m" for j
    using that u frames_ok_block(2) [OF ok k m, of j] by (cases "j = k") auto
  have "k + ?m \<le> a" if a: "free_run cm a n" for a
  proof (rule ccontr)
    assume less: "\<not> k + ?m \<le> a"
    have "a < k"
    proof (rule ccontr)
      assume "\<not> a < k"
      with less blk [of a] a n show False by (auto simp: free_run_def)
    qed
    moreover have "a + n \<le> k"
    proof (rule ccontr)
      assume "\<not> a + n \<le> k"
      with \<open>a < k\<close> a have "\<not> cm_free (cm ! k)" by (simp add: free_run_def)
      with u show False by simp
    qed
    ultimately show False
      using inv a by (auto simp: find_inv_def split: if_splits)
  qed
  with boundary_step(1) [OF ok bd k u] frames_ok_block(1) [OF ok k m] show ?thesis
    by (simp add: find_inv_def)
qed

lemma find_inv_free:
  assumes ok: "frames_ok cm" and inv: "find_inv cm n k b" and k: "k < length cm"
    and u: "\<not> cm_free (cm ! k)" and b': "b' = (if b = - 1 then int k else b)"
    and more: "int (k + 1) - b' \<noteq> int n"
    and n: "0 < n"
  shows "find_inv cm n (k + 1) b'"
proof -
  have bd: "block_boundary cm k" using inv by (simp add: find_inv_def)
  have b: "0 \<le> b'" "b' \<le> int k" using inv by (auto simp: find_inv_def b')
  have len: "int k - b' < int n" using inv n by (auto simp: find_inv_def b')
  have run: "\<not> cm_free (cm ! i)" if "nat b' \<le> i" "i < k + 1" for i
    using that inv u by (cases "i = k") (auto simp: find_inv_def b' split: if_splits)
  have "nat b' \<le> a" if "free_run cm a n" for a
    using that inv by (auto simp: find_inv_def b' split: if_splits)
  with b len run more boundary_step(2) [OF ok bd k u] k show ?thesis
    by (auto simp: find_inv_def)
qed

lemma find_found:
  assumes inv: "find_inv cm n k b" and k: "k < length cm" and u: "\<not> cm_free (cm ! k)"
    and b': "b' = (if b = - 1 then int k else b)" and enough: "int (k + 1) - b' = int n"
  shows "0 \<le> b'" and "free_run cm (nat b') n" and "\<forall>a. free_run cm a n \<longrightarrow> nat b' \<le> a"
proof -
  show b: "0 \<le> b'" using inv by (auto simp: find_inv_def b')
  have run: "\<not> cm_free (cm ! i)" if "nat b' \<le> i" "i < k + 1" for i
    using that inv u by (cases "i = k") (auto simp: find_inv_def b' split: if_splits)
  have "nat b' + n = k + 1" using enough b by linarith
  with run k show "free_run cm (nat b') n" by (auto simp: free_run_def)
  show "\<forall>a. free_run cm a n \<longrightarrow> nat b' \<le> a"
    using inv by (auto simp: find_inv_def b' split: if_splits)
qed

lemma coremap_find_loop_spec:
  assumes ok: "frames_ok cm" and n: "0 < n"
  shows "find_inv cm n k b \<Longrightarrow>
    (\<exists>e b'. coremap_find_loop cm n k b = Some (e, b') \<and>
      (int e - b' = int n \<and> 0 \<le> b' \<and> free_run cm (nat b') n \<and> (\<forall>a. free_run cm a n \<longrightarrow> nat b' \<le> a) \<or>
       (b' = - 1 \<or> int e - b' \<noteq> int n) \<and> (\<nexists>a. free_run cm a n)))"
proof (induction "length cm - k" arbitrary: k b rule: less_induct)
  case less
  note inv = less.prems
  show ?case
  proof (cases "k < length cm")
    case False
    have "\<not> free_run cm a n" for a
      using inv False n by (auto simp: find_inv_def free_run_def split: if_splits)
    moreover have "b = - 1 \<or> int k - b \<noteq> int n" using inv by (auto simp: find_inv_def)
    ultimately show ?thesis using False by (simp add: coremap_find_loop.simps)
  next
    case True
    show ?thesis
    proof (cases "cm_free (cm ! k)")
      case used: True
      have bd: "block_boundary cm k" using inv by (simp add: find_inv_def)
      have "0 < cm_size_alloc (cm ! k)" by (rule boundary_used [OF ok bd True used])
      with True have "length cm - (k + cm_size_alloc (cm ! k)) < length cm - k" by simp
      from less.hyps [OF this find_inv_used [OF ok inv True used n]] True used show ?thesis
        by (subst coremap_find_loop.simps) simp
    next
      case free: False
      define b' where "b' = (if b = - 1 then int k else b)"
      show ?thesis
      proof (cases "int (k + 1) - b' = int n")
        case enough: True
        have "coremap_find_loop cm n k b = Some (k + 1, b')"
          using True free enough by (subst coremap_find_loop.simps) (simp add: b'_def Let_def)
        with find_found [OF inv True free b'_def enough] enough show ?thesis by blast
      next
        case more: False
        have "length cm - (k + 1) < length cm - k" using True by simp
        note IH = less.hyps [OF this find_inv_free [OF ok inv True free b'_def more n]]
        have "coremap_find_loop cm n k b = coremap_find_loop cm n (k + 1) b'"
          using True free more by (subst coremap_find_loop.simps) (simp add: b'_def Let_def)
        with IH show ?thesis by simp
      qed
    qed
  qed
qed

text \<open>
  The search returns the lowest run of \<open>n\<close> free frames, or \<open>-1\<close> when there is none.
\<close>

lemma coremap_find_freeframes_spec:
  assumes "frames_ok cm" and "0 < n"
  shows "(\<exists>b. coremap_find_freeframes n cm = Some (int b) \<and> free_run cm b n \<and>
            (\<forall>a. free_run cm a n \<longrightarrow> b \<le> a)) \<or>
         coremap_find_freeframes n cm = Some (- 1) \<and> (\<nexists>a. free_run cm a n)"
proof -
  have "find_inv cm n 0 (- 1)" by (simp add: find_inv_def block_boundary_def)
  from coremap_find_loop_spec [OF assms this] obtain e b' where
    r: "coremap_find_loop cm n 0 (- 1) = Some (e, b')" and
    "int e - b' = int n \<and> 0 \<le> b' \<and> free_run cm (nat b') n \<and> (\<forall>a. free_run cm a n \<longrightarrow> nat b' \<le> a) \<or>
     (b' = - 1 \<or> int e - b' \<noteq> int n) \<and> (\<nexists>a. free_run cm a n)" by blast
  then show ?thesis
  proof (elim disjE conjE)
    assume "int e - b' = int n" "0 \<le> b'" "free_run cm (nat b') n" "\<forall>a. free_run cm a n \<longrightarrow> nat b' \<le> a"
    with r show ?thesis by (intro disjI1 exI [of _ "nat b'"]) (simp add: coremap_find_freeframes_def)
  qed (use r in \<open>simp_all add: coremap_find_freeframes_def\<close>)
qed

section \<open>Marking and freeing a block\<close>

lemma length_coremap_mark: "b + n \<le> length cm \<Longrightarrow> length (coremap_mark b n p cm) = length cm"
  unfolding coremap_mark_def by (subst fold_update_nth(1)) simp_all

lemma nth_coremap_mark:
  assumes "b + n \<le> length cm" and "j < length cm" and "n < 2 ^ 20"
  shows "0 < n \<Longrightarrow> coremap_mark b n p cm ! j =
     (if j = b then (cm ! j)\<lparr>cm_free := True, cm_size_alloc := n, cm_ptentry := p\<rparr>
      else if b \<le> j \<and> j < b + n then (cm ! j)\<lparr>cm_free := True, cm_ptentry := p\<rparr>
      else cm ! j)"
  unfolding coremap_mark_def using assms by (subst fold_update_nth(2)) auto

lemma frames_ok_mark:
  assumes ok: "frames_ok cm" and run: "free_run cm b n" and n: "0 < n" "n < 2 ^ 20"
  shows "frames_ok (coremap_mark b n p cm)"
proof -
  let ?cm = "coremap_mark b n p cm"
  have bn: "b + n \<le> length cm" and free: "\<And>i. b \<le> i \<Longrightarrow> i < b + n \<Longrightarrow> \<not> cm_free (cm ! i)"
    using run by (auto simp: free_run_def)
  have len: "length ?cm = length cm" by (rule length_coremap_mark [OF bn])
  note nth = nth_coremap_mark [OF bn _ n(2,1), of _ p]
  have size0: "cm_size_alloc (cm ! i) = 0" if "b \<le> i" "i < b + n" for i
    using frames_ok_free [OF ok _ free [OF that]] that bn by simp
  have size: "cm_size_alloc (?cm ! i) = (if i = b then n else cm_size_alloc (cm ! i))"
    if "i < length cm" for i using nth [OF that] by simp
  have used: "cm_free (?cm ! i) \<longleftrightarrow> b \<le> i \<and> i < b + n \<or> cm_free (cm ! i)" if "i < length cm" for i
    using nth [OF that] n by auto
  show ?thesis
    unfolding frames_ok_def len
  proof (intro conjI allI impI)
    fix i
    assume i: "i < length cm" and f: "\<not> cm_free (?cm ! i)"
    then have "\<not> cm_free (cm ! i)" "i \<noteq> b" using used [OF i] n by auto
    then show "cm_size_alloc (?cm ! i) = 0" using size [OF i] frames_ok_free [OF ok i] by simp
  next
    fix i
    assume i: "i < length cm" and s: "0 < cm_size_alloc (?cm ! i)"
    show "i + cm_size_alloc (?cm ! i) \<le> length cm"
      using size [OF i] s bn frames_ok_block(1) [OF ok i] by (auto split: if_splits)
    fix j
    assume j: "i < j \<and> j < i + cm_size_alloc (?cm ! i)"
    show "cm_free (?cm ! j)" "cm_size_alloc (?cm ! j) = 0"
    proof (atomize (full), cases "i = b")
      case True
      with j size [OF i] bn have jj: "b < j" "j < b + n" "j < length cm" by auto
      with used [OF jj(3)] size [OF jj(3)] size0 [of j]
      show "cm_free (?cm ! j) \<and> cm_size_alloc (?cm ! j) = 0" by simp
    next
      case False
      with size [OF i] s j have s': "0 < cm_size_alloc (cm ! i)" "j < i + cm_size_alloc (cm ! i)" by auto
      have jl: "j < length cm" using frames_ok_block(1) [OF ok i s'(1)] s'(2) by simp
      have uj: "cm_free (cm ! j)" "cm_size_alloc (cm ! j) = 0"
        using frames_ok_block(2) [OF ok i s'(1)] j s'(2) by auto
      have "j \<noteq> b" using uj(1) free [of b] n by auto
      with uj used [OF jl] size [OF jl] show "cm_free (?cm ! j) \<and> cm_size_alloc (?cm ! j) = 0" by simp
    qed
  next
    fix i
    assume i: "i < length cm" and u: "cm_free (?cm ! i)"
    show "\<exists>h \<le> i. i < h + cm_size_alloc (?cm ! h)"
    proof (cases "b \<le> i \<and> i < b + n")
      case True
      with size [of b] bn n show ?thesis by (intro exI [of _ b]) simp
    next
      case False
      with u used [OF i] have "cm_free (cm ! i)" by blast
      then obtain h where h: "h \<le> i" "i < h + cm_size_alloc (cm ! h)" by (rule frames_ok_head [OF ok i])
      then have "h \<noteq> b" using size0 [of b] n by auto
      with h size [of h] i show ?thesis by (intro exI [of _ h]) simp
    qed
  qed
qed

text \<open>Giving a frame that is a block of its own to another owner.\<close>

lemma frames_ok_remark:
  assumes "frames_ok cm" and "b < length cm" and "cm_free (cm ! b)" and "cm_size_alloc (cm ! b) = 1"
  shows "frames_ok (coremap_mark b 1 p cm)"
proof -
  let ?cm = "coremap_mark b 1 p cm"
  have len: "length ?cm = length cm" using assms(2) by (intro length_coremap_mark) simp
  have f: "cm_free (?cm ! i) = cm_free (cm ! i)" and s: "cm_size_alloc (?cm ! i) = cm_size_alloc (cm ! i)"
    if "i < length cm" for i
    using nth_coremap_mark [of b 1 cm i p] that assms by auto
  show ?thesis
    unfolding frames_ok_def len
  proof (intro conjI allI impI)
    fix i
    assume i: "i < length cm"
    show "\<not> cm_free (?cm ! i) \<Longrightarrow> cm_size_alloc (?cm ! i) = 0"
      using f [OF i] s [OF i] frames_ok_free [OF assms(1) i] by simp
    show "cm_free (?cm ! i) \<Longrightarrow> \<exists>h \<le> i. i < h + cm_size_alloc (?cm ! h)"
      using f [OF i] frames_ok_head [OF assms(1) i] s i by (metis le_less_trans)
    assume z: "0 < cm_size_alloc (?cm ! i)"
    then have z': "0 < cm_size_alloc (cm ! i)" using s [OF i] by simp
    show le: "i + cm_size_alloc (?cm ! i) \<le> length cm"
      using s [OF i] frames_ok_block(1) [OF assms(1) i z'] by simp
    fix j
    assume j: "i < j \<and> j < i + cm_size_alloc (?cm ! i)"
    with le have jl: "j < length cm" by simp
    show "cm_free (?cm ! j)" "cm_size_alloc (?cm ! j) = 0"
      using frames_ok_block(2) [OF assms(1) i z', of j] j s [OF i] f [OF jl] s [OF jl] by simp_all
  qed
qed

lemma coremap_free_loop_spec:
  assumes "i + k \<le> length cm" and "\<forall>j. i \<le> j \<and> j < i + k \<longrightarrow> cm_free (cm ! j)"
  shows "\<exists>cm'. coremap_free_loop k i cm = Some cm' \<and> length cm' = length cm \<and>
     (\<forall>j < length cm. cm' ! j = (if i \<le> j \<and> j < i + k then (cm ! j)\<lparr>cm_free := False\<rparr> else cm ! j))"
  using assms
proof (induction k i cm rule: coremap_free_loop.induct)
  case (2 k i cm)
  let ?cm = "cm[i := (cm ! i)\<lparr>cm_free := False\<rparr>]"
  have "i < length cm" "cm_free (cm ! i)" using "2.prems" by simp_all
  moreover have "\<exists>cm'. coremap_free_loop k (i + 1) ?cm = Some cm' \<and> length cm' = length ?cm \<and>
     (\<forall>j < length ?cm. cm' ! j = (if i + 1 \<le> j \<and> j < i + 1 + k then (?cm ! j)\<lparr>cm_free := False\<rparr> else ?cm ! j))"
    using "2.prems" calculation by (intro "2.IH") (auto simp: kassert_def)
  ultimately show ?case by (fastforce simp: nth_list_update)
qed simp

text \<open>The core map after the block at \<open>b\<close> is freed.\<close>

definition cm_release :: "nat \<Rightarrow> cm_entry list \<Rightarrow> cm_entry list" where
  "cm_release b cm = map (\<lambda>j. if b \<le> j \<and> j < b + cm_size_alloc (cm ! b)
     then (cm ! j)\<lparr>cm_free := False, cm_size_alloc := 0\<rparr> else cm ! j) [0..<length cm]"

lemma length_cm_release [simp]: "length (cm_release b cm) = length cm"
  by (simp add: cm_release_def)

lemma nth_cm_release: "j < length cm \<Longrightarrow> cm_release b cm ! j =
   (if b \<le> j \<and> j < b + cm_size_alloc (cm ! b) then (cm ! j)\<lparr>cm_free := False, cm_size_alloc := 0\<rparr> else cm ! j)"
  by (simp add: cm_release_def)

lemma coremap_freeppages_eq:
  assumes ok: "frames_ok (coremap s)" and b: "b < length (coremap s)" "b < 2 ^ 20"
    and head: "0 < cm_size_alloc (coremap s ! b)"
  shows "coremap_freeppages (frame_addr b) s = Some (s\<lparr>coremap := cm_release b (coremap s)\<rparr>)"
proof -
  let ?n = "cm_size_alloc (coremap s ! b)"
  let ?cm = "(coremap s)[b := (coremap s ! b)\<lparr>cm_size_alloc := 0\<rparr>]"
  note blk = frames_ok_block [OF ok b(1) head]
  have used: "\<forall>j. b \<le> j \<and> j < b + ?n \<longrightarrow> cm_free (?cm ! j)"
    using blk b(1) by (auto simp: nth_list_update)
  have "b + ?n \<le> length ?cm" using blk(1) by simp
  from coremap_free_loop_spec [OF this used] obtain cm' where
    cm': "coremap_free_loop ?n b ?cm = Some cm'" "length cm' = length ?cm"
    "\<forall>j < length ?cm. cm' ! j = (if b \<le> j \<and> j < b + ?n then (?cm ! j)\<lparr>cm_free := False\<rparr> else ?cm ! j)"
    by blast
  have "cm' = cm_release b (coremap s)"
  proof (rule nth_equalityI)
    fix j
    assume "j < length cm'"
    then have j: "j < length (coremap s)" using cm'(2) by simp
    have "cm_size_alloc (coremap s ! j) = 0" if "b < j" "j < b + ?n" using blk(2) that by blast
    with cm'(3) j b(1) head show "cm' ! j = cm_release b (coremap s) ! j"
      by (cases "coremap s ! j") (auto simp: nth_cm_release nth_list_update)
  qed (simp add: cm'(2))
  with cm'(1) b head show ?thesis
    by (simp add: coremap_freeppages_def unat_frame_addr Let_def)
qed

lemma frames_ok_release:
  assumes ok: "frames_ok cm" and b: "b < length cm" and head: "0 < cm_size_alloc (cm ! b)"
  shows "frames_ok (cm_release b cm)"
proof -
  let ?n = "cm_size_alloc (cm ! b)"
  note blk = frames_ok_block [OF ok b head]
  have size: "cm_size_alloc (cm_release b cm ! j) = (if j = b then 0 else cm_size_alloc (cm ! j))"
    if "j < length cm" for j
    using nth_cm_release [OF that, of b] blk(2) [of j] head by auto
  have used: "cm_free (cm_release b cm ! j) \<longleftrightarrow> cm_free (cm ! j) \<and> \<not> (b \<le> j \<and> j < b + ?n)"
    if "j < length cm" for j
    using nth_cm_release [OF that, of b] by auto
  show ?thesis
    unfolding frames_ok_def length_cm_release
  proof (intro conjI allI impI)
    fix i
    assume i: "i < length cm" and f: "\<not> cm_free (cm_release b cm ! i)"
    then consider "\<not> cm_free (cm ! i)" | "i = b" | "b < i" "i < b + ?n" using used [OF i] by linarith
    then show "cm_size_alloc (cm_release b cm ! i) = 0"
      using size [OF i] frames_ok_free [OF ok i] blk(2) [of i] by cases simp_all
  next
    fix i
    assume i: "i < length cm" and s: "0 < cm_size_alloc (cm_release b cm ! i)"
    then have ib: "i \<noteq> b" and s': "0 < cm_size_alloc (cm ! i)" using size [OF i] by (auto split: if_splits)
    show "i + cm_size_alloc (cm_release b cm ! i) \<le> length cm"
      using size [OF i] ib frames_ok_block(1) [OF ok i s'] by simp
    fix j
    assume "i < j \<and> j < i + cm_size_alloc (cm_release b cm ! i)"
    with size [OF i] ib have j: "i < j" "j < i + cm_size_alloc (cm ! i)" by auto
    have jl: "j < length cm" using frames_ok_block(1) [OF ok i s'] j(2) by simp
    have uj: "cm_free (cm ! j)" "cm_size_alloc (cm ! j) = 0" using frames_ok_block(2) [OF ok i s' j] by auto
    have "\<not> (b \<le> j \<and> j < b + ?n)"
    proof
      assume "b \<le> j \<and> j < b + ?n"
      moreover have "j \<noteq> b" using uj(2) head by auto
      ultimately have bj: "b < j" "j < b + ?n" by auto
      show False
      proof (cases "i < b")
        case True
        with frames_ok_block(2) [OF ok i s', of b] bj j head show False by simp
      next
        case False
        with ib blk(2) [of i] j bj s' show False by simp
      qed
    qed
    with uj used [OF jl] size [OF jl]
    show "cm_free (cm_release b cm ! j)" "cm_size_alloc (cm_release b cm ! j) = 0" by simp_all
  next
    fix i
    assume i: "i < length cm" and "cm_free (cm_release b cm ! i)"
    then have u: "cm_free (cm ! i)" "\<not> (b \<le> i \<and> i < b + ?n)" using used [OF i] by auto
    obtain h where h: "h \<le> i" "i < h + cm_size_alloc (cm ! h)" by (rule frames_ok_head [OF ok i u(1)])
    with u(2) size [of h] i show "\<exists>h \<le> i. i < h + cm_size_alloc (cm_release b cm ! h)"
      by (intro exI [of _ h]) auto
  qed
qed

section \<open>The search for free frames\<close>

text \<open>
  Claim C23: the search for free frames ends and is first fit. When the blocks of the core map are well formed
  and at least one frame is asked for, \<^verbatim>\<open>coremap_find_freeframes\<close> returns: the lowest run of that many
  free frames, or \<open>-1\<close> and then there is no such run.
\<close>

theorem find_freeframes_first_fit:
  assumes "frames_ok cm" and "0 < n"
  shows "\<exists>r. coremap_find_freeframes n cm = Some r \<and>
    (if r = - 1 then \<forall>a. \<not> free_run cm a n
     else 0 \<le> r \<and> free_run cm (nat r) n \<and> (\<forall>a. free_run cm a n \<longrightarrow> nat r \<le> a))"
  using coremap_find_freeframes_spec [OF assms] by force

definition example_coremap :: "cm_entry list" where
  "example_coremap = map (\<lambda>i. \<lparr>cm_free = even i \<and> i < 3, cm_size_alloc = (if even i \<and> i < 3 then 1 else 0),
     cm_lock = False, cm_ptentry = None\<rparr>) [0..<5]"

lemma example_coremap_nth:
  "length example_coremap = 5" "i < 5 \<Longrightarrow> cm_free (example_coremap ! i) = (even i \<and> i < 3)"
  "i < 5 \<Longrightarrow> cm_size_alloc (example_coremap ! i) = (if even i \<and> i < 3 then 1 else 0)"
  by (simp_all add: example_coremap_def del: upt_rec_numeral)

theorem find_freeframes_first_fit_witness: "coremap_find_freeframes 2 example_coremap = Some 3"
proof -
  have ok: "frames_ok example_coremap" by (auto simp: frames_ok_def example_coremap_nth split: if_splits)
  have "free_run example_coremap 3 2" by (auto simp: free_run_def example_coremap_nth)
  moreover have "3 \<le> a" if "free_run example_coremap a 2" for a
  proof (rule ccontr)
    assume "\<not> 3 \<le> a"
    then have "a = 0 \<or> a = 1 \<or> a = 2" by auto
    with that show False by (auto simp: free_run_def example_coremap_nth dest: spec [of _ 0] spec [of _ 2])
  qed
  ultimately show ?thesis
    using find_freeframes_first_fit [OF ok, of 2] by (force split: if_splits)
qed

end
