(* ===== verification/Replacement.thy ===== *)
theory Replacement
  imports Coremap
begin

text \<open>
  The invariant of the paging state and the proof that page replacement keeps it and
  does not change what any page holds. The invariant is stated over four parameters
  that the clients choose: \<open>content\<close> is the contents of the swap file, \<open>img p\<close> the initial
  contents of the page behind the page table entry \<open>p\<close>, \<open>ro p\<close> whether it belongs to a
  read-only segment, and \<open>tr\<close> the view of the
  running process: \<open>tr = Some f\<close> where \<open>f p\<close> is the user page (and whether it may be
  written) the process sees the page at, or \<^const>\<open>None\<close> when no user process runs and
  the TLB may hold stale translations.
  \<open>page_val\<close> is what a page holds wherever it is: in memory, in the swap file, or
  not loaded yet.
\<close>

section \<open>The invariant\<close>

definition page_val :: "('f \<Rightarrow> byte list) \<Rightarrow> (pt_ptr \<Rightarrow> nat \<Rightarrow> byte) \<Rightarrow>
    ('f, 'a) vm_st_scheme \<Rightarrow> pt_ptr \<Rightarrow> nat \<Rightarrow> byte option" where
  "page_val content img s p off = (case pt_read s p of
     None \<Rightarrow> None
   | Some e \<Rightarrow> Some (case pt_status e of
        NOT_LOADED \<Rightarrow> img p off
      | IN_SWAP \<Rightarrow> content (swapfile s) ! (pt_swap_index e * PAGE_SIZE + off)
      | IN_MEMORY \<Rightarrow> ram s (pt_frame_index e * PAGE_SIZE + off)
      | IN_MEMORY_RDONLY \<Rightarrow> ram s (pt_frame_index e * PAGE_SIZE + off)))"

text \<open>The core map: blocks are well formed, no frame is locked, frame 0 is the kernel's.\<close>

definition cm_ok :: "('f, 'a) vm_st_scheme \<Rightarrow> bool" where
  "cm_ok s \<longleftrightarrow> frames_ok (coremap s) \<and> 0 < length (coremap s) \<and> length (coremap s) \<le> 2 ^ 17 \<and>
     victim_index s < length (coremap s) \<and> (\<forall>i < length (coremap s). \<not> cm_lock (coremap s ! i)) \<and>
     cm_free (coremap s ! 0) \<and> cm_ptentry (coremap s ! 0) = None"

text \<open>
  Ownership: a frame of a user page is a block of its own, its page table entry says that
  the page is in that frame, and the other way round. While a page is being
  brought in, \<open>pend\<close> is the entry and the frame for which the entry does not say so yet.
\<close>

definition owner_ok :: "(pt_ptr \<times> nat) option \<Rightarrow> ('f, 'a) vm_st_scheme \<Rightarrow> nat \<Rightarrow> pt_ptr \<Rightarrow> bool" where
  "owner_ok pend s i p \<longleftrightarrow> cm_size_alloc (coremap s ! i) = 1 \<and>
     (pend = Some (p, i) \<or> (\<exists>e. pt_read s p = Some e \<and> in_mem e \<and> pt_frame_index e = i))"

definition owned :: "('f, 'a) vm_st_scheme \<Rightarrow> nat \<Rightarrow> pt_ptr \<Rightarrow> bool" where
  "owned s i p \<longleftrightarrow> i < length (coremap s) \<and> cm_free (coremap s ! i) \<and> cm_ptentry (coremap s ! i) = Some p"

definition owners_ok :: "(pt_ptr \<times> nat) option \<Rightarrow> ('f, 'a) vm_st_scheme \<Rightarrow> bool" where
  "owners_ok pend s \<longleftrightarrow>
     (\<forall>i p. owned s i p \<longrightarrow> owner_ok pend s i p) \<and>
     (\<forall>p e. pt_read s p = Some e \<longrightarrow> in_mem e \<longrightarrow> owned s (pt_frame_index e) p) \<and>
     (\<forall>p i. pend = Some (p, i) \<longrightarrow> owned s i p \<and> (\<exists>e. pt_read s p = Some e \<and> \<not> in_mem e))"

text \<open>Pages in the swap file have different slots, all of them in use.\<close>

definition slots_ok :: "('f, 'a) vm_st_scheme \<Rightarrow> bool" where
  "slots_ok s \<longleftrightarrow>
     (\<forall>p e. pt_read s p = Some e \<longrightarrow> pt_status e = IN_SWAP \<longrightarrow> pt_swap_index e \<in> marked (swapmap s)) \<and>
     (\<forall>p q e f. pt_read s p = Some e \<longrightarrow> pt_read s q = Some f \<longrightarrow> pt_status e = IN_SWAP \<longrightarrow>
        pt_status f = IN_SWAP \<longrightarrow> pt_swap_index e = pt_swap_index f \<longrightarrow> p = q)"

text \<open>
  Pages of read-only segments (\<open>ro\<close>) are \<^const>\<open>IN_MEMORY_RDONLY\<close> when they are in memory and
  then still hold their initial contents, so that they can be dropped; other pages are not.
\<close>

definition rdonly_ok :: "(pt_ptr \<Rightarrow> nat \<Rightarrow> byte) \<Rightarrow> (pt_ptr \<Rightarrow> bool) \<Rightarrow> ('f, 'a) vm_st_scheme \<Rightarrow> bool" where
  "rdonly_ok img ro s \<longleftrightarrow> (\<forall>p e. pt_read s p = Some e \<longrightarrow>
     (pt_status e = IN_MEMORY_RDONLY \<longrightarrow> ro p \<and>
        (\<forall>off < PAGE_SIZE. ram s (pt_frame_index e * PAGE_SIZE + off) = img p off)) \<and>
     (pt_status e = IN_MEMORY \<or> pt_status e = IN_SWAP \<longrightarrow> \<not> ro p))"

text \<open>The translations that are right for the running process; the TLB has no other.\<close>

definition valid_trs :: "(pt_ptr \<Rightarrow> (vaddr \<times> bool) option) \<Rightarrow> ('f, 'a) vm_st_scheme \<Rightarrow>
    (vaddr \<times> paddr \<times> bool) set" where
  "valid_trs tr s = {(va, frame_addr (pt_frame_index e), w) | va w p e.
     tr p = Some (va, w) \<and> pt_read s p = Some e \<and> in_mem e}"

definition tlb_coherent :: "(pt_ptr \<Rightarrow> (vaddr \<times> bool) option) option \<Rightarrow> ('f, 'a) vm_st_scheme \<Rightarrow> bool" where
  "tlb_coherent tr s \<longleftrightarrow> tlb_ok s \<and> (\<forall>f. tr = Some f \<longrightarrow> tlb_maps s \<subseteq> valid_trs f s)"

definition vm_inv :: "'f vnode_ops \<Rightarrow> ('f \<Rightarrow> byte list) \<Rightarrow> (pt_ptr \<Rightarrow> nat \<Rightarrow> byte) \<Rightarrow> (pt_ptr \<Rightarrow> bool) \<Rightarrow>
    (pt_ptr \<Rightarrow> (vaddr \<times> bool) option) option \<Rightarrow> (pt_ptr \<times> nat) option \<Rightarrow> ('f, 'a) vm_st_scheme \<Rightarrow> bool" where
  "vm_inv vo content img ro tr pend s \<longleftrightarrow> swap_ok vo content s \<and> cm_ok s \<and> owners_ok pend s \<and>
     slots_ok s \<and> rdonly_ok img ro s \<and> tlb_coherent tr s"

section \<open>Consequences\<close>

lemma valid_trsI:
  "tr p = Some (va, w) \<Longrightarrow> pt_read s p = Some e \<Longrightarrow> in_mem e \<Longrightarrow>
     (va, frame_addr (pt_frame_index e), w) \<in> valid_trs tr s"
  unfolding valid_trs_def by blast

lemma valid_trsE:
  assumes "m \<in> valid_trs tr s"
  obtains va w p e where "m = (va, frame_addr (pt_frame_index e), w)" and "tr p = Some (va, w)"
    and "pt_read s p = Some e" and "in_mem e"
  using assms unfolding valid_trs_def by blast

lemma tlb_same_vm:
  fixes s s' :: "('f, 'a) vm_st_scheme"
  assumes "tlb_same s s'"
  shows "swapmap s' = swapmap s" and "swapfile s' = swapfile s" and "ram s' = ram s"
    and "ptables s' = ptables s" and "coremap s' = coremap s" and "victim_index s' = victim_index s"
    and "vm_st.more s' = vm_st.more s"
  using assms by (cases s, cases s', simp add: tlb_same_def)+

lemma tlb_only_vm:
  fixes s s' :: "('f, 'a) vm_st_scheme"
  assumes "tlb_only s s'"
  shows "swapmap s' = swapmap s" and "swapfile s' = swapfile s" and "ram s' = ram s"
    and "ptables s' = ptables s" and "coremap s' = coremap s" and "victim_index s' = victim_index s"
    and "vm_st.more s' = vm_st.more s" and "vmstats s' = vmstats s"
  using assms by (cases s, cases s', simp add: tlb_only_def)+

lemma owned_unique: "owned s i p \<Longrightarrow> owned s i q \<Longrightarrow> p = q"
  by (simp add: owned_def)

lemma owners_okI:
  assumes "\<And>i p. owned s i p \<Longrightarrow> owner_ok pend s i p"
    and "\<And>p e. pt_read s p = Some e \<Longrightarrow> in_mem e \<Longrightarrow> owned s (pt_frame_index e) p"
    and "\<And>p i. pend = Some (p, i) \<Longrightarrow> owned s i p \<and> (\<exists>e. pt_read s p = Some e \<and> \<not> in_mem e)"
  shows "owners_ok pend s"
  using assms unfolding owners_ok_def by blast

lemma owners_okD:
  assumes "owners_ok pend s"
  shows "owned s i p \<Longrightarrow> owner_ok pend s i p"
    and "pt_read s p = Some e \<Longrightarrow> in_mem e \<Longrightarrow> owned s (pt_frame_index e) p"
    and "pend = Some (p, i) \<Longrightarrow> owned s i p"
    and "pend = Some (p, i) \<Longrightarrow> \<exists>e. pt_read s p = Some e \<and> \<not> in_mem e"
  using assms unfolding owners_ok_def by blast+

lemma owner_entry:
  assumes "owners_ok None s" and "owned s i p"
  obtains e where "pt_read s p = Some e" and "in_mem e" and "pt_frame_index e = i"
  using owners_okD(1) [OF assms] by (auto simp: owner_ok_def)

lemma frame_unique:
  assumes "owners_ok pend s" and "pt_read s p = Some e" and "in_mem e"
    and "pt_read s q = Some f" and "in_mem f" and "pt_frame_index e = pt_frame_index f"
  shows "p = q"
  using assms owned_unique unfolding owners_ok_def by metis

lemma frame_less:
  assumes "cm_ok s" and "owners_ok pend s" and "pt_read s p = Some e" and "in_mem e"
  shows "pt_frame_index e < length (coremap s)" and "pt_frame_index e < 2 ^ 20"
    and "pt_frame_index e \<noteq> 0"
proof -
  have o: "owned s (pt_frame_index e) p" using assms unfolding owners_ok_def by blast
  then show "pt_frame_index e < length (coremap s)" by (simp add: owned_def)
  with assms(1) show "pt_frame_index e < 2 ^ 20" by (simp add: cm_ok_def)
  show "pt_frame_index e \<noteq> 0"
  proof
    assume "pt_frame_index e = 0"
    with o assms(1) show False by (simp add: owned_def cm_ok_def)
  qed
qed

text \<open>Whether a state satisfies the parts of the invariant depends on a few fields only.\<close>

lemma page_val_cong:
  "ptables s' = ptables s \<Longrightarrow> swapfile s' = swapfile s \<Longrightarrow> ram s' = ram s \<Longrightarrow>
     page_val content img s' = page_val content img s"
  by (intro ext) (simp add: page_val_def pt_read_cong [of s' s] split: option.split pt_status.split)

lemma swap_ok_cong:
  "swapmap s' = swapmap s \<Longrightarrow> swapfile s' = swapfile s \<Longrightarrow> length (vmstats s') = 10 \<Longrightarrow>
     swap_ok vo content s \<Longrightarrow> swap_ok vo content s'"
  by (simp add: swap_ok_def)

lemma owners_ok_cong:
  "ptables s' = ptables s \<Longrightarrow> coremap s' = coremap s \<Longrightarrow> owners_ok pend s' = owners_ok pend s"
  by (simp add: owners_ok_def owned_def owner_ok_def pt_read_cong [of s' s])

lemma slots_ok_cong:
  "ptables s' = ptables s \<Longrightarrow> swapmap s' = swapmap s \<Longrightarrow> slots_ok s' = slots_ok s"
  by (simp add: slots_ok_def pt_read_cong [of s' s])

lemma rdonly_ok_cong: "ptables s' = ptables s \<Longrightarrow> ram s' = ram s \<Longrightarrow> rdonly_ok img ro s' = rdonly_ok img ro s"
  by (simp add: rdonly_ok_def pt_read_cong [of s' s])

lemma cm_ok_cong:
  "coremap s' = coremap s \<Longrightarrow> victim_index s' < length (coremap s) \<Longrightarrow> cm_ok s \<Longrightarrow> cm_ok s'"
  by (simp add: cm_ok_def)

lemma tlb_coherent_cong:
  assumes "tlb s' = tlb s" and "tlb_victim s' = tlb_victim s" and "length (vmstats s') = 10"
    and "ptables s' = ptables s" and "tlb_coherent tr s"
  shows "tlb_coherent tr s'"
  using assms by (simp add: tlb_coherent_def tlb_ok_def tlb_maps_def valid_trs_def pt_read_cong [of s' s])

section \<open>The victim\<close>

text \<open>
  The search for a victim goes round the core map once, starting after the last
  victim, and stops at the first frame of a user page.
\<close>

definition user_frame :: "('f, 'a) vm_st_scheme \<Rightarrow> nat \<Rightarrow> bool" where
  "user_frame s i \<longleftrightarrow> cm_ptentry (coremap s ! i) \<noteq> None"

lemma user_frame_victim [simp]: "user_frame (s\<lparr>victim_index := x\<rparr>) = user_frame s"
  by (simp add: user_frame_def fun_eq_iff)

lemma coremap_get_victim_loop_spec:
  assumes "0 < length (coremap s)" and "\<forall>i < length (coremap s). \<not> cm_lock (coremap s ! i)"
    and "\<forall>i < length (coremap s). user_frame s i \<longrightarrow>
           cm_free (coremap s ! i) \<and> cm_size_alloc (coremap s ! i) = 1"
  shows "(\<exists>k vi. 1 \<le> k \<and> k \<le> m \<and> vi = (victim_index s + k) mod length (coremap s) \<and>
            coremap_get_victim_loop m s = Some (int vi, s\<lparr>victim_index := vi\<rparr>) \<and> user_frame s vi \<and>
            (\<forall>j. 1 \<le> j \<and> j < k \<longrightarrow> \<not> user_frame s ((victim_index s + j) mod length (coremap s)))) \<or>
         ((\<exists>v. coremap_get_victim_loop m s = Some (- 1, s\<lparr>victim_index := v\<rparr>)) \<and>
          (\<forall>j. 1 \<le> j \<and> j \<le> m \<longrightarrow> \<not> user_frame s ((victim_index s + j) mod length (coremap s))))"
  using assms
proof (induction m arbitrary: s)
  case 0
  then show ?case by (auto intro!: exI [of _ "victim_index s"])
next
  case (Suc m)
  let ?n = "length (coremap s)"
  let ?v = "(victim_index s + 1) mod ?n"
  let ?s = "s\<lparr>victim_index := ?v\<rparr>"
  have v: "?v < ?n" using Suc.prems(1) by simp
  show ?case
  proof (cases "user_frame s ?v")
    case True
    then have "coremap_get_victim_loop (Suc m) s = Some (int ?v, ?s)"
      using Suc.prems(2,3) v by (simp add: user_frame_def Let_def)
    with True show ?thesis by (intro disjI1 exI [of _ 1] exI [of _ ?v]) auto
  next
    case False
    then have run: "coremap_get_victim_loop (Suc m) s = coremap_get_victim_loop m ?s"
      by (simp add: user_frame_def Let_def)
    have shift: "(?v + j) mod ?n = (victim_index s + (j + 1)) mod ?n" for j
      by (metis mod_add_left_eq add.assoc add.commute)
    have step: "\<not> user_frame s ((victim_index s + j) mod ?n)"
      if "1 \<le> j" "2 \<le> j \<Longrightarrow> \<not> user_frame s ((?v + (j - 1)) mod ?n)" for j
    proof (cases "j = 1")
      case False
      with that have "j - 1 + 1 = j" "2 \<le> j" by simp_all
      with that(2) shift [of "j - 1"] show ?thesis by metis
    qed (use False in simp)
    from Suc.IH [of ?s] Suc.prems have
      "(\<exists>k vi. 1 \<le> k \<and> k \<le> m \<and> vi = (?v + k) mod ?n \<and>
          coremap_get_victim_loop m ?s = Some (int vi, s\<lparr>victim_index := vi\<rparr>) \<and> user_frame s vi \<and>
          (\<forall>j. 1 \<le> j \<and> j < k \<longrightarrow> \<not> user_frame s ((?v + j) mod ?n))) \<or>
       ((\<exists>v. coremap_get_victim_loop m ?s = Some (- 1, s\<lparr>victim_index := v\<rparr>)) \<and>
        (\<forall>j. 1 \<le> j \<and> j \<le> m \<longrightarrow> \<not> user_frame s ((?v + j) mod ?n)))"
      by simp
    then show ?thesis
    proof (elim disjE exE conjE)
      fix k vi
      assume k: "1 \<le> k" "k \<le> m" "vi = (?v + k) mod ?n"
        "coremap_get_victim_loop m ?s = Some (int vi, s\<lparr>victim_index := vi\<rparr>)" "user_frame s vi"
        "\<forall>j. 1 \<le> j \<and> j < k \<longrightarrow> \<not> user_frame s ((?v + j) mod ?n)"
      have "\<not> user_frame s ((victim_index s + j) mod ?n)" if "1 \<le> j" "j < k + 1" for j
      proof (rule step)
        assume "2 \<le> j"
        with that have "1 \<le> j - 1 \<and> j - 1 < k" by linarith
        with k(6) show "\<not> user_frame s ((?v + (j - 1)) mod ?n)" by blast
      qed (rule that)
      with k run shift [of k] show ?thesis
        by (intro disjI1 exI [of _ "k + 1"] exI [of _ vi]) auto
    next
      fix v
      assume v: "coremap_get_victim_loop m ?s = Some (- 1, s\<lparr>victim_index := v\<rparr>)"
        "\<forall>j. 1 \<le> j \<and> j \<le> m \<longrightarrow> \<not> user_frame s ((?v + j) mod ?n)"
      have "\<not> user_frame s ((victim_index s + j) mod ?n)" if "1 \<le> j" "j \<le> Suc m" for j
      proof (rule step)
        assume "2 \<le> j"
        with that have "1 \<le> j - 1 \<and> j - 1 \<le> m" by linarith
        with v(2) show "\<not> user_frame s ((?v + (j - 1)) mod ?n)" by blast
      qed (rule that)
      with v(1) run show ?thesis by auto
    qed
  qed
qed

lemma cyclic_reach:
  assumes "v < n" and "i < (n :: nat)"
  obtains k where "1 \<le> k" and "k \<le> n" and "(v + k) mod n = i"
proof (cases "v < i")
  case True
  then show thesis using assms by (intro that [of "i - v"]) simp_all
next
  case False
  then show thesis using assms by (intro that [of "i + n - v"]) simp_all
qed

lemma coremap_get_victim_spec:
  assumes ok: "cm_ok s" and own: "owners_ok None s"
    and full: "\<forall>i < length (coremap s). cm_free (coremap s ! i)"
  shows "(\<exists>i < length (coremap s). user_frame s i) \<Longrightarrow>
      \<exists>vi p. coremap_get_victim s = Some (int vi, s\<lparr>victim_index := vi\<rparr>) \<and> owned s vi p"
    and "\<not> (\<exists>i < length (coremap s). user_frame s i) \<Longrightarrow>
      \<exists>v. coremap_get_victim s = Some (- 1, s\<lparr>victim_index := v\<rparr>)"
proof -
  let ?n = "length (coremap s)"
  have n: "0 < ?n" "victim_index s < ?n" and lk: "\<forall>i < ?n. \<not> cm_lock (coremap s ! i)"
    using ok by (simp_all add: cm_ok_def)
  have "\<forall>i < ?n. user_frame s i \<longrightarrow> cm_free (coremap s ! i) \<and> cm_size_alloc (coremap s ! i) = 1"
    using own full by (auto simp: owners_ok_def owned_def owner_ok_def user_frame_def)
  note loop = coremap_get_victim_loop_spec [OF n(1) lk this, of ?n, folded coremap_get_victim_def]
  {
    assume "\<exists>i < ?n. user_frame s i"
    then obtain i k where "user_frame s i" "1 \<le> k" "k \<le> ?n" "(victim_index s + k) mod ?n = i"
      using cyclic_reach [OF n(2)] by metis
    with loop obtain k vi where vi: "vi = (victim_index s + k) mod ?n"
      "coremap_get_victim s = Some (int vi, s\<lparr>victim_index := vi\<rparr>)" "user_frame s vi" by blast
    then have "vi < ?n" using n by simp
    with vi full show "\<exists>vi p. coremap_get_victim s = Some (int vi, s\<lparr>victim_index := vi\<rparr>) \<and> owned s vi p"
      by (auto simp: owned_def user_frame_def)
  next
    assume none: "\<not> (\<exists>i < ?n. user_frame s i)"
    have "\<not> user_frame s (k mod ?n)" for k using none n(1) by simp
    with loop show "\<exists>v. coremap_get_victim s = Some (- 1, s\<lparr>victim_index := v\<rparr>)" by blast
  }
qed

section \<open>Evicting a page\<close>

definition same_pages :: "('f \<Rightarrow> byte list) \<Rightarrow> (pt_ptr \<Rightarrow> nat \<Rightarrow> byte) \<Rightarrow>
    ('f, 'a) vm_st_scheme \<Rightarrow> ('f, 'a) vm_st_scheme \<Rightarrow> bool" where
  "same_pages content img s s' \<longleftrightarrow>
     (\<forall>p off. off < PAGE_SIZE \<longrightarrow> page_val content img s' p off = page_val content img s p off)"

lemma same_pages_refl [simp]: "same_pages content img s s"
  by (simp add: same_pages_def)

lemma same_pages_trans:
  "same_pages content img s t \<Longrightarrow> same_pages content img t u \<Longrightarrow> same_pages content img s u"
  by (simp add: same_pages_def)

lemma owners_ok_evict:
  assumes own: "owners_ok None s" and o: "owned s vi p" and cm: "coremap s' = coremap s"
    and rd: "\<And>q. pt_read s' q = (if q = p then Some e' else pt_read s q)" and e': "\<not> in_mem e'"
  shows "owners_ok (Some (p, vi)) s'"
proof -
  have ow: "owned s' = owned s" by (simp add: owned_def cm fun_eq_iff)
  have "owner_ok (Some (p, vi)) s' i q" if "owned s i q" for i q
  proof -
    have a: "owner_ok None s i q" by (rule owners_okD(1) [OF own that])
    show ?thesis
    proof (cases "q = p")
      case True
      obtain e where "pt_read s p = Some e" "in_mem e" "pt_frame_index e = i"
        using a True by (auto simp: owner_ok_def)
      moreover obtain e2 where "pt_read s p = Some e2" "in_mem e2" "pt_frame_index e2 = vi"
        by (rule owner_entry [OF own o])
      ultimately have "i = vi" by simp
      with a True show ?thesis by (simp add: owner_ok_def cm)
    next
      case False
      with a rd show ?thesis by (simp add: owner_ok_def cm)
    qed
  qed
  moreover have "owned s (pt_frame_index e) q" if "pt_read s' q = Some e" "in_mem e" for q e
    using that rd [of q] e' owners_okD(2) [OF own, of q e] by (auto split: if_splits)
  ultimately show ?thesis using o rd [of p] e' by (intro owners_okI) (auto simp: ow)
qed

lemma valid_trs_evict:
  assumes ok: "cm_ok s" and own: "owners_ok None s" and o: "owned s vi p"
    and rd: "\<And>q. pt_read s' q = (if q = p then Some e' else pt_read s q)"
  shows "{m \<in> valid_trs tr s. fst (snd m) \<noteq> frame_addr vi} \<subseteq> valid_trs tr s'"
proof
  fix m
  assume m: "m \<in> {m \<in> valid_trs tr s. fst (snd m) \<noteq> frame_addr vi}"
  then obtain va w q e where q: "m = (va, frame_addr (pt_frame_index e), w)" "tr q = Some (va, w)"
    "pt_read s q = Some e" "in_mem e" and ne: "frame_addr (pt_frame_index e) \<noteq> frame_addr vi"
    by (auto elim: valid_trsE)
  obtain e2 where "pt_read s p = Some e2" "in_mem e2" "pt_frame_index e2 = vi"
    by (rule owner_entry [OF own o])
  with q ne have "q \<noteq> p" by auto
  with rd [of q] q(3) have "pt_read s' q = Some e" by simp
  with q show "m \<in> valid_trs tr s'" by (auto intro: valid_trsI)
qed

lemma valid_trs_unique:
  assumes ok: "cm_ok s" and own: "owners_ok pend s"
    and "(va, pa, w) \<in> valid_trs tr s" and "(va', pa, w') \<in> valid_trs tr s"
  shows "va = va'"
proof -
  from assms(3,4) obtain q e q' e' where
    q: "tr q = Some (va, w)" "pt_read s q = Some e" "in_mem e" "pa = frame_addr (pt_frame_index e)" and
    q': "tr q' = Some (va', w')" "pt_read s q' = Some e'" "in_mem e'" "pa = frame_addr (pt_frame_index e')"
    unfolding valid_trs_def by blast
  have "pt_frame_index e = pt_frame_index e'"
    using frame_addr_inject frame_less(2) [OF ok own q(2,3)] frame_less(2) [OF ok own q'(2,3)] q(4) q'(4)
    by metis
  with frame_unique [OF own q(2,3) q'(2,3)] have "q = q'" by simp
  with q q' show ?thesis by simp
qed

lemma slots_ok_evict:
  assumes "slots_ok s" and sub: "marked (swapmap s) \<subseteq> marked (swapmap s')"
    and rd: "\<And>q. pt_read s' q = (if q = p then Some e' else pt_read s q)"
    and new: "pt_status e' = IN_SWAP \<Longrightarrow>
      pt_swap_index e' \<in> marked (swapmap s') \<and> pt_swap_index e' \<notin> marked (swapmap s)"
  shows "slots_ok s'"
proof -
  have old: "pt_swap_index e \<in> marked (swapmap s)" if "pt_read s q = Some e" "pt_status e = IN_SWAP" for q e
    using assms(1) that unfolding slots_ok_def by blast
  have inj: "q = r" if "pt_read s q = Some e" "pt_read s r = Some f" "pt_status e = IN_SWAP"
    "pt_status f = IN_SWAP" "pt_swap_index e = pt_swap_index f" for q r e f
    using assms(1) that unfolding slots_ok_def by blast
  show ?thesis
    unfolding slots_ok_def
  proof (intro conjI allI impI)
    fix q e
    assume "pt_read s' q = Some e" "pt_status e = IN_SWAP"
    then show "pt_swap_index e \<in> marked (swapmap s')"
      using rd [of q] new old [of q e] sub by (auto split: if_splits)
  next
    fix q r e f
    assume a: "pt_read s' q = Some e" "pt_read s' r = Some f" "pt_status e = IN_SWAP"
      "pt_status f = IN_SWAP" "pt_swap_index e = pt_swap_index f"
    show "q = r"
    proof (cases "q = p \<or> r = p")
      case True
      with a rd [of q] rd [of r] new old [of q e] old [of r f] show ?thesis by (auto split: if_splits)
    next
      case False
      with a rd [of q] rd [of r] inj show ?thesis by simp
    qed
  qed
qed

text \<open>
  Eviction in general: the page of frame \<open>vi\<close> has been saved, its entry becomes \<open>e'\<close> and
  the TLB forgets the frame.
\<close>

lemma evict:
  fixes s s1 :: "('f, 'a) vm_st_scheme"
  assumes inv: "vm_inv vo content img ro tr None s" and o: "owned s vi p"
    and s1: "ptables s1 = ptables s" "coremap s1 = coremap s" "victim_index s1 = victim_index s"
      "ram s1 = ram s" "tlb s1 = tlb s" "tlb_victim s1 = tlb_victim s" "swap_ok vo content s1"
      "marked (swapmap s) \<subseteq> marked (swapmap s1)"
      "\<forall>i \<in> marked (swapmap s). \<forall>off < PAGE_SIZE.
         content (swapfile s1) ! (i * PAGE_SIZE + off) = content (swapfile s) ! (i * PAGE_SIZE + off)"
    and swp: "pt_status e' = IN_SWAP \<Longrightarrow>
      pt_swap_index e' \<in> marked (swapmap s1) \<and> pt_swap_index e' \<notin> marked (swapmap s) \<and>
      (\<forall>off < PAGE_SIZE. content (swapfile s1) ! (pt_swap_index e' * PAGE_SIZE + off) = ram s (vi * PAGE_SIZE + off))"
    and nl: "pt_status e' = NOT_LOADED \<Longrightarrow> \<forall>off < PAGE_SIZE. ram s (vi * PAGE_SIZE + off) = img p off"
    and e': "\<not> in_mem e'" and nro: "pt_status e' = IN_SWAP \<Longrightarrow> \<not> ro p"
  shows "\<exists>s'. tlb_remove_by_paddr (frame_addr vi) (pt_write p e' s1) = Some s' \<and>
    vm_inv vo content img ro tr (Some (p, vi)) s' \<and> same_pages content img s s' \<and>
    tlb_only (pt_write p e' s1) s' \<and> (\<forall>q. pt_read s' q = (if q = p then Some e' else pt_read s q))"
proof -
  have ok: "cm_ok s" and own: "owners_ok None s" and sl: "slots_ok s" and rok: "rdonly_ok img ro s"
    and tc: "tlb_coherent tr s" using inv by (simp_all add: vm_inv_def)
  obtain e where e: "pt_read s p = Some e" "in_mem e" "pt_frame_index e = vi"
    by (rule owner_entry [OF own o])
  have vi: "vi < 2 ^ 20" "vi \<noteq> 0" using frame_less [OF ok own e(1,2)] e(3) by simp_all
  let ?s2 = "pt_write p e' s1"
  have rd1: "pt_read s1 = pt_read s" by (rule pt_read_cong [OF s1(1)])
  have rd2: "pt_read ?s2 q = (if q = p then Some e' else pt_read s q)" for q
    using pt_read_write [of s1 p e e' q] e(1) by (simp add: rd1)
  have more: "coremap ?s2 = coremap s" "victim_index ?s2 = victim_index s"
    using s1(2,3) by (simp_all add: pt_write_def split: option.split)
  have tok: "tlb_ok ?s2" "\<And>f. tr = Some f \<Longrightarrow> tlb_maps ?s2 \<subseteq> valid_trs f s"
    using tc s1(5-7) by (simp_all add: tlb_coherent_def tlb_ok_def tlb_maps_def swap_ok_def)
  have pa: "page_aligned (frame_addr vi)" "frame_addr vi \<noteq> 0"
    using vi page_aligned_frame_addr frame_addr_inject [of vi 0] by (auto simp: frame_addr_def)
  obtain s' where s': "tlb_remove_by_paddr (frame_addr vi) ?s2 = Some s'" "tlb_ok s'" "tlb_only ?s2 s'"
    and trs: "\<And>f. tr = Some f \<Longrightarrow> tlb_maps s' \<subseteq> {m \<in> valid_trs f s. fst (snd m) \<noteq> frame_addr vi}"
  proof (cases tr)
    case None
    show thesis by (rule tc.remove_any [OF tok(1) pa]) (rule that, simp_all add: None)
  next
    case (Some f)
    show thesis
    proof (rule tc.remove_coherent [OF tok(1) pa tok(2) [OF Some]])
      show "va = va'" if "(va, frame_addr vi, w) \<in> valid_trs f s" "(va', frame_addr vi, w') \<in> valid_trs f s"
        for va w va' w' using valid_trs_unique [OF ok own] that by blast
    qed (rule that, simp_all add: Some)
  qed
  note same = tlb_only_vm [OF s'(3)]
  have rd: "pt_read s' q = (if q = p then Some e' else pt_read s q)" for q
    using rd2 pt_read_cong [OF same(4)] by simp
  have len: "length (vmstats s') = 10" using s'(2) by (simp add: tlb_ok_def)
  have "swap_ok vo content s'"
    using s1(7) same len by (intro swap_ok_cong [of s' s1]) simp_all
  moreover have "cm_ok s'" using ok more same by (intro cm_ok_cong [of s' s]) (simp_all add: cm_ok_def)
  moreover have "owners_ok (Some (p, vi)) s'"
    using same more by (intro owners_ok_evict [OF own o _ rd e']) simp
  moreover have "slots_ok s'"
    using same s1(8) swp by (intro slots_ok_evict [OF sl _ rd]) auto
  moreover have "rdonly_ok img ro s'"
    using rok rd e' nro same s1(4) by (auto simp: rdonly_ok_def in_mem_def split: if_splits)
  moreover have "tlb_coherent tr s'"
    unfolding tlb_coherent_def using s'(2) trs valid_trs_evict [OF ok own o rd] by blast
  moreover have "same_pages content img s s'"
    unfolding same_pages_def
  proof (intro allI impI)
    fix q off
    assume off: "off < PAGE_SIZE"
    show "page_val content img s' q off = page_val content img s q off"
    proof (cases "q = p")
      case True
      then show ?thesis
        using rd [of p] e off swp nl e' same s1(4)
        by (cases "pt_status e'"; cases "pt_status e") (auto simp: page_val_def in_mem_def)
    next
      case False
      have "pt_swap_index f \<in> marked (swapmap s)" if "pt_read s q = Some f" "pt_status f = IN_SWAP" for f
        using sl that unfolding slots_ok_def by blast
      with False rd [of q] off s1(9) same s1(4) show ?thesis
        by (auto simp: page_val_def split: option.split pt_status.split)
    qed
  qed
  ultimately show ?thesis using s'(1,3) rd by (auto simp: vm_inv_def)
qed

lemma vm_inv_victim:
  "vm_inv vo content img ro tr pend s \<Longrightarrow> v < length (coremap s) \<Longrightarrow>
     vm_inv vo content img ro tr pend (s\<lparr>victim_index := v\<rparr>)"
  by (simp add: vm_inv_def swap_ok_def cm_ok_def owners_ok_cong [of "s\<lparr>victim_index := v\<rparr>" s]
      slots_ok_cong [of "s\<lparr>victim_index := v\<rparr>" s] rdonly_ok_cong [of "s\<lparr>victim_index := v\<rparr>" s]
      tlb_coherent_cong [of "s\<lparr>victim_index := v\<rparr>" s])

lemma pt_status_mem:
  "in_mem e \<Longrightarrow> pt_status e \<noteq> IN_MEMORY_RDONLY \<Longrightarrow> pt_status e = IN_MEMORY"
  by (auto simp: in_mem_def)

text \<open>The two ways to free the frame of the victim: drop a read-only page, or write the page out.\<close>

lemma swapout_drop:
  assumes inv: "vm_inv vo content img ro tr None s" and o: "owned s vi p"
    and e: "pt_read s p = Some e" "pt_status e = IN_MEMORY_RDONLY"
  shows "\<exists>s'. Option.bind (pt_set p 0 0 NOT_LOADED s) (tlb_remove_by_paddr (frame_addr vi)) = Some s' \<and>
    vm_inv vo content img ro tr (Some (p, vi)) s' \<and> same_pages content img s s' \<and>
    coremap s' = coremap s \<and> vm_st.more s' = vm_st.more s \<and> vmstats s' ! VMSTAT_SWAP_WRITE = vmstats s ! VMSTAT_SWAP_WRITE \<and>
    (\<forall>q. q \<noteq> p \<longrightarrow> pt_read s' q = pt_read s q) \<and>
    (\<forall>k. k \<noteq> VMSTAT_SWAP_WRITE \<longrightarrow> vmstats s' ! k = vmstats s ! k)"
proof -
  let ?e' = "\<lparr>pt_frame_index = 0, pt_swap_index = 0, pt_status = NOT_LOADED\<rparr>"
  have own: "owners_ok None s" and rok: "rdonly_ok img ro s" and sw: "swap_ok vo content s"
    using inv by (simp_all add: vm_inv_def)
  obtain e2 where "pt_read s p = Some e2" "pt_frame_index e2 = vi" by (rule owner_entry [OF own o])
  with e(1) have fr: "pt_frame_index e = vi" by simp
  have img: "\<forall>off < PAGE_SIZE. ram s (vi * PAGE_SIZE + off) = img p off"
    using rok e fr unfolding rdonly_ok_def by blast
  have set: "pt_set p 0 0 NOT_LOADED s = Some (pt_write p ?e' s)"
    using pt_set_eq [OF e(1), of 0 0 NOT_LOADED] by simp
  obtain s' where s': "tlb_remove_by_paddr (frame_addr vi) (pt_write p ?e' s) = Some s'"
    "vm_inv vo content img ro tr (Some (p, vi)) s'" "same_pages content img s s'"
    "tlb_only (pt_write p ?e' s) s'" "\<forall>q. pt_read s' q = (if q = p then Some ?e' else pt_read s q)"
    using evict [OF inv o refl refl refl refl refl refl sw subset_refl, of ?e'] img
    by (auto simp: in_mem_def)
  note same = tlb_only_vm [OF s'(4)]
  have "coremap s' = coremap s" "vm_st.more s' = vm_st.more s"
    using same by (simp_all add: pt_write_def split: option.split)
  moreover have "vmstats s' = vmstats s" using same(8) by simp
  ultimately show ?thesis using s' set by auto
qed

lemma cm_unlock:
  assumes "i < length (coremap s)" and "\<not> cm_lock (coremap s ! i)"
  shows "coremap (cm_set_lock i False (cm_set_lock i True s)) = coremap s"
  using assms by (cases "coremap s ! i") (simp add: cm_set_lock_def list_update_same_conv)

lemma swapout_write:
  fixes s :: "('f, 'a) vm_st_scheme"
  assumes inv: "vm_inv vo content img ro tr None s" and o: "owned s vi p" and nro: "\<not> ro p"
    and room: "marked (swapmap s) \<noteq> {..<SWAPFILE_NPAGES}"
  shows "\<exists>s'. do {
       let s = cm_set_lock vi True s;
       (swap_index, s) \<leftarrow> swap_out vo (frame_addr vi) s;
       let s = cm_set_lock vi False s;
       p \<leftarrow> cm_ptentry (coremap s ! vi);
       s \<leftarrow> pt_set p 0 swap_index IN_SWAP s;
       tlb_remove_by_paddr (frame_addr vi) s
     } = Some s' \<and>
    vm_inv vo content img ro tr (Some (p, vi)) s' \<and> same_pages content img s s' \<and>
    coremap s' = coremap s \<and> vm_st.more s' = vm_st.more s \<and>
    vmstats s' ! VMSTAT_SWAP_WRITE = vmstats s ! VMSTAT_SWAP_WRITE + 1 \<and>
    (\<forall>q. q \<noteq> p \<longrightarrow> pt_read s' q = pt_read s q) \<and>
    (\<forall>k. k \<noteq> VMSTAT_SWAP_WRITE \<longrightarrow> vmstats s' ! k = vmstats s ! k)"
proof -
  have ok: "cm_ok s" and own: "owners_ok None s" and sw: "swap_ok vo content s" and tok: "tlb_ok s"
    using inv by (simp_all add: vm_inv_def tlb_coherent_def)
  obtain e where e: "pt_read s p = Some e" "in_mem e" "pt_frame_index e = vi" by (rule owner_entry [OF own o])
  have vi: "vi < 2 ^ 20" "vi < length (coremap s)" "\<not> cm_lock (coremap s ! vi)"
    "cm_ptentry (coremap s ! vi) = Some p"
    using frame_less [OF ok own e(1,2)] e(3) ok o by (simp_all add: cm_ok_def owned_def)
  let ?s0 = "cm_set_lock vi True s"
  have f0: "swapmap ?s0 = swapmap s" "swapfile ?s0 = swapfile s" "vmstats ?s0 = vmstats s" "ram ?s0 = ram s"
    by (simp_all add: cm_set_lock_def)
  have sw0: "swap_ok vo content ?s0" using sw f0 by (simp add: swap_ok_def)
  have len: "length (vmstats s) = 10" using sw by (simp add: swap_ok_def)
  have abs0: "swap_abs content ?s0 = swap_abs content s" by (simp add: swap_abs_def f0 fun_eq_iff)
  obtain i m f where out: "swap_out vo (frame_addr vi) ?s0 =
      Some (i, ?s0\<lparr>vmstats := stat_add VMSTAT_SWAP_WRITE (vmstats s), swapmap := m, swapfile := f\<rparr>)"
    "i < SWAPFILE_NPAGES" "i \<notin> marked (swapmap s)" "bitmap_ok m" "nbits m = SWAPFILE_NPAGES"
    "marked m = insert i (marked (swapmap s))"
    "content f = file_put (content (swapfile s)) (i * PAGE_SIZE) (mem_get (ram s) (vi * PAGE_SIZE) PAGE_SIZE)"
    using swap_out_spec [OF sw0 page_aligned_frame_addr [OF vi(1)]] room f0 unat_frame_addr [OF vi(1)] by auto
  let ?s1 = "cm_set_lock vi False (?s0\<lparr>vmstats := stat_add VMSTAT_SWAP_WRITE (vmstats s), swapmap := m, swapfile := f\<rparr>)"
  have cm1: "coremap ?s1 = coremap s" using cm_unlock [OF vi(2,3)] by (simp add: cm_set_lock_def)
  have f1: "ptables ?s1 = ptables s" "victim_index ?s1 = victim_index s" "ram ?s1 = ram s" "tlb ?s1 = tlb s"
    "tlb_victim ?s1 = tlb_victim s" "swapmap ?s1 = m" "swapfile ?s1 = f"
    "vmstats ?s1 = stat_add VMSTAT_SWAP_WRITE (vmstats s)" "vm_st.more ?s1 = vm_st.more s"
    by (simp_all add: cm_set_lock_def)
  have old: "(j + 1) * PAGE_SIZE \<le> length (content (swapfile s))" if "j \<in> marked (swapmap s)" for j
    using sw that by (simp add: swap_ok_def)
  have sw1: "swap_ok vo content ?s1"
  proof -
    have "\<forall>j \<in> marked m. (j + 1) * PAGE_SIZE \<le> length (content f)"
      unfolding out(6,7) length_file_put using old by fastforce
    with sw out(4,5) f1 len show ?thesis by (simp add: swap_ok_def)
  qed
  have keep: "\<forall>j \<in> marked (swapmap s). \<forall>off < PAGE_SIZE.
      content (swapfile ?s1) ! (j * PAGE_SIZE + off) = content (swapfile s) ! (j * PAGE_SIZE + off)"
  proof (intro ballI allI impI)
    fix j off
    assume j: "j \<in> marked (swapmap s)" and off: "off < PAGE_SIZE"
    have "\<not> (i * PAGE_SIZE \<le> j * PAGE_SIZE + off \<and> j * PAGE_SIZE + off < i * PAGE_SIZE + PAGE_SIZE)"
      using frame_byte_range [OF off, of i j] j out(3) by auto
    with old [OF j] off show "content (swapfile ?s1) ! (j * PAGE_SIZE + off) = content (swapfile s) ! (j * PAGE_SIZE + off)"
      unfolding f1(7) out(7) by (subst nth_file_put) auto
  qed
  have new: "\<forall>off < PAGE_SIZE. content (swapfile ?s1) ! (i * PAGE_SIZE + off) = ram s (vi * PAGE_SIZE + off)"
    unfolding f1(7) out(7) by (auto simp: nth_file_put)
  let ?e' = "\<lparr>pt_frame_index = 0, pt_swap_index = i, pt_status = IN_SWAP\<rparr>"
  have e1: "pt_read ?s1 p = Some e" using e(1) pt_read_cong [OF f1(1)] by simp
  have set: "pt_set p 0 i IN_SWAP ?s1 = Some (pt_write p ?e' ?s1)"
    using pt_set_eq [OF e1, of i 0 IN_SWAP] out(2) by simp
  have sub: "marked (swapmap s) \<subseteq> marked (swapmap ?s1)" using out(6) f1(6) by auto
  obtain s' where s': "tlb_remove_by_paddr (frame_addr vi) (pt_write p ?e' ?s1) = Some s'"
    "vm_inv vo content img ro tr (Some (p, vi)) s'" "same_pages content img s s'"
    "tlb_only (pt_write p ?e' ?s1) s'" "\<forall>q. pt_read s' q = (if q = p then Some ?e' else pt_read s q)"
    using evict [OF inv o f1(1) cm1 f1(2-5) sw1 sub keep, of ?e'] new out(3,6) f1(6) nro by (auto simp: in_mem_def)
  note same = tlb_only_vm [OF s'(4)]
  have "coremap s' = coremap s" "vm_st.more s' = vm_st.more s"
    using same cm1 f1(9) by (simp_all add: pt_write_def split: option.split)
  moreover have "vmstats s' = stat_add VMSTAT_SWAP_WRITE (vmstats s)" using same(8) f1(8) by simp
  ultimately show ?thesis using s' set out(1) cm1 vi(4) len by (auto simp: Let_def nth_stat_add)
qed

lemma coremap_swapout_spec:
  assumes inv: "vm_inv vo content img ro tr None s"
    and full: "\<forall>i < length (coremap s). cm_free (coremap s ! i)"
    and user: "\<exists>i < length (coremap s). user_frame s i"
    and room: "marked (swapmap s) \<noteq> {..<SWAPFILE_NPAGES} \<or> coremap_swapout vo 1 s \<noteq> None"
  shows "\<exists>vi p s'. coremap_swapout vo 1 s = Some (int vi, s') \<and>
    vm_inv vo content img ro tr (Some (p, vi)) s' \<and> same_pages content img s s' \<and> owned s vi p \<and>
    coremap s' = coremap s \<and> vm_st.more s' = vm_st.more s \<and>
    (\<forall>q. q \<noteq> p \<longrightarrow> pt_read s' q = pt_read s q) \<and>
    (\<forall>k. k \<noteq> VMSTAT_SWAP_WRITE \<longrightarrow> vmstats s' ! k = vmstats s ! k)"
proof -
  have ok: "cm_ok s" and own: "owners_ok None s" using inv by (simp_all add: vm_inv_def)
  obtain vi p where v: "coremap_get_victim s = Some (int vi, s\<lparr>victim_index := vi\<rparr>)" "owned s vi p"
    using coremap_get_victim_spec(1) [OF ok own full user] by blast
  let ?s = "s\<lparr>victim_index := vi\<rparr>"
  have vi: "vi < length (coremap s)" "cm_ptentry (coremap s ! vi) = Some p"
    using v(2) by (simp_all add: owned_def)
  have inv': "vm_inv vo content img ro tr None ?s" by (rule vm_inv_victim [OF inv vi(1)])
  have o': "owned ?s vi p" using v(2) by (simp add: owned_def)
  have rd: "pt_read ?s = pt_read s" by (simp add: pt_read_def fun_eq_iff)
  obtain e where e: "pt_read s p = Some e" "in_mem e" by (rule owner_entry [OF own v(2)])
  have pages: "same_pages content img s ?s" by (simp add: same_pages_def page_val_cong [of ?s s])
  define fin where "fin = (\<lambda>s'. vm_inv vo content img ro tr (Some (p, vi)) s' \<and> same_pages content img ?s s' \<and>
    coremap s' = coremap s \<and> vm_st.more s' = vm_st.more s \<and>
    (\<forall>q. q \<noteq> p \<longrightarrow> pt_read s' q = pt_read s q) \<and> (\<forall>k. k \<noteq> VMSTAT_SWAP_WRITE \<longrightarrow> vmstats s' ! k = vmstats s ! k))"
  have "\<exists>s'. coremap_swapout vo 1 s = Some (int vi, s') \<and> fin s'"
  proof (cases "pt_status e = IN_MEMORY_RDONLY")
    case True
    then obtain s' where run: "Option.bind (pt_set p 0 0 NOT_LOADED ?s) (tlb_remove_by_paddr (frame_addr vi)) = Some s'"
      and f: "fin s'"
      using swapout_drop [OF inv' o' _ True] e(1) by (auto simp: rd fin_def)
    obtain s1 where "pt_set p 0 0 NOT_LOADED ?s = Some s1" "tlb_remove_by_paddr (frame_addr vi) s1 = Some s'"
      using run by (rule bind_eq_SomeE)
    then have "coremap_swapout vo 1 s = Some (int vi, s')"
      using v(1) vi e(1) True by (simp add: coremap_swapout_def rd)
    with f show ?thesis by blast
  next
    case False
    have nro: "\<not> ro p"
      using inv e False by (auto simp: vm_inv_def rdonly_ok_def in_mem_def)
    have "marked (swapmap ?s) \<noteq> {..<SWAPFILE_NPAGES}"
    proof
      assume "marked (swapmap ?s) = {..<SWAPFILE_NPAGES}"
      moreover have "swap_ok vo content (cm_set_lock vi True ?s)"
        using inv by (simp add: vm_inv_def swap_ok_def cm_set_lock_def)
      ultimately have "swap_out vo (frame_addr vi) (cm_set_lock vi True ?s) = None"
        by (intro swap_out_full) (simp_all add: cm_set_lock_def)
      then have "coremap_swapout vo 1 s = None"
        using v(1) vi e(1) False by (simp add: coremap_swapout_def rd)
      with room \<open>marked (swapmap ?s) = {..<SWAPFILE_NPAGES}\<close> show False by simp
    qed
    from swapout_write [OF inv' o' nro this] obtain s' where run: "do {
       let s = cm_set_lock vi True ?s;
       (swap_index, s) \<leftarrow> swap_out vo (frame_addr vi) s;
       let s = cm_set_lock vi False s;
       p \<leftarrow> cm_ptentry (coremap s ! vi);
       s \<leftarrow> pt_set p 0 swap_index IN_SWAP s;
       tlb_remove_by_paddr (frame_addr vi) s
     } = Some s'" and f: "fin s'" by (auto simp: rd fin_def)
    have "coremap_swapout vo 1 s = Some (int vi, s')"
      using v(1) vi e(1) False run
      by (auto simp: coremap_swapout_def rd Let_def elim!: bind_eq_SomeE)
    with f show ?thesis by blast
  qed
  with v(2) same_pages_trans [OF pages] show ?thesis unfolding fin_def by blast
qed

section \<open>Handing out frames\<close>

lemma bzero_frames:
  assumes "off < PAGE_SIZE"
  shows "bzero (b * PAGE_SIZE) (PAGE_SIZE * n) m (f * PAGE_SIZE + off) =
     (if b \<le> f \<and> f < b + n then 0 else m (f * PAGE_SIZE + off))"
proof -
  have "b * PAGE_SIZE \<le> f * PAGE_SIZE + off \<longleftrightarrow> b \<le> f"
    using assms by linarith
  moreover have "f * PAGE_SIZE + off < b * PAGE_SIZE + PAGE_SIZE * n \<longleftrightarrow> f < b + n"
    using assms by linarith
  ultimately show ?thesis by (simp only: bzero_apply)
qed

lemma unref_block:
  assumes own: "owners_ok pend s"
    and blk: "pend = None \<and> free_run (coremap s) b n \<or> pend = Some (p0, b) \<and> n = 1"
    and e: "pt_read s p = Some e" "in_mem e"
  shows "\<not> (b \<le> pt_frame_index e \<and> pt_frame_index e < b + n)"
proof
  assume r: "b \<le> pt_frame_index e \<and> pt_frame_index e < b + n"
  have o: "owned s (pt_frame_index e) p" by (rule owners_okD(2) [OF own e])
  from blk show False
  proof (elim disjE conjE)
    assume "free_run (coremap s) b n"
    with r o show False by (simp add: free_run_def owned_def)
  next
    assume p0: "pend = Some (p0, b)" and "n = 1"
    with r have "pt_frame_index e = b" by simp
    with o owned_unique owners_okD(3) [OF own p0] have "p = p0" by metis
    with owners_okD(4) [OF own p0] e show False by auto
  qed
qed

text \<open>
  A block of frames that no page uses, either free or just taken from its owner, is
  zeroed and marked.
\<close>

lemma take_block:
  fixes s :: "('f, 'a) vm_st_scheme"
  assumes inv: "vm_inv vo content img ro tr pend s"
    and blk: "pend = None \<and> free_run (coremap s) b n \<or> pend = Some (p0, b) \<and> n = 1"
    and n: "0 < n" "n < 2 ^ 20"
    and q: "\<And>q. ptentry = Some q \<Longrightarrow> n = 1 \<and> (\<exists>e. pt_read s q = Some e \<and> \<not> in_mem e)"
  defines "s' \<equiv> s\<lparr>ram := bzero (b * PAGE_SIZE) (PAGE_SIZE * n) (ram s),
                  coremap := coremap_mark b n ptentry (coremap s)\<rparr>"
  shows "vm_inv vo content img ro tr (map_option (\<lambda>q. (q, b)) ptentry) s'" and "same_pages content img s s'"
    and "b \<noteq> 0" and "b + n \<le> length (coremap s)"
    and "length (coremap s') = length (coremap s)"
proof -
  have sw: "swap_ok vo content s" and ok: "cm_ok s" and own: "owners_ok pend s" and sl: "slots_ok s"
    and rok: "rdonly_ok img ro s" and tc: "tlb_coherent tr s" using inv by (simp_all add: vm_inv_def)
  have p0: "owned s b p0" "cm_size_alloc (coremap s ! b) = 1" if "pend = Some (p0, b)"
    using owners_okD(3) [OF own that] owners_okD(1) [OF own, of b p0] by (simp_all add: owner_ok_def)
  show bn: "b + n \<le> length (coremap s)"
    using blk p0(1) by (auto simp: free_run_def owned_def)
  have cm0: "cm_free (coremap s ! 0)" "cm_ptentry (coremap s ! 0) = None" using ok by (simp_all add: cm_ok_def)
  show b0: "b \<noteq> 0"
    using blk cm0 p0(1) n by (auto simp: free_run_def owned_def intro: ccontr)
  show len: "length (coremap s') = length (coremap s)"
    by (simp add: s'_def length_coremap_mark [OF bn])
  note nth = nth_coremap_mark [OF bn _ n(2,1), of _ ptentry]
  have cm: "coremap s' ! j = (if j = b then (coremap s ! j)\<lparr>cm_free := True, cm_size_alloc := n, cm_ptentry := ptentry\<rparr>
      else if b \<le> j \<and> j < b + n then (coremap s ! j)\<lparr>cm_free := True, cm_ptentry := ptentry\<rparr>
      else coremap s ! j)" if "j < length (coremap s)" for j
    using nth [OF that] by (simp add: s'_def)
  have rd: "pt_read s' = pt_read s" by (simp add: s'_def pt_read_def fun_eq_iff)
  have ram: "ram s' (f * PAGE_SIZE + off) = (if b \<le> f \<and> f < b + n then 0 else ram s (f * PAGE_SIZE + off))"
    if "off < PAGE_SIZE" for f off
    using bzero_frames [OF that] by (simp add: s'_def)
  note unref = unref_block [OF own blk]
  have "frames_ok (coremap s')"
  proof (cases pend)
    case None
    with blk ok n show ?thesis by (auto simp: s'_def cm_ok_def intro: frames_ok_mark)
  next
    case (Some a)
    with blk have "pend = Some (p0, b)" "n = 1" by auto
    with p0 ok frames_ok_remark [of "coremap s" b ptentry] show ?thesis
      by (simp add: s'_def cm_ok_def owned_def)
  qed
  moreover have "\<not> cm_lock (coremap s' ! i)" if "i < length (coremap s)" for i
    using cm [OF that] ok that by (simp add: cm_ok_def)
  moreover have "coremap s' ! 0 = coremap s ! 0" using cm [of 0] b0 ok by (simp add: cm_ok_def)
  ultimately have "cm_ok s'" using ok len by (simp add: cm_ok_def s'_def)
  moreover have "owners_ok (map_option (\<lambda>q. (q, b)) ptentry) s'"
  proof (rule owners_okI)
    fix i p
    assume o: "owned s' i p"
    then have i: "i < length (coremap s)" by (simp add: owned_def len)
    show "owner_ok (map_option (\<lambda>q. (q, b)) ptentry) s' i p"
    proof (cases "b \<le> i \<and> i < b + n")
      case True
      with o cm [OF i] have pe: "ptentry = Some p" by (auto simp: owned_def split: if_splits)
      with q True have "i = b" "n = 1" by auto
      with pe cm [OF i] show ?thesis by (simp add: owner_ok_def)
    next
      case False
      with o cm [OF i] n have "owned s i p" by (auto simp: owned_def len split: if_splits)
      from owners_okD(1) [OF own this] have "owner_ok pend s i p" .
      with False blk n cm [OF i] show ?thesis by (auto simp: owner_ok_def rd)
    qed
  next
    fix p e
    assume e: "pt_read s' p = Some e" "in_mem e"
    with rd have e': "pt_read s p = Some e" by simp
    have o: "owned s (pt_frame_index e) p" by (rule owners_okD(2) [OF own e' e(2)])
    with unref [OF e' e(2)] cm [of "pt_frame_index e"] n show "owned s' (pt_frame_index e) p"
      by (auto simp: owned_def len)
  next
    fix p i
    assume "map_option (\<lambda>q. (q, b)) ptentry = Some (p, i)"
    then have pe: "ptentry = Some p" "i = b" by auto
    then show "owned s' i p \<and> (\<exists>e. pt_read s' p = Some e \<and> \<not> in_mem e)"
      using q cm [of b] bn n by (auto simp: owned_def len rd)
  qed
  moreover have "rdonly_ok img ro s'"
    using rok unref ram unfolding rdonly_ok_def rd in_mem_def by auto
  moreover have "swap_ok vo content s'" "slots_ok s'" "tlb_coherent tr s'"
    using sw slots_ok_cong [of s' s] sl tc tlb_coherent_cong [of s' s] by (simp_all add: s'_def swap_ok_def)
  ultimately show "vm_inv vo content img ro tr (map_option (\<lambda>q. (q, b)) ptentry) s'" by (simp add: vm_inv_def)
  show "same_pages content img s s'"
    unfolding same_pages_def page_val_def rd
    using unref ram by (auto simp: s'_def in_mem_def split: option.split pt_status.split)
qed

text \<open>
  The contract of \<^verbatim>\<open>coremap_getppages\<close>. It succeeds when there is a long enough run of
  free frames, or when a single frame is asked for, some frame holds a user page
  and the swap file is not full (or the victim does not need it).
\<close>

definition can_alloc :: "'f vnode_ops \<Rightarrow> nat \<Rightarrow> ('f, 'a) vm_st_scheme \<Rightarrow> bool" where
  "can_alloc vo n s \<longleftrightarrow> (\<exists>b. free_run (coremap s) b n) \<or>
     n = 1 \<and> (\<exists>i < length (coremap s). user_frame s i) \<and>
       (marked (swapmap s) \<noteq> {..<SWAPFILE_NPAGES} \<or> coremap_swapout vo 1 s \<noteq> None)"

lemma coremap_getppages_spec:
  assumes inv: "vm_inv vo content img ro tr None s" and n: "0 < n" "n < 2 ^ 20"
    and q: "\<And>q. ptentry = Some q \<Longrightarrow> n = 1 \<and> (\<exists>e. pt_read s q = Some e \<and> \<not> in_mem e)"
    and can: "can_alloc vo n s"
  obtains b s' where "coremap_getppages vo n ptentry s = Some (frame_addr b, s')"
    and "b \<noteq> 0" and "b + n \<le> length (coremap s)" and "length (coremap s') = length (coremap s)"
    and "vm_inv vo content img ro tr (map_option (\<lambda>q. (q, b)) ptentry) s'" and "same_pages content img s s'"
    and "vm_st.more s' = vm_st.more s" and "\<forall>k. k \<noteq> VMSTAT_SWAP_WRITE \<longrightarrow> vmstats s' ! k = vmstats s ! k"
    and "\<forall>off < PAGE_SIZE * n. ram s' (b * PAGE_SIZE + off) = 0"
    and "\<forall>q. ptentry = Some q \<longrightarrow> pt_read s' q = pt_read s q"
    and "cm_size_alloc (coremap s' ! b) = n" and "cm_free (coremap s' ! b)" and "cm_ptentry (coremap s' ! b) = ptentry"
proof -
  have ok: "cm_ok s" and own: "owners_ok None s" using inv by (simp_all add: vm_inv_def)
  have fok: "frames_ok (coremap s)" using ok by (simp add: cm_ok_def)
  let ?take = "\<lambda>b s. s\<lparr>ram := bzero (b * PAGE_SIZE) (PAGE_SIZE * n) (ram s),
                  coremap := coremap_mark b n ptentry (coremap s)\<rparr>"
  have zero: "\<forall>off < PAGE_SIZE * n. ram (?take b t) (b * PAGE_SIZE + off) = 0" for b and t :: "('a, 'b) vm_st_scheme"
    by (simp add: bzero_apply)
  have head: "cm_size_alloc (coremap (?take b t) ! b) = n" "cm_free (coremap (?take b t) ! b)"
    "cm_ptentry (coremap (?take b t) ! b) = ptentry"
    if "b + n \<le> length (coremap t)" for b and t :: "('a, 'b) vm_st_scheme"
    using nth_coremap_mark [OF that _ n(2,1), of b ptentry] that n(1) by simp_all
  from coremap_find_freeframes_spec [OF fok n(1)] show thesis
  proof (elim disjE exE conjE)
    fix b
    assume find: "coremap_find_freeframes n (coremap s) = Some (int b)" and run: "free_run (coremap s) b n"
    have blk: "None = None \<and> free_run (coremap s) b n \<or> None = Some (p0 :: pt_ptr, b) \<and> n = 1" for p0
      using run by simp
    note t = take_block [OF inv blk n q]
    show thesis
    proof (rule that [of b "?take b s"])
      show "coremap_getppages vo n ptentry s = Some (frame_addr b, ?take b s)"
        using find by (simp add: coremap_getppages_def)
      show "\<forall>q. ptentry = Some q \<longrightarrow> pt_read (?take b s) q = pt_read s q" by (simp add: pt_read_def)
    qed (use t zero head [OF t(4)] in \<open>simp_all\<close>)
  next
    assume find: "coremap_find_freeframes n (coremap s) = Some (- 1)" and none: "\<nexists>a. free_run (coremap s) a n"
    with can have n1: "n = 1" and user: "\<exists>i < length (coremap s). user_frame s i"
      and room: "marked (swapmap s) \<noteq> {..<SWAPFILE_NPAGES} \<or> coremap_swapout vo 1 s \<noteq> None"
      by (auto simp: can_alloc_def)
    have full: "\<forall>i < length (coremap s). cm_free (coremap s ! i)"
    proof (intro allI impI, rule ccontr)
      fix i
      assume "i < length (coremap s)" "\<not> cm_free (coremap s ! i)"
      then have "free_run (coremap s) i 1" by (auto simp: free_run_def le_less_Suc_eq)
      with none n1 show False by simp
    qed
    obtain vi p s1 where out: "coremap_swapout vo 1 s = Some (int vi, s1)"
      "vm_inv vo content img ro tr (Some (p, vi)) s1" "same_pages content img s s1" "owned s vi p"
      "coremap s1 = coremap s" "vm_st.more s1 = vm_st.more s" "\<forall>q. q \<noteq> p \<longrightarrow> pt_read s1 q = pt_read s q"
      "\<forall>k. k \<noteq> VMSTAT_SWAP_WRITE \<longrightarrow> vmstats s1 ! k = vmstats s ! k"
      using coremap_swapout_spec [OF inv full user room] by blast
    obtain e where e: "pt_read s p = Some e" "in_mem e" by (rule owner_entry [OF own out(4)])
    have rdq: "pt_read s1 r = pt_read s r" if "ptentry = Some r" for r
    proof -
      have "r \<noteq> p" using q [OF that] e by auto
      with out(7) show ?thesis by simp
    qed
    have q1: "n = 1 \<and> (\<exists>e. pt_read s1 r = Some e \<and> \<not> in_mem e)" if "ptentry = Some r" for r
      using q [OF that] rdq [OF that] by simp
    have blk: "Some (p, vi) = None \<and> free_run (coremap s1) vi n \<or> Some (p, vi) = Some (p, vi) \<and> n = 1"
      using n1 by simp
    note t = take_block [OF out(2) blk n q1]
    show thesis
    proof (rule that [of vi "?take vi s1"])
      show "coremap_getppages vo n ptentry s = Some (frame_addr vi, ?take vi s1)"
        using find out(1) n1 by (simp add: coremap_getppages_def)
      show "\<forall>q. ptentry = Some q \<longrightarrow> pt_read (?take vi s1) q = pt_read s q"
        using rdq by (simp add: pt_read_def)
      show "same_pages content img s (?take vi s1)" by (rule same_pages_trans [OF out(3) t(2)])
    qed (use t zero head [OF t(4)] out in \<open>simp_all\<close>)
  qed
qed

text \<open>Conversely these are the only ways it can succeed.\<close>

lemma getppages_can_alloc:
  assumes inv: "vm_inv vo content img ro tr None s" and n: "0 < n"
    and run: "coremap_getppages vo n ptentry s = Some r"
  shows "can_alloc vo n s"
proof -
  have ok: "cm_ok s" and own: "owners_ok None s" using inv by (simp_all add: vm_inv_def)
  have fok: "frames_ok (coremap s)" using ok by (simp add: cm_ok_def)
  from coremap_find_freeframes_spec [OF fok n] show ?thesis
  proof (elim disjE exE conjE)
    fix b
    assume "free_run (coremap s) b n"
    then show ?thesis by (auto simp: can_alloc_def)
  next
    assume find: "coremap_find_freeframes n (coremap s) = Some (- 1)" and none: "\<nexists>a. free_run (coremap s) a n"
    then have sw: "coremap_swapout vo n s \<noteq> None"
      using run by (cases "coremap_swapout vo n s") (auto simp: coremap_getppages_def)
    then have n1: "n = 1" using n by (cases "n > 1") (simp_all add: coremap_swapout_def kassert_def)
    have full: "\<forall>i < length (coremap s). cm_free (coremap s ! i)"
    proof (intro allI impI, rule ccontr)
      fix i
      assume "i < length (coremap s)" "\<not> cm_free (coremap s ! i)"
      then have "free_run (coremap s) i 1" by (auto simp: free_run_def le_less_Suc_eq)
      with none n1 show False by simp
    qed
    have "\<exists>i < length (coremap s). user_frame s i"
    proof (rule ccontr)
      assume "\<not> (\<exists>i < length (coremap s). user_frame s i)"
      from coremap_get_victim_spec(2) [OF ok own full this] have "coremap_swapout vo n s = None"
        by (auto simp: coremap_swapout_def kassert_def)
      with sw show False ..
    qed
    with sw n1 show ?thesis by (simp add: can_alloc_def)
  qed
qed

section \<open>Replacement is round robin\<close>

text \<open>
  Claim C24: a victim is found when there is one, and fairly. With no frame locked and one frame for each user
  page, \<^verbatim>\<open>coremap_get_victim\<close> returns the first frame of a user page after the last victim, going round the
  core map, and remembers it; it returns \<open>-1\<close> only when no frame holds a user page.
\<close>

theorem victim_round_robin:
  assumes "victim_index s < length (coremap s)"
    and "\<forall>i < length (coremap s). \<not> cm_lock (coremap s ! i)"
    and "\<forall>i < length (coremap s). user_frame s i \<longrightarrow>
           cm_free (coremap s ! i) \<and> cm_size_alloc (coremap s ! i) = 1"
  shows "\<exists>r v. coremap_get_victim s = Some (r, s\<lparr>victim_index := v\<rparr>) \<and>
    (if r = - 1 then \<forall>i < length (coremap s). \<not> user_frame s i
     else \<exists>k. 1 \<le> k \<and> k \<le> length (coremap s) \<and> v = (victim_index s + k) mod length (coremap s) \<and> r = int v \<and>
       user_frame s v \<and>
       (\<forall>j. 1 \<le> j \<and> j < k \<longrightarrow> \<not> user_frame s ((victim_index s + j) mod length (coremap s))))"
proof -
  let ?n = "length (coremap s)"
  have n: "0 < ?n" using assms(1) by linarith
  from coremap_get_victim_loop_spec [OF n assms(2,3), of ?n, folded coremap_get_victim_def] show ?thesis
  proof (elim disjE exE conjE)
    fix v
    assume "coremap_get_victim s = Some (- 1, s\<lparr>victim_index := v\<rparr>)"
      and none: "\<forall>j. 1 \<le> j \<and> j \<le> ?n \<longrightarrow> \<not> user_frame s ((victim_index s + j) mod ?n)"
    moreover have "\<not> user_frame s i" if "i < ?n" for i
      using cyclic_reach [OF assms(1) that] none by metis
    ultimately show ?thesis by auto
  qed force
qed

definition example_vm :: "byte list vm_st" where
  "example_vm = \<lparr>vmstats = [], tlb = [], tlb_victim = 0, tlb_free = True,
     swapmap = \<lparr>nbits = 0, bm_v = []\<rparr>, swapfile = [], ram = \<lambda>_. 0,
     ptables = \<lambda>_. None,
     coremap = map (\<lambda>i. \<lparr>cm_free = True, cm_size_alloc = 1, cm_lock = False,
       cm_ptentry = (if i = 1 then Some (0, 0) else None)\<rparr>) [0..<4],
     victim_index = 2\<rparr>"

lemma example_vm_frames:
  "length (coremap example_vm) = 4" "victim_index example_vm = 2"
  "i < 4 \<Longrightarrow> coremap example_vm ! i = \<lparr>cm_free = True, cm_size_alloc = 1, cm_lock = False,
     cm_ptentry = (if i = 1 then Some (0, 0) else None)\<rparr>"
  by (simp_all add: example_vm_def del: upt_rec_numeral)

theorem victim_round_robin_witness:
  "coremap_get_victim example_vm = Some (1, example_vm\<lparr>victim_index := 1\<rparr>)"
proof -
  have user: "user_frame example_vm i \<longleftrightarrow> i = 1" if "i < 4" for i
    using that by (simp add: user_frame_def example_vm_frames)
  obtain r v where rv: "coremap_get_victim example_vm = Some (r, example_vm\<lparr>victim_index := v\<rparr>)"
    "if r = - 1 then \<forall>i < length (coremap example_vm). \<not> user_frame example_vm i
     else \<exists>k. 1 \<le> k \<and> k \<le> length (coremap example_vm) \<and>
       v = (victim_index example_vm + k) mod length (coremap example_vm) \<and> r = int v \<and> user_frame example_vm v \<and>
       (\<forall>j. 1 \<le> j \<and> j < k \<longrightarrow> \<not> user_frame example_vm ((victim_index example_vm + j) mod length (coremap example_vm)))"
    using victim_round_robin [of example_vm] by (auto simp: example_vm_frames)
  have "r \<noteq> - 1" using rv(2) user [of 1] by (auto simp: example_vm_frames split: if_splits)
  with rv(2) have "r = int v" "user_frame example_vm v" "v < 4" by (auto simp: example_vm_frames)
  with user [of v] rv(1) show ?thesis by simp
qed

end
