(* ===== verification/Vm.thy ===== *)
theory Vm
  imports Addrspace Replacement
begin

unbundle bit_operations_syntax

text \<open>
  The page fault handler and the allocation interface of \<^verbatim>\<open>kern/vm/vm.c\<close>, with the
  operations of \<^verbatim>\<open>kern/vm/pt.c\<close>, \<^verbatim>\<open>kern/vm/addrspace.c\<close>, \<^verbatim>\<open>kern/syscall/loadelf.c\<close>,
  \<^verbatim>\<open>kern/proc/proc.c\<close> and \<^verbatim>\<open>kern/syscall/proc_syscall.c\<close> that they call. The state
  \<open>sys_st\<close> adds the processes and \<^verbatim>\<open>curproc\<close> to the paging state. \<^verbatim>\<open>vm_can_sleep\<close> only
  checks that no spinlock is held, which the sequential model does not track.
\<close>

section \<open>Allocation of frames\<close>

definition getppages ::
  "'f vnode_ops \<Rightarrow> nat \<Rightarrow> pt_ptr option \<Rightarrow> ('f, 'a) vm_st_scheme \<Rightarrow> (paddr \<times> ('f, 'a) vm_st_scheme) option" where
  "getppages vo npages ptentry s = do {
     (addr, s) \<leftarrow> coremap_getppages vo npages ptentry s;
     kassert (addr \<noteq> 0);
     Some (addr, s)
   }"

definition freeppages :: "paddr \<Rightarrow> ('f, 'a) vm_st_scheme \<Rightarrow> ('f, 'a) vm_st_scheme option" where
  "freeppages addr s = coremap_freeppages addr s"

definition alloc_kpages ::
  "'f vnode_ops \<Rightarrow> nat \<Rightarrow> ('f, 'a) vm_st_scheme \<Rightarrow> (vaddr \<times> ('f, 'a) vm_st_scheme) option" where
  "alloc_kpages vo npages s = do {
     (pa, s) \<leftarrow> getppages vo npages None s;
     Some (PADDR_TO_KVADDR pa, s)
   }"

definition free_kpages :: "vaddr \<Rightarrow> ('f, 'a) vm_st_scheme \<Rightarrow> ('f, 'a) vm_st_scheme option" where
  "free_kpages addr s = freeppages (KVADDR_TO_PADDR addr) s"

definition alloc_upage ::
  "'f vnode_ops \<Rightarrow> pt_ptr \<Rightarrow> ('f, 'a) vm_st_scheme \<Rightarrow> (paddr \<times> ('f, 'a) vm_st_scheme) option" where
  "alloc_upage vo pt_row s = getppages vo 1 (Some pt_row) s"

definition free_upage :: "paddr \<Rightarrow> ('f, 'a) vm_st_scheme \<Rightarrow> ('f, 'a) vm_st_scheme option" where
  "free_upage addr s = freeppages addr s"

section \<open>Page tables of an address space\<close>

definition pt_get_entry :: "addrspace \<Rightarrow> vaddr \<Rightarrow> pt_ptr option" where
  "pt_get_entry as vaddr = do {
     pt_index \<leftarrow> pt_get_index as vaddr;
     t \<leftarrow> as_ptable as;
     Some (t, pt_index)
   }"

text \<open>\<^verbatim>\<open>pt_empty\<close> is a loop over the first \<open>sz\<close> entries; \<open>i\<close> is its counter.\<close>

function pt_empty_loop ::
  "nat \<Rightarrow> nat \<Rightarrow> nat \<Rightarrow> ('f, 'a) vm_st_scheme \<Rightarrow> ('f, 'a) vm_st_scheme option" where
  "pt_empty_loop t sz i s =
     (if i < sz then
        (case pt_read s (t, i) of
           None \<Rightarrow> None
         | Some e \<Rightarrow>
             (case (case pt_status e of
                      IN_MEMORY_RDONLY \<Rightarrow> free_upage (frame_addr (pt_frame_index e)) s
                    | IN_MEMORY \<Rightarrow> free_upage (frame_addr (pt_frame_index e)) s
                    | IN_SWAP \<Rightarrow> swap_free (pt_swap_index e) s
                    | NOT_LOADED \<Rightarrow> Some s) of
                None \<Rightarrow> None
              | Some s' \<Rightarrow> pt_empty_loop t sz (i + 1) s'))
      else Some s)"
  by pat_completeness auto
termination
  by (relation "measure (\<lambda>(t, sz, i, s). sz - i)") auto

declare pt_empty_loop.simps [simp del]

definition pt_empty :: "nat \<Rightarrow> nat \<Rightarrow> ('f, 'a) vm_st_scheme \<Rightarrow> ('f, 'a) vm_st_scheme option" where
  "pt_empty t sz s = pt_empty_loop t sz 0 s"

definition pt_destroy :: "nat \<Rightarrow> ('f, 'a) vm_st_scheme \<Rightarrow> ('f, 'a) vm_st_scheme" where
  "pt_destroy t s = s\<lparr>ptables := (ptables s)(t := None)\<rparr>"

text \<open>
  \<^verbatim>\<open>as_define_pt\<close>: \<open>kmalloc_pt\<close> is the number of the table \<^verbatim>\<open>kmalloc\<close> returned, or
  \<^const>\<open>None\<close> for \<^verbatim>\<open>NULL\<close>, which is stored without a check.
\<close>

definition as_define_pt ::
  "nat option \<Rightarrow> addrspace \<Rightarrow> ('f, 'a) vm_st_scheme \<Rightarrow> (addrspace \<times> ('f, 'a) vm_st_scheme) option" where
  "as_define_pt kmalloc_pt as s = do {
     data \<leftarrow> as_data as;
     text \<leftarrow> as_text as;
     stack \<leftarrow> as_stack as;
     let npages = unat (seg_npages data + seg_npages text + seg_npages stack);
     (case kmalloc_pt of
        None \<Rightarrow> Some (as\<lparr>as_ptable := None\<rparr>, s)
      | Some t \<Rightarrow> do {
          es \<leftarrow> pt_create True npages;
          Some (as\<lparr>as_ptable := Some t\<rparr>, s\<lparr>ptables := (ptables s)(t \<mapsto> es)\<rparr>)
        })
   }"

definition as_destroy :: "addrspace \<Rightarrow> ('f, 'a) vm_st_scheme \<Rightarrow> ('f, 'a) vm_st_scheme option" where
  "as_destroy as s = do {
     data \<leftarrow> as_data as;
     text \<leftarrow> as_text as;
     stack \<leftarrow> as_stack as;
     let pt_size = unat (seg_npages data + seg_npages text + seg_npages stack);
     t \<leftarrow> as_ptable as;
     s \<leftarrow> pt_empty t pt_size s;
     Some (pt_destroy t s)
   }"

section \<open>Loading a page of the executable\<close>

definition load_page ::
  "'f vnode_ops \<Rightarrow> 'f \<Rightarrow> int \<Rightarrow> paddr \<Rightarrow> uint32 \<Rightarrow> ('f, 'a) vm_st_scheme \<Rightarrow> ('f, 'a) vm_st_scheme option" where
  "load_page vo vn offset page_paddr sz s =
     (case vop_read vo vn offset (unat sz) of
        Inl err \<Rightarrow> None
      | Inr bs \<Rightarrow> do {
          let s = s\<lparr>ram := mem_put (ram s) (unat page_paddr) bs\<rparr>;
          kassert (unat sz - length bs = 0);
          Some s
        })"

definition as_load_page ::
  "'f vnode_ops \<Rightarrow> addrspace \<Rightarrow> 'f \<Rightarrow> vaddr \<Rightarrow> ('f, 'a) vm_st_scheme \<Rightarrow> ('f, 'a) vm_st_scheme option" where
  "as_load_page vo as vnode faultaddress s = do {
     s \<leftarrow> vmstats_hit VMSTAT_PAGE_FAULT_DISK s;
     s \<leftarrow> vmstats_hit VMSTAT_PAGE_FAULT_ELF s;
     p \<leftarrow> pt_get_entry as faultaddress;
     pt_row \<leftarrow> pt_read s p;
     seg \<leftarrow> as_get_segment as faultaddress;
     let first = seg_first_vaddr seg;
     let elf_end = seg_first_vaddr seg + seg_elf_size seg;
     kassert (faultaddress < ROUNDUP elf_end 4096);
     kassert (faultaddress \<ge> first AND PAGE_FRAME);
     let (sz, offset, target_addr) =
       (if first AND PAGE_FRAME = faultaddress AND PAGE_FRAME then
          (if 4096 - (first AND NOT PAGE_FRAME) > seg_elf_size seg then seg_elf_size seg
           else 4096 - (first AND NOT PAGE_FRAME),
           seg_elf_offset seg,
           frame_addr (pt_frame_index pt_row) + (first AND NOT PAGE_FRAME))
        else if elf_end AND PAGE_FRAME = faultaddress AND PAGE_FRAME then
          (elf_end AND NOT PAGE_FRAME,
           seg_elf_offset seg + uint (faultaddress AND PAGE_FRAME) - uint first,
           frame_addr (pt_frame_index pt_row))
        else
          (4096,
           seg_elf_offset seg + uint (faultaddress AND PAGE_FRAME) - uint first,
           frame_addr (pt_frame_index pt_row)));
     load_page vo vnode offset target_addr sz s
   }"

section \<open>Processes\<close>

text \<open>
  \<^verbatim>\<open>struct proc\<close> without its spinlock. \<open>p_vnode\<close> is \<^const>\<open>None\<close> until
  \<^verbatim>\<open>runprogram\<close> sets it; \<open>p_sem\<close> is the count of the exit semaphore, \<^const>\<open>None\<close>
  when \<^verbatim>\<open>sem_create\<close> returned \<^verbatim>\<open>NULL\<close>.
\<close>

record 'f proc =
  p_name :: string
  p_numthreads :: nat
  p_addrspace :: "addrspace option"
  p_cwd :: "'f option"
  p_vnode :: "'f option"
  status :: int
  p_sem :: "nat option"

record 'f sys_st = "'f vm_st" +
  procs :: "nat \<Rightarrow> 'f proc option"
  curproc :: "nat option"

definition proc_getas :: "('f, 'a) sys_st_scheme \<Rightarrow> addrspace option" where
  "proc_getas s = do { pid \<leftarrow> curproc s; pr \<leftarrow> procs s pid; p_addrspace pr }"

definition proc_setas :: "addrspace option \<Rightarrow> ('f, 'a) sys_st_scheme \<Rightarrow> ('f, 'a) sys_st_scheme option" where
  "proc_setas newas s = do {
     pid \<leftarrow> curproc s;
     pr \<leftarrow> procs s pid;
     Some (s\<lparr>procs := (procs s)(pid \<mapsto> pr\<lparr>p_addrspace := newas\<rparr>)\<rparr>)
   }"

text \<open>
  \<^verbatim>\<open>proc_remthread\<close> on a thread with \<^verbatim>\<open>t_proc\<close> equal to \<open>t_proc\<close>; the first component of
  the result is its new value.
\<close>

definition proc_remthread ::
  "nat option \<Rightarrow> ('f, 'a) sys_st_scheme \<Rightarrow> (nat option \<times> ('f, 'a) sys_st_scheme) option" where
  "proc_remthread t_proc s = do {
     pid \<leftarrow> t_proc;
     pr \<leftarrow> procs s pid;
     kassert (p_numthreads pr > 0);
     Some (None, s\<lparr>procs := (procs s)(pid \<mapsto> pr\<lparr>p_numthreads := p_numthreads pr - 1\<rparr>)\<rparr>)
   }"

text \<open>\<^verbatim>\<open>sys__exit\<close> up to \<^verbatim>\<open>thread_exit\<close>, from which control does not come back.\<close>

definition sys__exit :: "int \<Rightarrow> ('f, 'a) sys_st_scheme \<Rightarrow> ('f, 'a) sys_st_scheme option" where
  "sys__exit st s = do {
     pid \<leftarrow> curproc s;
     pr \<leftarrow> procs s pid;
     (cur, s) \<leftarrow> proc_remthread (curproc s) (s\<lparr>procs := (procs s)(pid \<mapsto> pr\<lparr>status := st mod 256\<rparr>)\<rparr>);
     let s = s\<lparr>curproc := cur\<rparr>;
     pr \<leftarrow> procs s pid;
     count \<leftarrow> p_sem pr;
     Some (s\<lparr>procs := (procs s)(pid \<mapsto> pr\<lparr>p_sem := Some (count + 1)\<rparr>)\<rparr>)
   }"

definition as_activate :: "('f, 'a) sys_st_scheme \<Rightarrow> ('f, 'a) sys_st_scheme option" where
  "as_activate s = (case proc_getas s of None \<Rightarrow> Some s | Some as \<Rightarrow> tlb_invalidate s)"

section \<open>The page fault handler\<close>

abbreviation (input) VM_FAULT_READ :: nat where "VM_FAULT_READ \<equiv> 0"
abbreviation (input) VM_FAULT_WRITE :: nat where "VM_FAULT_WRITE \<equiv> 1"
abbreviation (input) VM_FAULT_READONLY :: nat where "VM_FAULT_READONLY \<equiv> 2"

text \<open>The handler returns 0 or an error number, or the process has exited and it does not return.\<close>

datatype fault_result = Handled | Failed errno | Exited

text \<open>The switch of \<^verbatim>\<open>vm_fault\<close> on the status of the page.\<close>

definition vm_fault_page ::
  "'f vnode_ops \<Rightarrow> nat \<Rightarrow> addrspace \<Rightarrow> segment_type \<Rightarrow> bool \<Rightarrow> vaddr \<Rightarrow> pt_ptr \<Rightarrow>
   ('f, 'a) sys_st_scheme \<Rightarrow> ('f, 'a) sys_st_scheme option" where
  "vm_fault_page vo pid as seg_type readonly faultaddress pt_row s = do {
     e \<leftarrow> pt_read s pt_row;
     (case pt_status e of
        NOT_LOADED \<Rightarrow> do {
          (page_paddr, s) \<leftarrow> alloc_upage vo pt_row s;
          s \<leftarrow> pt_set pt_row page_paddr 0 (if readonly then IN_MEMORY_RDONLY else IN_MEMORY) s;
          in_elf \<leftarrow> (if seg_type \<noteq> SEGMENT_STACK then as_check_in_elf as faultaddress else Some False);
          if in_elf then do {
            pr \<leftarrow> procs s pid;
            vn \<leftarrow> p_vnode pr;
            as_load_page vo as vn faultaddress s
          }
          else vmstats_hit VMSTAT_PAGE_FAULT_ZERO s
        }
      | IN_MEMORY_RDONLY \<Rightarrow> vmstats_hit VMSTAT_TLB_RELOAD s
      | IN_MEMORY \<Rightarrow> vmstats_hit VMSTAT_TLB_RELOAD s
      | IN_SWAP \<Rightarrow> do {
          (page_paddr, s) \<leftarrow> alloc_upage vo pt_row s;
          e \<leftarrow> pt_read s pt_row;
          s \<leftarrow> swap_in vo page_paddr (pt_swap_index e) s;
          pt_set pt_row page_paddr 0 (if readonly then IN_MEMORY_RDONLY else IN_MEMORY) s
        })
   }"

definition vm_fault ::
  "'f vnode_ops \<Rightarrow> nat \<Rightarrow> vaddr \<Rightarrow> ('f, 'a) sys_st_scheme \<Rightarrow> (fault_result \<times> ('f, 'a) sys_st_scheme) option" where
  "vm_fault vo faulttype faultaddress s = do {
     s \<leftarrow> vmstats_hit VMSTAT_TLB_FAULT s;
     let basefaultaddr = faultaddress AND PAGE_FRAME;
     if faulttype = VM_FAULT_READONLY then do {
       s \<leftarrow> sys__exit (- 1) s;
       Some (Exited, s)
     }
     else if faulttype \<noteq> VM_FAULT_READ \<and> faulttype \<noteq> VM_FAULT_WRITE then Some (Failed EINVAL, s)
     else (case curproc s of
       None \<Rightarrow> Some (Failed EFAULT, s)
     | Some pid \<Rightarrow> (case proc_getas s of
         None \<Rightarrow> Some (Failed EFAULT, s)
       | Some as \<Rightarrow> do {
           kassert (as_data as \<noteq> None);
           kassert (as_stack as \<noteq> None);
           kassert (as_text as \<noteq> None);
           kassert (as_ptable as \<noteq> None);
           seg_type \<leftarrow> as_get_segment_type as faultaddress;
           if seg_type = SEGMENT_NONE then do {
             s \<leftarrow> sys__exit (- 1) s;
             Some (Exited, s)
           }
           else do {
             pt_row \<leftarrow> pt_get_entry as faultaddress;
             let readonly = (seg_type = SEGMENT_TEXT);
             s \<leftarrow> vm_fault_page vo pid as seg_type readonly faultaddress pt_row s;
             e \<leftarrow> pt_read s pt_row;
             s \<leftarrow> tlb_insert basefaultaddr (frame_addr (pt_frame_index e)) readonly s;
             Some (Handled, s)
           }
         }))
   }"

end
