(* ===== verification/Vmfault.thy ===== *)
theory Vmfault
  imports Vm
begin

unbundle bit_operations_syntax

text \<open>
  Correctness of the page fault handler: a page that is brought in holds what the
  address space says it holds. \<open>image_byte\<close> is the initial contents of the pages of an
  address space as the executable defines them; \<open>sys_inv\<close> is the invariant of the
  whole paging system.
\<close>

section \<open>The image of an executable\<close>

definition page_seg :: "addrspace \<Rightarrow> nat \<Rightarrow> segment option" where
  "page_seg as k = (case (as_text as, as_data as, as_stack as) of
     (Some t, Some d, Some sk) \<Rightarrow>
        Some (if k < unat (seg_npages t) then t
              else if k < unat (seg_npages t) + unat (seg_npages d) then d else sk)
   | _ \<Rightarrow> None)"

text \<open>
  Byte \<open>off\<close> of page \<open>k\<close>: from the executable where the segment has file contents, zero
  elsewhere (the bss, the stack, and what lies around the segment on its first and last page).
\<close>

definition image_byte :: "('f \<Rightarrow> byte list) \<Rightarrow> addrspace \<Rightarrow> 'f \<Rightarrow> nat \<Rightarrow> nat \<Rightarrow> byte" where
  "image_byte content as vn k off = (case page_seg as k of
     None \<Rightarrow> 0
   | Some seg \<Rightarrow>
       let a = page_no as k * PAGE_SIZE + off; f = unat (seg_first_vaddr seg) in
       if f \<le> a \<and> a < f + unat (seg_elf_size seg)
       then content vn ! (nat (seg_elf_offset seg) + (a - f)) else 0)"

text \<open>The executable holds the file contents of the segments.\<close>

definition seg_in_file :: "byte list \<Rightarrow> segment \<Rightarrow> bool" where
  "seg_in_file xs seg \<longleftrightarrow> 0 \<le> seg_elf_offset seg \<and>
     nat (seg_elf_offset seg) + unat (seg_elf_size seg) \<le> length xs"

definition elf_ok :: "('f \<Rightarrow> byte list) \<Rightarrow> addrspace \<Rightarrow> 'f \<Rightarrow> bool" where
  "elf_ok content as vn \<longleftrightarrow>
     (\<forall>seg. as_text as = Some seg \<or> as_data as = Some seg \<longrightarrow> seg_in_file (content vn) seg)"

lemma load_page_spec:
  assumes "regular_file vo content" and "off + unat sz \<le> length (content vn)"
  shows "load_page vo vn (int off) pa sz s =
    Some (s\<lparr>ram := mem_put (ram s) (unat pa) (take (unat sz) (drop off (content vn)))\<rparr>)"
  using assms by (simp add: load_page_def regular_file_read)

text \<open>
  The part of the segment on the page with number \<open>P\<close>: it starts at \<open>lo\<close> and ends before \<open>hi\<close>,
  counted from the beginning of the page.
\<close>

definition part_lo :: "segment \<Rightarrow> nat \<Rightarrow> nat" where
  "part_lo seg P = max (unat (seg_first_vaddr seg)) (P * PAGE_SIZE) - P * PAGE_SIZE"

definition part_hi :: "segment \<Rightarrow> nat \<Rightarrow> nat" where
  "part_hi seg P = min (unat (seg_first_vaddr seg) + unat (seg_elf_size seg)) ((P + 1) * PAGE_SIZE) - P * PAGE_SIZE"

lemma unat_page_frame_vpn: "unat (va AND PAGE_FRAME) = vpn va * PAGE_SIZE"
  by (simp add: unat_page_frame vpn_def)

lemma page_frame_eq_iff: "a AND PAGE_FRAME = b AND PAGE_FRAME \<longleftrightarrow> vpn a = vpn b"
  by (metis unat_page_frame_vpn word_unat_eq_iff mult_right_cancel zero_neq_numeral)

lemma elf_end:
  assumes "seg_wf seg"
  shows "unat (seg_first_vaddr seg + seg_elf_size seg) = unat (seg_first_vaddr seg) + unat (seg_elf_size seg)"
    and "unat (seg_first_vaddr seg) + unat (seg_elf_size seg) \<le> 2 ^ 31"
    and "unat (ROUNDUP (seg_first_vaddr seg + seg_elf_size seg) 4096) =
      (unat (seg_first_vaddr seg) + unat (seg_elf_size seg) + 4095) div PAGE_SIZE * PAGE_SIZE"
proof -
  show b: "unat (seg_first_vaddr seg) + unat (seg_elf_size seg) \<le> 2 ^ 31"
    using seg_wf_bounds(2,4) [OF assms] by simp
  then show s: "unat (seg_first_vaddr seg + seg_elf_size seg) = unat (seg_first_vaddr seg) + unat (seg_elf_size seg)"
    by (intro unat_add_small) simp
  show "unat (ROUNDUP (seg_first_vaddr seg + seg_elf_size seg) 4096) =
      (unat (seg_first_vaddr seg) + unat (seg_elf_size seg) + 4095) div PAGE_SIZE * PAGE_SIZE"
    using b s by (subst unat_ROUNDUP) simp_all
qed

lemma check_in_elf_page:
  assumes "seg_wf seg"
  shows "va < ROUNDUP (seg_first_vaddr seg + seg_elf_size seg) 4096 \<longleftrightarrow>
     vpn va * PAGE_SIZE < unat (seg_first_vaddr seg) + unat (seg_elf_size seg)"
proof -
  have "unat va < (e + 4095) div PAGE_SIZE * PAGE_SIZE \<longleftrightarrow> unat va div PAGE_SIZE * PAGE_SIZE < e" for e
  proof -
    have "unat va < (e + 4095) div PAGE_SIZE * PAGE_SIZE \<longleftrightarrow> unat va div PAGE_SIZE + 1 \<le> (e + 4095) div PAGE_SIZE"
      by (simp add: div_less_iff_less_mult Suc_le_eq)
    also have "\<dots> \<longleftrightarrow> (unat va div PAGE_SIZE + 1) * PAGE_SIZE \<le> e + 4095"
      by (simp add: less_eq_div_iff_mult_less_eq)
    finally show ?thesis by auto
  qed
  then show ?thesis by (simp add: word_less_nat_alt elf_end(3) [OF assms] vpn_def)
qed

lemma as_get_segment_eq:
  assumes wf: "as_wf as" and va: "in_as as va"
  obtains seg k where "as_get_segment as va = Some seg" and "seg_wf seg" and "in_segment seg va"
    and "pt_get_index as va = Some k" and "k < as_npages as" and "page_no as k = vpn va"
    and "page_seg as k = Some seg"
    and "as_get_segment_type as va = Some SEGMENT_STACK \<Longrightarrow> seg_elf_size seg = 0"
    and "as_get_segment_type as va \<noteq> Some SEGMENT_STACK \<Longrightarrow> as_text as = Some seg \<or> as_data as = Some seg"
proof -
  obtain t d sk where as: "as_text as = Some t" "as_data as = Some d" "as_stack as = Some sk"
    and sw: "seg_wf t" "seg_wf d" "seg_wf sk" "seg_elf_size sk = 0"
    and dj: "seg_pages t \<inter> seg_pages d = {}" "seg_pages t \<inter> seg_pages sk = {}" "seg_pages d \<inter> seg_pages sk = {}"
    by (rule as_wfE [OF wf])
  obtain k where k: "pt_get_index as va = Some k" "k < as_npages as" "page_no as k = vpn va"
    using pt_get_index_spec [OF wf va] by metis
  have pk: "page_no as k \<in> seg_pages (the (page_seg as k))"
    using k(2) as by (auto simp: page_no_def page_seg_def seg_pages_def as_npages_def Let_def)
  have ps: "page_seg as k = Some t \<or> page_seg as k = Some d \<or> page_seg as k = Some sk"
    using as by (auto simp: page_seg_def)
  consider (T) "in_segment t va" | (D) "\<not> in_segment t va" "in_segment d va"
    | (K) "\<not> in_segment t va" "\<not> in_segment d va" "in_segment sk va"
    using va as by (auto simp: in_as_def)
  then show thesis
  proof cases
    case T
    then have "vpn va \<in> seg_pages t" by (rule in_segment_seg_pages [OF sw(1)])
    then have "page_seg as k = Some t" using ps pk dj k(3) by auto
    with T k as sw show thesis
      by (intro that [of t k]) (simp_all add: as_get_segment_def as_get_segment_type_def)
  next
    case D
    then have "vpn va \<in> seg_pages d" by (intro in_segment_seg_pages [OF sw(2)])
    then have "page_seg as k = Some d" using ps pk dj k(3) by auto
    with D k as sw show thesis
      by (intro that [of d k]) (simp_all add: as_get_segment_def as_get_segment_type_def)
  next
    case K
    then have "vpn va \<in> seg_pages sk" by (intro in_segment_seg_pages [OF sw(3)])
    then have "page_seg as k = Some sk" using ps pk dj k(3) by auto
    with K k as sw show thesis
      by (intro that [of sk k]) (simp_all add: as_get_segment_def as_get_segment_type_def)
  qed
qed

text \<open>The three cases of \<^verbatim>\<open>as_load_page\<close> compute the same thing: the part of the segment on the page.\<close>

lemma load_args:
  assumes wf: "seg_wf seg" and in_seg: "in_segment seg va"
    and elf: "vpn va * PAGE_SIZE < unat (seg_first_vaddr seg) + unat (seg_elf_size seg)"
  defines "first \<equiv> seg_first_vaddr seg" and "elf_e \<equiv> seg_first_vaddr seg + seg_elf_size seg" and "P \<equiv> vpn va"
  shows "(if first AND PAGE_FRAME = va AND PAGE_FRAME then
        (if 4096 - (first AND NOT PAGE_FRAME) > seg_elf_size seg then seg_elf_size seg
         else 4096 - (first AND NOT PAGE_FRAME),
         seg_elf_offset seg, fa + (first AND NOT PAGE_FRAME))
      else if elf_e AND PAGE_FRAME = va AND PAGE_FRAME then
        (elf_e AND NOT PAGE_FRAME, seg_elf_offset seg + uint (va AND PAGE_FRAME) - uint first, fa)
      else (4096, seg_elf_offset seg + uint (va AND PAGE_FRAME) - uint first, fa)) =
     (of_nat (part_hi seg P - part_lo seg P),
      seg_elf_offset seg + int (P * PAGE_SIZE + part_lo seg P) - int (unat first),
      fa + of_nat (part_lo seg P))"
proof -
  let ?f = "unat first" and ?n = "unat (seg_elf_size seg)"
  have le: "vpn first \<le> P" using in_segment_page(1) [OF wf in_seg] by (simp add: first_def P_def)
  have fdm: "?f = vpn first * PAGE_SIZE + ?f mod PAGE_SIZE" by (simp add: vpn_def)
  have ee: "unat elf_e = ?f + ?n" using elf_end(1) [OF wf] by (simp add: elf_e_def first_def)
  have offw: "first AND NOT PAGE_FRAME = of_nat (?f mod PAGE_SIZE)"
    by (simp add: word_unat_eq_iff unat_page_offset unat_of_nat)
  have base: "uint (va AND PAGE_FRAME) = int (P * PAGE_SIZE)"
    by (simp add: P_def flip: unat_page_frame_vpn)
  have ufirst: "uint first = int ?f" by simp
  have sub: "unat (4096 - (first AND NOT PAGE_FRAME)) = PAGE_SIZE - ?f mod PAGE_SIZE"
    by (simp add: unat_sub word_le_nat_alt unat_page_offset)
  consider (A) "vpn first = P" | (B) "vpn first < P" "vpn elf_e = P" | (C) "vpn first < P" "vpn elf_e \<noteq> P"
    using le by linarith
  then show ?thesis
  proof cases
    case A
    then have lo: "part_lo seg P = ?f mod PAGE_SIZE" using fdm by (simp add: part_lo_def flip: first_def)
    have hi: "part_hi seg P = min (?f mod PAGE_SIZE + ?n) PAGE_SIZE"
      using fdm A by (simp add: part_hi_def min_def flip: first_def) linarith
    let ?sz = "if 4096 - (first AND NOT PAGE_FRAME) > seg_elf_size seg then seg_elf_size seg
         else 4096 - (first AND NOT PAGE_FRAME)"
    have u: "unat ?sz = part_hi seg P - part_lo seg P"
      unfolding hi lo
      by (cases "?n < PAGE_SIZE - ?f mod PAGE_SIZE", simp_all add: word_less_nat_alt sub min_def, linarith+)
    have "?sz = of_nat (unat ?sz)" by simp
    then have "?sz = of_nat (part_hi seg P - part_lo seg P)" unfolding u .
    with A fdm lo offw show ?thesis by (simp add: page_frame_eq_iff P_def)
  next
    case B
    then have lo: "part_lo seg P = 0" using fdm by (simp add: part_lo_def max_def flip: first_def)
    define r where "r = (?f + ?n) mod PAGE_SIZE"
    have eq: "?f + ?n = P * PAGE_SIZE + r"
      using B(2) ee div_mult_mod_eq [of "?f + ?n" PAGE_SIZE] unfolding vpn_def r_def by simp
    have "r < PAGE_SIZE" by (simp add: r_def)
    then have hi: "part_hi seg P = (?f + ?n) mod PAGE_SIZE"
      unfolding part_hi_def first_def [symmetric] eq r_def [symmetric] by (simp add: min_def)
    have "elf_e AND NOT PAGE_FRAME = of_nat ((?f + ?n) mod PAGE_SIZE)"
      by (simp add: word_unat_eq_iff unat_page_offset unat_of_nat ee)
    with B lo hi base ufirst show ?thesis by (simp add: page_frame_eq_iff P_def)
  next
    case C
    then have lo: "part_lo seg P = 0" using fdm by (simp add: part_lo_def max_def flip: first_def)
    have "P \<le> (?f + ?n) div PAGE_SIZE"
      using elf by (simp add: less_eq_div_iff_mult_less_eq P_def first_def)
    with C(2) ee have "P + 1 \<le> (?f + ?n) div PAGE_SIZE" by (simp add: vpn_def)
    then have "(P + 1) * PAGE_SIZE \<le> ?f + ?n" by (simp add: less_eq_div_iff_mult_less_eq)
    then have hi: "part_hi seg P = PAGE_SIZE" by (simp add: part_hi_def min_def flip: first_def)
    from C lo hi base ufirst show ?thesis by (simp add: page_frame_eq_iff P_def)
  qed
qed

lemma part_bounds:
  assumes wf: "seg_wf seg" and in_seg: "in_segment seg va"
    and elf: "vpn va * PAGE_SIZE < unat (seg_first_vaddr seg) + unat (seg_elf_size seg)"
  shows "part_lo seg (vpn va) \<le> part_hi seg (vpn va)" and "part_hi seg (vpn va) \<le> PAGE_SIZE"
    and "unat (seg_first_vaddr seg) \<le> vpn va * PAGE_SIZE + part_lo seg (vpn va)"
    and "vpn va * PAGE_SIZE + part_hi seg (vpn va) \<le> unat (seg_first_vaddr seg) + unat (seg_elf_size seg)"
    and "off < PAGE_SIZE \<Longrightarrow> (unat (seg_first_vaddr seg) \<le> vpn va * PAGE_SIZE + off \<and>
      vpn va * PAGE_SIZE + off < unat (seg_first_vaddr seg) + unat (seg_elf_size seg)) \<longleftrightarrow>
      part_lo seg (vpn va) \<le> off \<and> off < part_hi seg (vpn va)"
proof -
  have f: "unat (seg_first_vaddr seg) \<le> unat va" using in_seg by (simp add: in_segment_def word_le_nat_alt)
  have v: "unat va < (vpn va + 1) * PAGE_SIZE" "vpn va * PAGE_SIZE \<le> unat va" by (simp_all add: vpn_def)
  show "part_lo seg (vpn va) \<le> part_hi seg (vpn va)" and "part_hi seg (vpn va) \<le> PAGE_SIZE"
    and "unat (seg_first_vaddr seg) \<le> vpn va * PAGE_SIZE + part_lo seg (vpn va)"
    and "vpn va * PAGE_SIZE + part_hi seg (vpn va) \<le> unat (seg_first_vaddr seg) + unat (seg_elf_size seg)"
    and "off < PAGE_SIZE \<Longrightarrow> (unat (seg_first_vaddr seg) \<le> vpn va * PAGE_SIZE + off \<and>
      vpn va * PAGE_SIZE + off < unat (seg_first_vaddr seg) + unat (seg_elf_size seg)) \<longleftrightarrow>
      part_lo seg (vpn va) \<le> off \<and> off < part_hi seg (vpn va)"
    unfolding part_lo_def part_hi_def using f v elf by (auto simp: max_def min_def)
qed

lemma as_check_in_elf_eq:
  assumes "as_get_segment as va = Some seg" and "seg_wf seg" and "in_segment seg va"
  shows "as_check_in_elf as va =
    Some (vpn va * PAGE_SIZE < unat (seg_first_vaddr seg) + unat (seg_elf_size seg))"
  using assms by (simp add: as_check_in_elf_def in_segment_def check_in_elf_page)

text \<open>
  \<^verbatim>\<open>as_load_page\<close> fills a zeroed frame with the image of the page and touches nothing else.
\<close>

lemma as_load_page_spec:
  fixes s :: "('f, 'a) vm_st_scheme"
  assumes vo: "regular_file vo content" and wf: "as_wf as" and va: "in_as as va"
    and elf: "elf_ok content as vn" and t: "as_ptable as = Some t" and k: "pt_get_index as va = Some k"
    and e: "pt_read s (t, k) = Some e" "pt_frame_index e < 2 ^ 20"
    and ty: "as_get_segment_type as va \<noteq> Some SEGMENT_STACK" and chk: "as_check_in_elf as va = Some True"
    and zero: "\<forall>off < PAGE_SIZE. ram s (pt_frame_index e * PAGE_SIZE + off) = 0"
  shows "\<exists>m. as_load_page vo as vn va s =
      Some (s\<lparr>vmstats := stat_add VMSTAT_PAGE_FAULT_ELF (stat_add VMSTAT_PAGE_FAULT_DISK (vmstats s)), ram := m\<rparr>) \<and>
    (\<forall>off < PAGE_SIZE. m (pt_frame_index e * PAGE_SIZE + off) = image_byte content as vn k off) \<and>
    (\<forall>g off. g \<noteq> pt_frame_index e \<longrightarrow> off < PAGE_SIZE \<longrightarrow> m (g * PAGE_SIZE + off) = ram s (g * PAGE_SIZE + off))"
proof -
  obtain seg where seg: "as_get_segment as va = Some seg" "seg_wf seg" "in_segment seg va"
    "page_no as k = vpn va" "page_seg as k = Some seg" "as_text as = Some seg \<or> as_data as = Some seg"
    using as_get_segment_eq [OF wf va] k ty by (metis option.inject)
  let ?f = "unat (seg_first_vaddr seg)" and ?n = "unat (seg_elf_size seg)" and ?P = "vpn va"
  have inelf: "?P * PAGE_SIZE < ?f + ?n" using as_check_in_elf_eq [OF seg(1-3)] chk by simp
  note pb = part_bounds [OF seg(2,3) inelf]
  let ?lo = "part_lo seg ?P" and ?hi = "part_hi seg ?P"
  let ?fr = "pt_frame_index e"
  have inf: "0 \<le> seg_elf_offset seg" "nat (seg_elf_offset seg) + ?n \<le> length (content vn)"
    using elf seg(6) by (auto simp: elf_ok_def seg_in_file_def)
  define off where "off = nat (seg_elf_offset seg) + (?P * PAGE_SIZE + ?lo - ?f)"
  have offi: "seg_elf_offset seg + int (?P * PAGE_SIZE + ?lo) - int ?f = int off"
    using inf(1) pb(3) unfolding off_def by linarith
  define bs where "bs = take (?hi - ?lo) (drop off (content vn))"
  have len: "off + (?hi - ?lo) \<le> length (content vn)"
    unfolding off_def using inf(2) pb(1-4) by linarith
  then have lbs: "length bs = ?hi - ?lo" by (simp add: bs_def)
  have usz: "unat (of_nat (?hi - ?lo) :: uint32) = ?hi - ?lo" using pb(2) by (intro unat_of_nat32) simp
  have lo: "?lo \<le> PAGE_SIZE" using pb(1,2) by simp
  have upa: "unat (frame_addr ?fr + of_nat ?lo) = ?fr * PAGE_SIZE + ?lo"
  proof (cases "?lo = PAGE_SIZE")
    case True
    then have "\<not> (?lo < PAGE_SIZE)" by simp
    moreover have "?lo < PAGE_SIZE"
      using seg(3) unfolding part_lo_def
      by (auto simp: in_segment_def word_le_nat_alt vpn_def max_def)
    ultimately show ?thesis by simp
  next
    case False
    with lo have l: "?lo < PAGE_SIZE" by simp
    then have "unat (of_nat ?lo :: uint32) = ?lo" by (intro unat_of_nat32) simp
    with l e(2) unat_frame_addr [OF e(2)] show ?thesis by (subst unat_add_small) simp_all
  qed
  let ?m = "mem_put (ram s) (?fr * PAGE_SIZE + ?lo) bs"
  let ?s = "s\<lparr>vmstats := stat_add VMSTAT_PAGE_FAULT_ELF (stat_add VMSTAT_PAGE_FAULT_DISK (vmstats s))\<rparr>"
  have rd: "pt_read ?s (t, k) = Some e" using e(1) by (simp add: pt_read_def)
  have ptr: "pt_get_entry as va = Some (t, k)" using t k by (simp add: pt_get_entry_def)
  have lb: "seg_first_vaddr seg AND PAGE_FRAME \<le> va"
  proof -
    have "unat (seg_first_vaddr seg AND PAGE_FRAME) \<le> ?f" by (simp add: unat_page_frame)
    also have "\<dots> \<le> unat va" using seg(3) by (simp add: in_segment_def word_le_nat_alt)
    finally show ?thesis by (simp add: word_le_nat_alt)
  qed
  have ld: "load_page vo vn (int off) (frame_addr ?fr + of_nat ?lo) (of_nat (?hi - ?lo)) ?s =
      Some (?s\<lparr>ram := ?m\<rparr>)"
    using load_page_spec [OF vo, of off "of_nat (?hi - ?lo)" vn "frame_addr ?fr + of_nat ?lo" ?s] len usz upa
    by (simp add: bs_def)
  have run: "as_load_page vo as vn va s = Some (?s\<lparr>ram := ?m\<rparr>)"
    unfolding as_load_page_def
    using ld ptr rd seg(1) inelf check_in_elf_page [OF seg(2), of va] lb
    by (simp add: vmstats_hit_add Let_def load_args [OF seg(2,3) inelf] offi [simplified])
  have img: "?m (?fr * PAGE_SIZE + i) = image_byte content as vn k i" if i: "i < PAGE_SIZE" for i
  proof (cases "?lo \<le> i \<and> i < ?hi")
    case True
    then have il: "i - ?lo < ?hi - ?lo" by (simp add: diff_less_mono)
    then have "?m (?fr * PAGE_SIZE + i) = bs ! (i - ?lo)"
      using True mem_put_in [of "i - ?lo" bs "ram s" "?fr * PAGE_SIZE + ?lo"] lbs by simp
    also have "\<dots> = content vn ! (off + (i - ?lo))"
      unfolding bs_def nth_take [OF il] using il len by (intro nth_drop) linarith
    also have "off + (i - ?lo) = nat (seg_elf_offset seg) + (?P * PAGE_SIZE + i - ?f)"
      using True pb(3) unfolding off_def by linarith
    finally show ?thesis using True pb(5) [OF i] seg(4,5) by (simp add: image_byte_def Let_def)
  next
    case False
    then have "?m (?fr * PAGE_SIZE + i) = ram s (?fr * PAGE_SIZE + i)"
      using lbs by (intro mem_put_out) auto
    also have "\<dots> = 0" using zero i by simp
    finally show ?thesis using False pb(5) [OF i] seg(4,5) by (auto simp: image_byte_def Let_def)
  qed
  have "?m (g * PAGE_SIZE + i) = ram s (g * PAGE_SIZE + i)" if g: "g \<noteq> ?fr" and i: "i < PAGE_SIZE" for g i
  proof (intro mem_put_out)
    have "\<not> (?fr * PAGE_SIZE \<le> g * PAGE_SIZE + i \<and> g * PAGE_SIZE + i < ?fr * PAGE_SIZE + PAGE_SIZE)"
      using frame_byte_range [OF i, of ?fr g] g by simp
    then show "g * PAGE_SIZE + i < ?fr * PAGE_SIZE + ?lo \<or> ?fr * PAGE_SIZE + ?lo + length bs \<le> g * PAGE_SIZE + i"
      using lbs pb(1,2) by linarith
  qed
  with run img show ?thesis by blast
qed

text \<open>A page outside the file contents of its segment is a page of zeros.\<close>

lemma image_byte_zero:
  assumes wf: "as_wf as" and va: "in_as as va" and k: "pt_get_index as va = Some k"
    and no: "as_get_segment_type as va = Some SEGMENT_STACK \<or> as_check_in_elf as va = Some False"
    and off: "off < PAGE_SIZE"
  shows "image_byte content as vn k off = 0"
proof -
  obtain seg where seg: "as_get_segment as va = Some seg" "seg_wf seg" "in_segment seg va"
    "page_no as k = vpn va" "page_seg as k = Some seg"
    "as_get_segment_type as va = Some SEGMENT_STACK \<Longrightarrow> seg_elf_size seg = 0"
    using as_get_segment_eq [OF wf va] k by (metis option.inject)
  have "\<not> (unat (seg_first_vaddr seg) \<le> vpn va * PAGE_SIZE + off \<and>
      vpn va * PAGE_SIZE + off < unat (seg_first_vaddr seg) + unat (seg_elf_size seg))"
    using no
  proof
    assume "as_get_segment_type as va = Some SEGMENT_STACK"
    with seg(6) show ?thesis by simp
  next
    assume "as_check_in_elf as va = Some False"
    with as_check_in_elf_eq [OF seg(1-3)] show ?thesis by simp
  qed
  with seg(4,5) show ?thesis by (auto simp: image_byte_def Let_def)
qed

section \<open>Bringing a page in\<close>

definition mem_status :: "bool \<Rightarrow> pt_status" where
  "mem_status readonly = (if readonly then IN_MEMORY_RDONLY else IN_MEMORY)"

text \<open>
  The page behind \<open>p\<close>, for which frame \<open>b\<close> was reserved, is now in that frame with the
  contents it had before.
\<close>

lemma settle:
  fixes s s3 :: "('f, 'a) vm_st_scheme"
  assumes inv: "vm_inv vo content img ro tr (Some (p, b)) s"
    and s3: "coremap s3 = coremap s" "victim_index s3 = victim_index s" "swapfile s3 = swapfile s"
      "tlb s3 = tlb s" "tlb_victim s3 = tlb_victim s" "swap_ok vo content s3"
    and rd: "\<And>q. pt_read s3 q = (if q = p then Some e3 else pt_read s q)"
    and e3: "in_mem e3" "pt_frame_index e3 = b" "pt_status e3 = mem_status (ro p)"
    and other: "\<And>g off. g \<noteq> b \<Longrightarrow> off < PAGE_SIZE \<Longrightarrow> ram s3 (g * PAGE_SIZE + off) = ram s (g * PAGE_SIZE + off)"
    and val: "\<And>off. off < PAGE_SIZE \<Longrightarrow> page_val content img s p off = Some (ram s3 (b * PAGE_SIZE + off))"
    and ro3: "\<And>off. pt_status e3 = IN_MEMORY_RDONLY \<Longrightarrow> off < PAGE_SIZE \<Longrightarrow> ram s3 (b * PAGE_SIZE + off) = img p off"
    and keep: "\<And>q e. q \<noteq> p \<Longrightarrow> pt_read s q = Some e \<Longrightarrow> pt_status e = IN_SWAP \<Longrightarrow>
      pt_swap_index e \<in> marked (swapmap s3)"
  shows "vm_inv vo content img ro tr None s3 \<and> same_pages content img s s3"
proof (rule conjI)
  have ok: "cm_ok s" and own: "owners_ok (Some (p, b)) s" and sl: "slots_ok s" and rok: "rdonly_ok img ro s"
    and tc: "tlb_coherent tr s" using inv by (simp_all add: vm_inv_def)
  have ow: "owned s3 = owned s" by (simp add: owned_def fun_eq_iff s3(1))
  obtain e0 where e0: "pt_read s p = Some e0" "\<not> in_mem e0" using owners_okD(4) [OF own refl] by blast
  have ob: "owned s b p" by (rule owners_okD(3) [OF own refl])
  have frame: "pt_frame_index e \<noteq> b" if "q \<noteq> p" "pt_read s q = Some e" "in_mem e" for q e
    using owners_okD(2) [OF own that(2,3)] ob owned_unique that(1) by metis
  have "owners_ok None s3"
  proof (rule owners_okI)
    fix i q
    assume "owned s3 i q"
    then have o: "owned s i q" by (simp add: ow)
    have a: "owner_ok (Some (p, b)) s i q" by (rule owners_okD(1) [OF own o])
    show "owner_ok None s3 i q"
    proof (cases "q = p")
      case True
      with a e0 have "i = b" by (auto simp: owner_ok_def)
      with True a rd [of p] e3 show ?thesis by (simp add: owner_ok_def s3(1))
    next
      case False
      with a rd [of q] show ?thesis by (auto simp: owner_ok_def s3(1))
    qed
  next
    fix q e
    assume "pt_read s3 q = Some e" "in_mem e"
    then show "owned s3 (pt_frame_index e) q"
      using rd [of q] ob e3 owners_okD(2) [OF own, of q e] by (auto simp: ow split: if_splits)
  qed simp
  moreover have "slots_ok s3"
    unfolding slots_ok_def
  proof (intro conjI allI impI)
    fix q e
    assume "pt_read s3 q = Some e" "pt_status e = IN_SWAP"
    then show "pt_swap_index e \<in> marked (swapmap s3)"
      using rd [of q] e3(1) keep [of q e] by (auto simp: in_mem_def split: if_splits)
  next
    fix q r e f
    assume "pt_read s3 q = Some e" "pt_read s3 r = Some f" "pt_status e = IN_SWAP" "pt_status f = IN_SWAP"
      "pt_swap_index e = pt_swap_index f"
    then show "q = r"
      using rd [of q] rd [of r] e3(1) sl unfolding slots_ok_def
      by (auto simp: in_mem_def split: if_splits)
  qed
  moreover have "rdonly_ok img ro s3"
    unfolding rdonly_ok_def
  proof (intro allI impI)
    fix q e
    assume a: "pt_read s3 q = Some e"
    show "(pt_status e = IN_MEMORY_RDONLY \<longrightarrow> ro q \<and>
        (\<forall>off < PAGE_SIZE. ram s3 (pt_frame_index e * PAGE_SIZE + off) = img q off)) \<and>
        (pt_status e = IN_MEMORY \<or> pt_status e = IN_SWAP \<longrightarrow> \<not> ro q)"
    proof (cases "q = p")
      case True
      with a rd [of q] e3 ro3 show ?thesis by (auto simp: mem_status_def split: if_splits)
    next
      case False
      with a rd [of q] have r: "pt_read s q = Some e" by simp
      with False frame [of q e] have "in_mem e \<Longrightarrow> pt_frame_index e \<noteq> b" by simp
      with other rok r show ?thesis unfolding rdonly_ok_def in_mem_def by auto
    qed
  qed
  moreover have "tlb_coherent tr s3"
  proof -
    have "valid_trs f s \<subseteq> valid_trs f s3" for f
    proof
      fix m
      assume "m \<in> valid_trs f s"
      then obtain va w q e where q: "m = (va, frame_addr (pt_frame_index e), w)" "f q = Some (va, w)"
        "pt_read s q = Some e" "in_mem e" by (rule valid_trsE)
      with e0 have "q \<noteq> p" by auto
      with q rd [of q] show "m \<in> valid_trs f s3" by (auto intro: valid_trsI)
    qed
    moreover have "tlb_maps s3 = tlb_maps s" by (simp add: tlb_maps_def s3(4))
    moreover have "tlb_ok s3" using tc s3(4-6) by (simp add: tlb_coherent_def tlb_ok_def swap_ok_def)
    ultimately show ?thesis using tc unfolding tlb_coherent_def by fastforce
  qed
  moreover have "cm_ok s3" using ok s3(1,2) by (simp add: cm_ok_def)
  ultimately show "vm_inv vo content img ro tr None s3" using s3(6) by (simp add: vm_inv_def)
  show "same_pages content img s s3"
    unfolding same_pages_def
  proof (intro allI impI)
    fix q off
    assume off: "off < PAGE_SIZE"
    show "page_val content img s3 q off = page_val content img s q off"
    proof (cases "q = p")
      case True
      with rd [of p] e3 val [OF off] show ?thesis
        by (auto simp: page_val_def in_mem_def)
    next
      case False
      then show ?thesis
        using rd [of q] frame [OF False] other off s3(3)
        by (auto simp: page_val_def in_mem_def split: option.split pt_status.split)
    qed
  qed
qed

section \<open>The switch of the fault handler\<close>

lemma vm_more_sys:
  fixes s s' :: "('f, 'a) sys_st_scheme"
  assumes "vm_st.more s' = vm_st.more s"
  shows "procs s' = procs s" and "curproc s' = curproc s" and "sys_st.more s' = sys_st.more s"
  using assms by (cases s, cases s', simp)+

lemma alloc_upage_spec:
  assumes inv: "vm_inv vo content img ro tr None s" and p: "pt_read s p = Some e" "\<not> in_mem e"
    and can: "can_alloc vo 1 s"
  obtains b s' where "alloc_upage vo p s = Some (frame_addr b, s')" and "b \<noteq> 0" and "b < 2 ^ 17"
    and "vm_inv vo content img ro tr (Some (p, b)) s'" and "same_pages content img s s'"
    and "vm_st.more s' = vm_st.more s" and "\<forall>k. k \<noteq> VMSTAT_SWAP_WRITE \<longrightarrow> vmstats s' ! k = vmstats s ! k"
    and "\<forall>off < PAGE_SIZE. ram s' (b * PAGE_SIZE + off) = 0" and "pt_read s' p = Some e"
proof -
  have q: "1 = (1 :: nat) \<and> (\<exists>e. pt_read s q = Some e \<and> \<not> in_mem e)" if "Some p = Some q" for q
    using that p by auto
  have n: "(0 :: nat) < 1" "(1 :: nat) < 2 ^ 20" by simp_all
  obtain b s' where g: "coremap_getppages vo 1 (Some p) s = Some (frame_addr b, s')" "b \<noteq> 0"
    "b + 1 \<le> length (coremap s)"
    "vm_inv vo content img ro tr (map_option (\<lambda>q. (q, b)) (Some p)) s'" "same_pages content img s s'"
    "vm_st.more s' = vm_st.more s" "\<forall>k. k \<noteq> VMSTAT_SWAP_WRITE \<longrightarrow> vmstats s' ! k = vmstats s ! k"
    "\<forall>off < PAGE_SIZE * 1. ram s' (b * PAGE_SIZE + off) = 0"
    "\<forall>q. Some p = Some q \<longrightarrow> pt_read s' q = pt_read s q"
    by (rule coremap_getppages_spec [where ptentry = "Some p", OF inv n q can]) (assumption, rule that)
  have b: "b < 2 ^ 17" using inv g(3) by (simp add: vm_inv_def cm_ok_def)
  have "frame_addr b \<noteq> 0"
    using frame_addr_inject [of b 0] b g(2) by (simp add: frame_addr_def)
  with g(1) have "alloc_upage vo p s = Some (frame_addr b, s')"
    by (simp add: alloc_upage_def getppages_def)
  with g b p that show thesis by simp
qed

lemma pt_set_frame:
  assumes "pt_read s p = Some e" and "b < 2 ^ 20"
  shows "pt_set p (frame_addr b) 0 st s = Some (pt_write p \<lparr>pt_frame_index = b, pt_swap_index = 0, pt_status = st\<rparr> s)"
proof -
  have "(unat (frame_addr b) div PAGE_SIZE) mod 2 ^ 20 = b"
    using assms(2) unat_frame_addr [OF assms(2)] by simp
  then show ?thesis using pt_set_eq [OF assms(1), of 0 "frame_addr b" st] by simp
qed

lemma pt_write_vm [simp]:
  "coremap (pt_write p e s) = coremap s" "victim_index (pt_write p e s) = victim_index s"
  "vm_st.more (pt_write p e s) = vm_st.more s"
  by (simp_all add: pt_write_def split: option.split)

text \<open>A page that is not in memory is not in the TLB.\<close>

definition tr_inj :: "(pt_ptr \<Rightarrow> (vaddr \<times> bool) option) option \<Rightarrow> bool" where
  "tr_inj tr \<longleftrightarrow> (\<forall>f q q' va w w'. tr = Some f \<longrightarrow> f q = Some (va, w) \<longrightarrow> f q' = Some (va, w') \<longrightarrow> q = q')"

definition tlb_misses :: "(pt_ptr \<Rightarrow> (vaddr \<times> bool) option) option \<Rightarrow> pt_ptr \<Rightarrow> ('f, 'a) vm_st_scheme \<Rightarrow> bool" where
  "tlb_misses tr p s \<longleftrightarrow> (\<forall>f va w pa w'. tr = Some f \<longrightarrow> f p = Some (va, w) \<longrightarrow> (va, pa, w') \<notin> tlb_maps s)"

lemma not_in_mem_misses:
  assumes tc: "tlb_coherent tr s" and inj: "tr_inj tr" and p: "pt_read s p = Some e" "\<not> in_mem e"
  shows "tlb_misses tr p s"
  unfolding tlb_misses_def
proof (intro allI impI notI)
  fix f va w pa w'
  assume f: "tr = Some f" "f p = Some (va, w)" and m: "(va, pa, w') \<in> tlb_maps s"
  with tc have "(va, pa, w') \<in> valid_trs f s" by (auto simp: tlb_coherent_def)
  then obtain q e' where q: "f q = Some (va, w')" "pt_read s q = Some e'" "in_mem e'"
    by (auto elim: valid_trsE)
  with inj f have "q = p" unfolding tr_inj_def by blast
  with q p show False by simp
qed

lemma tlb_misses_cong: "tlb s' = tlb s \<Longrightarrow> tlb_misses tr p s' = tlb_misses tr p s"
  by (simp add: tlb_misses_def tlb_maps_def)

text \<open>The three ways a fault on a good address ends, with what they count.\<close>

text \<open>The counters in \<open>K\<close> went up by one, the others (but for the count of swap writes) did not change.\<close>

definition counted :: "nat set \<Rightarrow> uint32 list \<Rightarrow> uint32 list \<Rightarrow> bool" where
  "counted K x y \<longleftrightarrow> (\<forall>k < 10. k \<noteq> VMSTAT_SWAP_WRITE \<longrightarrow> y ! k = (if k \<in> K then x ! k + 1 else x ! k))"

lemma counted_same:
  assumes "\<forall>k. k \<noteq> VMSTAT_SWAP_WRITE \<longrightarrow> y ! k = x ! k" and "counted K y z"
  shows "counted K x z"
  using assms by (simp add: counted_def)

lemma counted_add: "length x = 10 \<Longrightarrow> i < 10 \<Longrightarrow> counted {i} x (stat_add i x)"
  by (simp add: counted_def nth_stat_add)

lemma counted_add2:
  "length x = 10 \<Longrightarrow> i < 10 \<Longrightarrow> j < 10 \<Longrightarrow> i \<noteq> j \<Longrightarrow> counted {i, j} x (stat_add j (stat_add i x))"
  by (auto simp: counted_def nth_stat_add)

lemma fault_swap_in:
  fixes s :: "('f, 'a) sys_st_scheme"
  assumes inv: "vm_inv vo content img ro tr None s" and p: "pt_read s p = Some e" "pt_status e = IN_SWAP"
    and can: "can_alloc vo 1 s" and rd: "readonly = ro p"
  shows "\<exists>s3 e3. vm_fault_page vo pid as ty readonly va p s = Some s3 \<and>
    vm_inv vo content img ro tr None s3 \<and> same_pages content img s s3 \<and> vm_st.more s3 = vm_st.more s \<and>
    pt_read s3 p = Some e3 \<and> in_mem e3 \<and> (tr_inj tr \<longrightarrow> tlb_misses tr p s3) \<and>
    counted {VMSTAT_PAGE_FAULT_DISK, VMSTAT_PAGE_FAULT_SWAP} (vmstats s) (vmstats s3)"
proof -
  have nm: "\<not> in_mem e" using p(2) by (simp add: in_mem_def)
  have nro: "\<not> readonly" using inv p rd by (auto simp: vm_inv_def rdonly_ok_def)
  obtain b s1 where a: "alloc_upage vo p s = Some (frame_addr b, s1)" "b \<noteq> 0" "b < 2 ^ 17"
    "vm_inv vo content img ro tr (Some (p, b)) s1" "same_pages content img s s1"
    "vm_st.more s1 = vm_st.more s" "\<forall>k. k \<noteq> VMSTAT_SWAP_WRITE \<longrightarrow> vmstats s1 ! k = vmstats s ! k"
    "\<forall>off < PAGE_SIZE. ram s1 (b * PAGE_SIZE + off) = 0" "pt_read s1 p = Some e"
    by (rule alloc_upage_spec [OF inv p(1) nm can])
  have b: "b < 2 ^ 20" using a(3) by simp
  have sw: "swap_ok vo content s1" and sl: "slots_ok s1" using a(4) by (simp_all add: vm_inv_def)
  have len: "length (vmstats s1) = 10" using sw by (simp add: swap_ok_def)
  let ?i = "pt_swap_index e"
  have mk: "?i \<in> marked (swapmap s1)" using sl a(9) p(2) unfolding slots_ok_def by blast
  let ?bs = "file_page (content (swapfile s1)) ?i"
  have ab: "swap_abs content s1 ?i = Some ?bs" using mk by (simp add: swap_abs_def)
  have fl: "(?i + 1) * PAGE_SIZE \<le> length (content (swapfile s1))" using sw mk by (simp add: swap_ok_def)
  have pa: "page_aligned (frame_addr b)" "unat (frame_addr b) = b * PAGE_SIZE"
    using page_aligned_frame_addr [OF b] unat_frame_addr [OF b] by simp_all
  obtain m where m: "swap_in vo (frame_addr b) ?i s1 = Some (s1\<lparr>
      vmstats := stat_add VMSTAT_PAGE_FAULT_SWAP (stat_add VMSTAT_PAGE_FAULT_DISK (vmstats s1)),
      ram := mem_put (ram s1) (b * PAGE_SIZE) ?bs, swapmap := m\<rparr>)"
    "bitmap_ok m" "nbits m = SWAPFILE_NPAGES" "marked m = marked (swapmap s1) - {?i}"
    using swap_in_spec [OF sw pa(1) ab] pa(2) by auto
  let ?s2 = "s1\<lparr>vmstats := stat_add VMSTAT_PAGE_FAULT_SWAP (stat_add VMSTAT_PAGE_FAULT_DISK (vmstats s1)),
      ram := mem_put (ram s1) (b * PAGE_SIZE) ?bs, swapmap := m\<rparr>"
  let ?e3 = "\<lparr>pt_frame_index = b, pt_swap_index = 0, pt_status = mem_status readonly\<rparr>"
  let ?s3 = "pt_write p ?e3 ?s2"
  have rd2: "pt_read ?s2 = pt_read s1" by (simp add: pt_read_def fun_eq_iff)
  have rd3: "pt_read ?s3 q = (if q = p then Some ?e3 else pt_read s1 q)" for q
    using pt_read_write [of ?s2 p e ?e3 q] a(9) by (simp add: rd2)
  have lbs: "length ?bs = PAGE_SIZE" by (rule length_file_page [OF fl])
  have sw3: "swap_ok vo content ?s3"
    using sw m(2-4) len by (auto simp: swap_ok_def)
  have st: "vm_inv vo content img ro tr None ?s3 \<and> same_pages content img s1 ?s3"
  proof (rule settle [OF a(4) _ _ _ _ _ sw3 rd3])
    show "in_mem ?e3" by (simp add: in_mem_def mem_status_def)
    show "ram ?s3 (g * PAGE_SIZE + off) = ram s1 (g * PAGE_SIZE + off)"
      if "g \<noteq> b" "off < PAGE_SIZE" for g off
      using frame_byte_range [OF that(2), of b g] that lbs by (auto simp: mem_put_def)
    show "page_val content img s1 p off = Some (ram ?s3 (b * PAGE_SIZE + off))" if "off < PAGE_SIZE" for off
      using that a(9) p(2) mem_put_in [of off ?bs] nth_file_page [OF fl that] lbs
      by (simp add: page_val_def)
    show "pt_swap_index f \<in> marked (swapmap ?s3)"
      if "q \<noteq> p" "pt_read s1 q = Some f" "pt_status f = IN_SWAP" for q f
      using that sl a(9) p(2) m(4) unfolding slots_ok_def by auto
  qed (use nro rd in \<open>simp_all add: mem_status_def\<close>)
  have run: "vm_fault_page vo pid as ty readonly va p s = Some ?s3"
    using p a(1,9) m(1) pt_set_frame [of ?s2 p e b "mem_status readonly"] b
    by (simp add: vm_fault_page_def rd2 mem_status_def)
  have cnt: "counted {6, 8} (vmstats s) (vmstats ?s3)"
    using counted_same [OF a(7) counted_add2 [OF len, of 6 8]] by simp
  have ms: "tlb_misses tr p ?s3" if "tr_inj tr"
  proof -
    have "tlb_misses tr p s1"
      using a(4) that a(9) nm by (intro not_in_mem_misses) (simp_all add: vm_inv_def)
    then show ?thesis using tlb_misses_cong [of ?s3 s1] by simp
  qed
  show ?thesis
    using run st a(6) same_pages_trans [OF a(5)] rd3 [of p] cnt ms
    by (intro exI [of _ ?s3] exI [of _ ?e3]) (simp add: in_mem_def mem_status_def)
qed

lemma fault_not_loaded:
  fixes s :: "('f, 'a) sys_st_scheme"
  assumes inv: "vm_inv vo content img ro tr None s"
    and p: "pt_read s (t, k) = Some e" "pt_status e = NOT_LOADED" and can: "can_alloc vo 1 s"
    and wf: "as_wf as" and va: "in_as as va" and elf: "elf_ok content as vn"
    and t: "as_ptable as = Some t" and k: "pt_get_index as va = Some k"
    and ty: "as_get_segment_type as va = Some ty"
    and pr: "procs s pid = Some pr" "p_vnode pr = Some vn"
    and img: "\<And>off. off < PAGE_SIZE \<Longrightarrow> img (t, k) off = image_byte content as vn k off"
    and rd: "readonly = ro (t, k)"
  shows "\<exists>s3 e3. vm_fault_page vo pid as ty readonly va (t, k) s = Some s3 \<and>
    vm_inv vo content img ro tr None s3 \<and> same_pages content img s s3 \<and> vm_st.more s3 = vm_st.more s \<and>
    pt_read s3 (t, k) = Some e3 \<and> in_mem e3 \<and> (tr_inj tr \<longrightarrow> tlb_misses tr (t, k) s3) \<and>
    (counted {VMSTAT_PAGE_FAULT_DISK, VMSTAT_PAGE_FAULT_ELF} (vmstats s) (vmstats s3) \<or>
     counted {VMSTAT_PAGE_FAULT_ZERO} (vmstats s) (vmstats s3))"
proof -
  let ?p = "(t, k)"
  have nm: "\<not> in_mem e" using p(2) by (simp add: in_mem_def)
  obtain b s1 where a: "alloc_upage vo ?p s = Some (frame_addr b, s1)" "b \<noteq> 0" "b < 2 ^ 17"
    "vm_inv vo content img ro tr (Some (?p, b)) s1" "same_pages content img s s1"
    "vm_st.more s1 = vm_st.more s" "\<forall>k. k \<noteq> VMSTAT_SWAP_WRITE \<longrightarrow> vmstats s1 ! k = vmstats s ! k"
    "\<forall>off < PAGE_SIZE. ram s1 (b * PAGE_SIZE + off) = 0" "pt_read s1 ?p = Some e"
    by (rule alloc_upage_spec [OF inv p(1) nm can])
  have b: "b < 2 ^ 20" using a(3) by simp
  have sw: "swap_ok vo content s1" and sl: "slots_ok s1" using a(4) by (simp_all add: vm_inv_def)
  have len: "length (vmstats s1) = 10" and vo: "regular_file vo content" using sw by (simp_all add: swap_ok_def)
  let ?e3 = "\<lparr>pt_frame_index = b, pt_swap_index = 0, pt_status = mem_status readonly\<rparr>"
  let ?s2 = "pt_write ?p ?e3 s1"
  have rd2: "pt_read ?s2 q = (if q = ?p then Some ?e3 else pt_read s1 q)" for q
    using pt_read_write [of s1 ?p e ?e3 q] a(9) by simp
  have pr2: "procs ?s2 pid = Some pr" using vm_more_sys(1) [of ?s2 s] a(6) pr(1) by simp
  have im: "in_mem ?e3" by (simp add: in_mem_def mem_status_def)
  have "\<exists>x m. vm_fault_page vo pid as ty readonly va ?p s = Some (?s2\<lparr>vmstats := x, ram := m\<rparr>) \<and>
      length x = 10 \<and> (counted {6, 7} (vmstats s1) x \<or> counted {5} (vmstats s1) x) \<and>
      (\<forall>off < PAGE_SIZE. m (b * PAGE_SIZE + off) = img ?p off) \<and>
      (\<forall>g off. g \<noteq> b \<longrightarrow> off < PAGE_SIZE \<longrightarrow> m (g * PAGE_SIZE + off) = ram s1 (g * PAGE_SIZE + off))"
  proof (cases "ty \<noteq> SEGMENT_STACK \<and> as_check_in_elf as va = Some True")
    case True
    have zero: "\<forall>off < PAGE_SIZE. ram ?s2 (pt_frame_index ?e3 * PAGE_SIZE + off) = 0" using a(8) by simp
    have e3: "pt_read ?s2 (t, k) = Some ?e3" "pt_frame_index ?e3 < 2 ^ 20" using rd2 [of ?p] b by simp_all
    have nst: "as_get_segment_type as va \<noteq> Some SEGMENT_STACK" using True ty by simp
    obtain m where m: "as_load_page vo as vn va ?s2 = Some (?s2\<lparr>vmstats :=
        stat_add VMSTAT_PAGE_FAULT_ELF (stat_add VMSTAT_PAGE_FAULT_DISK (vmstats ?s2)), ram := m\<rparr>)"
      "\<forall>off < PAGE_SIZE. m (pt_frame_index ?e3 * PAGE_SIZE + off) = image_byte content as vn k off"
      "\<forall>g off. g \<noteq> pt_frame_index ?e3 \<longrightarrow> off < PAGE_SIZE \<longrightarrow> m (g * PAGE_SIZE + off) = ram ?s2 (g * PAGE_SIZE + off)"
      using as_load_page_spec [OF vo wf va elf t k e3 nst conjunct2 [OF True] zero] by blast
    have "vm_fault_page vo pid as ty readonly va ?p s = as_load_page vo as vn va ?s2"
      using p a(1) pt_set_frame [OF a(9) b] True pr2 pr(2)
      by (simp add: vm_fault_page_def mem_status_def)
    with m img len counted_add2 [OF len, of 6 7] show ?thesis
      by (intro exI [of _ "stat_add 7 (stat_add 6 (vmstats s1))"] exI [of _ m]) simp
  next
    case False
    obtain seg where seg: "as_get_segment as va = Some seg" "seg_wf seg" "in_segment seg va"
      using as_get_segment_eq [OF wf va] by metis
    have no: "as_get_segment_type as va = Some SEGMENT_STACK \<or> as_check_in_elf as va = Some False"
      using False ty as_check_in_elf_eq [OF seg] by auto
    have zero: "image_byte content as vn k off = 0" if "off < PAGE_SIZE" for off
      by (rule image_byte_zero [OF wf va k no that])
    have "vm_fault_page vo pid as ty readonly va ?p s = vmstats_hit VMSTAT_PAGE_FAULT_ZERO ?s2"
      using p a(1) pt_set_frame [OF a(9) b] no ty
      by (auto simp: vm_fault_page_def mem_status_def)
    then have "vm_fault_page vo pid as ty readonly va ?p s =
        Some (?s2\<lparr>vmstats := stat_add 5 (vmstats s1), ram := ram s1\<rparr>)"
      by (simp add: vmstats_hit_add)
    with counted_add [OF len, of 5] len zero img a(8) show ?thesis
      by (intro exI [of _ "stat_add 5 (vmstats s1)"] exI [of _ "ram s1"]) simp
  qed
  then obtain x m where run: "vm_fault_page vo pid as ty readonly va ?p s = Some (?s2\<lparr>vmstats := x, ram := m\<rparr>)"
    and x: "length x = 10" "counted {6, 7} (vmstats s1) x \<or> counted {5} (vmstats s1) x"
    and m: "\<forall>off < PAGE_SIZE. m (b * PAGE_SIZE + off) = img ?p off"
      "\<forall>g off. g \<noteq> b \<longrightarrow> off < PAGE_SIZE \<longrightarrow> m (g * PAGE_SIZE + off) = ram s1 (g * PAGE_SIZE + off)"
    by blast
  let ?s3 = "?s2\<lparr>vmstats := x, ram := m\<rparr>"
  have rd3: "pt_read ?s3 q = (if q = ?p then Some ?e3 else pt_read s1 q)" for q
    using rd2 [of q] pt_read_cong [of ?s3 ?s2] by simp
  have sw3: "swap_ok vo content ?s3" using sw x(1) by (simp add: swap_ok_def)
  have st: "vm_inv vo content img ro tr None ?s3 \<and> same_pages content img s1 ?s3"
  proof (rule settle [OF a(4) _ _ _ _ _ sw3 rd3 im])
    show "page_val content img s1 ?p off = Some (ram ?s3 (b * PAGE_SIZE + off))" if "off < PAGE_SIZE" for off
      using that a(9) p(2) m(1) by (simp add: page_val_def)
    show "pt_swap_index f \<in> marked (swapmap ?s3)"
      if "q \<noteq> ?p" "pt_read s1 q = Some f" "pt_status f = IN_SWAP" for q f
      using that sl unfolding slots_ok_def by simp
  qed (use m rd in \<open>simp_all\<close>)
  have cnt: "counted {6, 7} (vmstats s) (vmstats ?s3) \<or> counted {5} (vmstats s) (vmstats ?s3)"
    using x(2) counted_same [OF a(7)] by auto
  have ms: "tlb_misses tr ?p ?s3" if "tr_inj tr"
  proof -
    have "tlb_misses tr ?p s1"
      using a(4) that a(9) nm by (intro not_in_mem_misses) (simp_all add: vm_inv_def)
    then show ?thesis using tlb_misses_cong [of ?s3 s1] by simp
  qed
  show ?thesis
    using run st a(6) same_pages_trans [OF a(5)] rd3 [of ?p] cnt im ms
    by (intro exI [of _ ?s3] exI [of _ ?e3]) simp
qed

section \<open>The invariant of the system\<close>

text \<open>The translations the process with address space \<open>as\<close> may have.\<close>

definition tr_of :: "addrspace \<Rightarrow> pt_ptr \<Rightarrow> (vaddr \<times> bool) option" where
  "tr_of as p = (if as_ptable as = Some (fst p) \<and> snd p < as_npages as
     then Some (frame_addr (page_no as (snd p)), \<not> text_index as (snd p)) else None)"

definition cur_tr :: "('f, 'a) sys_st_scheme \<Rightarrow> (pt_ptr \<Rightarrow> (vaddr \<times> bool) option) option" where
  "cur_tr s = map_option tr_of (proc_getas s)"

text \<open>The address space \<open>as\<close> of process \<open>pr\<close> with page table \<open>t\<close> agrees with the paging state.\<close>

definition as_ok :: "('f \<Rightarrow> byte list) \<Rightarrow> (pt_ptr \<Rightarrow> nat \<Rightarrow> byte) \<Rightarrow> (pt_ptr \<Rightarrow> bool) \<Rightarrow>
    ('f, 'a) sys_st_scheme \<Rightarrow> 'f proc \<Rightarrow> addrspace \<Rightarrow> nat \<Rightarrow> bool" where
  "as_ok content img ro s pr as t \<longleftrightarrow> as_wf as \<and>
     (\<forall>k. (\<exists>e. pt_read s (t, k) = Some e) \<longleftrightarrow> k < as_npages as) \<and>
     (\<forall>k < as_npages as. ro (t, k) = text_index as k) \<and>
     (\<exists>vn. p_vnode pr = Some vn \<and> elf_ok content as vn \<and>
        (\<forall>k < as_npages as. \<forall>off < PAGE_SIZE. img (t, k) off = image_byte content as vn k off))"

definition has_table :: "('f, 'a) sys_st_scheme \<Rightarrow> nat \<Rightarrow> 'f proc \<Rightarrow> addrspace \<Rightarrow> nat \<Rightarrow> bool" where
  "has_table s pid pr as t \<longleftrightarrow> procs s pid = Some pr \<and> p_addrspace pr = Some as \<and> as_ptable as = Some t"

definition procs_ok :: "('f \<Rightarrow> byte list) \<Rightarrow> (pt_ptr \<Rightarrow> nat \<Rightarrow> byte) \<Rightarrow> (pt_ptr \<Rightarrow> bool) \<Rightarrow>
    ('f, 'a) sys_st_scheme \<Rightarrow> bool" where
  "procs_ok content img ro s \<longleftrightarrow>
     (\<forall>pid pr as t. has_table s pid pr as t \<longrightarrow> as_ok content img ro s pr as t) \<and>
     (\<forall>pid pid' pr pr' as as' t. has_table s pid pr as t \<longrightarrow> has_table s pid' pr' as' t \<longrightarrow> pid = pid')"

definition sys_inv :: "'f vnode_ops \<Rightarrow> ('f \<Rightarrow> byte list) \<Rightarrow> ('f, 'a) sys_st_scheme \<Rightarrow> bool" where
  "sys_inv vo content s \<longleftrightarrow>
     (\<exists>img ro. vm_inv vo content img ro (cur_tr s) None s \<and> procs_ok content img ro s)"

text \<open>What process \<open>pid\<close> has at the user address \<open>va\<close>, wherever the page is.\<close>

definition user_byte :: "('f \<Rightarrow> byte list) \<Rightarrow> ('f, 'a) sys_st_scheme \<Rightarrow> nat \<Rightarrow> vaddr \<Rightarrow> byte option" where
  "user_byte content s pid va = do {
     pr \<leftarrow> procs s pid;
     as \<leftarrow> p_addrspace pr;
     vn \<leftarrow> p_vnode pr;
     (t, k) \<leftarrow> pt_get_entry as va;
     page_val content (\<lambda>q. image_byte content as vn (snd q)) s (t, k) (unat va mod PAGE_SIZE)
   }"

lemma pt_read_same_pages:
  assumes "same_pages content img s s'"
  shows "(\<exists>e. pt_read s' p = Some e) \<longleftrightarrow> (\<exists>e. pt_read s p = Some e)"
proof -
  have "page_val content img s' p 0 = page_val content img s p 0" using assms by (simp add: same_pages_def)
  then show ?thesis by (auto simp: page_val_def split: option.splits)
qed

lemma procs_ok_same_pages:
  assumes "procs_ok content img ro s" and "procs s' = procs s" and "same_pages content img s s'"
  shows "procs_ok content img ro s'"
proof -
  have "has_table s' = has_table s" by (simp add: has_table_def assms(2) fun_eq_iff)
  moreover have "as_ok content img ro s' pr as t = as_ok content img ro s pr as t" for pr as t
    by (simp add: as_ok_def pt_read_same_pages [OF assms(3)])
  ultimately show ?thesis using assms(1) by (simp add: procs_ok_def)
qed

lemma user_byte_eq:
  assumes "procs_ok content img ro s" and "has_table s pid pr as t"
    and "pt_get_index as va = Some k" and "k < as_npages as"
  shows "user_byte content s pid va = page_val content img s (t, k) (unat va mod PAGE_SIZE)"
proof -
  have "as_ok content img ro s pr as t" using assms(1,2) unfolding procs_ok_def by blast
  with assms(2-4) show ?thesis
    by (auto simp: user_byte_def as_ok_def has_table_def pt_get_entry_def page_val_def
        split: option.split pt_status.split)
qed

lemma pt_get_index_in_as:
  assumes "as_wf as" and "pt_get_index as va = Some k"
  shows "in_as as va" and "k < as_npages as"
proof -
  show va: "in_as as va"
    using assms as_get_segment_type_total(1) [OF assms(1), of va] by (auto simp: pt_get_index_def)
  from pt_get_index_spec [OF assms(1) va] assms(2) show "k < as_npages as" by (metis option.inject)
qed

lemma user_byte_same_pages:
  fixes s s' :: "('f, 'a) sys_st_scheme"
  assumes ok: "procs_ok content img ro s" and pr: "procs s' = procs s" and same: "same_pages content img s s'"
  shows "user_byte content s' pid va = user_byte content s pid va"
proof (cases "\<exists>pr as t k. has_table s pid pr as t \<and> pt_get_index as va = Some k")
  case True
  then obtain pr as t k where h: "has_table s pid pr as t" "pt_get_index as va = Some k" by blast
  have wf: "as_wf as" using ok h(1) unfolding procs_ok_def as_ok_def by blast
  note k = pt_get_index_in_as(2) [OF wf h(2)]
  have h': "has_table s' pid pr as t" using h(1) pr by (simp add: has_table_def)
  show ?thesis
    using user_byte_eq [OF ok h k] user_byte_eq [OF procs_ok_same_pages [OF ok pr same] h' h(2) k] same
    by (simp add: same_pages_def)
next
  case False
  then have "user_byte content x pid va = None" if "procs x = procs s" for x :: "('f, 'a) sys_st_scheme"
    using that by (auto simp: user_byte_def has_table_def pt_get_entry_def split: bind_splits)
  with pr show ?thesis by simp
qed

lemma tr_of_inj:
  assumes "as_wf as"
  shows "tr_inj (Some (tr_of as))"
  unfolding tr_inj_def
proof (intro allI impI)
  fix f q q' va w w'
  assume f: "Some (tr_of as) = Some f" and q: "f q = Some (va, w)" and q': "f q' = Some (va, w')"
  then have k: "snd q < as_npages as" "snd q' < as_npages as" "fst q = fst q'"
    "frame_addr (page_no as (snd q)) = frame_addr (page_no as (snd q'))"
    by (auto simp: tr_of_def split: if_splits)
  have "page_no as (snd q) = page_no as (snd q')"
    using k(4) page_no_user [OF assms k(1)] page_no_user [OF assms k(2)] by (simp add: frame_addr_inject)
  with k page_no_inj [OF assms] have "snd q = snd q'" by (simp add: inj_on_eq_iff)
  with k(3) show "q = q'" by (simp add: prod_eq_iff)
qed

lemma vm_inv_vmstats:
  assumes "vm_inv vo content img ro tr pend s" and "length x = 10"
  shows "vm_inv vo content img ro tr pend (s\<lparr>vmstats := x\<rparr>)"
  using assms
  by (simp add: vm_inv_def swap_ok_def cm_ok_def owners_ok_cong [of "s\<lparr>vmstats := x\<rparr>" s]
      slots_ok_cong [of "s\<lparr>vmstats := x\<rparr>" s] rdonly_ok_cong [of "s\<lparr>vmstats := x\<rparr>" s]
      tlb_coherent_cong [of "s\<lparr>vmstats := x\<rparr>" s])

lemma same_pages_vmstats [simp]: "same_pages content img s (s\<lparr>vmstats := x\<rparr>)"
  by (simp add: same_pages_def page_val_cong [of "s\<lparr>vmstats := x\<rparr>" s])

lemma page_vaddr:
  assumes "as_wf as" and "in_as as va" and "page_no as k = vpn va"
  shows "frame_addr (page_no as k) = va AND PAGE_FRAME" and "va AND PAGE_FRAME < MIPS_KSEG0"
    and "page_aligned (va AND PAGE_FRAME)"
proof -
  obtain seg where "seg_wf seg" "in_segment seg va"
    using as_get_segment_eq [OF assms(1,2)] by metis
  then have va: "unat va < 2 ^ 31"
    using seg_wf_bounds(2) [of seg] by (simp add: in_segment_def word_less_nat_alt)
  then have v: "vpn va < 2 ^ 20" by (simp add: vpn_def less_mult_imp_div_less)
  show "frame_addr (page_no as k) = va AND PAGE_FRAME"
    using unat_frame_addr [OF v] by (simp add: assms(3) word_unat_eq_iff unat_page_frame_vpn)
  have "unat (va AND PAGE_FRAME) \<le> unat va" by (simp add: unat_page_frame)
  with va show "va AND PAGE_FRAME < MIPS_KSEG0" by (simp add: word_less_nat_alt)
qed (rule page_aligned_frame)

section \<open>A fault on a good address\<close>

text \<open>
  The switch leaves the page in memory, the TLB without a translation for it, and
  everything every page holds unchanged.
\<close>

lemma vm_fault_page_spec:
  fixes s :: "('f, 'a) sys_st_scheme"
  assumes inv: "vm_inv vo content img ro (Some (tr_of as)) None s" and ok: "procs_ok content img ro s"
    and h: "has_table s pid pr as t" and va: "in_as as va" and k: "pt_get_index as va = Some k"
    and e: "pt_read s (t, k) = Some e" and avail: "in_mem e \<or> can_alloc vo 1 s"
    and ty: "as_get_segment_type as va = Some ty"
    and miss: "\<forall>pa w. (va AND PAGE_FRAME, pa, w) \<notin> tlb_maps s"
  shows "\<exists>s3 e3. vm_fault_page vo pid as ty (ty = SEGMENT_TEXT) va (t, k) s = Some s3 \<and>
    vm_inv vo content img ro (Some (tr_of as)) None s3 \<and> same_pages content img s s3 \<and>
    vm_st.more s3 = vm_st.more s \<and> pt_read s3 (t, k) = Some e3 \<and> in_mem e3 \<and>
    (\<forall>pa w. (va AND PAGE_FRAME, pa, w) \<notin> tlb_maps s3) \<and>
    (\<exists>K \<in> {{VMSTAT_TLB_RELOAD}, {VMSTAT_PAGE_FAULT_ZERO}, {VMSTAT_PAGE_FAULT_DISK, VMSTAT_PAGE_FAULT_ELF},
           {VMSTAT_PAGE_FAULT_DISK, VMSTAT_PAGE_FAULT_SWAP}}. counted K (vmstats s) (vmstats s3))"
proof -
  have t: "as_ptable as = Some t" and pr: "procs s pid = Some pr" using h by (simp_all add: has_table_def)
  have aok: "as_ok content img ro s pr as t" using ok h unfolding procs_ok_def by blast
  then have wf: "as_wf as" by (simp add: as_ok_def)
  obtain vn where vn: "p_vnode pr = Some vn" "elf_ok content as vn"
    "\<forall>k < as_npages as. \<forall>off < PAGE_SIZE. img (t, k) off = image_byte content as vn k off"
    using aok by (auto simp: as_ok_def)
  have kn: "k < as_npages as" and pk: "page_no as k = vpn va" and tx: "ty = SEGMENT_TEXT \<longleftrightarrow> text_index as k"
    using pt_get_index_spec [OF wf va] k ty by (metis option.inject)+
  have ro: "(ty = SEGMENT_TEXT) = ro (t, k)" using aok kn tx by (simp add: as_ok_def)
  have tr: "tr_of as (t, k) = Some (va AND PAGE_FRAME, \<not> text_index as k)"
    using t kn page_vaddr(1) [OF wf va pk] by (simp add: tr_of_def)
  have ms: "\<forall>pa w. (va AND PAGE_FRAME, pa, w) \<notin> tlb_maps s3"
    if "tlb_misses (Some (tr_of as)) (t, k) s3" for s3 :: "('f, 'a) sys_st_scheme"
    using that tr unfolding tlb_misses_def by blast
  note inj = tr_of_inj [OF wf]
  show ?thesis
  proof (cases "pt_status e")
    case NOT_LOADED
    then have can: "can_alloc vo 1 s" using avail by (simp add: in_mem_def)
    have img: "img (t, k) off = image_byte content as vn k off" if "off < PAGE_SIZE" for off
      using vn(3) kn that by blast
    from fault_not_loaded [OF inv e NOT_LOADED can wf va vn(2) t k ty pr vn(1) img ro] inj ms
    show ?thesis by fastforce
  next
    case IN_SWAP
    then have can: "can_alloc vo 1 s" using avail by (simp add: in_mem_def)
    from fault_swap_in [OF inv e IN_SWAP can ro, of pid as ty va] inj ms show ?thesis by fastforce
  next
    case st: IN_MEMORY
    let ?s3 = "s\<lparr>vmstats := stat_add VMSTAT_TLB_RELOAD (vmstats s)\<rparr>"
    have len: "length (vmstats s) = 10" using inv by (simp add: vm_inv_def swap_ok_def)
    have "vm_fault_page vo pid as ty (ty = SEGMENT_TEXT) va (t, k) s = Some ?s3"
      using e st by (simp add: vm_fault_page_def vmstats_hit_add)
    moreover have "vm_inv vo content img ro (Some (tr_of as)) None ?s3"
      using len by (intro vm_inv_vmstats [OF inv]) simp
    moreover have "pt_read ?s3 (t, k) = Some e" using e by (simp add: pt_read_def)
    ultimately show ?thesis using miss counted_add [OF len, of 4] st
      by (intro exI [of _ ?s3] exI [of _ e]) (simp add: in_mem_def)
  next
    case st: IN_MEMORY_RDONLY
    let ?s3 = "s\<lparr>vmstats := stat_add VMSTAT_TLB_RELOAD (vmstats s)\<rparr>"
    have len: "length (vmstats s) = 10" using inv by (simp add: vm_inv_def swap_ok_def)
    have "vm_fault_page vo pid as ty (ty = SEGMENT_TEXT) va (t, k) s = Some ?s3"
      using e st by (simp add: vm_fault_page_def vmstats_hit_add)
    moreover have "vm_inv vo content img ro (Some (tr_of as)) None ?s3"
      using len by (intro vm_inv_vmstats [OF inv]) simp
    moreover have "pt_read ?s3 (t, k) = Some e" using e by (simp add: pt_read_def)
    ultimately show ?thesis using miss counted_add [OF len, of 4] st
      by (intro exI [of _ ?s3] exI [of _ e]) (simp add: in_mem_def)
  qed
qed

lemma tlb_insert_counts:
  assumes "page_aligned pa" and "tlb_insert va pa ro s = Some s'"
  shows "vmstats s' = stat_add (if tlb_free s then VMSTAT_TLB_FAULT_FREE else VMSTAT_TLB_FAULT_REPLACE) (vmstats s)"
  using assms by (auto simp: tlb_insert_eq stat_add_def)

text \<open>One more TLB fault, with a translation entered and one of the four ways to get the page.\<close>

definition fault_counted :: "uint32 list \<Rightarrow> uint32 list \<Rightarrow> bool" where
  "fault_counted x y \<longleftrightarrow>
     (\<exists>j \<in> {VMSTAT_TLB_FAULT_FREE, VMSTAT_TLB_FAULT_REPLACE}.
      \<exists>K \<in> {{VMSTAT_TLB_RELOAD}, {VMSTAT_PAGE_FAULT_ZERO}, {VMSTAT_PAGE_FAULT_DISK, VMSTAT_PAGE_FAULT_ELF},
           {VMSTAT_PAGE_FAULT_DISK, VMSTAT_PAGE_FAULT_SWAP}}.
      counted ({VMSTAT_TLB_FAULT, j} \<union> K) x y)"

text \<open>
  Enough memory for a page: a free frame, or a frame with a user page that can be
  written to the swap file.
\<close>

definition has_room :: "('f, 'a) vm_st_scheme \<Rightarrow> bool" where
  "has_room s \<longleftrightarrow> (\<exists>e \<in> set (coremap s). \<not> cm_free e) \<or>
     (\<exists>e \<in> set (coremap s). cm_ptentry e \<noteq> None) \<and> marked (swapmap s) \<noteq> {..<SWAPFILE_NPAGES}"

lemma has_room_can_alloc:
  assumes "has_room s"
  shows "can_alloc vo 1 (s\<lparr>vmstats := x\<rparr>)"
proof (cases "\<exists>e \<in> set (coremap s). \<not> cm_free e")
  case True
  then obtain b where "b < length (coremap s)" "\<not> cm_free (coremap s ! b)" by (metis in_set_conv_nth)
  then have "free_run (coremap s) b 1" by (auto simp: free_run_def le_less_Suc_eq)
  then show ?thesis by (auto simp: can_alloc_def)
next
  case False
  with assms have room: "marked (swapmap s) \<noteq> {..<SWAPFILE_NPAGES}"
    and "\<exists>e \<in> set (coremap s). cm_ptentry e \<noteq> None" unfolding has_room_def by blast+
  then have "\<exists>i < length (coremap s). user_frame s i" unfolding user_frame_def by (metis in_set_conv_nth)
  with room show ?thesis by (simp add: can_alloc_def user_frame_def)
qed

lemma vm_fault_can_alloc:
  fixes s :: "('f, 'a) sys_st_scheme"
  assumes inv: "vm_inv vo content img ro tr None s" and e: "pt_read s (t, k) = Some e"
    and run: "vm_fault_page vo pid as ty r va (t, k) s = Some s'"
  shows "in_mem e \<or> can_alloc vo 1 s"
proof (cases "in_mem e")
  case False
  then have "alloc_upage vo (t, k) s \<noteq> None"
    using run e by (cases "pt_status e"; cases "alloc_upage vo (t, k) s") (simp_all add: vm_fault_page_def in_mem_def)
  then obtain r where "coremap_getppages vo 1 (Some (t, k)) s = Some r"
    by (cases "coremap_getppages vo 1 (Some (t, k)) s") (auto simp: alloc_upage_def getppages_def)
  from getppages_can_alloc [OF inv _ this] show ?thesis by simp
qed simp

lemma vm_fault_handled:
  fixes s :: "('f, 'a) sys_st_scheme"
  assumes inv: "vm_inv vo content img ro (cur_tr s) None s" and ok: "procs_ok content img ro s"
    and cur: "curproc s = Some pid" and h: "has_table s pid pr as t"
    and va: "in_as as va" and k: "pt_get_index as va = Some k"
    and ft: "ft = VM_FAULT_READ \<or> ft = VM_FAULT_WRITE"
    and miss: "\<forall>pa w. (va AND PAGE_FRAME, pa, w) \<notin> tlb_maps s"
    and e: "pt_read s (t, k) = Some e" 
    and avail: "in_mem e \<or> can_alloc vo 1 (s\<lparr>vmstats := stat_add VMSTAT_TLB_FAULT (vmstats s)\<rparr>)"
  shows "\<exists>s' e'. vm_fault vo ft va s = Some (Handled, s') \<and>
    vm_inv vo content img ro (cur_tr s') None s' \<and> same_pages content img s s' \<and>
    vm_st.more s' = vm_st.more s \<and> pt_read s' (t, k) = Some e' \<and> in_mem e' \<and>
    (va AND PAGE_FRAME, frame_addr (pt_frame_index e'), \<not> text_index as k) \<in> tlb_maps s' \<and>
    fault_counted (vmstats s) (vmstats s')"
proof -
  have t: "as_ptable as = Some t" and pr: "procs s pid = Some pr" "p_addrspace pr = Some as"
    using h by (simp_all add: has_table_def)
  have ga: "proc_getas s = Some as" using cur pr by (simp add: proc_getas_def)
  have aok: "as_ok content img ro s pr as t" using ok h unfolding procs_ok_def by blast
  then have wf: "as_wf as" by (simp add: as_ok_def)
  obtain ty where ty: "as_get_segment_type as va = Some ty" "ty \<noteq> SEGMENT_NONE"
    "k < as_npages as" "page_no as k = vpn va" "ty = SEGMENT_TEXT \<longleftrightarrow> text_index as k"
    using pt_get_index_spec [OF wf va] k by (metis option.inject)
  have len: "length (vmstats s) = 10" using inv by (simp add: vm_inv_def swap_ok_def)
  let ?s0 = "s\<lparr>vmstats := stat_add VMSTAT_TLB_FAULT (vmstats s)\<rparr>"
  have rd0: "pt_read ?s0 = pt_read s" by (simp add: pt_read_def fun_eq_iff)
  have tr: "cur_tr s = Some (tr_of as)" using ga by (simp add: cur_tr_def)
  have inv0: "vm_inv vo content img ro (Some (tr_of as)) None ?s0"
    using vm_inv_vmstats [OF inv [unfolded tr], of "stat_add 0 (vmstats s)"] len by simp
  have ok0: "procs_ok content img ro ?s0" by (rule procs_ok_same_pages [OF ok]) simp_all
  have h0: "has_table ?s0 pid pr as t" using h by (simp add: has_table_def)
  have e0: "pt_read ?s0 (t, k) = Some e" using e rd0 by simp
  have avail0: "in_mem e \<or> can_alloc vo 1 ?s0" using avail by simp
  have miss0: "\<forall>pa w. (va AND PAGE_FRAME, pa, w) \<notin> tlb_maps ?s0" using miss by simp
  obtain s3 e3 K where s3: "vm_fault_page vo pid as ty (ty = SEGMENT_TEXT) va (t, k) ?s0 = Some s3"
    "vm_inv vo content img ro (Some (tr_of as)) None s3" "same_pages content img ?s0 s3"
    "vm_st.more s3 = vm_st.more ?s0" "pt_read s3 (t, k) = Some e3" "in_mem e3"
    "\<forall>pa w. (va AND PAGE_FRAME, pa, w) \<notin> tlb_maps s3"
    "K \<in> {{4}, {5}, {6, 7}, {6, 8 :: nat}}" "counted K (vmstats ?s0) (vmstats s3)"
    using vm_fault_page_spec [OF inv0 ok0 h0 va k e0 avail0 ty(1) miss0] by blast
  let ?pa = "frame_addr (pt_frame_index e3)" and ?base = "va AND PAGE_FRAME"
  have cm3: "cm_ok s3" "owners_ok None s3" "tlb_ok s3" "tlb_maps s3 \<subseteq> valid_trs (tr_of as) s3"
    using s3(2) by (simp_all add: vm_inv_def tlb_coherent_def)
  have pa: "page_aligned ?pa" by (rule page_aligned_frame_addr [OF frame_less(2) [OF cm3(1,2) s3(5,6)]])
  have trk: "tr_of as (t, k) = Some (?base, \<not> text_index as k)"
    using t ty(3) page_vaddr(1) [OF wf va ty(4)] by (simp add: tr_of_def)
  have new: "(?base, ?pa, \<not> (ty = SEGMENT_TEXT)) \<in> valid_trs (tr_of as) s3"
    using valid_trsI [of "tr_of as", OF trk s3(5,6)] ty(5) by simp
  obtain s' where s': "tlb_insert ?base ?pa (ty = SEGMENT_TEXT) s3 = Some s'" "tlb_ok s'" "tlb_same s3 s'"
    "tlb_maps s' \<subseteq> valid_trs (tr_of as) s3" "(?base, ?pa, \<not> (ty = SEGMENT_TEXT)) \<in> tlb_maps s'"
    by (rule tc.insert_coherent [OF cm3(3) page_vaddr(2,3) [OF wf va ty(4)] pa s3(7) cm3(4) new])
  note same = tlb_same_vm [OF s'(3)]
  have rd': "pt_read s' = pt_read s3" by (rule pt_read_cong [OF same(4)])
  have len3: "length (vmstats s3) = 10" and len': "length (vmstats s') = 10"
    using cm3(3) s'(2) by (simp_all add: tlb_ok_def)
  have run: "vm_fault vo ft va s = Some (Handled, s')"
  proof -
    have "curproc ?s0 = Some pid" "proc_getas ?s0 = Some as"
      using cur ga by (simp_all add: proc_getas_def)
    moreover have "pt_get_entry as va = Some (t, k)" using k t by (simp add: pt_get_entry_def)
    moreover have "as_data as \<noteq> None" "as_stack as \<noteq> None" "as_text as \<noteq> None"
      using wf by (auto elim: as_wfE)
    ultimately show ?thesis
      using ft ty(1,2) t s3(1,5) s'(1) by (auto simp: vm_fault_def vmstats_hit_add Let_def)
  qed
  have more: "vm_st.more s' = vm_st.more s" using same(7) s3(4) by simp
  have tr': "cur_tr s' = Some (tr_of as)"
    using vm_more_sys [OF more] ga by (simp add: cur_tr_def proc_getas_def)
  have "vm_inv vo content img ro (Some (tr_of as)) None s'"
    unfolding vm_inv_def
  proof (intro conjI)
    show "swap_ok vo content s'" using s3(2) same len' by (intro swap_ok_cong [of s' s3]) (simp_all add: vm_inv_def)
    show "cm_ok s'" using cm3(1) same by (intro cm_ok_cong [of s' s3]) (simp_all add: cm_ok_def)
    show "owners_ok None s'" using cm3(2) owners_ok_cong [of s' s3] same by simp
    show "slots_ok s'" using s3(2) slots_ok_cong [of s' s3] same by (simp add: vm_inv_def)
    show "rdonly_ok img ro s'" using s3(2) rdonly_ok_cong [of s' s3] same by (simp add: vm_inv_def)
    show "tlb_coherent (Some (tr_of as)) s'"
      using s'(2,4) by (simp add: tlb_coherent_def valid_trs_def rd')
  qed
  moreover have "same_pages content img s s'"
  proof -
    have "same_pages content img s3 s'"
      using same by (simp add: same_pages_def page_val_cong [of s' s3])
    with s3(3) show ?thesis using same_pages_trans same_pages_vmstats by metis
  qed
  moreover have "fault_counted (vmstats s) (vmstats s')"
  proof -
    let ?j = "if tlb_free s3 then 1 else (2 :: nat)"
    have v': "vmstats s' = stat_add ?j (vmstats s3)" by (rule tlb_insert_counts [OF pa s'(1)])
    have "counted ({0, ?j} \<union> K) (vmstats s) (vmstats s')"
      using s3(8,9) len len3 unfolding v' counted_def by (auto simp: nth_stat_add)
    moreover have "?j \<in> {1, 2}" by simp
    ultimately show ?thesis using s3(8) unfolding fault_counted_def by blast
  qed
  ultimately show ?thesis
    using run more tr' s'(5) ty(5) s3(5,6) rd' by (intro exI [of _ s'] exI [of _ e3]) simp
qed

end
