(* ===== verification/Vmsystem.thy ===== *)
theory Vmsystem
  imports Vmfault
begin

unbundle bit_operations_syntax

text \<open>
  The paging system seen from the processes. \<open>user_load\<close> and \<open>user_store\<close> are the
  accesses of the running program through the TLB, as the processor does them; the
  theorems compare them with \<open>user_byte\<close>, the flat memory each process is promised.
\<close>

section \<open>Accesses through the TLB\<close>

definition tlb_lookup :: "'a tlb_st_scheme \<Rightarrow> vaddr \<Rightarrow> (paddr \<times> bool) option" where
  "tlb_lookup s va = (case find (\<lambda>e. fst e = va AND PAGE_FRAME) (tlb s) of
     None \<Rightarrow> None
   | Some (ehi, elo) \<Rightarrow>
       if elo AND TLBLO_VALID = 0 then None
       else Some (elo AND PAGE_FRAME, elo AND TLBLO_DIRTY \<noteq> 0))"

definition user_load :: "('f, 'a) vm_st_scheme \<Rightarrow> vaddr \<Rightarrow> byte option" where
  "user_load s va = (if va < MIPS_KSEG0
     then map_option (\<lambda>(pa, w). ram s (unat pa + unat va mod PAGE_SIZE)) (tlb_lookup s va) else None)"

definition user_store :: "vaddr \<Rightarrow> byte \<Rightarrow> ('f, 'a) vm_st_scheme \<Rightarrow> ('f, 'a) vm_st_scheme option" where
  "user_store va b s = (if va < MIPS_KSEG0 then (case tlb_lookup s va of
       Some (pa, True) \<Rightarrow> Some (s\<lparr>ram := (ram s)(unat pa + unat va mod PAGE_SIZE := b)\<rparr>)
     | _ \<Rightarrow> None) else None)"

lemma tlb_lo_flags:
  assumes "page_aligned pa"
  shows "tlb_lo pa w AND TLBLO_VALID \<noteq> 0" and "tlb_lo pa w AND TLBLO_DIRTY \<noteq> 0 \<longleftrightarrow> w"
proof -
  have b: "bit (TLBLO_VALID :: uint32) j \<longleftrightarrow> j = 9" "bit (TLBLO_DIRTY :: uint32) j \<longleftrightarrow> j = 10" for j
    using bit_exp_iff [where 'a = uint32, of 9 j] bit_exp_iff [where 'a = uint32, of 10 j] by auto
  have "bit (tlb_lo pa w AND TLBLO_VALID) 9" by (simp only: bit_and_iff bit_tlb_lo b) simp
  then show "tlb_lo pa w AND TLBLO_VALID \<noteq> 0" by (metis bit_0_eq bot_apply bot_bool_def)
  have a: "bit (tlb_lo pa w AND TLBLO_DIRTY) j \<longleftrightarrow> w \<and> j = 10" for j
    using page_aligned_low_bits [OF assms, of 10] by (simp only: bit_and_iff bit_tlb_lo b) auto
  show "tlb_lo pa w AND TLBLO_DIRTY \<noteq> 0 \<longleftrightarrow> w"
  proof (cases w)
    case True
    then have "bit (tlb_lo pa w AND TLBLO_DIRTY) 10" using a by simp
    then show ?thesis using True by (metis bit_0_eq bot_apply bot_bool_def)
  next
    case False
    then have "tlb_lo pa w AND TLBLO_DIRTY = 0" using a by (simp add: bit_eq_iff)
    with False show ?thesis by simp
  qed
qed

lemma tlb_lookup_maps:
  assumes ok: "tlb_ok s" and va: "va < MIPS_KSEG0"
  shows "tlb_lookup s va = Some (pa, w) \<longleftrightarrow> (va AND PAGE_FRAME, pa, w) \<in> tlb_maps s"
proof -
  let ?b = "va AND PAGE_FRAME"
  have base: "?b < MIPS_KSEG0"
    using va by (simp add: word_less_nat_alt unat_page_frame)
  have dist: "distinct (map fst (tlb s))" and len: "length (tlb s) = 64"
    and slots: "\<And>i. i < 64 \<Longrightarrow> tlb_slot_ok i (tlb s ! i)" using ok by (simp_all add: tlb_ok_def)
  show ?thesis
  proof (cases "find (\<lambda>e. fst e = ?b) (tlb s)")
    case None
    then have "(?b, pa, w) \<notin> tlb_maps s" by (auto simp: find_None_iff tlb_maps_def)
    with None show ?thesis by (simp add: tlb_lookup_def)
  next
    case (Some e)
    then obtain i where i: "i < 64" "tlb s ! i = e" "fst e = ?b"
      using len by (auto simp: find_Some_iff)
    then have "tlb_slot_ok i e" "e \<noteq> (TLBHI_INVALID i, TLBLO_INVALID)"
      using slots [of i] base TLBHI_INVALID_kernel [of i] by auto
    then obtain pa' w' where e: "page_aligned pa'" "e = (?b, tlb_lo pa' w')"
      using i(3) by (auto simp: tlb_slot_ok_def prod_eq_iff)
    have mem: "e \<in> set (tlb s)" using i(1,2) len by (metis nth_mem)
    have "(?b, lo) \<in> set (tlb s) \<longleftrightarrow> lo = tlb_lo pa' w'" for lo
      using mem e(2) dist by (auto dest: eq_key_imp_eq_value)
    then have "(?b, pa, w) \<in> tlb_maps s \<longleftrightarrow> pa = pa' \<and> w = w'"
      using base e(1) tlb_lo_inject by (auto simp: tlb_maps_def)
    with Some e show ?thesis using tlb_lo_flags [OF e(1)] by (auto simp: tlb_lookup_def)
  qed
qed

lemma tlb_lookup_None:
  assumes "tlb_ok s" and "va < MIPS_KSEG0"
  shows "tlb_lookup s va = None \<longleftrightarrow> (\<forall>pa w. (va AND PAGE_FRAME, pa, w) \<notin> tlb_maps s)"
  using tlb_lookup_maps [OF assms] by (metis not_None_eq surj_pair)

section \<open>Flat memory\<close>

lemma user_byteE:
  assumes ok: "procs_ok content img ro s" and b: "user_byte content s pid va = Some b"
  obtains pr as t k e where "has_table s pid pr as t" and "as_wf as" and "in_as as va"
    and "pt_get_index as va = Some k" and "k < as_npages as" and "pt_read s (t, k) = Some e"
    and "page_val content img s (t, k) (unat va mod PAGE_SIZE) = Some b" and "va < MIPS_KSEG0"
    and "page_no as k = vpn va"
proof -
  from b obtain pr as t k where h: "has_table s pid pr as t" "pt_get_index as va = Some k"
    by (auto simp: user_byte_def has_table_def pt_get_entry_def split: bind_splits)
  have aok: "as_ok content img ro s pr as t" using ok h(1) unfolding procs_ok_def by blast
  then have wf: "as_wf as" by (simp add: as_ok_def)
  note k = pt_get_index_in_as [OF wf h(2)]
  obtain e where e: "pt_read s (t, k) = Some e" using aok k(2) unfolding as_ok_def by blast
  have v: "page_val content img s (t, k) (unat va mod PAGE_SIZE) = Some b"
    using user_byte_eq [OF ok h k(2)] b by simp
  have pk: "page_no as k = vpn va" using pt_get_index_spec [OF wf k(1)] h(2) by (metis option.inject)
  from page_vaddr(2) [OF wf k(1) this] have "vpn va * PAGE_SIZE < 2 ^ 31"
    by (simp add: word_less_nat_alt unat_page_frame_vpn)
  then have "unat va < 2 ^ 31" by (simp add: vpn_def)
  then have "va < MIPS_KSEG0" by (simp add: word_less_nat_alt)
  then show thesis by (rule that [OF h(1) wf k(1) h(2) k(2) e v _ pk])
qed

text \<open>A translation of the running process leads to the page it is promised.\<close>

lemma tlb_lookup_page:
  fixes s :: "('f, 'a) sys_st_scheme"
  assumes inv: "vm_inv vo content img ro (cur_tr s) None s" and ok: "procs_ok content img ro s"
    and cur: "proc_getas s \<noteq> None" and va: "va < MIPS_KSEG0" and look: "tlb_lookup s va = Some (pa, w)"
  obtains pid pr as t k e where "curproc s = Some pid" and "has_table s pid pr as t" and "as_wf as"
    and "page_no as k = vpn va" and "k < as_npages as" and "pt_read s (t, k) = Some e" and "in_mem e"
    and "pa = frame_addr (pt_frame_index e)" and "w = (\<not> text_index as k)"
proof -
  have tok: "tlb_ok s" using inv by (simp add: vm_inv_def tlb_coherent_def)
  obtain as pid pr where as: "proc_getas s = Some as" "curproc s = Some pid" "procs s pid = Some pr"
    "p_addrspace pr = Some as" using cur by (auto simp: proc_getas_def split: bind_splits)
  have "(va AND PAGE_FRAME, pa, w) \<in> tlb_maps s" using tlb_lookup_maps [OF tok va, of pa w] look by simp
  then have "(va AND PAGE_FRAME, pa, w) \<in> valid_trs (tr_of as) s"
    using inv as(1) by (auto simp: vm_inv_def tlb_coherent_def cur_tr_def)
  then obtain p e where p: "tr_of as p = Some (va AND PAGE_FRAME, w)" "pt_read s p = Some e" "in_mem e"
    "pa = frame_addr (pt_frame_index e)" by (auto elim!: valid_trsE)
  then have t: "as_ptable as = Some (fst p)" "snd p < as_npages as"
    "frame_addr (page_no as (snd p)) = va AND PAGE_FRAME" "w = (\<not> text_index as (snd p))"
    by (auto simp: tr_of_def split: if_splits)
  have h: "has_table s pid pr as (fst p)" using as t(1) by (simp add: has_table_def)
  then have wf: "as_wf as" using ok unfolding procs_ok_def as_ok_def by blast
  have "unat (frame_addr (page_no as (snd p))) = page_no as (snd p) * PAGE_SIZE"
    using page_no_user [OF wf t(2)] by (intro unat_frame_addr) simp
  then have "page_no as (snd p) = vpn va" using t(3) by (simp add: unat_page_frame_vpn)
  with as h wf t p that [of pid pr as "fst p" "snd p" e] show thesis by simp
qed

lemma pt_read_ram [simp]: "pt_read (s\<lparr>ram := m\<rparr>) = pt_read s"
  by (simp add: pt_read_def fun_eq_iff)

lemma user_byte_None_cong:
  assumes "procs s' = procs s" and "\<And>p. pt_read s' p = None \<longleftrightarrow> pt_read s p = None"
  shows "user_byte content s' q x = None \<longleftrightarrow> user_byte content s q x = None"
proof -
  have "page_val content img s' p off = None \<longleftrightarrow> page_val content img s p off = None" for img p off
    using assms(2) [of p] by (auto simp: page_val_def split: option.split)
  then show ?thesis using assms(1) by (auto simp: user_byte_def split: bind_splits)
qed

lemma page_no_eq:
  "as_wf as \<Longrightarrow> j < as_npages as \<Longrightarrow> k < as_npages as \<Longrightarrow> page_no as j = page_no as k \<Longrightarrow> j = k"
  using page_no_inj [of as] by (auto dest: inj_onD)

lemma page_val_in_mem:
  "pt_read s p = Some e \<Longrightarrow> in_mem e \<Longrightarrow>
     page_val content img s p off = Some (ram s (pt_frame_index e * PAGE_SIZE + off))"
  by (auto simp: page_val_def in_mem_def split: pt_status.split)

lemma user_load_correct:
  fixes s :: "('f, 'a) sys_st_scheme"
  assumes inv: "sys_inv vo content s" and cur: "curproc s = Some pid"
    and b: "user_byte content s pid va = Some b" and ld: "user_load s va = Some c"
  shows "c = b"
proof -
  obtain img ro where vi: "vm_inv vo content img ro (cur_tr s) None s" and ok: "procs_ok content img ro s"
    using inv by (auto simp: sys_inv_def)
  obtain pr as t k e where u: "has_table s pid pr as t" "as_wf as" "k < as_npages as"
    "pt_read s (t, k) = Some e" "page_val content img s (t, k) (unat va mod PAGE_SIZE) = Some b"
    "page_no as k = vpn va" by (rule user_byteE [OF ok b])
  obtain pa w where l: "va < MIPS_KSEG0" "tlb_lookup s va = Some (pa, w)"
    "c = ram s (unat pa + unat va mod PAGE_SIZE)" using ld by (auto simp: user_load_def split: if_splits)
  have "proc_getas s \<noteq> None" using cur u(1) by (simp add: proc_getas_def has_table_def)
  then obtain pid' pr' as' t' k' e' where p: "curproc s = Some pid'" "has_table s pid' pr' as' t'"
    "page_no as' k' = vpn va" "k' < as_npages as'" "pt_read s (t', k') = Some e'" "in_mem e'"
    "pa = frame_addr (pt_frame_index e')" by (rule tlb_lookup_page [OF vi ok _ l(1,2)])
  have eq: "as' = as" "t' = t" using p(1,2) cur u(1) by (auto simp: has_table_def)
  have k: "k' = k" by (rule page_no_eq [OF u(2)]) (use p(3,4) u(3,6) eq in simp_all)
  have "pt_frame_index e' < 2 ^ 20"
    using vi p(5,6) frame_less(2) by (auto simp: vm_inv_def)
  then have "unat pa = pt_frame_index e' * PAGE_SIZE" using p(7) by (simp add: unat_frame_addr)
  with u(5) p(5,6) eq k l(3) show ?thesis by (simp add: page_val_in_mem)
qed

text \<open>A byte written in the frame of a page that is not read-only.\<close>

lemma page_val_ram_write:
  assumes own: "owners_ok None s" and e: "pt_read s p = Some e" "in_mem e" and o': "n < PAGE_SIZE" "off < PAGE_SIZE"
  shows "page_val content img (s\<lparr>ram := (ram s)(pt_frame_index e * PAGE_SIZE + n := c)\<rparr>) q off =
    (if q = p \<and> off = n then Some c else page_val content img s q off)"
proof (cases "\<exists>f. pt_read s q = Some f \<and> in_mem f")
  case True
  then obtain f where f: "pt_read s q = Some f" "in_mem f" by blast
  have "pt_frame_index f * PAGE_SIZE + off = pt_frame_index e * PAGE_SIZE + n \<longleftrightarrow> q = p \<and> off = n"
  proof (cases "q = p")
    case False
    then have "pt_frame_index f \<noteq> pt_frame_index e" using frame_unique [OF own f e] by blast
    from frame_bytes_disjoint [OF this o'(2,1)] show ?thesis using False by simp
  qed (use f e in simp)
  then show ?thesis using f by (simp add: page_val_in_mem)
next
  case False
  then have "q \<noteq> p" using e by blast
  with False show ?thesis by (auto simp: page_val_def in_mem_def split: option.split pt_status.split)
qed

lemma vm_inv_ram_write:
  assumes inv: "vm_inv vo content img ro tr None s" and e: "pt_read s p = Some e" "in_mem e"
    and n: "n < PAGE_SIZE" and nro: "\<not> ro p"
  shows "vm_inv vo content img ro tr None (s\<lparr>ram := (ram s)(pt_frame_index e * PAGE_SIZE + n := c)\<rparr>)"
proof -
  let ?s = "s\<lparr>ram := (ram s)(pt_frame_index e * PAGE_SIZE + n := c)\<rparr>"
  have own: "owners_ok None s" and rok: "rdonly_ok img ro s" using inv by (simp_all add: vm_inv_def)
  have "ram ?s (pt_frame_index f * PAGE_SIZE + off) = img q off"
    if f: "pt_read s q = Some f" "pt_status f = IN_MEMORY_RDONLY" "off < PAGE_SIZE" for q f off
  proof -
    have im: "in_mem f" using f(2) by (simp add: in_mem_def)
    have r: "ro q" "ram s (pt_frame_index f * PAGE_SIZE + off) = img q off"
      using rok f unfolding rdonly_ok_def by blast+
    then have "q \<noteq> p" using nro by blast
    with r page_val_ram_write [OF own e n f(3), of content img c q] f(1) im show ?thesis
      by (simp add: page_val_in_mem del: fun_upd_apply)
  qed
  then have "rdonly_ok img ro ?s" using rok unfolding rdonly_ok_def by simp
  moreover have "tlb_coherent tr ?s" using inv by (intro tlb_coherent_cong [of ?s s]) (auto simp: vm_inv_def swap_ok_def)
  ultimately show ?thesis
    using inv owners_ok_cong [of ?s s] slots_ok_cong [of ?s s] by (simp add: vm_inv_def swap_ok_def cm_ok_def)
qed

text \<open>
  A store changes one byte of the running process. (The TLB maps whole pages, so the
  program can also store beside its segments on their first and last page; such a
  byte is nobody's.)
\<close>

lemma user_store_correct:
  fixes s :: "('f, 'a) sys_st_scheme"
  assumes inv: "sys_inv vo content s" and cur: "curproc s = Some pid" and as: "proc_getas s \<noteq> None"
    and st: "user_store va c s = Some s'"
  shows "sys_inv vo content s'" and "curproc s' = curproc s" and "procs s' = procs s"
    and "user_byte content s' q x = (if q = pid \<and> x = va \<and> user_byte content s q x \<noteq> None then Some c
           else user_byte content s q x)"
proof -
  obtain img ro where vi: "vm_inv vo content img ro (cur_tr s) None s" and ok: "procs_ok content img ro s"
    using inv by (auto simp: sys_inv_def)
  obtain pa where l: "va < MIPS_KSEG0" "tlb_lookup s va = Some (pa, True)"
    "s' = s\<lparr>ram := (ram s)(unat pa + unat va mod PAGE_SIZE := c)\<rparr>"
    using st by (auto simp: user_store_def split: if_splits option.splits bool.splits)
  obtain pid' pr as t k e where p: "curproc s = Some pid'" "has_table s pid' pr as t" "as_wf as"
    "page_no as k = vpn va" "k < as_npages as" "pt_read s (t, k) = Some e" "in_mem e"
    "pa = frame_addr (pt_frame_index e)" "True = (\<not> text_index as k)"
    by (rule tlb_lookup_page [OF vi ok as l(1,2)])
  have own: "owners_ok None s" "cm_ok s" using vi by (simp_all add: vm_inv_def)
  have n: "unat va mod PAGE_SIZE < PAGE_SIZE" by simp
  have s': "s' = s\<lparr>ram := (ram s)(pt_frame_index e * PAGE_SIZE + unat va mod PAGE_SIZE := c)\<rparr>"
    using frame_less(2) [OF own(2,1) p(6,7)] p(8) l(3) by (simp add: unat_frame_addr)
  have ok_as: "as_ok content img ro s pr as t" using ok p(2) unfolding procs_ok_def by blast
  then have nro: "\<not> ro (t, k)" using p(5,9) by (simp add: as_ok_def)
  have vi': "vm_inv vo content img ro (cur_tr s') None s'"
    using vm_inv_ram_write [OF vi p(6,7) n nro] by (simp add: s' cur_tr_def proc_getas_def)
  have h': "has_table s' = has_table s" by (simp add: has_table_def s' fun_eq_iff)
  then have ok': "procs_ok content img ro s'" using ok by (simp add: procs_ok_def as_ok_def s')
  from vi' ok' show "sys_inv vo content s'" by (auto simp: sys_inv_def)
  show "curproc s' = curproc s" "procs s' = procs s" by (simp_all add: l(3))
  have pv: "page_val content img s' r off =
      (if r = (t, k) \<and> off = unat va mod PAGE_SIZE then Some c else page_val content img s r off)"
    if "off < PAGE_SIZE" for r off
    unfolding s' by (rule page_val_ram_write [OF own(1) p(6,7) n that])
  show "user_byte content s' q x = (if q = pid \<and> x = va \<and> user_byte content s q x \<noteq> None then Some c
           else user_byte content s q x)"
  proof (cases "user_byte content s q x")
    case None
    with user_byte_None_cong [of s' s content q x] show ?thesis by (simp add: s')
  next
    case (Some b)
    then obtain pr' as' t' k' where u: "has_table s q pr' as' t'" "as_wf as'" "pt_get_index as' x = Some k'"
      "k' < as_npages as'" "page_val content img s (t', k') (unat x mod PAGE_SIZE) = Some b"
      "page_no as' k' = vpn x" by (rule user_byteE [OF ok])
    have u': "user_byte content s' q x = page_val content img s' (t', k') (unat x mod PAGE_SIZE)"
      using user_byte_eq [OF ok' _ u(3,4)] u(1) h' by simp
    have same: "(t', k') = (t, k) \<and> unat x mod PAGE_SIZE = unat va mod PAGE_SIZE \<longleftrightarrow> q = pid \<and> x = va"
    proof
      assume a: "(t', k') = (t, k) \<and> unat x mod PAGE_SIZE = unat va mod PAGE_SIZE"
      then have "has_table s q pr' as' t" using u(1) by simp
      then have "q = pid'" using ok p(2) unfolding procs_ok_def by blast
      moreover from this have "as' = as" using u(1) p(2) by (simp add: has_table_def)
      ultimately have "vpn x = vpn va" using a u(6) p(4) by simp
      with a have "unat x = unat va" unfolding vpn_def by (metis div_mult_mod_eq)
      with cur p(1) \<open>q = pid'\<close> show "q = pid \<and> x = va" by (simp add: word_unat_eq_iff)
    next
      assume a: "q = pid \<and> x = va"
      then have eq: "as' = as" "t' = t" using u(1) p(1,2) cur by (auto simp: has_table_def)
      have "k' = k" by (rule page_no_eq [OF p(3)]) (use u(4,6) p(4,5) eq a in simp_all)
      with eq a show "(t', k') = (t, k) \<and> unat x mod PAGE_SIZE = unat va mod PAGE_SIZE" by simp
    qed
    show ?thesis unfolding u' using Some u(5) pv [of "unat x mod PAGE_SIZE" "(t', k')"] by (simp only: same) simp
  qed
qed

section \<open>Faults\<close>

lemma vm_fault_memory:
  fixes s :: "('f, 'a) sys_st_scheme"
  assumes vi: "vm_inv vo content img ro (cur_tr s) None s" and cur: "curproc s = Some pid"
    and h: "has_table s pid pr as t" and wf: "as_wf as" and va: "in_as as va"
    and k: "pt_get_index as va = Some k" and e: "pt_read s (t, k) = Some e"
    and ft: "ft = VM_FAULT_READ \<or> ft = VM_FAULT_WRITE"
    and run: "vm_fault vo ft va s \<noteq> None"
  shows "in_mem e \<or> can_alloc vo 1 (s\<lparr>vmstats := stat_add VMSTAT_TLB_FAULT (vmstats s)\<rparr>)"
proof -
  let ?s0 = "s\<lparr>vmstats := stat_add VMSTAT_TLB_FAULT (vmstats s)\<rparr>"
  obtain ty where ty: "as_get_segment_type as va = Some ty" "ty \<noteq> SEGMENT_NONE"
    using pt_get_index_spec [OF wf va] k by metis
  have as: "curproc ?s0 = Some pid" "proc_getas ?s0 = Some as" "pt_get_entry as va = Some (t, k)"
    "as_data as \<noteq> None" "as_stack as \<noteq> None" "as_text as \<noteq> None" "as_ptable as \<noteq> None"
    using cur h k wf by (auto simp: proc_getas_def pt_get_entry_def has_table_def elim: as_wfE)
  obtain s1 where "vm_fault_page vo pid as ty (ty = SEGMENT_TEXT) va (t, k) ?s0 = Some s1"
    using run ft ty as by (cases "vm_fault_page vo pid as ty (ty = SEGMENT_TEXT) va (t, k) ?s0")
      (auto simp: vm_fault_def vmstats_hit_add Let_def)
  moreover have "vm_inv vo content img ro (cur_tr s) None ?s0"
    using vi by (intro vm_inv_vmstats) (simp_all add: vm_inv_def swap_ok_def)
  moreover have "pt_read ?s0 (t, k) = Some e" using e by (simp add: pt_read_def)
  ultimately show ?thesis using vm_fault_can_alloc by blast
qed

text \<open>
  A fault on an address of the process: it is handled, the access then goes
  through, and no process can tell that it happened. Without the hypothesis on
  memory the handler may stop the kernel, but if it returns the result is the same.
\<close>

lemma vm_fault_sys:
  fixes s :: "('f, 'a) sys_st_scheme"
  assumes inv: "sys_inv vo content s" and cur: "curproc s = Some pid"
    and b: "user_byte content s pid va = Some b" and ft: "ft = VM_FAULT_READ \<or> ft = VM_FAULT_WRITE"
    and miss: "tlb_lookup s va = None"
    and room: "has_room s \<or> vm_fault vo ft va s \<noteq> None"
  shows "\<exists>s' pa w. vm_fault vo ft va s = Some (Handled, s') \<and> sys_inv vo content s' \<and>
    procs s' = procs s \<and> curproc s' = curproc s \<and> user_byte content s' = user_byte content s \<and>
    tlb_lookup s' va = Some (pa, w) \<and>
    (\<forall>as. proc_getas s = Some as \<longrightarrow> w = (as_get_segment_type as va \<noteq> Some SEGMENT_TEXT)) \<and>
    user_load s' va = Some b \<and> fault_counted (vmstats s) (vmstats s')"
proof -
  obtain img ro where vi: "vm_inv vo content img ro (cur_tr s) None s" and ok: "procs_ok content img ro s"
    using inv by (auto simp: sys_inv_def)
  obtain pr as t k e where u: "has_table s pid pr as t" "as_wf as" "in_as as va" "pt_get_index as va = Some k"
    "k < as_npages as" "pt_read s (t, k) = Some e"
    "page_val content img s (t, k) (unat va mod PAGE_SIZE) = Some b" "va < MIPS_KSEG0" "page_no as k = vpn va"
    by (rule user_byteE [OF ok b])
  let ?s0 = "s\<lparr>vmstats := stat_add VMSTAT_TLB_FAULT (vmstats s)\<rparr>"
  have tok: "tlb_ok s" using vi by (simp add: vm_inv_def tlb_coherent_def)
  then have miss': "\<forall>pa w. (va AND PAGE_FRAME, pa, w) \<notin> tlb_maps s" using tlb_lookup_None u(8) miss by blast
  have avail: "in_mem e \<or> can_alloc vo 1 ?s0"
    using room vm_fault_memory [OF vi cur u(1-4,6) ft] has_room_can_alloc by blast
  obtain s' e' where s': "vm_fault vo ft va s = Some (Handled, s')"
    "vm_inv vo content img ro (cur_tr s') None s'" "same_pages content img s s'"
    "vm_st.more s' = vm_st.more s" "pt_read s' (t, k) = Some e'" "in_mem e'"
    "(va AND PAGE_FRAME, frame_addr (pt_frame_index e'), \<not> text_index as k) \<in> tlb_maps s'"
    "fault_counted (vmstats s) (vmstats s')"
    using vm_fault_handled [OF vi ok cur u(1,3,4) ft miss' u(6) avail] by blast
  note more = vm_more_sys [OF s'(4)]
  have ok': "procs_ok content img ro s'" by (rule procs_ok_same_pages [OF ok more(1) s'(3)])
  have look: "tlb_lookup s' va = Some (frame_addr (pt_frame_index e'), \<not> text_index as k)"
    using tlb_lookup_maps u(8) s'(2,7) by (auto simp: vm_inv_def tlb_coherent_def)
  have same: "user_byte content s' = user_byte content s"
    using user_byte_same_pages [OF ok more(1) s'(3)] by (simp add: fun_eq_iff)
  have inv': "sys_inv vo content s'" using s'(2) ok' by (auto simp: sys_inv_def)
  obtain c where ld: "user_load s' va = Some c" using look u(8) by (simp add: user_load_def)
  then have "c = b" using user_load_correct [OF inv' _ _ ld] more(2) cur same b by simp
  moreover have "(\<not> text_index as k) = (as_get_segment_type as va \<noteq> Some SEGMENT_TEXT)"
    using pt_get_index_spec [OF u(2,3)] u(4) by (metis option.inject)
  moreover have "proc_getas s = Some as" using cur u(1) by (simp add: proc_getas_def has_table_def)
  ultimately show ?thesis using s'(1,8) inv' more same look ld
    by (intro exI [of _ s'] exI [of _ "frame_addr (pt_frame_index e')"] exI [of _ "\<not> text_index as k"]) simp
qed

section \<open>Process control\<close>

text \<open>The paging state and what the processes hold of it are the same.\<close>

definition same_as :: "('f, 'a) sys_st_scheme \<Rightarrow> ('f, 'a) sys_st_scheme \<Rightarrow> bool" where
  "same_as s s' \<longleftrightarrow> (\<forall>pid. map_option (\<lambda>pr. (p_addrspace pr, p_vnode pr)) (procs s' pid) =
     map_option (\<lambda>pr. (p_addrspace pr, p_vnode pr)) (procs s pid))"

lemma same_asE:
  assumes "same_as s s'" and "procs s' pid = Some pr'"
  obtains pr where "procs s pid = Some pr" and "p_addrspace pr = p_addrspace pr'" and "p_vnode pr = p_vnode pr'"
proof -
  have "map_option (\<lambda>pr. (p_addrspace pr, p_vnode pr)) (procs s' pid) =
      map_option (\<lambda>pr. (p_addrspace pr, p_vnode pr)) (procs s pid)" using assms(1) by (simp add: same_as_def)
  with assms(2) that show thesis by (cases "procs s pid") auto
qed

lemma procs_ok_same_as:
  assumes ok: "procs_ok content img ro s" and same: "same_as s s'" and rd: "pt_read s' = pt_read s"
  shows "procs_ok content img ro s'"
proof -
  have h: "\<exists>pr. has_table s pid pr as t \<and> p_vnode pr = p_vnode pr'" if "has_table s' pid pr' as t" for pid pr' as t
    using that same_asE [OF same, of pid pr'] by (auto simp: has_table_def)
  have "as_ok content img ro s' pr' as t" if ht: "has_table s' pid pr' as t" for pid pr' as t
  proof -
    obtain pr where "has_table s pid pr as t" "p_vnode pr = p_vnode pr'" using h [OF ht] by blast
    moreover from this have "as_ok content img ro s pr as t" using ok unfolding procs_ok_def by blast
    ultimately show ?thesis by (simp add: as_ok_def rd)
  qed
  moreover have "pid = pid'" if "has_table s' pid pr as t" "has_table s' pid' pr' as' t" for pid pid' pr pr' as as' t
    using h [OF that(1)] h [OF that(2)] ok unfolding procs_ok_def by blast
  ultimately show ?thesis unfolding procs_ok_def by blast
qed

lemma user_byte_same_as:
  assumes same: "same_as s s'" and vm: "ptables s' = ptables s" "swapfile s' = swapfile s" "ram s' = ram s"
  shows "user_byte content s' = user_byte content s"
proof (intro ext)
  fix pid va
  have "map_option (\<lambda>pr. (p_addrspace pr, p_vnode pr)) (procs s' pid) =
     map_option (\<lambda>pr. (p_addrspace pr, p_vnode pr)) (procs s pid)" using same by (simp add: same_as_def)
  then show "user_byte content s' pid va = user_byte content s pid va"
    by (cases "procs s pid"; cases "procs s' pid") (auto simp: user_byte_def page_val_cong [OF vm])
qed

lemma vm_inv_sys:
  assumes "vm_inv vo content img ro tr pend s" and "tlb_coherent tr' s"
  shows "vm_inv vo content img ro tr' pend (s\<lparr>procs := ps, curproc := c\<rparr>)"
proof -
  let ?s = "s\<lparr>procs := ps, curproc := c\<rparr>"
  have "tlb_coherent tr' ?s" using assms by (intro tlb_coherent_cong [of ?s s]) (simp_all add: vm_inv_def swap_ok_def)
  then show ?thesis
    using assms(1) owners_ok_cong [of ?s s] slots_ok_cong [of ?s s] rdonly_ok_cong [of ?s s]
    by (simp add: vm_inv_def swap_ok_def cm_ok_def)
qed

lemma tlb_coherent_None: "tlb_coherent tr s \<Longrightarrow> tlb_coherent None s"
  by (simp add: tlb_coherent_def)

text \<open>Exit: the process gives up its thread; its memory stays until its parent has waited for it.\<close>

lemma sys__exit_eq:
  assumes "curproc s = Some pid" and "procs s pid = Some pr" and "0 < p_numthreads pr" and "p_sem pr = Some n"
  shows "sys__exit st s = Some (s\<lparr>procs := (procs s)(pid \<mapsto> pr\<lparr>status := st mod 256,
     p_numthreads := p_numthreads pr - 1, p_sem := Some (n + 1)\<rparr>), curproc := None\<rparr>)"
  using assms by (simp add: sys__exit_def proc_remthread_def kassert_def)

lemma sys__exitE:
  assumes "sys__exit st s = Some s'"
  obtains pid pr n where "curproc s = Some pid" and "procs s pid = Some pr" and "0 < p_numthreads pr"
    and "p_sem pr = Some n"
  using assms by (auto simp: sys__exit_def proc_remthread_def kassert_def split: if_splits elim!: bind_eq_SomeE)

lemma sys_exit_sys:
  fixes s :: "('f, 'a) sys_st_scheme"
  assumes inv: "sys_inv vo content s" and run: "sys__exit st s = Some s'"
  shows "sys_inv vo content s'" and "user_byte content s' = user_byte content s" and "curproc s' = None"
proof -
  obtain img ro where vi: "vm_inv vo content img ro (cur_tr s) None s" and ok: "procs_ok content img ro s"
    using inv by (auto simp: sys_inv_def)
  obtain pid pr n where p: "curproc s = Some pid" "procs s pid = Some pr" "0 < p_numthreads pr" "p_sem pr = Some n"
    by (rule sys__exitE [OF run])
  let ?pr = "pr\<lparr>status := st mod 256, p_numthreads := p_numthreads pr - 1, p_sem := Some (n + 1)\<rparr>"
  have s': "s' = s\<lparr>procs := (procs s)(pid \<mapsto> ?pr), curproc := None\<rparr>"
    using sys__exit_eq [OF p] run by simp
  have same: "same_as s s'" using p(2) by (simp add: same_as_def s')
  show "curproc s' = None" by (simp add: s')
  show "user_byte content s' = user_byte content s" by (rule user_byte_same_as [OF same]) (simp_all add: s')
  have "tlb_coherent None s" using vi by (auto simp: vm_inv_def intro: tlb_coherent_None)
  then have "vm_inv vo content img ro None None s'" unfolding s' by (rule vm_inv_sys [OF vi])
  moreover have "cur_tr s' = None" by (simp add: cur_tr_def proc_getas_def s')
  moreover have "procs_ok content img ro s'" by (rule procs_ok_same_as [OF ok same]) (simp add: s' pt_read_def fun_eq_iff)
  ultimately show "sys_inv vo content s'" by (auto simp: sys_inv_def)
qed

text \<open>A thread of another process gets the processor.\<close>

definition switch_to :: "nat \<Rightarrow> ('f, 'a) sys_st_scheme \<Rightarrow> ('f, 'a) sys_st_scheme option" where
  "switch_to pid s = as_activate (s\<lparr>curproc := Some pid\<rparr>)"

lemma vm_inv_flush:
  fixes s :: "('f, 'a) vm_st_scheme"
  assumes vi: "vm_inv vo content img ro tr None s"
  obtains s' where "tlb_invalidate s = Some s'" and "vm_inv vo content img ro tr' None s'" and "tlb_same s s'"
    and "tlb_maps s' = {}"
proof -
  have "tlb_ok s" using vi by (simp add: vm_inv_def tlb_coherent_def)
  then obtain s' where s': "tlb_invalidate s = Some s'" "tlb_ok s'" "tlb_same s s'" "tlb_maps s' = {}"
    using tc.flush_coherent by blast
  note same = tlb_same_vm [OF s'(3)]
  have "vm_inv vo content img ro tr' None s'"
    unfolding vm_inv_def
  proof (intro conjI)
    show "swap_ok vo content s'" using vi same s'(2) by (intro swap_ok_cong [of s' s]) (simp_all add: vm_inv_def tlb_ok_def)
    show "cm_ok s'" using vi same by (intro cm_ok_cong [of s' s]) (simp_all add: vm_inv_def cm_ok_def)
    show "owners_ok None s'" using vi owners_ok_cong [of s' s] same by (simp add: vm_inv_def)
    show "slots_ok s'" using vi slots_ok_cong [of s' s] same by (simp add: vm_inv_def)
    show "rdonly_ok img ro s'" using vi rdonly_ok_cong [of s' s] same by (simp add: vm_inv_def)
    show "tlb_coherent tr' s'" using s'(2,4) by (simp add: tlb_coherent_def)
  qed
  with s' that show thesis by blast
qed

lemma switch_sys:
  fixes s :: "('f, 'a) sys_st_scheme"
  assumes inv: "sys_inv vo content s"
  obtains s' where "switch_to pid s = Some s'" and "sys_inv vo content s'"
    and "user_byte content s' = user_byte content s" and "curproc s' = Some pid" and "procs s' = procs s"
proof -
  obtain img ro where vi: "vm_inv vo content img ro (cur_tr s) None s" and ok: "procs_ok content img ro s"
    using inv by (auto simp: sys_inv_def)
  let ?s = "s\<lparr>curproc := Some pid\<rparr>"
  have "tlb_coherent None s" using vi by (auto simp: vm_inv_def intro: tlb_coherent_None)
  then have vi1: "vm_inv vo content img ro None None ?s" using vm_inv_sys [where tr' = None and ps = "procs s" and c = "Some pid", OF vi] by simp
  have as1: "same_as s ?s" "pt_read ?s = pt_read s" by (simp_all add: same_as_def pt_read_def fun_eq_iff)
  note ok1 = procs_ok_same_as [OF ok as1]
  show thesis
  proof (cases "proc_getas ?s")
    case None
    then have "switch_to pid s = Some ?s" "cur_tr ?s = None"
      by (simp_all add: switch_to_def as_activate_def cur_tr_def)
    moreover have "user_byte content ?s = user_byte content s" by (rule user_byte_same_as [OF as1(1)]) simp_all
    ultimately show thesis using vi1 ok1 that [of ?s] by (auto simp: sys_inv_def)
  next
    case (Some as)
    obtain s' where s': "tlb_invalidate ?s = Some s'" "vm_inv vo content img ro (cur_tr ?s) None s'" "tlb_same ?s s'"
      by (rule vm_inv_flush [OF vi1])
    note same = tlb_same_vm [OF s'(3)]
    note more = vm_more_sys [OF same(7)]
    have "cur_tr s' = cur_tr ?s" by (simp add: cur_tr_def proc_getas_def more)
    moreover have as': "same_as s s'" "pt_read s' = pt_read s"
      using more(1) same(4) by (simp_all add: same_as_def pt_read_def fun_eq_iff)
    moreover have "switch_to pid s = Some s'" using Some s'(1) by (simp add: switch_to_def as_activate_def)
    moreover have "user_byte content s' = user_byte content s"
      by (rule user_byte_same_as [OF as'(1)]) (simp_all add: same)
    ultimately show thesis
      using s'(2) procs_ok_same_as [OF ok as'] more that [of s'] by (auto simp: sys_inv_def)
  qed
qed

section \<open>Kernel memory\<close>

lemma frame_addr_nonzero: "b \<noteq> 0 \<Longrightarrow> b < 2 ^ 20 \<Longrightarrow> frame_addr b \<noteq> 0"
  using frame_addr_inject [of b 0] by (simp add: frame_addr_def)

lemma sys_inv_more:
  fixes s s' :: "('f, 'a) sys_st_scheme"
  assumes vi: "vm_inv vo content img ro (cur_tr s) None s'" and ok: "procs_ok content img ro s"
    and more: "vm_st.more s' = vm_st.more s" and same: "same_pages content img s s'"
  shows "sys_inv vo content s'" and "user_byte content s' = user_byte content s"
proof -
  note m = vm_more_sys [OF more]
  have "cur_tr s' = cur_tr s" by (simp add: cur_tr_def proc_getas_def m)
  with vi procs_ok_same_pages [OF ok m(1) same] show "sys_inv vo content s'" by (auto simp: sys_inv_def)
  show "user_byte content s' = user_byte content s"
    using user_byte_same_pages [OF ok m(1) same] by (simp add: fun_eq_iff)
qed

lemma alloc_kpages_sys:
  fixes s :: "('f, 'a) sys_st_scheme"
  assumes inv: "sys_inv vo content s" and n: "0 < n" "n < 2 ^ 20" and run: "alloc_kpages vo n s = Some (va, s')"
  shows "sys_inv vo content s'" and "user_byte content s' = user_byte content s"
    and "procs s' = procs s" and "curproc s' = curproc s"
proof -
  obtain img ro where vi: "vm_inv vo content img ro (cur_tr s) None s" and ok: "procs_ok content img ro s"
    using inv by (auto simp: sys_inv_def)
  obtain r where r: "coremap_getppages vo n None s = Some r" "snd r = s'"
    using run by (auto simp: alloc_kpages_def getppages_def elim!: bind_eq_SomeE)
  have can: "can_alloc vo n s" by (rule getppages_can_alloc [OF vi n(1) r(1)])
  obtain b s1 where g: "coremap_getppages vo n None s = Some (frame_addr b, s1)"
    "vm_inv vo content img ro (cur_tr s) (map_option (\<lambda>q. (q, b)) None) s1" "same_pages content img s s1"
    "vm_st.more s1 = vm_st.more s"
    by (rule coremap_getppages_spec [where ptentry = None, OF vi n _ can]) simp_all
  have "s1 = s'" using g(1) r by auto
  with g have "vm_inv vo content img ro (cur_tr s) None s'" "vm_st.more s' = vm_st.more s" "same_pages content img s s'"
    by simp_all
  with sys_inv_more [OF _ ok] vm_more_sys show "sys_inv vo content s'" "user_byte content s' = user_byte content s"
    "procs s' = procs s" "curproc s' = curproc s" by blast+
qed

end
