(* ===== verification/Vmdestroy.thy ===== *)
theory Vmdestroy
  imports Vmsystem
begin

text \<open>
  Giving memory back: \<^verbatim>\<open>free_kpages\<close> and \<^verbatim>\<open>as_destroy\<close>. \<^verbatim>\<open>pt_empty\<close> frees the frames and
  swap slots of a table without changing its entries, so that the table does not agree
  with the core map until \<^verbatim>\<open>pt_destroy\<close>. The proof follows the loop on \<open>cut_table t i s\<close>,
  the state in which the entries it has dealt with are marked as not loaded.
\<close>

section \<open>Forgetting a page\<close>

abbreviation (input) no_page :: pt_entry where
  "no_page \<equiv> \<lparr>pt_frame_index = 0, pt_swap_index = 0, pt_status = NOT_LOADED\<rparr>"

definition hidden :: "(pt_ptr \<Rightarrow> (vaddr \<times> bool) option) option \<Rightarrow> pt_ptr \<Rightarrow> bool" where
  "hidden tr p \<longleftrightarrow> (\<forall>f. tr = Some f \<longrightarrow> f p = None)"

text \<open>The page of the hidden entry \<open>p\<close> is dropped, with its frame or its swap slot.\<close>

lemma vm_inv_forget:
  assumes inv: "vm_inv vo content img ro tr None s" and e: "pt_read s p = Some e" and h: "hidden tr p"
    and cm: "cm_ok (s\<lparr>coremap := cm\<rparr>)"
    and own: "\<And>i q. owned (s\<lparr>coremap := cm\<rparr>) i q \<longleftrightarrow> owned s i q \<and> q \<noteq> p"
    and keep: "\<And>i q. owned (s\<lparr>coremap := cm\<rparr>) i q \<Longrightarrow> cm_size_alloc (cm ! i) = cm_size_alloc (coremap s ! i)"
    and sw: "swap_ok vo content (s\<lparr>swapmap := m\<rparr>)"
    and slots: "\<And>q f. q \<noteq> p \<Longrightarrow> pt_read s q = Some f \<Longrightarrow> pt_status f = IN_SWAP \<Longrightarrow> pt_swap_index f \<in> marked m"
  shows "vm_inv vo content img ro tr None (pt_write p no_page (s\<lparr>coremap := cm, swapmap := m\<rparr>))"
proof -
  let ?s = "pt_write p no_page (s\<lparr>coremap := cm, swapmap := m\<rparr>)"
  have rd: "pt_read ?s q = (if q = p then Some no_page else pt_read s q)" for q
  proof -
    have "pt_read (s\<lparr>coremap := cm, swapmap := m\<rparr>) = pt_read s" by (intro pt_read_cong) simp
    then show ?thesis using pt_read_write [of "s\<lparr>coremap := cm, swapmap := m\<rparr>" p e] e by simp
  qed
  have ow: "owned ?s i q \<longleftrightarrow> owned s i q \<and> q \<noteq> p" for i q
    using own [of i q] by (simp add: owned_def)
  have o0: "owners_ok None s" and sl: "slots_ok s" and rok: "rdonly_ok img ro s" and tc: "tlb_coherent tr s"
    using inv by (simp_all add: vm_inv_def)
  have "owners_ok None ?s"
  proof (rule owners_okI)
    fix i q
    assume "owned ?s i q"
    then have q: "owned s i q" "q \<noteq> p" "cm_size_alloc (cm ! i) = cm_size_alloc (coremap s ! i)"
      using ow keep own by blast+
    with owners_okD(1) [OF o0 q(1)] show "owner_ok None ?s i q" by (simp add: owner_ok_def rd)
  next
    fix q f
    assume "pt_read ?s q = Some f" "in_mem f"
    then have "q \<noteq> p" "pt_read s q = Some f" by (auto simp: rd in_mem_def split: if_splits)
    with owners_okD(2) [OF o0] \<open>in_mem f\<close> ow show "owned ?s (pt_frame_index f) q" by blast
  qed simp
  moreover have "slots_ok ?s"
    using sl slots by (auto simp: slots_ok_def rd split: if_splits)
  moreover have "rdonly_ok img ro ?s" using rok by (auto simp: rdonly_ok_def rd)
  moreover have "tlb_coherent tr ?s"
  proof -
    have "tlb_ok ?s" using tc by (simp add: tlb_coherent_def tlb_ok_def)
    moreover have "tlb_maps ?s \<subseteq> valid_trs f ?s" if f: "tr = Some f" for f
    proof
      fix x
      assume "x \<in> tlb_maps ?s"
      then have "x \<in> valid_trs f s" using tc f by (auto simp: tlb_coherent_def tlb_maps_def)
      then obtain va w q g where x: "x = (va, frame_addr (pt_frame_index g), w)" "f q = Some (va, w)"
        "pt_read s q = Some g" "in_mem g" by (rule valid_trsE)
      then have "q \<noteq> p" using h f by (auto simp: hidden_def)
      with x valid_trsI [of f q va w ?s g] show "x \<in> valid_trs f ?s" by (simp add: rd)
    qed
    ultimately show ?thesis by (simp add: tlb_coherent_def)
  qed
  moreover have "cm_ok ?s" using cm by (simp add: cm_ok_def)
  moreover have "swap_ok vo content ?s" using sw by (simp add: swap_ok_def)
  ultimately show ?thesis by (simp add: vm_inv_def)
qed

lemma owned_release:
  assumes ok: "frames_ok (coremap s)" and b: "b < length (coremap s)" "cm_size_alloc (coremap s ! b) = n" "0 < n"
    and inner: "\<And>i q. b < i \<Longrightarrow> i < b + n \<Longrightarrow> \<not> owned s i q"
  shows "owned (s\<lparr>coremap := cm_release b (coremap s)\<rparr>) i q \<longleftrightarrow> owned s i q \<and> i \<noteq> b"
proof (cases "i < length (coremap s)")
  case True
  show ?thesis
  proof (cases "b < i \<and> i < b + n")
    case True
    then have "\<not> owned s i q" using inner by blast
    moreover have "\<not> owned (s\<lparr>coremap := cm_release b (coremap s)\<rparr>) i q"
      using True b \<open>i < length (coremap s)\<close> by (simp add: owned_def nth_cm_release)
    ultimately show ?thesis by simp
  next
    case False
    then show ?thesis using True b by (auto simp: owned_def nth_cm_release)
  qed
qed (simp add: owned_def)

lemma cm_ok_release:
  assumes ok: "cm_ok s" and b: "b < length (coremap s)" "b \<noteq> 0" "0 < cm_size_alloc (coremap s ! b)"
  shows "cm_ok (s\<lparr>coremap := cm_release b (coremap s)\<rparr>)"
proof -
  have "frames_ok (cm_release b (coremap s))"
    using ok b by (intro frames_ok_release) (simp_all add: cm_ok_def)
  moreover have "cm_lock (cm_release b (coremap s) ! i) = cm_lock (coremap s ! i)" if "i < length (coremap s)" for i
    using that by (simp add: nth_cm_release)
  moreover have "cm_release b (coremap s) ! 0 = coremap s ! 0"
    using ok b by (simp add: nth_cm_release cm_ok_def)
  ultimately show ?thesis using ok by (simp add: cm_ok_def)
qed

lemma user_block:
  assumes inv: "vm_inv vo content img ro tr None s" and e: "pt_read s p = Some e" "in_mem e"
  shows "pt_frame_index e < length (coremap s)" and "pt_frame_index e < 2 ^ 20" and "pt_frame_index e \<noteq> 0"
    and "cm_size_alloc (coremap s ! pt_frame_index e) = 1" and "frames_ok (coremap s)"
    and "owned s (pt_frame_index e) p"
proof -
  have ok: "cm_ok s" "owners_ok None s" using inv by (simp_all add: vm_inv_def)
  show "pt_frame_index e < length (coremap s)" "pt_frame_index e < 2 ^ 20" "pt_frame_index e \<noteq> 0"
    by (rule frame_less [OF ok e])+
  show o: "owned s (pt_frame_index e) p" by (rule owners_okD(2) [OF ok(2) e])
  show "cm_size_alloc (coremap s ! pt_frame_index e) = 1"
    using owners_okD(1) [OF ok(2) o] by (simp add: owner_ok_def)
  show "frames_ok (coremap s)" using ok(1) by (simp add: cm_ok_def)
qed

lemma forget_frame:
  assumes inv: "vm_inv vo content img ro tr None s" and e: "pt_read s p = Some e" "in_mem e" and h: "hidden tr p"
  shows "vm_inv vo content img ro tr None
    (pt_write p no_page (s\<lparr>coremap := cm_release (pt_frame_index e) (coremap s)\<rparr>))"
proof -
  let ?b = "pt_frame_index e" let ?cm = "cm_release ?b (coremap s)"
  note u = user_block [OF inv e]
  have own: "owned (s\<lparr>coremap := ?cm\<rparr>) i q \<longleftrightarrow> owned s i q \<and> i \<noteq> ?b" for i q
    by (rule owned_release [OF u(5,1,4)]) simp_all
  have o0: "owners_ok None s" and sl: "slots_ok s" using inv by (simp_all add: vm_inv_def)
  have ip: "i = ?b" if "owned s i p" for i
    using owners_okD(1) [OF o0 that] e(1) by (auto simp: owner_ok_def)
  have iff: "owned (s\<lparr>coremap := ?cm\<rparr>) i q \<longleftrightarrow> owned s i q \<and> q \<noteq> p" for i q
    using own [of i q] ip [of i] owned_unique [OF u(6), of q] by blast
  have "vm_inv vo content img ro tr None (pt_write p no_page (s\<lparr>coremap := ?cm, swapmap := swapmap s\<rparr>))"
  proof (rule vm_inv_forget [OF inv e(1) h _ iff])
    show "cm_ok (s\<lparr>coremap := ?cm\<rparr>)" using inv u by (intro cm_ok_release) (simp_all add: vm_inv_def)
    show "cm_size_alloc (?cm ! i) = cm_size_alloc (coremap s ! i)" if "owned (s\<lparr>coremap := ?cm\<rparr>) i q" for i q
    proof -
      have "i < length (coremap s)" "i \<noteq> ?b" using that own by (auto simp: owned_def)
      then show ?thesis using u(4) by (simp add: nth_cm_release)
    qed
    show "swap_ok vo content (s\<lparr>swapmap := swapmap s\<rparr>)" using inv by (simp add: vm_inv_def)
    show "pt_swap_index f \<in> marked (swapmap s)" if "pt_read s q = Some f" "pt_status f = IN_SWAP" for q f
      using sl that unfolding slots_ok_def by blast
  qed
  then show ?thesis by simp
qed

lemma forget_slot:
  fixes s :: "('f, 'a) vm_st_scheme"
  assumes inv: "vm_inv vo content img ro tr None s" and e: "pt_read s p = Some e" "pt_status e = IN_SWAP"
    and h: "hidden tr p"
  obtains m where "bitmap_unmark (swapmap s) (pt_swap_index e) = Some m" and "marked m = marked (swapmap s) - {pt_swap_index e}"
    and "vm_inv vo content img ro tr None (pt_write p no_page (s\<lparr>swapmap := m\<rparr>))"
proof -
  let ?i = "pt_swap_index e"
  have sw: "swap_ok vo content s" and o0: "owners_ok None s" and sl: "slots_ok s" and cm: "cm_ok s"
    using inv by (simp_all add: vm_inv_def)
  have i: "?i \<in> marked (swapmap s)" using sl e unfolding slots_ok_def by blast
  have b: "bitmap_ok (swapmap s)" "nbits (swapmap s) = SWAPFILE_NPAGES" using sw by (simp_all add: swap_ok_def)
  obtain m where m: "bitmap_unmark (swapmap s) ?i = Some m" "bitmap_ok m" "nbits m = nbits (swapmap s)"
    "marked m = marked (swapmap s) - {?i}" using bm.release_used [OF b(1) i] by blast
  have ok': "swap_ok vo content (s\<lparr>swapmap := m\<rparr>)" using sw m by (simp add: swap_ok_def)
  have "vm_inv vo content img ro tr None (pt_write p no_page (s\<lparr>coremap := coremap s, swapmap := m\<rparr>))"
  proof (rule vm_inv_forget [OF inv e(1) h _ _ _ ok'])
    show "cm_ok (s\<lparr>coremap := coremap s\<rparr>)" using cm by simp
    show "owned (s\<lparr>coremap := coremap s\<rparr>) j q \<longleftrightarrow> owned s j q \<and> q \<noteq> p" for j q
      using owners_okD(1) [OF o0, of j q] e by (auto simp: owner_ok_def in_mem_def)
    show "pt_swap_index f \<in> marked m" if "q \<noteq> p" "pt_read s q = Some f" "pt_status f = IN_SWAP" for q f
      using sl that e m(4) unfolding slots_ok_def by blast
  qed simp
  with m(1,4) that show thesis by simp
qed

lemma forget_nothing:
  assumes inv: "vm_inv vo content img ro tr None s" and e: "pt_read s p = Some e" "pt_status e = NOT_LOADED"
    and h: "hidden tr p"
  shows "vm_inv vo content img ro tr None (pt_write p no_page s)"
proof -
  have o0: "owners_ok None s" and sl: "slots_ok s" using inv by (simp_all add: vm_inv_def)
  have "vm_inv vo content img ro tr None (pt_write p no_page (s\<lparr>coremap := coremap s, swapmap := swapmap s\<rparr>))"
  proof (rule vm_inv_forget [OF inv e(1) h])
    show "owned (s\<lparr>coremap := coremap s\<rparr>) j q \<longleftrightarrow> owned s j q \<and> q \<noteq> p" for j q
      using owners_okD(1) [OF o0, of j q] e by (auto simp: owner_ok_def in_mem_def)
    show "pt_swap_index f \<in> marked (swapmap s)" if "pt_read s q = Some f" "pt_status f = IN_SWAP" for q f
      using sl that unfolding slots_ok_def by blast
  qed (use inv in \<open>simp_all add: vm_inv_def\<close>)
  then show ?thesis by simp
qed

section \<open>Emptying a page table\<close>

primrec cut_table :: "nat \<Rightarrow> nat \<Rightarrow> ('f, 'a) vm_st_scheme \<Rightarrow> ('f, 'a) vm_st_scheme" where
  "cut_table t 0 s = s"
| "cut_table t (Suc i) s = pt_write (t, i) no_page (cut_table t i s)"

lemma pt_write_commute [simp]:
  "pt_write p e (s\<lparr>coremap := cm\<rparr>) = (pt_write p e s)\<lparr>coremap := cm\<rparr>"
  "pt_write p e (s\<lparr>swapmap := m\<rparr>) = (pt_write p e s)\<lparr>swapmap := m\<rparr>"
  by (simp_all add: pt_write_def split: option.split)

lemma cut_table_commute [simp]:
  "cut_table t i (s\<lparr>coremap := cm\<rparr>) = (cut_table t i s)\<lparr>coremap := cm\<rparr>"
  "cut_table t i (s\<lparr>swapmap := m\<rparr>) = (cut_table t i s)\<lparr>swapmap := m\<rparr>"
  by (induction i) simp_all

lemma cut_table_fields [simp]:
  "coremap (cut_table t i s) = coremap s" "swapmap (cut_table t i s) = swapmap s"
  "ram (cut_table t i s) = ram s" "swapfile (cut_table t i s) = swapfile s"
  by (induction i) simp_all

lemma pt_read_cut:
  assumes "\<And>j. j < i \<Longrightarrow> pt_read s (t, j) \<noteq> None"
  shows "pt_read (cut_table t i s) q = (if fst q = t \<and> snd q < i then Some no_page else pt_read s q)"
  using assms
proof (induction i arbitrary: q)
  case (Suc i)
  then obtain e where "pt_read s (t, i) = Some e" by blast
  moreover have IH: "pt_read (cut_table t i s) r = (if fst r = t \<and> snd r < i then Some no_page else pt_read s r)" for r
    using Suc by simp
  ultimately have "pt_read (cut_table t i s) (t, i) = Some e" by simp
  from pt_read_write [OF this] show ?case using IH by (cases q) (auto simp: less_Suc_eq)
qed simp

text \<open>The frames and the swap slots of the entries of a table from \<open>i\<close> on.\<close>

definition table_frames :: "('f, 'a) vm_st_scheme \<Rightarrow> nat \<Rightarrow> nat \<Rightarrow> nat set" where
  "table_frames s t i = (\<Union>j \<in> {i..}. case pt_read s (t, j) of None \<Rightarrow> {}
     | Some e \<Rightarrow> if in_mem e then {pt_frame_index e} else {})"

definition table_slots :: "('f, 'a) vm_st_scheme \<Rightarrow> nat \<Rightarrow> nat \<Rightarrow> nat set" where
  "table_slots s t i = (\<Union>j \<in> {i..}. case pt_read s (t, j) of None \<Rightarrow> {}
     | Some e \<Rightarrow> if pt_status e = IN_SWAP then {pt_swap_index e} else {})"

definition used_frames :: "cm_entry list \<Rightarrow> nat set" where
  "used_frames cm = {b. b < length cm \<and> cm_free (cm ! b)}"

lemma table_step:
  assumes "pt_read s (t, i) = Some e"
  shows "table_frames s t i = (if in_mem e then {pt_frame_index e} else {}) \<union> table_frames s t (Suc i)"
    and "table_slots s t i = (if pt_status e = IN_SWAP then {pt_swap_index e} else {}) \<union> table_slots s t (Suc i)"
proof -
  have "{i..} = insert i {Suc i..}" by auto
  then show "table_frames s t i = (if in_mem e then {pt_frame_index e} else {}) \<union> table_frames s t (Suc i)"
    and "table_slots s t i = (if pt_status e = IN_SWAP then {pt_swap_index e} else {}) \<union> table_slots s t (Suc i)"
    using assms by (simp_all add: table_frames_def table_slots_def)
qed

lemma table_end:
  assumes "\<And>j. i \<le> j \<Longrightarrow> pt_read s (t, j) = None"
  shows "table_frames s t i = {}" and "table_slots s t i = {}"
  using assms by (simp_all add: table_frames_def table_slots_def)

lemma used_frames_release:
  assumes "b < length cm" and "cm_size_alloc (cm ! b) = 1"
  shows "used_frames (cm_release b cm) = used_frames cm - {b}"
  using assms by (auto simp: used_frames_def nth_cm_release split: if_splits)

lemma pt_empty_step:
  fixes s :: "('f, 'a) vm_st_scheme"
  assumes inv: "vm_inv vo content img ro tr None (cut_table t i s)" and h: "\<And>j. hidden tr (t, j)"
    and rd: "\<And>j. j \<le> i \<Longrightarrow> pt_read s (t, j) \<noteq> None" and e: "pt_read s (t, i) = Some e"
  obtains cm m where
    "(case pt_status e of
        IN_MEMORY_RDONLY \<Rightarrow> free_upage (frame_addr (pt_frame_index e)) s
      | IN_MEMORY \<Rightarrow> free_upage (frame_addr (pt_frame_index e)) s
      | IN_SWAP \<Rightarrow> swap_free (pt_swap_index e) s
      | NOT_LOADED \<Rightarrow> Some s) = Some (s\<lparr>coremap := cm, swapmap := m\<rparr>)"
    and "vm_inv vo content img ro tr None (cut_table t (Suc i) (s\<lparr>coremap := cm, swapmap := m\<rparr>))"
    and "used_frames cm = used_frames (coremap s) - (if in_mem e then {pt_frame_index e} else {})"
    and "marked m = marked (swapmap s) - (if pt_status e = IN_SWAP then {pt_swap_index e} else {})"
proof -
  have e': "pt_read (cut_table t i s) (t, i) = Some e" using pt_read_cut [of i s t "(t, i)"] rd e by simp
  have free: "free_upage (frame_addr (pt_frame_index e)) s =
      Some (s\<lparr>coremap := cm_release (pt_frame_index e) (coremap s)\<rparr>)" if "in_mem e"
    using user_block [OF inv e' that] by (simp add: free_upage_def freeppages_def coremap_freeppages_eq)
  consider "in_mem e" | "pt_status e = IN_SWAP" | "pt_status e = NOT_LOADED"
    by (cases "pt_status e") (simp_all add: in_mem_def)
  then show thesis
  proof cases
    case 1
    let ?cm = "cm_release (pt_frame_index e) (coremap s)"
    have u: "used_frames ?cm = used_frames (coremap s) - {pt_frame_index e}"
      using user_block [OF inv e' 1] by (intro used_frames_release) simp_all
    have ns: "pt_status e \<noteq> IN_SWAP" using 1 by (auto simp: in_mem_def)
    show thesis
    proof (rule that [where cm = ?cm and m = "swapmap s"])
      show "(case pt_status e of
          IN_MEMORY_RDONLY \<Rightarrow> free_upage (frame_addr (pt_frame_index e)) s
        | IN_MEMORY \<Rightarrow> free_upage (frame_addr (pt_frame_index e)) s
        | IN_SWAP \<Rightarrow> swap_free (pt_swap_index e) s
        | NOT_LOADED \<Rightarrow> Some s) = Some (s\<lparr>coremap := ?cm, swapmap := swapmap s\<rparr>)"
        using 1 free [OF 1] by (cases "pt_status e") (simp_all add: in_mem_def)
    qed (use 1 u ns forget_frame [OF inv e' 1 h] in simp_all)
  next
    case 2
    from forget_slot [OF inv e' 2 h] obtain m where
      m: "bitmap_unmark (swapmap (cut_table t i s)) (pt_swap_index e) = Some m"
      "marked m = marked (swapmap (cut_table t i s)) - {pt_swap_index e}"
      "vm_inv vo content img ro tr None (pt_write (t, i) no_page ((cut_table t i s)\<lparr>swapmap := m\<rparr>))" by blast
    have "swap_free (pt_swap_index e) s = Some (s\<lparr>swapmap := m\<rparr>)" using m(1) by (simp add: swap_free_def)
    with m(2,3) 2 that [where cm = "coremap s" and m = m] show thesis by (simp add: in_mem_def)
  next
    case 3
    with forget_nothing [OF inv e' 3 h] that [where cm = "coremap s" and m = "swapmap s"] show thesis by (simp add: in_mem_def)
  qed
qed

lemma pt_empty_loop_spec:
  fixes s :: "('f, 'a) vm_st_scheme"
  assumes "vm_inv vo content img ro tr None (cut_table t i s)" and h: "\<And>j. hidden tr (t, j)"
    and rd: "\<And>j. j < sz \<longleftrightarrow> pt_read s (t, j) \<noteq> None" and "i \<le> sz"
  shows "\<exists>cm m. pt_empty_loop t sz i s = Some (s\<lparr>coremap := cm, swapmap := m\<rparr>) \<and>
    vm_inv vo content img ro tr None (cut_table t sz (s\<lparr>coremap := cm, swapmap := m\<rparr>)) \<and>
    used_frames cm = used_frames (coremap s) - table_frames s t i \<and>
    marked m = marked (swapmap s) - table_slots s t i"
  using assms(1,3-)
proof (induction "sz - i" arbitrary: i s)
  case 0
  then have "pt_empty_loop t sz i s = Some s" "i = sz" by (simp_all add: pt_empty_loop.simps)
  moreover have "pt_read s (t, j) = None" if "i \<le> j" for j
    using 0(3) [of j] that \<open>i = sz\<close> by simp
  then have "table_frames s t i = {}" "table_slots s t i = {}" by (simp_all add: table_end)
  ultimately show ?case using 0 by (intro exI [of _ "coremap s"] exI [of _ "swapmap s"]) simp
next
  case (Suc k)
  from Suc.hyps(2) have i: "i < sz" by simp
  obtain e where e: "pt_read s (t, i) = Some e" using Suc.prems(2) i by blast
  have rdi: "pt_read s (t, j) \<noteq> None" if "j \<le> i" for j using Suc.prems(2) [of j] i that by simp
  obtain cm m where step: "(case pt_status e of
        IN_MEMORY_RDONLY \<Rightarrow> free_upage (frame_addr (pt_frame_index e)) s
      | IN_MEMORY \<Rightarrow> free_upage (frame_addr (pt_frame_index e)) s
      | IN_SWAP \<Rightarrow> swap_free (pt_swap_index e) s
      | NOT_LOADED \<Rightarrow> Some s) = Some (s\<lparr>coremap := cm, swapmap := m\<rparr>)"
    "vm_inv vo content img ro tr None (cut_table t (Suc i) (s\<lparr>coremap := cm, swapmap := m\<rparr>))"
    "used_frames cm = used_frames (coremap s) - (if in_mem e then {pt_frame_index e} else {})"
    "marked m = marked (swapmap s) - (if pt_status e = IN_SWAP then {pt_swap_index e} else {})"
    by (rule pt_empty_step [OF Suc.prems(1) h rdi e])
  let ?s = "s\<lparr>coremap := cm, swapmap := m\<rparr>"
  have eq: "pt_read ?s = pt_read s" by (rule pt_read_cong) simp
  have run: "pt_empty_loop t sz i s = pt_empty_loop t sz (i + 1) ?s"
    using i e step(1) by (simp add: pt_empty_loop.simps [of t sz i s])
  have k: "k = sz - Suc i" "Suc i \<le> sz" using Suc.hyps(2) i by simp_all
  have "j < sz \<longleftrightarrow> pt_read ?s (t, j) \<noteq> None" for j using Suc.prems(2) eq by simp
  from Suc.hyps(1) [OF k(1) step(2) this k(2)] obtain cm' m' where
    IH: "pt_empty_loop t sz (Suc i) ?s = Some (s\<lparr>coremap := cm', swapmap := m'\<rparr>)"
    "vm_inv vo content img ro tr None (cut_table t sz (s\<lparr>coremap := cm', swapmap := m'\<rparr>))"
    "used_frames cm' = used_frames cm - table_frames ?s t (Suc i)"
    "marked m' = marked m - table_slots ?s t (Suc i)" by auto
  have "table_frames ?s = table_frames s" "table_slots ?s = table_slots s"
    by (simp_all add: table_frames_def table_slots_def eq fun_eq_iff)
  with IH step(3,4) have "used_frames cm' = used_frames (coremap s) - table_frames s t i"
    "marked m' = marked (swapmap s) - table_slots s t i"
    unfolding table_step [OF e] by auto
  with IH(1,2) run show ?case by (intro exI [of _ cm'] exI [of _ m']) simp
qed

lemma pt_write_removed:
  "(pt_write (t, i) e s)\<lparr>ptables := (ptables (pt_write (t, i) e s))(t := None)\<rparr> = s\<lparr>ptables := (ptables s)(t := None)\<rparr>"
  by (simp add: pt_write_def split: option.split)

lemma pt_destroy_cut: "pt_destroy t (cut_table t i s) = pt_destroy t s"
  by (induction i) (simp_all add: pt_destroy_def pt_write_removed)

text \<open>Removing a table none of whose pages is loaded.\<close>

lemma vm_inv_drop_table:
  assumes inv: "vm_inv vo content img ro tr None s"
    and none: "\<And>j e. pt_read s (t, j) = Some e \<Longrightarrow> pt_status e = NOT_LOADED"
  shows "vm_inv vo content img ro tr None (pt_destroy t s)"
proof -
  let ?s = "pt_destroy t s"
  have rd: "pt_read ?s q = (if fst q = t then None else pt_read s q)" for q
    by (simp add: pt_destroy_def pt_read_def)
  have keep: "pt_read ?s q = Some f" if "pt_read s q = Some f" "pt_status f \<noteq> NOT_LOADED" for q f
    using that none [of "snd q"] rd [of q] by (cases q) auto
  have drop: "pt_read s q = Some f" if "pt_read ?s q = Some f" for q f
    using that rd [of q] by (auto split: if_splits)
  have o0: "owners_ok None s" and sl: "slots_ok s" and rok: "rdonly_ok img ro s" and tc: "tlb_coherent tr s"
    using inv by (simp_all add: vm_inv_def)
  have ow: "owned ?s = owned s" by (simp add: owned_def pt_destroy_def fun_eq_iff)
  have "owners_ok None ?s"
  proof (rule owners_okI)
    fix i p
    assume "owned ?s i p"
    then have o: "owned s i p" by (simp add: ow)
    then obtain e where e: "pt_read s p = Some e" "in_mem e" "pt_frame_index e = i" by (rule owner_entry [OF o0])
    then have "pt_read ?s p = Some e" by (intro keep) (auto simp: in_mem_def)
    with e owners_okD(1) [OF o0 o] show "owner_ok None ?s i p" by (simp add: owner_ok_def pt_destroy_def)
  next
    show "owned ?s (pt_frame_index e) p" if "pt_read ?s p = Some e" "in_mem e" for p e
      using owners_okD(2) [OF o0 drop [OF that(1)] that(2)] ow by simp
  qed simp
  moreover have f: "swapmap ?s = swapmap s" "ram ?s = ram s" by (simp_all add: pt_destroy_def)
  have "slots_ok ?s" using sl drop unfolding slots_ok_def f by blast
  moreover have "rdonly_ok img ro ?s" using rok drop unfolding rdonly_ok_def f by blast
  moreover have "tlb_coherent tr ?s"
  proof -
    have "tlb_ok ?s" "tlb_maps ?s = tlb_maps s" using tc by (simp_all add: tlb_coherent_def tlb_ok_def tlb_maps_def pt_destroy_def)
    moreover have "valid_trs f s \<subseteq> valid_trs f ?s" for f
      using keep by (auto elim!: valid_trsE intro!: valid_trsI simp: in_mem_def)
    ultimately show ?thesis using tc unfolding tlb_coherent_def by blast
  qed
  ultimately show ?thesis using inv by (simp add: vm_inv_def cm_ok_def swap_ok_def pt_destroy_def)
qed

lemma as_npages_unat:
  assumes "as_wf as" and "as_data as = Some d" and "as_text as = Some x" and "as_stack as = Some k"
  shows "unat (seg_npages d + seg_npages x + seg_npages k) = as_npages as"
proof -
  have "seg_wf d" "seg_wf x" "seg_wf k" using assms by (auto elim!: as_wfE)
  note b = this [THEN seg_wf_bounds(3)]
  have "unat (seg_npages d + seg_npages x) = unat (seg_npages d) + unat (seg_npages x)"
    using b by (intro unat_add_small) simp
  with b have "unat (seg_npages d + seg_npages x + seg_npages k) =
      unat (seg_npages d) + unat (seg_npages x) + unat (seg_npages k)" by (subst unat_add_small) simp_all
  with assms show ?thesis by (simp add: as_npages_def)
qed

lemma as_destroy_spec:
  fixes s :: "('f, 'a) vm_st_scheme"
  assumes inv: "vm_inv vo content img ro tr None s" and wf: "as_wf as" and t: "as_ptable as = Some t"
    and rd: "\<And>k. (\<exists>e. pt_read s (t, k) = Some e) \<longleftrightarrow> k < as_npages as" and h: "\<And>j. hidden tr (t, j)"
  obtains cm m where "as_destroy as s = Some (s\<lparr>coremap := cm, swapmap := m, ptables := (ptables s)(t := None)\<rparr>)"
    and "vm_inv vo content img ro tr None (s\<lparr>coremap := cm, swapmap := m, ptables := (ptables s)(t := None)\<rparr>)"
    and "used_frames cm = used_frames (coremap s) - table_frames s t 0"
    and "marked m = marked (swapmap s) - table_slots s t 0"
proof -
  have rd': "j < as_npages as \<longleftrightarrow> pt_read s (t, j) \<noteq> None" for j using rd [of j] by simp
  obtain cm m where l: "pt_empty_loop t (as_npages as) 0 s = Some (s\<lparr>coremap := cm, swapmap := m\<rparr>)"
    "vm_inv vo content img ro tr None (cut_table t (as_npages as) (s\<lparr>coremap := cm, swapmap := m\<rparr>))"
    "used_frames cm = used_frames (coremap s) - table_frames s t 0"
    "marked m = marked (swapmap s) - table_slots s t 0"
    using pt_empty_loop_spec [where i = 0 and vo = vo and content = content and img = img and ro = ro, OF _ h rd'] inv
    by auto
  let ?s = "s\<lparr>coremap := cm, swapmap := m\<rparr>"
  have eq: "pt_read ?s = pt_read s" by (rule pt_read_cong) simp
  have "vm_inv vo content img ro tr None (pt_destroy t (cut_table t (as_npages as) ?s))"
  proof (rule vm_inv_drop_table [OF l(2)])
    fix j e
    assume "pt_read (cut_table t (as_npages as) ?s) (t, j) = Some e"
    then show "pt_status e = NOT_LOADED"
      using pt_read_cut [of "as_npages as" ?s t "(t, j)"] rd' eq by (auto split: if_splits)
  qed
  then have v: "vm_inv vo content img ro tr None (pt_destroy t ?s)" by (simp only: pt_destroy_cut)
  have "as_destroy as s = Some (pt_destroy t ?s)"
    using t l(1) as_npages_unat [OF wf] by (auto simp: as_destroy_def pt_empty_def intro: as_wfE [OF wf])
  with v l(3,4) that show thesis by (simp add: pt_destroy_def)
qed

section \<open>Kernel blocks\<close>

text \<open>A block \<^verbatim>\<open>alloc_kpages\<close> handed out: its first frame is \<open>b\<close>, and no page table entry owns it.\<close>

definition kernel_block :: "('f, 'a) vm_st_scheme \<Rightarrow> nat \<Rightarrow> bool" where
  "kernel_block s b \<longleftrightarrow> b < length (coremap s) \<and> b \<noteq> 0 \<and> 0 < cm_size_alloc (coremap s ! b) \<and>
     cm_ptentry (coremap s ! b) = None"

lemma kvaddr_roundtrip [simp]: "KVADDR_TO_PADDR (PADDR_TO_KVADDR pa) = pa"
  by (simp add: KVADDR_TO_PADDR_def PADDR_TO_KVADDR_def)

lemma free_kpages_spec:
  fixes s :: "('f, 'a) vm_st_scheme"
  assumes inv: "vm_inv vo content img ro tr None s" and b: "kernel_block s b"
  shows "free_kpages (PADDR_TO_KVADDR (frame_addr b)) s = Some (s\<lparr>coremap := cm_release b (coremap s)\<rparr>)"
    and "vm_inv vo content img ro tr None (s\<lparr>coremap := cm_release b (coremap s)\<rparr>)"
    and "same_pages content img s (s\<lparr>coremap := cm_release b (coremap s)\<rparr>)"
proof -
  let ?s = "s\<lparr>coremap := cm_release b (coremap s)\<rparr>" let ?n = "cm_size_alloc (coremap s ! b)"
  have ok: "cm_ok s" and o0: "owners_ok None s" using inv by (simp_all add: vm_inv_def)
  have fok: "frames_ok (coremap s)" "length (coremap s) \<le> 2 ^ 17" using ok by (simp_all add: cm_ok_def)
  have kb: "b < length (coremap s)" "b \<noteq> 0" "0 < ?n" "cm_ptentry (coremap s ! b) = None"
    using b by (simp_all add: kernel_block_def)
  then show "free_kpages (PADDR_TO_KVADDR (frame_addr b)) s = Some ?s"
    using coremap_freeppages_eq [OF fok(1) kb(1) _ kb(3)] fok(2) by (simp add: free_kpages_def freeppages_def)
  have "\<not> owned s i q" if "b < i" "i < b + ?n" for i q
    using frames_ok_block(2) [OF fok(1) kb(1,3) that] owners_okD(1) [OF o0, of i q] by (auto simp: owner_ok_def)
  then have own: "owned ?s i q \<longleftrightarrow> owned s i q" for i q
    using owned_release [OF fok(1) kb(1) refl kb(3), of i q] kb(4) by (auto simp: owned_def)
  have rd: "pt_read ?s = pt_read s" by (rule pt_read_cong) simp
  have "owners_ok None ?s"
  proof (rule owners_okI)
    fix i q
    assume "owned ?s i q"
    then have o: "owned s i q" by (simp add: own)
    then have "i < length (coremap s)" "\<not> (b \<le> i \<and> i < b + ?n)"
      using own [of i q] by (auto simp: owned_def nth_cm_release)
    with owners_okD(1) [OF o0 o] show "owner_ok None ?s i q" by (auto simp: owner_ok_def rd nth_cm_release)
  qed (use owners_okD(2) [OF o0] own rd in auto)
  moreover have "cm_ok ?s" by (rule cm_ok_release [OF ok kb(1-3)])
  moreover have "tlb_coherent tr ?s" using inv by (intro tlb_coherent_cong [of ?s s]) (auto simp: vm_inv_def swap_ok_def)
  ultimately show "vm_inv vo content img ro tr None ?s"
    using inv slots_ok_cong [of ?s s] rdonly_ok_cong [of ?s s] by (simp add: vm_inv_def swap_ok_def)
  show "same_pages content img s ?s" by (simp add: same_pages_def page_val_cong [of ?s s])
qed

lemma free_kpages_sys:
  fixes s :: "('f, 'a) sys_st_scheme"
  assumes inv: "sys_inv vo content s" and b: "kernel_block s b"
  obtains s' where "free_kpages (PADDR_TO_KVADDR (frame_addr b)) s = Some s'" and "sys_inv vo content s'"
    and "user_byte content s' = user_byte content s" and "procs s' = procs s" and "curproc s' = curproc s"
proof -
  obtain img ro where vi: "vm_inv vo content img ro (cur_tr s) None s" and ok: "procs_ok content img ro s"
    using inv by (auto simp: sys_inv_def)
  note f = free_kpages_spec [OF vi b]
  show thesis by (rule that [OF f(1) sys_inv_more [OF f(2) ok _ f(3)]]) simp_all
qed

end
