(* ===== verification/Process.thy ===== *)
theory Process
  imports Vmdestroy
begin

unbundle bit_operations_syntax

text \<open>
  Processes: \<^verbatim>\<open>kern/proc/proc.c\<close>, the ELF loader of \<^verbatim>\<open>kern/syscall/loadelf.c\<close> and
  \<^verbatim>\<open>kern/syscall/runprogram.c\<close>. \<open>kern_st\<close> adds the reference counts of the vnodes and
  \<^verbatim>\<open>kproc\<close> to the state. A process is known by its number, the outcome of \<^verbatim>\<open>kmalloc\<close> (\<^const>\<open>None\<close>
  for \<^verbatim>\<open>NULL\<close>) is an argument, and so is the outcome of \<^verbatim>\<open>vfs_open\<close>. A wait that
  would block is \<^const>\<open>None\<close>, like everything that does not return.
\<close>

section \<open>Vnode references\<close>

record 'f kern_st = "'f sys_st" +
  vn_refcount :: "'f \<Rightarrow> nat"
  kproc :: nat

definition vnode_incref :: "'f \<Rightarrow> ('f, 'a) kern_st_scheme \<Rightarrow> ('f, 'a) kern_st_scheme" where
  "vnode_incref vn s = s\<lparr>vn_refcount := (vn_refcount s)(vn := vn_refcount s vn + 1)\<rparr>"

text \<open>The last reference goes to \<^verbatim>\<open>VOP_RECLAIM\<close>, which disposes of the vnode.\<close>

definition vnode_decref :: "'f \<Rightarrow> ('f, 'a) kern_st_scheme \<Rightarrow> ('f, 'a) kern_st_scheme option" where
  "vnode_decref vn s = do {
     kassert (vn_refcount s vn > 0);
     Some (s\<lparr>vn_refcount := (vn_refcount s)(vn := vn_refcount s vn - 1)\<rparr>)
   }"

definition vfs_close :: "'f \<Rightarrow> ('f, 'a) kern_st_scheme \<Rightarrow> ('f, 'a) kern_st_scheme option" where
  "vfs_close vn s = vnode_decref vn s"

section \<open>Process structures\<close>

text \<open>
  \<^verbatim>\<open>proc_create\<close>: the fields \<^verbatim>\<open>p_vnode\<close> and \<^verbatim>\<open>status\<close> are not set; \<open>p_vnode = None\<close> stands for
  a pointer that must not be used.
\<close>

definition proc_create ::
  "nat option \<Rightarrow> bool \<Rightarrow> bool \<Rightarrow> string \<Rightarrow> ('f, 'a) kern_st_scheme \<Rightarrow> nat option \<times> ('f, 'a) kern_st_scheme" where
  "proc_create kmalloc_proc kstrdup_ok sem_ok name s =
     (case kmalloc_proc of
        None \<Rightarrow> (None, s)
      | Some pid \<Rightarrow>
          if \<not> kstrdup_ok then (None, s)
          else (Some pid, s\<lparr>procs := (procs s)(pid \<mapsto>
                 \<lparr>p_name = name, p_numthreads = 0, p_addrspace = None, p_cwd = None, p_vnode = None,
                  status = 0, p_sem = (if sem_ok then Some 0 else None)\<rparr>)\<rparr>))"

definition proc_create_runprogram ::
  "nat option \<Rightarrow> bool \<Rightarrow> bool \<Rightarrow> string \<Rightarrow> ('f, 'a) kern_st_scheme \<Rightarrow>
   (nat option \<times> ('f, 'a) kern_st_scheme) option" where
  "proc_create_runprogram kmalloc_proc kstrdup_ok sem_ok name s =
     (case proc_create kmalloc_proc kstrdup_ok sem_ok name s of
        (None, s) \<Rightarrow> Some (None, s)
      | (Some pid, s) \<Rightarrow> do {
          newproc \<leftarrow> procs s pid;
          let s = s\<lparr>procs := (procs s)(pid \<mapsto> newproc\<lparr>p_addrspace := None\<rparr>)\<rparr>;
          cur \<leftarrow> curproc s;
          me \<leftarrow> procs s cur;
          newproc \<leftarrow> procs s pid;
          (case p_cwd me of
             None \<Rightarrow> Some (Some pid, s)
           | Some cwd \<Rightarrow>
               Some (Some pid, (vnode_incref cwd s)\<lparr>procs := (procs s)(pid \<mapsto> newproc\<lparr>p_cwd := Some cwd\<rparr>)\<rparr>))
        })"

text \<open>\<open>t_proc\<close> is the field of the thread; the first component of the result is its new value.\<close>

definition proc_addthread ::
  "nat \<Rightarrow> nat option \<Rightarrow> ('f, 'a) kern_st_scheme \<Rightarrow> (nat option \<times> ('f, 'a) kern_st_scheme) option" where
  "proc_addthread pid t_proc s = do {
     kassert (t_proc = None);
     pr \<leftarrow> procs s pid;
     Some (Some pid, s\<lparr>procs := (procs s)(pid \<mapsto> pr\<lparr>p_numthreads := p_numthreads pr + 1\<rparr>)\<rparr>)
   }"

definition proc_destroy :: "nat \<Rightarrow> ('f, 'a) kern_st_scheme \<Rightarrow> ('f, 'a) kern_st_scheme option" where
  "proc_destroy pid s = do {
     pr \<leftarrow> procs s pid;
     vn \<leftarrow> p_vnode pr;
     s \<leftarrow> vfs_close vn s;
     kassert (pid \<noteq> kproc s);
     s \<leftarrow> (case p_cwd pr of
            None \<Rightarrow> Some s
          | Some cwd \<Rightarrow> do {
              s \<leftarrow> vnode_decref cwd s;
              Some (s\<lparr>procs := (procs s)(pid \<mapsto> pr\<lparr>p_cwd := None\<rparr>)\<rparr>)
            });
     pr \<leftarrow> procs s pid;
     s \<leftarrow> (case p_addrspace pr of
            None \<Rightarrow> Some s
          | Some as \<Rightarrow> do {
              s \<leftarrow> (if curproc s = Some pid then proc_setas None s
                   else Some (s\<lparr>procs := (procs s)(pid \<mapsto> pr\<lparr>p_addrspace := None\<rparr>)\<rparr>));
              as_destroy as s
            });
     pr \<leftarrow> procs s pid;
     kassert (p_numthreads pr = 0);
     kassert (p_sem pr \<noteq> None);
     Some (s\<lparr>procs := (procs s)(pid := None)\<rparr>)
   }"

definition proc_wait :: "nat \<Rightarrow> ('f, 'a) kern_st_scheme \<Rightarrow> (int \<times> ('f, 'a) kern_st_scheme) option" where
  "proc_wait pid s = do {
     pr \<leftarrow> procs s pid;
     kassert (pid \<noteq> kproc s);
     count \<leftarrow> p_sem pr;
     kassert (count > 0);
     let s = s\<lparr>procs := (procs s)(pid \<mapsto> pr\<lparr>p_sem := Some (count - 1)\<rparr>)\<rparr>;
     pr \<leftarrow> procs s pid;
     let return_status = status pr;
     s \<leftarrow> proc_destroy pid s;
     Some (return_status, s)
   }"

section \<open>The ELF loader\<close>

text \<open>Fields of the headers, most significant byte first.\<close>

definition be16 :: "byte list \<Rightarrow> nat \<Rightarrow> nat" where
  "be16 bs i = unat (bs ! i) * 2 ^ 8 + unat (bs ! (i + 1))"

definition be32 :: "byte list \<Rightarrow> nat \<Rightarrow> uint32" where
  "be32 bs i = of_nat (be16 bs i * 2 ^ 16 + be16 bs (i + 2))"

record Elf_Ehdr =
  e_ident :: "byte list"
  e_type :: nat
  e_machine :: nat
  e_version :: uint32
  e_entry :: uint32
  e_phoff :: uint32
  e_phentsize :: nat
  e_phnum :: nat

record Elf_Phdr =
  p_type :: uint32
  p_offset :: uint32
  p_vaddr :: uint32
  p_filesz :: uint32
  p_memsz :: uint32

definition ehdr_of :: "byte list \<Rightarrow> Elf_Ehdr" where
  "ehdr_of bs = \<lparr>e_ident = take 16 bs, e_type = be16 bs 16, e_machine = be16 bs 18, e_version = be32 bs 20,
     e_entry = be32 bs 24, e_phoff = be32 bs 28, e_phentsize = be16 bs 42, e_phnum = be16 bs 44\<rparr>"

definition phdr_of :: "byte list \<Rightarrow> Elf_Phdr" where
  "phdr_of bs = \<lparr>p_type = be32 bs 0, p_offset = be32 bs 4, p_vaddr = be32 bs 8, p_filesz = be32 bs 16,
     p_memsz = be32 bs 20\<rparr>"

definition elf_header_ok :: "Elf_Ehdr \<Rightarrow> bool" where
  "elf_header_ok eh \<longleftrightarrow>
     \<not> (e_ident eh ! 0 \<noteq> 0x7f \<or> e_ident eh ! 1 \<noteq> 0x45 \<or> e_ident eh ! 2 \<noteq> 0x4c \<or> e_ident eh ! 3 \<noteq> 0x46 \<or>
        e_ident eh ! 4 \<noteq> 1 \<or> e_ident eh ! 5 \<noteq> 2 \<or> e_ident eh ! 6 \<noteq> 1 \<or>
        e_version eh \<noteq> 1 \<or> e_type eh \<noteq> 2 \<or> e_machine eh \<noteq> 8)"

abbreviation (input) PT_NULL :: uint32 where "PT_NULL \<equiv> 0"
abbreviation (input) PT_LOAD :: uint32 where "PT_LOAD \<equiv> 1"
abbreviation (input) PT_PHDR :: uint32 where "PT_PHDR \<equiv> 6"
abbreviation (input) PT_MIPS_REGINFO :: uint32 where "PT_MIPS_REGINFO \<equiv> 0x70000000"

text \<open>
  The loop of \<^verbatim>\<open>load_elf\<close> over the program headers, from \<open>i\<close> on for \<open>n\<close> more. The address
  space is changed in place, also when the loop stops with an error; \<open>km i\<close> is the
  outcome of the \<^verbatim>\<open>kmalloc\<close> for segment \<open>i\<close>.
\<close>

fun load_elf_loop ::
  "'f vnode_ops \<Rightarrow> 'f \<Rightarrow> (nat \<Rightarrow> bool) \<Rightarrow> Elf_Ehdr \<Rightarrow> nat \<Rightarrow> nat \<Rightarrow> addrspace \<Rightarrow> (errno option \<times> addrspace) option" where
  "load_elf_loop vo v km eh 0 i as = Some (None, as)"
| "load_elf_loop vo v km eh (Suc n) i as =
     (let offset = uint (e_phoff eh + of_nat (i * e_phentsize eh)) in
      case vop_read vo v offset 32 of
        Inl err \<Rightarrow> Some (Some err, as)
      | Inr bs \<Rightarrow>
          if 32 - length bs \<noteq> 0 then Some (Some ENOEXEC, as)
          else let ph = phdr_of bs in
            if p_type ph = PT_NULL \<or> p_type ph = PT_PHDR \<or> p_type ph = PT_MIPS_REGINFO
            then load_elf_loop vo v km eh n (i + 1) as
            else if p_type ph = PT_LOAD then do {
              as \<leftarrow> as_define_region (km i) as (p_vaddr ph) (p_memsz ph) (uint (p_offset ph)) (p_filesz ph);
              load_elf_loop vo v km eh n (i + 1) as
            }
            else Some (Some ENOEXEC, as))"

definition load_elf ::
  "'f vnode_ops \<Rightarrow> 'f \<Rightarrow> (nat \<Rightarrow> bool) \<Rightarrow> addrspace \<Rightarrow> ((errno + vaddr) \<times> addrspace) option" where
  "load_elf vo v km as =
     (case vop_read vo v 0 52 of
        Inl err \<Rightarrow> Some (Inl err, as)
      | Inr bs \<Rightarrow>
          if 52 - length bs \<noteq> 0 then Some (Inl ENOEXEC, as)
          else let eh = ehdr_of bs in
            if \<not> elf_header_ok eh then Some (Inl ENOEXEC, as)
            else do {
              (result, as) \<leftarrow> load_elf_loop vo v km eh (e_phnum eh) 0 as;
              (case result of
                 Some err \<Rightarrow> Some (Inl err, as)
               | None \<Rightarrow> Some (Inr (e_entry eh), as))
            })"

section \<open>Starting a program\<close>

text \<open>The address space of the current process is changed through the pointer \<^verbatim>\<open>as\<close>.\<close>

definition put_as :: "addrspace \<Rightarrow> ('f, 'a) sys_st_scheme \<Rightarrow> ('f, 'a) sys_st_scheme option" where
  "put_as as s = proc_setas (Some as) s"

definition set_vnode :: "'f \<Rightarrow> ('f, 'a) sys_st_scheme \<Rightarrow> ('f, 'a) sys_st_scheme option" where
  "set_vnode v s = do {
     pid \<leftarrow> curproc s;
     pr \<leftarrow> procs s pid;
     Some (s\<lparr>procs := (procs s)(pid \<mapsto> pr\<lparr>p_vnode := Some v\<rparr>)\<rparr>)
   }"

text \<open>
  \<^verbatim>\<open>runprogram\<close> returns an error number, or enters user mode at an entry point with
  a stack pointer. \<open>opened\<close> is the outcome of \<^verbatim>\<open>vfs_open\<close>.
\<close>

definition runprogram ::
  "'f vnode_ops \<Rightarrow> errno + 'f \<Rightarrow> bool \<Rightarrow> (nat \<Rightarrow> bool) \<Rightarrow> bool \<Rightarrow> nat option \<Rightarrow> ('f, 'a) kern_st_scheme \<Rightarrow>
   ((errno + vaddr \<times> vaddr) \<times> ('f, 'a) kern_st_scheme) option" where
  "runprogram vo opened km_as km_seg km_stack km_pt s =
     (case opened of
        Inl err \<Rightarrow> Some (Inl err, s)
      | Inr v \<Rightarrow> do {
          let s = vnode_incref v s;
          kassert (proc_getas s = None);
          (case as_create km_as of
             None \<Rightarrow> do { s \<leftarrow> vfs_close v s; Some (Inl ENOMEM, s) }
           | Some as \<Rightarrow> do {
               s \<leftarrow> proc_setas (Some as) s;
               s \<leftarrow> as_activate s;
               (result, as) \<leftarrow> load_elf vo v km_seg as;
               s \<leftarrow> put_as as s;
               (case result of
                  Inl err \<Rightarrow> do { s \<leftarrow> vfs_close v s; Some (Inl err, s) }
                | Inr entrypoint \<Rightarrow> do {
                    s \<leftarrow> set_vnode v s;
                    (stackptr, as) \<leftarrow> as_define_stack km_stack as;
                    s \<leftarrow> put_as as s;
                    (as, s) \<leftarrow> as_define_pt km_pt as s;
                    s \<leftarrow> put_as as s;
                    Some (Inr (entrypoint, stackptr), s)
                  })
             })
        })"

end
