(* ===== verification/Processes.thy ===== *)
theory Processes
  imports Process
begin

text \<open>
  The life of a process: what \<^verbatim>\<open>runprogram\<close> sets up is the image of the executable,
  and \<^verbatim>\<open>proc_wait\<close> returns the exit status and gives back everything the process had.
\<close>

section \<open>Frame rules\<close>

definition same_vm :: "('f, 'a) vm_st_scheme \<Rightarrow> ('f, 'a) vm_st_scheme \<Rightarrow> bool" where
  "same_vm s s' \<longleftrightarrow> vmstats s' = vmstats s \<and> tlb s' = tlb s \<and> tlb_victim s' = tlb_victim s \<and>
     swapmap s' = swapmap s \<and> swapfile s' = swapfile s \<and> ram s' = ram s \<and> ptables s' = ptables s \<and>
     coremap s' = coremap s \<and> victim_index s' = victim_index s"

lemma vm_inv_same_vm:
  assumes same: "same_vm s s'" and inv: "vm_inv vo content img ro tr None s"
    and tr: "tr' = tr \<or> tr' = None"
  shows "vm_inv vo content img ro tr' None s'"
proof -
  have f: "vmstats s' = vmstats s" "tlb s' = tlb s" "tlb_victim s' = tlb_victim s" "swapmap s' = swapmap s"
    "swapfile s' = swapfile s" "ram s' = ram s" "ptables s' = ptables s" "coremap s' = coremap s"
    "victim_index s' = victim_index s" using same by (simp_all add: same_vm_def)
  have len: "length (vmstats s) = 10" using inv by (simp add: vm_inv_def swap_ok_def)
  have "tlb_coherent tr s'" using inv f len by (intro tlb_coherent_cong [of s' s]) (simp_all add: vm_inv_def)
  then have "tlb_coherent tr' s'" using tr tlb_coherent_None by blast
  then show ?thesis
    using inv f owners_ok_cong [of s' s] slots_ok_cong [of s' s] rdonly_ok_cong [of s' s]
    by (simp add: vm_inv_def swap_ok_def cm_ok_def)
qed

lemma sys_inv_same_vm:
  fixes s s' :: "('f, 'a) sys_st_scheme"
  assumes inv: "sys_inv vo content s" and vm: "same_vm s s'" and as: "same_as s s'"
    and tr: "cur_tr s' = cur_tr s \<or> cur_tr s' = None"
  shows "sys_inv vo content s'" and "user_byte content s' = user_byte content s"
proof -
  obtain img ro where vi: "vm_inv vo content img ro (cur_tr s) None s" and ok: "procs_ok content img ro s"
    using inv by (auto simp: sys_inv_def)
  have f: "ptables s' = ptables s" "swapfile s' = swapfile s" "ram s' = ram s" using vm by (simp_all add: same_vm_def)
  have "procs_ok content img ro s'" by (rule procs_ok_same_as [OF ok as pt_read_cong [OF f(1)]])
  with vm_inv_same_vm [OF vm vi tr] show "sys_inv vo content s'" by (auto simp: sys_inv_def)
  show "user_byte content s' = user_byte content s" by (rule user_byte_same_as [OF as f])
qed

section \<open>Removing an address space\<close>

text \<open>\<open>as_of s pid\<close>: the address space and the executable of a process.\<close>

definition as_of :: "('f, 'a) sys_st_scheme \<Rightarrow> nat \<Rightarrow> (addrspace option \<times> 'f option) option" where
  "as_of s pid = map_option (\<lambda>pr. (p_addrspace pr, p_vnode pr)) (procs s pid)"

lemma has_table_as_of: "has_table s pid pr as t \<Longrightarrow> as_of s pid = Some (Some as, p_vnode pr)"
  by (simp add: has_table_def as_of_def)

lemma as_of_table:
  assumes "as_of s pid = Some (Some as, v)" and "as_ptable as = Some t"
  obtains pr where "has_table s pid pr as t" and "p_vnode pr = v"
  using assms by (auto simp: as_of_def has_table_def)

lemma user_byte_as_of:
  assumes "as_of s' pid = as_of s pid" and "swapfile s' = swapfile s" and "ram s' = ram s"
    and "\<And>as v t. as_of s pid = Some (Some as, v) \<Longrightarrow> as_ptable as = Some t \<Longrightarrow> ptables s' t = ptables s t"
  shows "user_byte content s' pid va = user_byte content s pid va"
proof (cases "procs s pid")
  case None
  then show ?thesis using assms(1) by (cases "procs s' pid") (simp_all add: as_of_def user_byte_def)
next
  case (Some pr)
  then obtain pr' where pr': "procs s' pid = Some pr'" "p_addrspace pr' = p_addrspace pr" "p_vnode pr' = p_vnode pr"
    using assms(1) by (cases "procs s' pid") (auto simp: as_of_def)
  have "page_val content img s' (t, k) off = page_val content img s (t, k) off"
    if "p_addrspace pr = Some as" "as_ptable as = Some t" for img as t k off
    using assms(2,3) assms(4) [of as "p_vnode pr" t] that Some
    by (simp add: as_of_def page_val_def pt_read_def split: option.split pt_status.split)
  then show ?thesis using Some pr'
    by (cases "p_addrspace pr"; cases "p_vnode pr")
      (auto simp: user_byte_def pt_get_entry_def split: bind_splits)
qed

lemma procs_ok_as_of:
  assumes ok: "procs_ok content img ro s"
    and sub: "\<And>pid as v t. as_of s' pid = Some (Some as, v) \<Longrightarrow> as_ptable as = Some t \<Longrightarrow>
      as_of s pid = Some (Some as, v) \<and> ptables s' t = ptables s t"
  shows "procs_ok content img ro s'"
proof -
  have h: "\<exists>pr. has_table s pid pr as t \<and> p_vnode pr = p_vnode pr' \<and> ptables s' t = ptables s t"
    if "has_table s' pid pr' as t" for pid pr' as t
    using sub [OF has_table_as_of [OF that]] that as_of_table by (metis has_table_def)
  have "as_ok content img ro s' pr' as t" if ht: "has_table s' pid pr' as t" for pid pr' as t
  proof -
    obtain pr where pr: "has_table s pid pr as t" "p_vnode pr = p_vnode pr'" "ptables s' t = ptables s t"
      using h [OF ht] by blast
    then have "as_ok content img ro s pr as t" using ok unfolding procs_ok_def by blast
    moreover have "pt_read s' (t, k) = pt_read s (t, k)" for k using pr(3) by (simp add: pt_read_def)
    ultimately show ?thesis using pr(2) by (simp add: as_ok_def)
  qed
  moreover have "pid = pid'" if "has_table s' pid pr as t" "has_table s' pid' pr' as' t" for pid pid' pr pr' as as' t
    using h [OF that(1)] h [OF that(2)] ok unfolding procs_ok_def by blast
  ultimately show ?thesis unfolding procs_ok_def by blast
qed

text \<open>
  \<^verbatim>\<open>as_destroy\<close> of a process that does not run, after its \<^verbatim>\<open>p_addrspace\<close> was cleared (in \<open>s1\<close>):
  its frames and swap slots are free again, and no other process notices.
\<close>

lemma as_destroy_sys:
  fixes s s1 :: "('f, 'a) sys_st_scheme"
  assumes inv: "sys_inv vo content s" and h: "has_table s pid pr as t"
    and vm: "same_vm s s1"
    and others: "\<And>q. q \<noteq> pid \<Longrightarrow> as_of s1 q = as_of s q" and idle: "proc_getas s1 = proc_getas s \<and> curproc s \<noteq> Some pid"
    and noas: "\<And>as v. as_of s1 pid \<noteq> Some (Some as, v)"
  obtains s2 where "as_destroy as s1 = Some s2" and "sys_inv vo content s2"
    and "\<And>q va. q \<noteq> pid \<Longrightarrow> user_byte content s2 q va = user_byte content s q va"
    and "used_frames (coremap s2) = used_frames (coremap s) - table_frames s t 0"
    and "marked (swapmap s2) = marked (swapmap s) - table_slots s t 0"
    and "vm_st.more s2 = vm_st.more s1"
proof -
  obtain img ro where vi: "vm_inv vo content img ro (cur_tr s) None s" and ok: "procs_ok content img ro s"
    using inv by (auto simp: sys_inv_def)
  have pt: "ptables s1 = ptables s" "coremap s1 = coremap s" "swapmap s1 = swapmap s" "ram s1 = ram s"
    "swapfile s1 = swapfile s" using vm by (simp_all add: same_vm_def)
  have rd1: "pt_read s1 = pt_read s" by (rule pt_read_cong [OF pt(1)])
  have aok: "as_ok content img ro s pr as t" using ok h unfolding procs_ok_def by blast
  have tr: "cur_tr s1 = cur_tr s" using idle by (simp add: cur_tr_def)
  have vi1: "vm_inv vo content img ro (cur_tr s1) None s1" using vm_inv_same_vm [OF vm vi] tr by simp
  have other: "t' \<noteq> t" if q: "as_of s q = Some (Some as', v)" "as_ptable as' = Some t'" "q \<noteq> pid" for q as' v t'
  proof
    assume "t' = t"
    obtain pr' where "has_table s q pr' as' t'" by (rule as_of_table [OF q(1,2)])
    with h ok \<open>t' = t\<close> q(3) show False unfolding procs_ok_def by blast
  qed
  have hid: "hidden (cur_tr s1) (t, j)" for j
    unfolding hidden_def
  proof (intro allI impI)
    fix f
    assume "cur_tr s1 = Some f"
    then obtain as' c pr' where c: "f = tr_of as'" "curproc s = Some c" "procs s c = Some pr'" "p_addrspace pr' = Some as'"
      using idle by (auto simp: cur_tr_def proc_getas_def split: bind_splits)
    then have "as_of s c = Some (Some as', p_vnode pr')" "c \<noteq> pid" using idle by (auto simp: as_of_def)
    with other c(1) show "f (t, j) = None" by (auto simp: tr_of_def)
  qed
  have wf: "as_wf as" and npt: "(\<exists>e. pt_read s1 (t, k) = Some e) \<longleftrightarrow> k < as_npages as" for k
    using aok rd1 by (simp_all add: as_ok_def)
  have at: "as_ptable as = Some t" using h by (simp add: has_table_def)
  obtain cm m where d: "as_destroy as s1 = Some (s1\<lparr>coremap := cm, swapmap := m, ptables := (ptables s1)(t := None)\<rparr>)"
    "vm_inv vo content img ro (cur_tr s1) None (s1\<lparr>coremap := cm, swapmap := m, ptables := (ptables s1)(t := None)\<rparr>)"
    "used_frames cm = used_frames (coremap s1) - table_frames s1 t 0" "marked m = marked (swapmap s1) - table_slots s1 t 0"
    by (rule as_destroy_spec [OF vi1 wf at npt hid])
  let ?s2 = "s1\<lparr>coremap := cm, swapmap := m, ptables := (ptables s1)(t := None)\<rparr>"
  have as2: "as_of ?s2 = as_of s1" by (simp add: as_of_def fun_eq_iff)
  have "procs_ok content img ro ?s2"
  proof (rule procs_ok_as_of [OF ok])
    fix q as' v t'
    assume a: "as_of ?s2 q = Some (Some as', v)" "as_ptable as' = Some t'"
    then have "q \<noteq> pid" using noas as2 by auto
    with a as2 others have "as_of s q = Some (Some as', v)" by simp
    with other a(2) \<open>q \<noteq> pid\<close> pt(1) show "as_of s q = Some (Some as', v) \<and> ptables ?s2 t' = ptables s t'" by auto
  qed
  moreover have "cur_tr ?s2 = cur_tr s1" by (simp add: cur_tr_def proc_getas_def)
  ultimately have inv2: "sys_inv vo content ?s2" using d(2) by (auto simp: sys_inv_def)
  have ub: "user_byte content ?s2 q va = user_byte content s q va" if "q \<noteq> pid" for q va
  proof (rule user_byte_as_of)
    show "as_of ?s2 q = as_of s q" using others [OF that] as2 by simp
    show "ptables ?s2 t' = ptables s t'" if "as_of s q = Some (Some as', v)" "as_ptable as' = Some t'" for as' v t'
      using other [OF that \<open>q \<noteq> pid\<close>] pt(1) by simp
  qed (simp_all add: pt)
  have eq: "table_frames s1 t 0 = table_frames s t 0" "table_slots s1 t 0 = table_slots s t 0"
    by (simp_all add: table_frames_def table_slots_def rd1)
  show thesis by (rule that [OF d(1) inv2 ub]) (simp_all add: d(3,4) eq pt)
qed

text \<open>A process that does not run has no address space any more, or is new; the others are as before.\<close>

lemma sys_inv_no_as:
  fixes s s' :: "('f, 'a) sys_st_scheme"
  assumes inv: "sys_inv vo content s" and vm: "same_vm s s'" and cur: "curproc s' = curproc s" "curproc s \<noteq> Some pid"
    and oth: "\<And>q. q \<noteq> pid \<Longrightarrow> as_of s' q = as_of s q" and no: "\<And>as v. as_of s' pid \<noteq> Some (Some as, v)"
  shows "sys_inv vo content s'" and "user_byte content s' q va = (if q = pid then None else user_byte content s q va)"
proof -
  obtain img ro where vi: "vm_inv vo content img ro (cur_tr s) None s" and ok: "procs_ok content img ro s"
    using inv by (auto simp: sys_inv_def)
  have f: "ptables s' = ptables s" "swapfile s' = swapfile s" "ram s' = ram s" using vm by (simp_all add: same_vm_def)
  have ok': "procs_ok content img ro s'"
  proof (rule procs_ok_as_of [OF ok])
    fix q as v t
    assume a: "as_of s' q = Some (Some as, v)"
    then have "q \<noteq> pid" using no by blast
    with oth a f show "as_of s q = Some (Some as, v) \<and> ptables s' t = ptables s t" by simp
  qed
  have "proc_getas s' = proc_getas s"
  proof (cases "curproc s")
    case (Some c)
    then have "as_of s' c = as_of s c" using cur oth by auto
    then show ?thesis using Some cur by (cases "procs s c"; cases "procs s' c") (auto simp: proc_getas_def as_of_def)
  qed (simp add: proc_getas_def cur)
  then have "cur_tr s' = cur_tr s" by (simp add: cur_tr_def)
  with vm_inv_same_vm [OF vm vi] ok' show "sys_inv vo content s'" by (auto simp: sys_inv_def)
  show "user_byte content s' q va = (if q = pid then None else user_byte content s q va)"
  proof (cases "q = pid")
    case True
    then show ?thesis using no by (auto simp: user_byte_def as_of_def split: bind_splits)
  next
    case False
    then have "user_byte content s' q va = user_byte content s q va" using oth f by (intro user_byte_as_of) simp_all
    with False show ?thesis by simp
  qed
qed

section \<open>Waiting for a process\<close>

text \<open>The references a process has on its executable and on its directory are counted.\<close>

definition refs_ok :: "'f proc \<Rightarrow> ('f \<Rightarrow> nat) \<Rightarrow> bool" where
  "refs_ok pr r \<longleftrightarrow> (\<exists>vn. p_vnode pr = Some vn \<and> 0 < r vn \<and>
     (\<forall>cwd. p_cwd pr = Some cwd \<longrightarrow> (if cwd = vn then 1 else 0) < r cwd))"

definition drop_refs :: "'f proc \<Rightarrow> ('f \<Rightarrow> nat) \<Rightarrow> 'f \<Rightarrow> nat" where
  "drop_refs pr r vn = r vn - (if p_vnode pr = Some vn then 1 else 0) - (if p_cwd pr = Some vn then 1 else 0)"

text \<open>The references are dropped first.\<close>

lemma proc_destroy_refs:
  fixes s :: "('f, 'a) kern_st_scheme"
  assumes pr: "procs s pid = Some pr" and refs: "refs_ok pr (vn_refcount s)" and k: "pid \<noteq> kproc s"
  shows "proc_destroy pid s = do {
     let s = s\<lparr>vn_refcount := drop_refs pr (vn_refcount s), procs := (procs s)(pid \<mapsto> pr\<lparr>p_cwd := None\<rparr>)\<rparr>;
     s \<leftarrow> (case p_addrspace pr of
            None \<Rightarrow> Some s
          | Some as \<Rightarrow> do {
              s \<leftarrow> (if curproc s = Some pid then proc_setas None s
                   else Some (s\<lparr>procs := (procs s)(pid \<mapsto> pr\<lparr>p_cwd := None, p_addrspace := None\<rparr>)\<rparr>));
              as_destroy as s
            });
     pr \<leftarrow> procs s pid;
     kassert (p_numthreads pr = 0);
     kassert (p_sem pr \<noteq> None);
     Some (s\<lparr>procs := (procs s)(pid := None)\<rparr>)
   }"
proof -
  obtain vn where vn: "p_vnode pr = Some vn" "0 < vn_refcount s vn"
    "\<And>cwd. p_cwd pr = Some cwd \<Longrightarrow> (if cwd = vn then 1 else 0) < vn_refcount s cwd"
    using refs by (auto simp: refs_ok_def)
  have v: "vfs_close vn s = Some (s\<lparr>vn_refcount := (vn_refcount s)(vn := vn_refcount s vn - 1)\<rparr>)"
    using vn(2) by (simp add: vfs_close_def vnode_decref_def)
  show ?thesis
  proof (cases "p_cwd pr")
    case None
    then have "drop_refs pr (vn_refcount s) = (vn_refcount s)(vn := vn_refcount s vn - 1)"
      using vn(1) by (simp add: drop_refs_def fun_eq_iff)
    moreover have eq: "pr\<lparr>p_cwd := None\<rparr> = pr" using None by (cases pr) simp
    have "(procs s)(pid \<mapsto> pr) = procs s" using pr by (simp add: fun_eq_iff)
    ultimately show ?thesis
      unfolding eq using pr v k vn(1) None by (simp add: proc_destroy_def Let_def)
  next
    case (Some cwd)
    then have r: "drop_refs pr (vn_refcount s) =
        (vn_refcount s)(vn := vn_refcount s vn - 1, cwd := ((vn_refcount s)(vn := vn_refcount s vn - 1)) cwd - 1)"
      using vn(1) by (simp add: drop_refs_def fun_eq_iff)
    have pos: "0 < ((vn_refcount s)(vn := vn_refcount s vn - 1)) cwd" using vn(3) [OF Some] by (auto split: if_splits)
    have "vnode_decref cwd (s\<lparr>vn_refcount := (vn_refcount s)(vn := vn_refcount s vn - 1)\<rparr>) =
        Some (s\<lparr>vn_refcount := drop_refs pr (vn_refcount s)\<rparr>)"
      using pos by (simp add: vnode_decref_def r)
    then show ?thesis using pr vn(1) v k Some by (cases "p_addrspace pr") (simp_all add: proc_destroy_def Let_def)
  qed
qed

lemma proc_destroy_eq:
  fixes s :: "('f, 'a) kern_st_scheme"
  assumes pr: "procs s pid = Some pr" and refs: "refs_ok pr (vn_refcount s)" and k: "pid \<noteq> kproc s"
    and cur: "curproc s \<noteq> Some pid" and sem: "p_sem pr \<noteq> None"
    and d: "(case p_addrspace pr of None \<Rightarrow> Some | Some as \<Rightarrow> as_destroy as)
              (s\<lparr>vn_refcount := drop_refs pr (vn_refcount s),
                 procs := (procs s)(pid \<mapsto> pr\<lparr>p_cwd := None, p_addrspace := None\<rparr>)\<rparr>) = Some s2"
    and ps: "procs s2 = (procs s)(pid \<mapsto> pr\<lparr>p_cwd := None, p_addrspace := None\<rparr>)"
  shows "proc_destroy pid s = (if p_numthreads pr = 0 then Some (s2\<lparr>procs := (procs s)(pid := None)\<rparr>) else None)"
proof (cases "p_addrspace pr")
  case None
  then have "pr\<lparr>p_cwd := None, p_addrspace := None\<rparr> = pr\<lparr>p_cwd := None\<rparr>" by (cases pr) simp
  with d ps sem cur None show ?thesis unfolding proc_destroy_refs [OF pr refs k] by auto
next
  case (Some as)
  with d ps sem cur show ?thesis unfolding proc_destroy_refs [OF pr refs k] by simp
qed

lemma proc_wait_sys:
  fixes s :: "('f, 'a) kern_st_scheme"
  assumes inv: "sys_inv vo content s" and h: "has_table s pid pr as t" and refs: "refs_ok pr (vn_refcount s)"
    and k: "pid \<noteq> kproc s" and cur: "curproc s \<noteq> Some pid" and sem: "p_sem pr = Some n" "0 < n"
  obtains s' where "proc_wait pid s = (if p_numthreads pr = 0 then Some (status pr, s') else None)" and "sys_inv vo content s'"
    and "procs s' = (procs s)(pid := None)" and "curproc s' = curproc s"
    and "vn_refcount s' = drop_refs pr (vn_refcount s)" and "kproc s' = kproc s"
    and "\<And>q va. user_byte content s' q va = (if q = pid then None else user_byte content s q va)"
    and "used_frames (coremap s') = used_frames (coremap s) - table_frames s t 0"
    and "marked (swapmap s') = marked (swapmap s) - table_slots s t 0"
proof -
  have pr: "procs s pid = Some pr" "p_addrspace pr = Some as" using h by (simp_all add: has_table_def)
  let ?pr = "pr\<lparr>p_sem := Some (n - 1)\<rparr>" let ?r = "drop_refs pr (vn_refcount s)"
  let ?s0 = "s\<lparr>procs := (procs s)(pid \<mapsto> ?pr)\<rparr>"
  let ?s1 = "?s0\<lparr>vn_refcount := ?r, procs := (procs ?s0)(pid \<mapsto> ?pr\<lparr>p_cwd := None, p_addrspace := None\<rparr>)\<rparr>"
  have vm: "same_vm s ?s1" by (simp add: same_vm_def)
  have oth: "as_of ?s1 q = as_of s q" if "q \<noteq> pid" for q using that by (simp add: as_of_def)
  have idle: "proc_getas ?s1 = proc_getas s \<and> curproc s \<noteq> Some pid"
    using cur by (cases "curproc s") (auto simp: proc_getas_def)
  have no: "as_of ?s1 pid \<noteq> Some (Some as', v)" for as' v by (simp add: as_of_def)
  obtain s2 where s2: "as_destroy as ?s1 = Some s2" "sys_inv vo content s2"
    "\<And>q va. q \<noteq> pid \<Longrightarrow> user_byte content s2 q va = user_byte content s q va"
    "used_frames (coremap s2) = used_frames (coremap s) - table_frames s t 0"
    "marked (swapmap s2) = marked (swapmap s) - table_slots s t 0" "vm_st.more s2 = vm_st.more ?s1"
    using as_destroy_sys [OF inv h vm oth idle no] by blast
  note more = vm_more_sys [OF s2(6)]
  let ?s' = "s2\<lparr>procs := (procs s)(pid := None)\<rparr>"
  have rd: "drop_refs (pr\<lparr>p_sem := x\<rparr>) = drop_refs pr" for x by (simp add: drop_refs_def fun_eq_iff)
  have "refs_ok ?pr (vn_refcount s)" using refs by (simp add: refs_ok_def)
  then have "proc_destroy pid ?s0 =
      (if p_numthreads ?pr = 0 then Some (s2\<lparr>procs := (procs ?s0)(pid := None)\<rparr>) else None)"
    using pr k cur s2(1) more by (intro proc_destroy_eq [where pr = ?pr]) (simp_all add: rd)
  then have run: "proc_wait pid s = (if p_numthreads pr = 0 then Some (status pr, ?s') else None)"
    using pr k sem by (simp add: proc_wait_def)
  have same: "as_of ?s' q = (if q = pid then None else as_of s2 q)" for q using more by (simp add: as_of_def)
  have fin: "same_vm s2 ?s'" "curproc ?s' = curproc s2" "curproc s2 \<noteq> Some pid"
    using more cur by (simp_all add: same_vm_def)
  have inv': "sys_inv vo content ?s'" by (rule sys_inv_no_as [OF s2(2) fin]) (simp_all add: same)
  have ub: "user_byte content ?s' q va = (if q = pid then None else user_byte content s q va)" for q va
    using sys_inv_no_as(2) [OF s2(2) fin, of q va] s2(3) [of q va] by (simp add: same)
  have m2: "vn_refcount s2 = ?r" "kproc s2 = kproc s" "curproc s2 = curproc s"
    using s2(6) by (cases s2, cases s, simp)+
  show thesis by (rule that [OF run inv' _ _ _ _ ub]) (simp_all add: s2 m2)
qed

section \<open>Loading an executable\<close>

text \<open>The headers of an executable with contents \<open>xs\<close>.\<close>

definition exe_ehdr :: "byte list \<Rightarrow> Elf_Ehdr" where
  "exe_ehdr xs = ehdr_of (take 52 xs)"

definition phdr_offset :: "Elf_Ehdr \<Rightarrow> nat \<Rightarrow> nat" where
  "phdr_offset eh i = unat (e_phoff eh + of_nat (i * e_phentsize eh))"

definition exe_phdr :: "byte list \<Rightarrow> nat \<Rightarrow> Elf_Phdr" where
  "exe_phdr xs i = phdr_of (take 32 (drop (phdr_offset (exe_ehdr xs) i) xs))"

definition exe_loads :: "byte list \<Rightarrow> nat \<Rightarrow> nat \<Rightarrow> Elf_Phdr list" where
  "exe_loads xs n i = filter (\<lambda>ph. p_type ph = PT_LOAD) (map (exe_phdr xs) [i..<i + n])"

text \<open>An executable the loader accepts: a good header, and program headers of known types inside the file.\<close>

definition exe_headers_ok :: "byte list \<Rightarrow> bool" where
  "exe_headers_ok xs \<longleftrightarrow> 52 \<le> length xs \<and> elf_header_ok (exe_ehdr xs) \<and>
     (\<forall>i < e_phnum (exe_ehdr xs). phdr_offset (exe_ehdr xs) i + 32 \<le> length xs \<and>
        p_type (exe_phdr xs i) \<in> {PT_NULL, PT_LOAD, PT_PHDR, PT_MIPS_REGINFO})"

fun define_regions :: "Elf_Phdr list \<Rightarrow> addrspace \<Rightarrow> addrspace option" where
  "define_regions [] as = Some as"
| "define_regions (ph # phs) as = do {
     as \<leftarrow> as_define_region True as (p_vaddr ph) (p_memsz ph) (uint (p_offset ph)) (p_filesz ph);
     define_regions phs as
   }"

lemma load_elf_loop_eq:
  assumes reg: "regular_file vo content"
    and ok: "\<And>j. i \<le> j \<Longrightarrow> j < i + n \<Longrightarrow> phdr_offset (exe_ehdr (content v)) j + 32 \<le> length (content v) \<and>
        p_type (exe_phdr (content v) j) \<in> {PT_NULL, PT_LOAD, PT_PHDR, PT_MIPS_REGINFO}"
  shows "load_elf_loop vo v (\<lambda>_. True) (exe_ehdr (content v)) n i as =
    map_option (Pair None) (define_regions (exe_loads (content v) n i) as)"
  using ok
proof (induction n arbitrary: i as)
  case 0
  then show ?case by (simp add: exe_loads_def)
next
  case (Suc n)
  let ?xs = "content v" let ?o = "phdr_offset (exe_ehdr ?xs) i"
  have rd: "vop_read vo v (uint (e_phoff (exe_ehdr ?xs) + of_nat (i * e_phentsize (exe_ehdr ?xs)))) 32 =
      Inr (take 32 (drop ?o ?xs))"
    using regular_file_read [OF reg, of v ?o 32] by (simp add: phdr_offset_def)
  have i: "?o + 32 \<le> length ?xs" "p_type (exe_phdr ?xs i) \<in> {PT_NULL, PT_LOAD, PT_PHDR, PT_MIPS_REGINFO}"
    using Suc.prems [of i] by simp_all
  have len: "length (take 32 (drop ?o ?xs)) = 32" using i(1) by simp
  have "[i..<i + Suc n] = i # [i + 1..<i + 1 + n]" by (subst upt_conv_Cons) simp_all
  then have split: "exe_loads ?xs (Suc n) i =
      (if p_type (exe_phdr ?xs i) = PT_LOAD then [exe_phdr ?xs i] else []) @ exe_loads ?xs n (i + 1)"
    unfolding exe_loads_def by simp
  have IH: "load_elf_loop vo v (\<lambda>_. True) (exe_ehdr ?xs) n (i + 1) as' =
      map_option (Pair None) (define_regions (exe_loads ?xs n (i + 1)) as')" for as'
    by (rule Suc.IH) (use Suc.prems in simp)
  have step: "load_elf_loop vo v (\<lambda>_. True) (exe_ehdr ?xs) (Suc n) i as =
      (if p_type (exe_phdr ?xs i) = PT_LOAD
       then do {
         as \<leftarrow> as_define_region True as (p_vaddr (exe_phdr ?xs i)) (p_memsz (exe_phdr ?xs i))
                (uint (p_offset (exe_phdr ?xs i))) (p_filesz (exe_phdr ?xs i));
         load_elf_loop vo v (\<lambda>_. True) (exe_ehdr ?xs) n (i + 1) as
       }
       else load_elf_loop vo v (\<lambda>_. True) (exe_ehdr ?xs) n (i + 1) as)"
    using i(2) len by (auto simp: rd exe_phdr_def Let_def simp del: of_nat_mult)
  show ?case unfolding step split by (auto simp: IH [simplified] split: bind_splits)
qed

lemma load_elf_eq:
  assumes reg: "regular_file vo content" and ok: "exe_headers_ok (content v)"
  shows "load_elf vo v (\<lambda>_. True) as = map_option (Pair (Inr (e_entry (exe_ehdr (content v)))))
    (define_regions (exe_loads (content v) (e_phnum (exe_ehdr (content v))) 0) as)"
proof -
  have rd: "vop_read vo v 0 52 = Inr (take 52 (content v))" using regular_file_read [OF reg, of v 0 52] by simp
  have len: "length (take 52 (content v)) = 52" using ok by (simp add: exe_headers_ok_def)
  have "load_elf_loop vo v (\<lambda>_. True) (exe_ehdr (content v)) (e_phnum (exe_ehdr (content v))) 0 as =
    map_option (Pair None) (define_regions (exe_loads (content v) (e_phnum (exe_ehdr (content v))) 0) as)"
    using ok by (intro load_elf_loop_eq [OF reg]) (simp add: exe_headers_ok_def)
  then show ?thesis
    using ok rd len by (auto simp: load_elf_def exe_headers_ok_def Let_def exe_ehdr_def [symmetric] split: bind_splits)
qed

text \<open>What the loader relies on: two loadable segments, apart from each other and inside the file.\<close>

definition exe_wf :: "byte list \<Rightarrow> Elf_Phdr \<Rightarrow> Elf_Phdr \<Rightarrow> bool" where
  "exe_wf xs ph1 ph2 \<longleftrightarrow> exe_headers_ok xs \<and> exe_loads xs (e_phnum (exe_ehdr xs)) 0 = [ph1, ph2] \<and>
     regions_apart (p_vaddr ph1) (p_memsz ph1) (p_vaddr ph2) (p_memsz ph2) \<and>
     unat (p_offset ph1) + unat (min (p_filesz ph1) (p_memsz ph1)) \<le> length xs \<and>
     unat (p_offset ph2) + unat (min (p_filesz ph2) (p_memsz ph2)) \<le> length xs"

definition phdr_segment :: "Elf_Phdr \<Rightarrow> segment" where
  "phdr_segment ph = region_segment (p_vaddr ph) (p_memsz ph) (uint (p_offset ph)) (p_filesz ph)"

text \<open>The byte an executable puts at a user address.\<close>

definition phdr_byte :: "byte list \<Rightarrow> Elf_Phdr \<Rightarrow> vaddr \<Rightarrow> byte option" where
  "phdr_byte xs ph va =
     (if unat (p_vaddr ph) \<le> unat va \<and> unat va < unat (p_vaddr ph) + unat (p_memsz ph)
      then Some (let i = unat va - unat (p_vaddr ph) in
             if i < unat (p_filesz ph) then xs ! (unat (p_offset ph) + i) else 0)
      else None)"

definition exe_byte :: "byte list \<Rightarrow> Elf_Phdr \<Rightarrow> Elf_Phdr \<Rightarrow> vaddr \<Rightarrow> byte option" where
  "exe_byte xs ph1 ph2 va = (case phdr_byte xs ph1 va of
      Some b \<Rightarrow> Some b
    | None \<Rightarrow> (case phdr_byte xs ph2 va of
        Some b \<Rightarrow> Some b
      | None \<Rightarrow> if 0x7ffee000 \<le> unat va \<and> unat va < 2 ^ 31 then Some 0 else None))"

lemma define_regions_two:
  assumes "regions_apart (p_vaddr ph1) (p_memsz ph1) (p_vaddr ph2) (p_memsz ph2)"
  shows "define_regions [ph1, ph2] \<lparr>as_text = None, as_data = None, as_stack = None, as_ptable = None\<rparr> =
    Some \<lparr>as_text = Some (phdr_segment ph1), as_data = Some (phdr_segment ph2), as_stack = None, as_ptable = None\<rparr>"
  using assms by (simp add: regions_apart_def as_define_region_eq phdr_segment_def)

lemma image_byte_exe:
  fixes content :: "'f \<Rightarrow> byte list"
  assumes wf: "exe_wf (content v) ph1 ph2" and as: "as = as_regions (phdr_segment ph1) (phdr_segment ph2) pt"
    and va: "in_as as va"
  obtains k where "pt_get_index as va = Some k" and "k < as_npages as"
    and "exe_byte (content v) ph1 ph2 va = Some (image_byte content as v k (unat va mod PAGE_SIZE))"
proof -
  have ra: "regions_apart (p_vaddr ph1) (p_memsz ph1) (p_vaddr ph2) (p_memsz ph2)" using wf by (simp add: exe_wf_def)
  have awf: "as_wf as" unfolding as phdr_segment_def by (rule as_regions_wf [OF ra])
  obtain seg k where k: "as_get_segment as va = Some seg" "seg_wf seg" "in_segment seg va"
    "pt_get_index as va = Some k" "k < as_npages as" "page_no as k = vpn va" "page_seg as k = Some seg"
    by (rule as_get_segment_eq [OF awf va])
  have "page_no as k * PAGE_SIZE + unat va mod PAGE_SIZE = unat va" using k(6) by (simp add: vpn_def)
  then have img: "image_byte content as v k (unat va mod PAGE_SIZE) =
      (if unat va < unat (seg_first_vaddr seg) + unat (seg_elf_size seg)
       then content v ! (nat (seg_elf_offset seg) + (unat va - unat (seg_first_vaddr seg))) else 0)"
    using k(3,7) by (simp add: image_byte_def Let_def in_segment_def word_le_nat_alt)
  have ph: "phdr_byte (content v) ph va = (if in_segment (phdr_segment ph) va then
      Some (if unat va < unat (p_vaddr ph) + unat (min (p_filesz ph) (p_memsz ph))
        then content v ! (unat (p_offset ph) + (unat va - unat (p_vaddr ph))) else 0) else None)"
    if "unat (p_vaddr ph) + unat (p_memsz ph) \<le> 0x7ffee000" for ph
  proof -
    have s: "unat (p_vaddr ph + p_memsz ph) = unat (p_vaddr ph) + unat (p_memsz ph)"
      using that by (intro unat_add_small) simp
    then have in_iff: "in_segment (phdr_segment ph) va \<longleftrightarrow>
        unat (p_vaddr ph) \<le> unat va \<and> unat va < unat (p_vaddr ph) + unat (p_memsz ph)"
      by (simp add: in_segment_def phdr_segment_def region_segment_def word_le_nat_alt word_less_nat_alt)
    have mn: "unat (min (p_filesz ph) (p_memsz ph)) = min (unat (p_filesz ph)) (unat (p_memsz ph))"
      by (simp add: min_def word_le_nat_alt)
    show ?thesis unfolding in_iff mn by (auto simp: phdr_byte_def Let_def)
  qed
  have seg: "as_get_segment as va = Some (if in_segment (phdr_segment ph1) va then phdr_segment ph1
      else if in_segment (phdr_segment ph2) va then phdr_segment ph2 else stack_segment)"
    using va by (auto simp: as as_regions_def as_get_segment_def as_get_segment_type_def in_as_def)
  have st: "in_segment stack_segment va \<longleftrightarrow> 0x7ffee000 \<le> unat va \<and> unat va < 2 ^ 31"
    by (simp add: in_segment_def stack_segment_def word_le_nat_alt word_less_nat_alt)
  have b: "unat (p_vaddr ph1) + unat (p_memsz ph1) \<le> 0x7ffee000" "unat (p_vaddr ph2) + unat (p_memsz ph2) \<le> 0x7ffee000"
    using ra by (simp_all add: regions_apart_def)
  have sel: "seg_first_vaddr (phdr_segment ph) = p_vaddr ph" "seg_elf_size (phdr_segment ph) = min (p_filesz ph) (p_memsz ph)"
    "seg_elf_offset (phdr_segment ph) = uint (p_offset ph)" for ph by (simp_all add: phdr_segment_def region_segment_def)
  consider "in_segment (phdr_segment ph1) va" | "\<not> in_segment (phdr_segment ph1) va" "in_segment (phdr_segment ph2) va"
    | "\<not> in_segment (phdr_segment ph1) va" "\<not> in_segment (phdr_segment ph2) va" by blast
  then have "exe_byte (content v) ph1 ph2 va = Some (image_byte content as v k (unat va mod PAGE_SIZE))"
  proof cases
    case 1
    then have "seg = phdr_segment ph1" using k(1) seg by simp
    with 1 show ?thesis unfolding img by (simp add: exe_byte_def ph [OF b(1)] sel)
  next
    case 2
    then have "seg = phdr_segment ph2" using k(1) seg by simp
    with 2 show ?thesis unfolding img by (simp add: exe_byte_def ph [OF b(1)] ph [OF b(2)] sel)
  next
    case 3
    then have "seg = stack_segment" using k(1) seg by simp
    moreover from this have "0x7ffee000 \<le> unat va \<and> unat va < 2 ^ 31" using k(3) st by simp
    ultimately show ?thesis
      using 3 unfolding img by (simp add: exe_byte_def ph [OF b(1)] ph [OF b(2)]) (simp add: stack_segment_def)
  qed
  with k(4,5) that show thesis by blast
qed

section \<open>Running a program\<close>

lemma vm_inv_new_table:
  assumes inv: "vm_inv vo content img ro tr None s" and fresh: "ptables s t = None" and tlb: "tlb_maps s = {}"
    and es: "\<And>e. e \<in> set es \<Longrightarrow> pt_status e = NOT_LOADED"
    and img: "\<And>p. fst p \<noteq> t \<Longrightarrow> img' p = img p \<and> ro' p = ro p"
  shows "vm_inv vo content img' ro' tr' None (s\<lparr>ptables := (ptables s)(t \<mapsto> es)\<rparr>)"
proof -
  let ?s = "s\<lparr>ptables := (ptables s)(t \<mapsto> es)\<rparr>"
  have old: "fst q \<noteq> t" if "pt_read s q = Some f" for q f using that fresh by (auto simp: pt_read_def split: option.splits)
  have same: "pt_read ?s q = pt_read s q" if "fst q \<noteq> t" for q using that by (simp add: pt_read_def)
  have new: "pt_status f = NOT_LOADED" if "pt_read ?s q = Some f" "fst q = t" for q f
    using that es by (auto simp: pt_read_def split: if_splits)
  have loaded: "pt_read ?s q = Some f \<longleftrightarrow> pt_read s q = Some f" if "pt_status f \<noteq> NOT_LOADED" for q f
    using that old [of q f] same [of q] new [of q f] by (cases "fst q = t") auto
  have o0: "owners_ok None s" and sl: "slots_ok s" and rok: "rdonly_ok img ro s" and tc: "tlb_coherent tr s"
    using inv by (simp_all add: vm_inv_def)
  have ow: "owned ?s = owned s" by (simp add: owned_def fun_eq_iff)
  have "owners_ok None ?s"
  proof (rule owners_okI)
    fix i p
    assume "owned ?s i p"
    then have o: "owned s i p" by (simp add: ow)
    then obtain e where e: "pt_read s p = Some e" "in_mem e" "pt_frame_index e = i" by (rule owner_entry [OF o0])
    then have "pt_read ?s p = Some e" using loaded [of e p] by (auto simp: in_mem_def)
    with e owners_okD(1) [OF o0 o] show "owner_ok None ?s i p" by (simp add: owner_ok_def)
  next
    fix p e
    assume e: "pt_read ?s p = Some e" "in_mem e"
    then have "pt_read s p = Some e" using loaded [of e p] by (auto simp: in_mem_def)
    with owners_okD(2) [OF o0] e(2) ow show "owned ?s (pt_frame_index e) p" by simp
  qed simp
  moreover have f: "swapmap ?s = swapmap s" "ram ?s = ram s" by simp_all
  have l2: "pt_read s q = Some f" if "pt_read ?s q = Some f" "pt_status f = IN_SWAP" for q f using that loaded [of f q] by simp
  have "slots_ok ?s" using sl l2 unfolding slots_ok_def f by blast
  moreover have "rdonly_ok img' ro' ?s"
    unfolding rdonly_ok_def f
  proof (intro allI impI)
    fix p e
    assume e: "pt_read ?s p = Some e"
    show "(pt_status e = IN_MEMORY_RDONLY \<longrightarrow> ro' p \<and>
        (\<forall>off < PAGE_SIZE. ram s (pt_frame_index e * PAGE_SIZE + off) = img' p off)) \<and>
        (pt_status e = IN_MEMORY \<or> pt_status e = IN_SWAP \<longrightarrow> \<not> ro' p)"
    proof (cases "pt_status e = NOT_LOADED")
      case False
      then have "pt_read s p = Some e" using loaded [of e p] e by simp
      moreover from this have "img' p = img p \<and> ro' p = ro p" using img old by blast
      ultimately show ?thesis using rok unfolding rdonly_ok_def by simp
    qed simp
  qed
  moreover have "tlb_maps ?s = {}" using tlb by (simp add: tlb_maps_def)
  then have "tlb_coherent tr' ?s" using tc by (simp add: tlb_coherent_def tlb_ok_def)
  ultimately show ?thesis using inv by (simp add: vm_inv_def swap_ok_def cm_ok_def)
qed

lemma proc_setas_eq:
  "curproc s = Some pid \<Longrightarrow> procs s pid = Some pr \<Longrightarrow>
     proc_setas a s = Some (s\<lparr>procs := (procs s)(pid \<mapsto> pr\<lparr>p_addrspace := a\<rparr>)\<rparr>)"
  by (simp add: proc_setas_def)

lemma set_vnode_eq:
  "curproc s = Some pid \<Longrightarrow> procs s pid = Some pr \<Longrightarrow>
     set_vnode v s = Some (s\<lparr>procs := (procs s)(pid \<mapsto> pr\<lparr>p_vnode := Some v\<rparr>)\<rparr>)"
  by (simp add: set_vnode_def)

text \<open>The state \<^verbatim>\<open>runprogram\<close> leaves, from the state \<open>s3\<close> in which the TLB has been flushed.\<close>

lemma runprogram_eq:
  fixes s :: "('f, 'a) kern_st_scheme"
  assumes reg: "regular_file vo content" and cur: "curproc s = Some pid" and pr: "procs s pid = Some pr"
    and no: "p_addrspace pr = None" and wf: "exe_wf (content v) ph1 ph2"
    and as: "as = as_regions (phdr_segment ph1) (phdr_segment ph2) (Some t)"
    and s2: "s2 = (vnode_incref v s)\<lparr>procs := (procs s)(pid \<mapsto>
        pr\<lparr>p_addrspace := Some \<lparr>as_text = None, as_data = None, as_stack = None, as_ptable = None\<rparr>\<rparr>)\<rparr>"
    and s3: "tlb_invalidate s2 = Some s3" and more: "vm_st.more s3 = vm_st.more s2"
  shows "runprogram vo (Inr v) True (\<lambda>_. True) True (Some t) s =
    Some (Inr (e_entry (exe_ehdr (content v)), USERSTACK),
      s3\<lparr>ptables := (ptables s3)(t \<mapsto> replicate (as_npages as) no_page),
         procs := (procs s)(pid \<mapsto> pr\<lparr>p_vnode := Some v, p_addrspace := Some as\<rparr>)\<rparr>)"
proof -
  note m = vm_more_sys [OF more]
  have ra: "regions_apart (p_vaddr ph1) (p_memsz ph1) (p_vaddr ph2) (p_memsz ph2)" using wf by (simp add: exe_wf_def)
  let ?as0 = "\<lparr>as_text = None, as_data = None, as_stack = None, as_ptable = None\<rparr>"
  let ?as2 = "\<lparr>as_text = Some (phdr_segment ph1), as_data = Some (phdr_segment ph2), as_stack = None, as_ptable = None\<rparr>"
  have ld: "load_elf vo v (\<lambda>_. True) ?as0 = Some (Inr (e_entry (exe_ehdr (content v))), ?as2)"
    using load_elf_eq [OF reg] wf define_regions_two [OF ra] by (simp add: exe_wf_def)
  have awf: "as_wf as" unfolding as phdr_segment_def by (rule as_regions_wf [OF ra])
  have np: "unat (seg_npages (phdr_segment ph2) + seg_npages (phdr_segment ph1) + seg_npages stack_segment) = as_npages as"
    by (rule as_npages_unat [OF awf]) (simp_all add: as as_regions_def)
  have pts: "pt_create True n = Some (replicate n no_page)" for n by (simp add: pt_create_def map_replicate_const)
  have ga: "proc_getas (vnode_incref v s) = None" "proc_setas (Some ?as0) (vnode_incref v s) = Some s2"
    using cur pr no by (simp_all add: vnode_incref_def proc_getas_def proc_setas_def s2)
  have act: "as_activate s2 = Some s3"
    using s3 cur by (simp add: as_activate_def proc_getas_def s2 vnode_incref_def)
  have pid: "curproc s3 = Some pid" "procs s3 pid = Some (pr\<lparr>p_addrspace := Some ?as0\<rparr>)"
    "procs s3 = (procs s)(pid \<mapsto> pr\<lparr>p_addrspace := Some ?as0\<rparr>)"
    using m cur by (simp_all add: s2 vnode_incref_def)
  have df: "as_define_pt (Some t) \<lparr>as_text = Some (phdr_segment ph1), as_data = Some (phdr_segment ph2),
        as_stack = Some stack_segment, as_ptable = None\<rparr> x =
      Some (as, x\<lparr>ptables := (ptables x)(t \<mapsto> replicate (as_npages as) no_page)\<rparr>)" for x :: "('f, 'a) kern_st_scheme"
    using np by (simp add: as_define_pt_def pts as as_regions_def Let_def)
  show ?thesis
    by (simp add: runprogram_def ga act ld as_create_def put_as_def pid proc_setas_eq set_vnode_eq as_define_stack_eq df Let_def)
qed

text \<open>A new process image: the table is fresh, so no other process has it.\<close>

lemma fresh_table:
  assumes ok: "procs_ok content img ro s" and fresh: "ptables s t = None" and h: "has_table s q pr' as' t'"
  shows "t' \<noteq> t"
proof
  assume "t' = t"
  have aok: "as_ok content img ro s pr' as' t'" using ok h unfolding procs_ok_def by blast
  then have "as_wf as'" by (simp add: as_ok_def)
  then have "0 < as_npages as'" by (rule as_wfE) (simp add: as_npages_def seg_wf_bounds(5))
  with aok have "\<exists>e. pt_read s (t', 0) = Some e" by (auto simp: as_ok_def)
  with fresh \<open>t' = t\<close> show False by (simp add: pt_read_def)
qed

lemma new_as_procs_ok:
  fixes s s' :: "('f, 'a) sys_st_scheme"
  assumes ok: "procs_ok content img ro s" and fresh: "ptables s t = None"
    and pt: "ptables s' = (ptables s)(t \<mapsto> replicate (as_npages as) no_page)"
    and pro: "procs s' = (procs s)(pid \<mapsto> pr)" "p_addrspace pr = Some as" "p_vnode pr = Some v" "as_ptable as = Some t"
    and awf: "as_wf as" and eo: "elf_ok content as v"
  shows "procs_ok content (\<lambda>p. if fst p = t then image_byte content as v (snd p) else img p)
    (\<lambda>p. if fst p = t then text_index as (snd p) else ro p) s'"
  unfolding procs_ok_def
proof (intro conjI allI impI)
  note other = fresh_table [OF ok fresh]
  have hp: "has_table s' pid pr' as' t' \<longleftrightarrow> pr' = pr \<and> as' = as \<and> t' = t" for pr' as' t'
    using pro by (auto simp: has_table_def)
  have hq: "has_table s' q pr' as' t' \<longleftrightarrow> has_table s q pr' as' t'" if "q \<noteq> pid" for q pr' as' t'
    using that pro by (simp add: has_table_def)
  have rdt: "pt_read s' (t, k) = (if k < as_npages as then Some no_page else None)" for k by (simp add: pt_read_def pt)
  have rdo: "pt_read s' (t', k) = pt_read s (t', k)" if "t' \<noteq> t" for t' k using that by (simp add: pt_read_def pt)
  {
    fix q pr' as' t'
    assume h: "has_table s' q pr' as' t'"
    show "as_ok content (\<lambda>p. if fst p = t then image_byte content as v (snd p) else img p)
      (\<lambda>p. if fst p = t then text_index as (snd p) else ro p) s' pr' as' t'"
    proof (cases "q = pid")
      case True
      then show ?thesis using h hp awf eo rdt pro(3) by (simp add: as_ok_def)
    next
      case False
      then have hs: "has_table s q pr' as' t'" using h hq by simp
      then have "as_ok content img ro s pr' as' t'" using ok unfolding procs_ok_def by blast
      then show ?thesis using other [OF hs] by (simp add: as_ok_def rdo)
    qed
  }
  fix q q' pr1 pr2 as1 as2 t'
  assume h: "has_table s' q pr1 as1 t'" "has_table s' q' pr2 as2 t'"
  show "q = q'"
  proof (cases "q = pid \<or> q' = pid")
    case True
    have "t' = t" using True h hp by auto
    then have "q = pid" "q' = pid" using h hq other by blast+
    then show ?thesis by simp
  next
    case False
    then show ?thesis using h hq ok unfolding procs_ok_def by blast
  qed
qed

lemma new_as_user_byte_other:
  fixes s s' :: "('f, 'a) sys_st_scheme"
  assumes ok: "procs_ok content img ro s" and fresh: "ptables s t = None" and pt: "ptables s' = (ptables s)(t \<mapsto> es)"
    and pro: "procs s' = (procs s)(pid \<mapsto> pr)" and q: "q \<noteq> pid" and "ram s' = ram s" and "swapfile s' = swapfile s"
  shows "user_byte content s' q va = user_byte content s q va"
proof (rule user_byte_as_of)
  show "as_of s' q = as_of s q" using q pro by (simp add: as_of_def)
  show "ptables s' t' = ptables s t'" if a: "as_of s q = Some (Some as', x)" "as_ptable as' = Some t'" for as' x t'
  proof -
    obtain pr' where "has_table s q pr' as' t'" by (rule as_of_table [OF a])
    from fresh_table [OF ok fresh this] pt show ?thesis by simp
  qed
qed (use assms in simp_all)

lemma new_as_user_byte:
  fixes s' :: "('f, 'a) sys_st_scheme"
  assumes ok: "procs_ok content img ro s'" and h: "has_table s' pid pr as t" and wf: "exe_wf (content v) ph1 ph2"
    and as: "as = as_regions (phdr_segment ph1) (phdr_segment ph2) (Some t)"
    and img: "\<And>k. img (t, k) = image_byte content as v k"
    and pt: "\<And>k. k < as_npages as \<Longrightarrow> pt_read s' (t, k) = Some no_page"
  shows "user_byte content s' pid va = exe_byte (content v) ph1 ph2 va"
proof (cases "in_as as va")
  case True
  obtain k where k: "pt_get_index as va = Some k" "k < as_npages as"
    "exe_byte (content v) ph1 ph2 va = Some (image_byte content as v k (unat va mod PAGE_SIZE))"
    by (rule image_byte_exe [where content = content and v = v, OF wf as True])
  have "page_val content img s' (t, k) (unat va mod PAGE_SIZE) = Some (image_byte content as v k (unat va mod PAGE_SIZE))"
    using pt [OF k(2)] img by (simp add: page_val_def)
  then show ?thesis using user_byte_eq [OF ok h k(1,2)] k(3) by simp
next
  case False
  have ra: "regions_apart (p_vaddr ph1) (p_memsz ph1) (p_vaddr ph2) (p_memsz ph2)" using wf by (simp add: exe_wf_def)
  have "as_wf as" unfolding as phdr_segment_def by (rule as_regions_wf [OF ra])
  then have "pt_get_index as va = None" using pt_get_index_in_as False by (cases "pt_get_index as va") blast+
  then have "user_byte content s' pid va = None" using h by (simp add: user_byte_def pt_get_entry_def has_table_def)
  moreover have "exe_byte (content v) ph1 ph2 va = None"
    using False in_as_regions [OF ra] by (auto simp: as phdr_segment_def exe_byte_def phdr_byte_def)
  ultimately show ?thesis by simp
qed

lemma runprogram_sys:
  fixes s :: "('f, 'a) kern_st_scheme"
  assumes inv: "sys_inv vo content s" and cur: "curproc s = Some pid" and pr: "procs s pid = Some pr"
    and no: "p_addrspace pr = None" and wf: "exe_wf (content v) ph1 ph2" and fresh: "ptables s t = None"
  obtains s' where "runprogram vo (Inr v) True (\<lambda>_. True) True (Some t) s =
      Some (Inr (e_entry (exe_ehdr (content v)), USERSTACK), s')"
    and "sys_inv vo content s'" and "curproc s' = curproc s"
    and "procs s' = (procs s)(pid \<mapsto> pr\<lparr>p_vnode := Some v,
           p_addrspace := Some (as_regions (phdr_segment ph1) (phdr_segment ph2) (Some t))\<rparr>)"
    and "\<And>q va. user_byte content s' q va =
      (if q = pid then exe_byte (content v) ph1 ph2 va else user_byte content s q va)"
    and "coremap s' = coremap s" and "tlb s' = tlb_empty" and "kproc s' = kproc s"
    and "vn_refcount s' = (vn_refcount s)(v := vn_refcount s v + 1)"
proof -
  obtain img ro where vi: "vm_inv vo content img ro (cur_tr s) None s" and ok: "procs_ok content img ro s"
    using inv by (auto simp: sys_inv_def)
  let ?as0 = "\<lparr>as_text = None, as_data = None, as_stack = None, as_ptable = None\<rparr>"
  define as where as: "as = as_regions (phdr_segment ph1) (phdr_segment ph2) (Some t)"
  define s2 where s2: "s2 = (vnode_incref v s)\<lparr>procs := (procs s)(pid \<mapsto> pr\<lparr>p_addrspace := Some ?as0\<rparr>)\<rparr>"
  have vm2: "same_vm s s2" by (simp add: same_vm_def s2 vnode_incref_def)
  obtain s3 where s3: "tlb_invalidate s2 = Some s3" "vm_inv vo content img ro None None s3" "tlb_same s2 s3" "tlb_maps s3 = {}"
    by (rule vm_inv_flush [OF vm_inv_same_vm [OF vm2 vi disjI2 [OF refl]]])
  note same = tlb_same_vm [OF s3(3)]
  note m = vm_more_sys [OF same(7)]
  let ?es = "replicate (as_npages as) no_page"
  let ?pr = "pr\<lparr>p_vnode := Some v, p_addrspace := Some as\<rparr>"
  let ?s = "s3\<lparr>ptables := (ptables s3)(t \<mapsto> ?es), procs := (procs s)(pid \<mapsto> ?pr)\<rparr>"
  have reg: "regular_file vo content" using vi by (simp add: vm_inv_def swap_ok_def)
  note run = runprogram_eq [OF reg cur pr no wf as s2 s3(1) same(7)]
  have pt3: "ptables s3 = ptables s" "ram s3 = ram s" "swapfile s3 = swapfile s" "curproc s3 = curproc s"
    using same m by (simp_all add: s2 vnode_incref_def)
  let ?img = "\<lambda>p. if fst p = t then image_byte content as v (snd p) else img p"
  let ?ro = "\<lambda>p. if fst p = t then text_index as (snd p) else ro p"
  have awf: "as_wf as" unfolding as phdr_segment_def by (rule as_regions_wf) (use wf in \<open>simp add: exe_wf_def\<close>)
  have vi': "vm_inv vo content ?img ?ro (cur_tr ?s) None ?s"
  proof (rule vm_inv_same_vm [OF _ vm_inv_new_table [OF s3(2) _ s3(4)]])
    show "same_vm (s3\<lparr>ptables := (ptables s3)(t \<mapsto> ?es)\<rparr>) ?s" by (simp add: same_vm_def)
    show "ptables s3 t = None" using fresh pt3 by simp
    show "cur_tr ?s = cur_tr ?s \<or> cur_tr ?s = None" by simp
  qed (auto simp: in_set_replicate)
  have eo: "elf_ok content as v" using wf by (auto simp: elf_ok_def as as_regions_def exe_wf_def seg_in_file_def
      phdr_segment_def region_segment_def)
  have apt: "as_ptable as = Some t" by (simp add: as as_regions_def)
  have ok': "procs_ok content ?img ?ro ?s"
    using pt3 apt awf eo by (intro new_as_procs_ok [OF ok fresh, where pid = pid and pr = ?pr]) simp_all
  have inv': "sys_inv vo content ?s" unfolding sys_inv_def by (intro exI conjI, rule vi', rule ok')
  have ub: "user_byte content ?s q va = (if q = pid then exe_byte (content v) ph1 ph2 va else user_byte content s q va)" for q va
    using new_as_user_byte [OF ok' _ wf as, of pid ?pr va] new_as_user_byte_other [OF ok fresh, of ?s ?es pid ?pr q va] pt3 apt
    by (simp add: has_table_def pt_read_def)
  have tl: "length (tlb s2) = NUM_TLB" using vi by (simp add: vm_inv_def tlb_coherent_def tlb_ok_def s2 vnode_incref_def)
  have rest: "coremap ?s = coremap s" "tlb ?s = tlb_empty" "kproc ?s = kproc s" "vn_refcount ?s = (vn_refcount s)(v := vn_refcount s v + 1)"
    using tlb_invalidate_eq [of s2] s3(1) tl by (auto simp: s2 vnode_incref_def)
  show thesis by (rule that [OF run inv' _ _ ub rest]) (simp_all add: pt3 as)
qed

end
