(* ===== verification/Paging.thy ===== *)
theory Paging
  imports Processes
begin

unbundle bit_operations_syntax

text \<open>
  The paging system as a whole. \<open>sys_step\<close> has one rule for each thing that can happen:
  the running program stores a byte or faults, it exits, another process gets the
  processor, the kernel takes or frees pages for itself, a process is created, runs a
  program, is waited for. \<open>flat_step\<close> is what the processes are promised, with
  no frames, no swap file and no TLB: each process has a memory of its own. The first
  refines the second.
\<close>

section \<open>Faults that are not handled\<close>

lemma vmstats_sys:
  fixes s :: "('f, 'a) sys_st_scheme"
  assumes inv: "sys_inv vo content s" and x: "length x = 10"
  shows "sys_inv vo content (s\<lparr>vmstats := x\<rparr>)" and "user_byte content (s\<lparr>vmstats := x\<rparr>) = user_byte content s"
proof -
  obtain img ro where vi: "vm_inv vo content img ro (cur_tr s) None s" and ok: "procs_ok content img ro s"
    using inv by (auto simp: sys_inv_def)
  from sys_inv_more [OF vm_inv_vmstats [OF vi x] ok]
  show "sys_inv vo content (s\<lparr>vmstats := x\<rparr>)" "user_byte content (s\<lparr>vmstats := x\<rparr>) = user_byte content s" by simp_all
qed

lemma sys_inv_len: "sys_inv vo content s \<Longrightarrow> length (vmstats s) = 10"
  by (auto simp: sys_inv_def vm_inv_def swap_ok_def)

abbreviation (input) hit_fault :: "('f, 'a) sys_st_scheme \<Rightarrow> ('f, 'a) sys_st_scheme" where
  "hit_fault s \<equiv> s\<lparr>vmstats := stat_add VMSTAT_TLB_FAULT (vmstats s)\<rparr>"

lemma vm_fault_readonly:
  "vm_fault vo VM_FAULT_READONLY va s = map_option (Pair Exited) (sys__exit (- 1) (hit_fault s))"
  by (cases "sys__exit (- 1) (hit_fault s)") (simp_all add: vm_fault_def vmstats_hit_add Let_def)

lemma user_byte_in_as:
  assumes ok: "procs_ok content img ro s" and h: "has_table s pid pr as t"
  shows "user_byte content s pid va \<noteq> None \<longleftrightarrow> in_as as va"
proof -
  have aok: "as_ok content img ro s pr as t" using ok h unfolding procs_ok_def by blast
  then have wf: "as_wf as" by (simp add: as_ok_def)
  show ?thesis
  proof
    assume "user_byte content s pid va \<noteq> None"
    then obtain b where b: "user_byte content s pid va = Some b" by blast
    obtain pr' as' t' where "has_table s pid pr' as' t'" "in_as as' va" by (rule user_byteE [OF ok b])
    with h show "in_as as va" by (simp add: has_table_def)
  next
    assume "in_as as va"
    then obtain k where k: "pt_get_index as va = Some k" "k < as_npages as" using pt_get_index_spec [OF wf] by metis
    then obtain e where "pt_read s (t, k) = Some e" using aok unfolding as_ok_def by blast
    with user_byte_eq [OF ok h k] show "user_byte content s pid va \<noteq> None" by (simp add: page_val_def)
  qed
qed

text \<open>An access outside the segments ends the process.\<close>

lemma vm_fault_outside:
  fixes s :: "('f, 'a) sys_st_scheme"
  assumes cur: "curproc s = Some pid" and h: "has_table s pid pr as t" and wf: "as_wf as" and out: "\<not> in_as as va"
    and ft: "ft = VM_FAULT_READ \<or> ft = VM_FAULT_WRITE"
  shows "vm_fault vo ft va s = map_option (Pair Exited) (sys__exit (- 1) (hit_fault s))"
proof -
  have "as_get_segment_type as va = Some SEGMENT_NONE"
    using as_get_segment_type_total [OF wf, of va] out by (metis option.inject)
  moreover have "as_data as \<noteq> None" "as_stack as \<noteq> None" "as_text as \<noteq> None" using wf by (auto elim: as_wfE)
  moreover have "as_ptable as \<noteq> None" "curproc (hit_fault s) = Some pid" "proc_getas (hit_fault s) = Some as"
    using cur h by (simp_all add: has_table_def proc_getas_def)
  ultimately show ?thesis
    using ft by (cases "sys__exit (- 1) (hit_fault s)") (auto simp: vm_fault_def vmstats_hit_add Let_def)
qed

lemma exit_fault_sys:
  fixes s :: "('f, 'a) sys_st_scheme"
  assumes inv: "sys_inv vo content s" and run: "map_option (Pair Exited) (sys__exit st (hit_fault s)) = Some (r, s')"
  shows "sys_inv vo content s'" and "user_byte content s' = user_byte content s" and "curproc s' = None"
proof -
  have x: "sys__exit st (hit_fault s) = Some s'" using run by auto
  have l: "length (stat_add VMSTAT_TLB_FAULT (vmstats s)) = 10" using sys_inv_len [OF inv] by simp
  note v = vmstats_sys [OF inv l]
  from sys_exit_sys [OF v(1) x] v(2)
  show "sys_inv vo content s'" "user_byte content s' = user_byte content s" "curproc s' = None" by simp_all
qed

text \<open>Whatever the fault, if the handler comes back the memory of every process is the same.\<close>

lemma vm_fault_any:
  fixes s :: "('f, 'a) sys_st_scheme"
  assumes inv: "sys_inv vo content s" and cur: "curproc s = Some pid" and run: "vm_fault vo ft va s = Some (r, s')"
    and ft: "ft = VM_FAULT_READONLY \<or> (ft = VM_FAULT_READ \<or> ft = VM_FAULT_WRITE) \<and> tlb_lookup s va = None"
  shows "sys_inv vo content s' \<and> user_byte content s' = user_byte content s \<and>
    (curproc s' = curproc s \<or> r = Exited \<and> curproc s' = None \<and>
       (ft = VM_FAULT_READONLY \<or> user_byte content s pid va = None))"
proof (cases "ft = VM_FAULT_READONLY")
  case True
  with run have run': "map_option (Pair Exited) (sys__exit (- 1) (hit_fault s)) = Some (r, s')"
    by (simp add: vm_fault_readonly)
  then have "r = Exited" by auto
  with exit_fault_sys [OF inv run'] True show ?thesis by simp
next
  case False
  then have rw: "ft = VM_FAULT_READ \<or> ft = VM_FAULT_WRITE" and miss: "tlb_lookup s va = None" using ft by simp_all
  obtain img ro where ok: "procs_ok content img ro s" using inv by (auto simp: sys_inv_def)
  have l: "length (stat_add VMSTAT_TLB_FAULT (vmstats s)) = 10" using sys_inv_len [OF inv] by simp
  show ?thesis
  proof (cases "proc_getas s")
    case None
    then have "s' = hit_fault s"
      using run rw cur by (auto simp: vm_fault_def vmstats_hit_add Let_def proc_getas_def)
    with vmstats_sys [OF inv l] show ?thesis by simp
  next
    case (Some as)
    then obtain pr where pr: "procs s pid = Some pr" "p_addrspace pr = Some as"
      using cur by (auto simp: proc_getas_def elim!: bind_eq_SomeE)
    have "as_ptable as \<noteq> None"
    proof
      assume "as_ptable as = None"
      moreover have "curproc (hit_fault s) = Some pid" "proc_getas (hit_fault s) = Some as"
        using cur Some by (simp_all add: proc_getas_def)
      ultimately show False using run rw by (auto simp: vm_fault_def vmstats_hit_add Let_def kassert_def split: if_splits)
    qed
    then obtain t where h: "has_table s pid pr as t" using pr by (auto simp: has_table_def)
    show ?thesis
    proof (cases "in_as as va")
      case True
      then obtain b where b: "user_byte content s pid va = Some b" using user_byte_in_as [OF ok h] by auto
      from vm_fault_sys [OF inv cur b rw miss] run show ?thesis by auto
    next
      case False
      have none: "user_byte content s pid va = None" using user_byte_in_as [OF ok h, of va] False by blast
      have wf: "as_wf as" using ok h unfolding procs_ok_def as_ok_def by blast
      have run': "map_option (Pair Exited) (sys__exit (- 1) (hit_fault s)) = Some (r, s')"
        using run vm_fault_outside [OF cur h wf False rw] by simp
      then have "r = Exited" by auto
      with exit_fault_sys [OF inv run'] none show ?thesis by simp
    qed
  qed
qed

lemma bad_fault_exits:
  fixes s :: "('f, 'a) sys_st_scheme"
  assumes "sys_inv vo content s" and "curproc s = Some pid" and "has_table s pid pr as t"
    and "0 < p_numthreads pr" and "p_sem pr = Some n"
    and "ft = VM_FAULT_READONLY \<or> (ft = VM_FAULT_READ \<or> ft = VM_FAULT_WRITE) \<and> user_byte content s pid va = None"
  shows "vm_fault vo ft va s = Some (Exited, s\<lparr>vmstats := stat_add VMSTAT_TLB_FAULT (vmstats s),
    procs := (procs s)(pid \<mapsto> pr\<lparr>status := 255, p_numthreads := p_numthreads pr - 1, p_sem := Some (n + 1)\<rparr>),
    curproc := None\<rparr>)"
proof -
  obtain img ro where ok: "procs_ok content img ro s" using assms(1) by (auto simp: sys_inv_def)
  have pr: "procs s pid = Some pr" using assms(3) by (simp add: has_table_def)
  have x: "sys__exit (- 1) (hit_fault s) = Some ((hit_fault s)\<lparr>
      procs := (procs s)(pid \<mapsto> pr\<lparr>status := 255, p_numthreads := p_numthreads pr - 1, p_sem := Some (n + 1)\<rparr>),
      curproc := None\<rparr>)"
    using sys__exit_eq [of "hit_fault s" pid pr n "- 1"] assms(2,4,5) pr by simp
  show ?thesis
  proof (cases "ft = VM_FAULT_READONLY")
    case True
    then show ?thesis using x by (simp add: vm_fault_readonly)
  next
    case False
    then have ft: "ft = VM_FAULT_READ \<or> ft = VM_FAULT_WRITE" and none: "user_byte content s pid va = None"
      using assms(6) by auto
    have wf: "as_wf as" using ok assms(3) unfolding procs_ok_def as_ok_def by blast
    have "\<not> in_as as va" using user_byte_in_as [OF ok assms(3), of va] none by blast
    from vm_fault_outside [OF assms(2,3) wf this ft] x show ?thesis by simp
  qed
qed

section \<open>Process creation and waiting\<close>

lemma proc_create_sys:
  fixes s :: "('f, 'a) kern_st_scheme"
  assumes inv: "sys_inv vo content s" and fresh: "procs s pid = None" "curproc s \<noteq> Some pid"
    and run: "proc_create_runprogram (Some pid) ks sem name s = Some (r, s')"
  shows "sys_inv vo content s'" and "user_byte content s' = user_byte content s" and "curproc s' = curproc s"
proof -
  have "same_vm s s' \<and> curproc s' = curproc s \<and>
    (\<forall>q. as_of s' q = (if q = pid \<and> procs s' pid \<noteq> None then Some (None, None) else as_of s q))"
    using run fresh
    by (auto simp: proc_create_runprogram_def proc_create_def vnode_incref_def same_vm_def as_of_def Let_def
        split: if_splits option.splits elim!: bind_eq_SomeE)
  then have vm: "same_vm s s'" and c: "curproc s' = curproc s"
    and as: "\<And>q. as_of s' q = (if q = pid \<and> procs s' pid \<noteq> None then Some (None, None) else as_of s q)" by blast+
  show "curproc s' = curproc s" by (rule c)
  have no: "as_of s' pid \<noteq> Some (Some a, v)" for a v using as [of pid] fresh(1) by (simp add: as_of_def)
  note n = sys_inv_no_as [OF inv vm c fresh(2) _ no]
  show "sys_inv vo content s'" by (rule n(1)) (simp add: as)
  have "user_byte content s pid va = None" for va using fresh(1) by (simp add: user_byte_def)
  then show "user_byte content s' = user_byte content s" using n(2) as by (simp add: fun_eq_iff)
qed

lemma proc_addthread_sys:
  fixes s :: "('f, 'a) kern_st_scheme"
  assumes inv: "sys_inv vo content s" and run: "proc_addthread pid t s = Some (r, s')"
  shows "sys_inv vo content s'" and "user_byte content s' = user_byte content s" and "curproc s' = curproc s"
proof -
  obtain pr where pr: "procs s pid = Some pr"
    "s' = s\<lparr>procs := (procs s)(pid \<mapsto> pr\<lparr>p_numthreads := p_numthreads pr + 1\<rparr>)\<rparr>"
    using run by (auto simp: proc_addthread_def elim!: bind_eq_SomeE)
  then have "same_vm s s'" "same_as s s'" by (simp_all add: same_vm_def same_as_def)
  moreover have "cur_tr s' = cur_tr s"
    using pr by (cases "curproc s") (auto simp: cur_tr_def proc_getas_def)
  ultimately show "sys_inv vo content s'" "user_byte content s' = user_byte content s" "curproc s' = curproc s"
    using sys_inv_same_vm [OF inv] pr(2) by simp_all
qed

text \<open>What must have been the case when \<^verbatim>\<open>proc_wait\<close> comes back.\<close>

lemma proc_waitE:
  assumes "proc_wait pid s = Some (st, s')"
  obtains pr n where "procs s pid = Some pr" and "pid \<noteq> kproc s" and "p_sem pr = Some n" and "0 < n"
    and "refs_ok pr (vn_refcount s)" and "\<And>as. p_addrspace pr = Some as \<Longrightarrow> as_ptable as \<noteq> None"
proof -
  obtain pr n where p: "procs s pid = Some pr" "pid \<noteq> kproc s" "p_sem pr = Some n" "0 < n"
    and d: "proc_destroy pid (s\<lparr>procs := (procs s)(pid \<mapsto> pr\<lparr>p_sem := Some (n - 1)\<rparr>)\<rparr>) \<noteq> None"
    using assms by (auto simp: proc_wait_def Let_def elim!: bind_eq_SomeE)
  have "refs_ok pr (vn_refcount s)"
    using d by (auto simp: proc_destroy_def vfs_close_def vnode_decref_def refs_ok_def kassert_def
        split: option.splits if_splits elim!: bind_eq_SomeE)
  moreover have "as_ptable as \<noteq> None" if "p_addrspace pr = Some as" for as
    using d that by (auto simp: proc_destroy_def as_destroy_def Let_def vfs_close_def vnode_decref_def kassert_def
        split: option.splits if_splits elim!: bind_eq_SomeE)
  ultimately show thesis using p that by blast
qed

lemma proc_wait_any:
  fixes s :: "('f, 'a) kern_st_scheme"
  assumes inv: "sys_inv vo content s" and cur: "curproc s \<noteq> Some pid" and run: "proc_wait pid s = Some (st, s')"
  shows "sys_inv vo content s' \<and> curproc s' = curproc s \<and>
    (\<forall>q va. user_byte content s' q va = (if q = pid then None else user_byte content s q va))"
proof -
  obtain pr n where p: "procs s pid = Some pr" "pid \<noteq> kproc s" "p_sem pr = Some n" "0 < n"
    "refs_ok pr (vn_refcount s)" "\<And>as. p_addrspace pr = Some as \<Longrightarrow> as_ptable as \<noteq> None"
    using proc_waitE [OF run] by blast
  show ?thesis
  proof (cases "p_addrspace pr")
    case (Some as)
    then obtain t where h: "has_table s pid pr as t" using p(1,6) by (auto simp: has_table_def)
    obtain s1 where s1: "proc_wait pid s = (if p_numthreads pr = 0 then Some (status pr, s1) else None)"
      "sys_inv vo content s1" "curproc s1 = curproc s"
      "\<And>q va. user_byte content s1 q va = (if q = pid then None else user_byte content s q va)"
      by (rule proc_wait_sys [OF inv h p(5,2) cur p(3,4)]) blast
    from s1(1) run have "s1 = s'" by (simp split: if_splits)
    with s1(2-) show ?thesis by blast
  next
    case None
    let ?pr = "pr\<lparr>p_sem := Some (n - 1)\<rparr>" let ?s0 = "s\<lparr>procs := (procs s)(pid \<mapsto> ?pr)\<rparr>"
    let ?s2 = "?s0\<lparr>vn_refcount := drop_refs ?pr (vn_refcount ?s0),
                 procs := (procs ?s0)(pid \<mapsto> ?pr\<lparr>p_cwd := None, p_addrspace := None\<rparr>)\<rparr>"
    have "refs_ok ?pr (vn_refcount ?s0)" using p(5) by (simp add: refs_ok_def)
    then have "proc_destroy pid ?s0 =
        (if p_numthreads ?pr = 0 then Some (?s2\<lparr>procs := (procs ?s0)(pid := None)\<rparr>) else None)"
      using p cur None by (intro proc_destroy_eq [where pr = ?pr]) simp_all
    then have "s' = ?s2\<lparr>procs := (procs s)(pid := None)\<rparr>"
      using run p by (simp add: proc_wait_def Let_def split: if_splits)
    then have same: "same_vm s s' \<and> curproc s' = curproc s \<and> procs s' = (procs s)(pid := None)"
      by (simp add: same_vm_def)
    then have as: "as_of s' q = (if q = pid then None else as_of s q)" for q by (simp add: as_of_def)
    have "sys_inv vo content s'" "user_byte content s' q va = (if q = pid then None else user_byte content s q va)" for q va
      using same cur by (intro sys_inv_no_as [OF inv, where pid = pid]; simp add: as)+
    with same show ?thesis by blast
  qed
qed

section \<open>The steps of the system\<close>

datatype 'f event =
    Store vaddr byte | Fault nat vaddr | Exit int | Switch nat | Kalloc nat | Kfree nat
  | Create nat | Start nat | Run 'f | Wait nat

inductive sys_step ::
  "'f vnode_ops \<Rightarrow> ('f \<Rightarrow> byte list) \<Rightarrow> ('f, 'a) kern_st_scheme \<Rightarrow> 'f event \<Rightarrow> ('f, 'a) kern_st_scheme \<Rightarrow> bool"
  for vo content where
  store: "curproc s = Some pid \<Longrightarrow> proc_getas s \<noteq> None \<Longrightarrow> user_store va b s = Some s' \<Longrightarrow>
    sys_step vo content s (Store va b) s'"
| fault: "curproc s = Some pid \<Longrightarrow> vm_fault vo ft va s = Some (r, s') \<Longrightarrow>
    ft = VM_FAULT_READONLY \<or> (ft = VM_FAULT_READ \<or> ft = VM_FAULT_WRITE) \<and> tlb_lookup s va = None \<Longrightarrow>
    sys_step vo content s (Fault ft va) s'"
| exit: "sys__exit st s = Some s' \<Longrightarrow> sys_step vo content s (Exit st) s'"
| switch: "procs s pid = Some pr \<Longrightarrow> 0 < p_numthreads pr \<Longrightarrow> switch_to pid s = Some s' \<Longrightarrow>
    sys_step vo content s (Switch pid) s'"
| kalloc: "0 < n \<Longrightarrow> n < 2 ^ 20 \<Longrightarrow> alloc_kpages vo n s = Some (va, s') \<Longrightarrow> sys_step vo content s (Kalloc n) s'"
| kfree: "kernel_block s b \<Longrightarrow> free_kpages (PADDR_TO_KVADDR (frame_addr b)) s = Some s' \<Longrightarrow>
    sys_step vo content s (Kfree b) s'"
| create: "procs s pid = None \<Longrightarrow> curproc s \<noteq> Some pid \<Longrightarrow>
    proc_create_runprogram (Some pid) ks sem name s = Some (r, s') \<Longrightarrow> sys_step vo content s (Create pid) s'"
| start: "proc_addthread pid None s = Some (r, s') \<Longrightarrow> sys_step vo content s (Start pid) s'"
| run: "curproc s = Some pid \<Longrightarrow> exe_wf (content v) ph1 ph2 \<Longrightarrow> ptables s t = None \<Longrightarrow>
    runprogram vo (Inr v) True (\<lambda>_. True) True (Some t) s = Some (Inr ep, s') \<Longrightarrow>
    sys_step vo content s (Run v) s'"
| wait: "curproc s = Some (kproc s) \<Longrightarrow> proc_wait pid s = Some (st, s') \<Longrightarrow> sys_step vo content s (Wait pid) s'"

text \<open>What the processes see of a state: which one runs and what is in the memory of each.\<close>

record flat =
  f_cur :: "nat option"
  f_mem :: "nat \<Rightarrow> vaddr \<Rightarrow> byte option"

definition flat_of :: "('f \<Rightarrow> byte list) \<Rightarrow> ('f, 'a) kern_st_scheme \<Rightarrow> flat" where
  "flat_of content s = \<lparr>f_cur = curproc s, f_mem = user_byte content s\<rparr>"

text \<open>A store to an address the process does not have is possible beside a segment, and changes nothing.\<close>

definition flat_store :: "nat \<Rightarrow> vaddr \<Rightarrow> byte \<Rightarrow> (nat \<Rightarrow> vaddr \<Rightarrow> byte option) \<Rightarrow> nat \<Rightarrow> vaddr \<Rightarrow> byte option" where
  "flat_store pid va b m q x = (if q = pid \<and> x = va \<and> m q x \<noteq> None then Some b else m q x)"

inductive flat_step :: "('f \<Rightarrow> byte list) \<Rightarrow> flat \<Rightarrow> 'f event \<Rightarrow> flat \<Rightarrow> bool" for content where
  "f_cur f = Some pid \<Longrightarrow> flat_step content f (Store va b) (f\<lparr>f_mem := flat_store pid va b (f_mem f)\<rparr>)"
| "flat_step content f (Fault ft va) f"
| "f_cur f = Some pid \<Longrightarrow> ft = VM_FAULT_READONLY \<or> f_mem f pid va = None \<Longrightarrow>
    flat_step content f (Fault ft va) (f\<lparr>f_cur := None\<rparr>)"
| "flat_step content f (Exit st) (f\<lparr>f_cur := None\<rparr>)"
| "flat_step content f (Switch pid) (f\<lparr>f_cur := Some pid\<rparr>)"
| "flat_step content f (Kalloc n) f"
| "flat_step content f (Kfree n) f"
| "flat_step content f (Create pid) f"
| "flat_step content f (Start pid) f"
| "f_cur f = Some pid \<Longrightarrow> exe_wf (content v) ph1 ph2 \<Longrightarrow>
    flat_step content f (Run v) (f\<lparr>f_mem := (f_mem f)(pid := exe_byte (content v) ph1 ph2)\<rparr>)"
| "flat_step content f (Wait pid) (f\<lparr>f_mem := (f_mem f)(pid := \<lambda>_. None)\<rparr>)"

lemma flat_of_same:
  "curproc s' = curproc s \<Longrightarrow> user_byte content s' = user_byte content s \<Longrightarrow> flat_of content s' = flat_of content s"
  by (simp add: flat_of_def)

lemma runprogram_idle:
  assumes "runprogram vo (Inr v) True km True (Some t) s = Some (Inr ep, s')" and "curproc s = Some pid"
  obtains pr where "procs s pid = Some pr" and "p_addrspace pr = None"
proof -
  have g: "proc_getas (vnode_incref v s) = None" and p: "proc_setas a (vnode_incref v s) \<noteq> None" for a
    using assms(1) by (auto simp: runprogram_def as_create_def proc_setas_def Let_def kassert_def split: if_splits elim!: bind_eq_SomeE)
  then show thesis using assms(2) that by (auto simp: proc_getas_def proc_setas_def vnode_incref_def split: bind_splits)
qed

lemma sys_step_refines:
  assumes inv: "sys_inv vo content s" and step: "sys_step vo content s ev s'"
  shows "sys_inv vo content s' \<and> flat_step content (flat_of content s) ev (flat_of content s')"
  using step
proof cases
  case (store pid va b)
  note st = user_store_correct [OF inv store(2,3,4)]
  have "flat_of content s' = (flat_of content s)\<lparr>f_mem := flat_store pid va b (f_mem (flat_of content s))\<rparr>"
    using st(2,4) by (simp add: flat_of_def flat_store_def fun_eq_iff)
  moreover have "f_cur (flat_of content s) = Some pid" using store by (simp add: flat_of_def)
  ultimately show ?thesis using st(1) store(1) flat_step.intros(1) by metis
next
  case (fault pid ft va r)
  note f = vm_fault_any [OF inv fault(2,3,4)]
  then have "flat_of content s' = flat_of content s \<or> flat_of content s' = (flat_of content s)\<lparr>f_cur := None\<rparr> \<and>
      (ft = VM_FAULT_READONLY \<or> f_mem (flat_of content s) pid va = None)"
    by (auto simp: flat_of_def)
  moreover have "f_cur (flat_of content s) = Some pid" using fault(2) by (simp add: flat_of_def)
  ultimately show ?thesis using f fault(1) flat_step.intros(2,3) by metis
next
  case (exit st)
  note e = sys_exit_sys [OF inv exit(2)]
  then have "flat_of content s' = (flat_of content s)\<lparr>f_cur := None\<rparr>" by (simp add: flat_of_def)
  with e(1) exit(1) show ?thesis by (auto intro: flat_step.intros)
next
  case (switch pid pr)
  obtain s1 where s1: "switch_to pid s = Some s1" "sys_inv vo content s1" "user_byte content s1 = user_byte content s"
    "curproc s1 = Some pid" by (rule switch_sys [OF inv])
  then have "flat_of content s' = (flat_of content s)\<lparr>f_cur := Some pid\<rparr>" using switch(4) by (simp add: flat_of_def)
  with s1 switch(1,4) show ?thesis by (auto intro: flat_step.intros)
next
  case (kalloc n va)
  note k = alloc_kpages_sys [OF inv kalloc(2,3,4)]
  with kalloc(1) flat_of_same [OF k(4,2)] show ?thesis by (auto intro: flat_step.intros)
next
  case (kfree b)
  obtain s1 where s1: "free_kpages (PADDR_TO_KVADDR (frame_addr b)) s = Some s1" "sys_inv vo content s1"
    "user_byte content s1 = user_byte content s" "curproc s1 = curproc s" by (rule free_kpages_sys [OF inv kfree(2)])
  with kfree(1,3) flat_of_same [OF s1(4,3)] show ?thesis by (auto intro: flat_step.intros)
next
  case (create pid ks sem name r)
  note c = proc_create_sys [OF inv create(2,3,4)]
  with create(1) flat_of_same [OF c(3,2)] show ?thesis by (auto intro: flat_step.intros)
next
  case (start pid r)
  note c = proc_addthread_sys [OF inv start(2)]
  with start(1) flat_of_same [OF c(3,2)] show ?thesis by (auto intro: flat_step.intros)
next
  case (run pid v ph1 ph2 t ep)
  obtain pr where pr: "procs s pid = Some pr" "p_addrspace pr = None" by (rule runprogram_idle [OF run(5,2)])
  obtain s1 where s1: "runprogram vo (Inr v) True (\<lambda>_. True) True (Some t) s =
      Some (Inr (e_entry (exe_ehdr (content v)), USERSTACK), s1)" "sys_inv vo content s1" "curproc s1 = curproc s"
    "\<And>q va. user_byte content s1 q va = (if q = pid then exe_byte (content v) ph1 ph2 va else user_byte content s q va)"
    by (rule runprogram_sys [OF inv run(2) pr run(3,4)]) blast
  have eq: "s1 = s'" using s1(1) run(5) by simp
  then have "flat_of content s' = (flat_of content s)\<lparr>f_mem := (f_mem (flat_of content s))(pid := exe_byte (content v) ph1 ph2)\<rparr>"
    using s1(3,4) by (simp add: flat_of_def fun_eq_iff)
  moreover have "f_cur (flat_of content s) = Some pid" using run(2) by (simp add: flat_of_def)
  ultimately show ?thesis using s1(2) eq run(1,3) flat_step.intros(10) by metis
next
  case (wait pid st)
  then have "curproc s \<noteq> Some pid" by (auto elim: proc_waitE)
  note w = proc_wait_any [OF inv this wait(3)]
  then have "flat_of content s' = (flat_of content s)\<lparr>f_mem := (f_mem (flat_of content s))(pid := \<lambda>_. None)\<rparr>"
    by (simp add: flat_of_def fun_eq_iff)
  with w wait(1) show ?thesis by (auto intro: flat_step.intros)
qed

interpretation paging: simulation "sys_inv vo content" "sys_step vo content" "flat_step content" "flat_of content"
  for vo content
  by unfold_locales (rule sys_step_refines)

text \<open>In the flat model a process changes its own memory only.\<close>

lemma flat_step_isolated:
  assumes "flat_step content f ev f'" and "f_cur f \<noteq> Some q" and "ev \<noteq> Wait q"
  shows "f_mem f' q = f_mem f q"
  using assms by (cases rule: flat_step.cases) (auto simp: flat_store_def fun_eq_iff)

lemma flat_run_isolated:
  assumes "run (flat_step content) f evs f'" and "f_cur f \<noteq> Some q" and "Wait q \<notin> set evs" and "Switch q \<notin> set evs"
  shows "f_mem f' q = f_mem f q \<and> f_cur f' \<noteq> Some q"
  using assms
proof (induction evs arbitrary: f)
  case (Cons ev evs)
  then obtain f1 where f1: "flat_step content f ev f1" "run (flat_step content) f1 evs f'" by auto
  have "f_mem f1 q = f_mem f q" using f1(1) Cons.prems by (intro flat_step_isolated) auto
  moreover have "f_cur f1 \<noteq> Some q" using f1(1) Cons.prems by (cases rule: flat_step.cases) auto
  ultimately show ?case using Cons.IH [OF f1(2)] Cons.prems by simp
qed simp

end
