(* ===== verification/Boot.thy ===== *)
theory Boot
  imports Paging
begin

text \<open>
  Boot and the whole memory system. \<open>vm_bootstrap\<close> (\<open>vm/vm.c\<close>) runs after
  \<open>coremap_bootstrap\<close> (called from \<open>ram_bootstrap\<close>), and the state the two leave satisfies
  the invariant of the memory system, so every run from boot refines the flat model of
  \<open>Paging\<close>. A small machine and a small executable make the properties concrete.
\<close>

definition vm_bootstrap ::
  "errno + 'f \<Rightarrow> bool \<Rightarrow> bool \<Rightarrow> ('f, 'a) vm_st_scheme \<Rightarrow> ('f, 'a) vm_st_scheme option" where
  "vm_bootstrap opened kmalloc_b kmalloc_v s = swap_bootstrap opened kmalloc_b kmalloc_v s"

section \<open>The boot coremap\<close>

definition boot_coremap :: "nat \<Rightarrow> nat \<Rightarrow> cm_entry list" where
  "boot_coremap n k = map (\<lambda>j. \<lparr>cm_free = j < k, cm_size_alloc = (if j < k then 1 else 0),
                                cm_lock = False, cm_ptentry = None\<rparr>) [0..<n]"

lemma boot_coremap_simps [simp]:
  "length (boot_coremap n k) = n"
  "j < n \<Longrightarrow> boot_coremap n k ! j = \<lparr>cm_free = j < k, cm_size_alloc = (if j < k then 1 else 0),
     cm_lock = False, cm_ptentry = None\<rparr>"
  by (simp_all add: boot_coremap_def)

lemma frames_ok_boot: "frames_ok (boot_coremap n k)"
  by (auto simp: frames_ok_def split: if_splits)

lemma mark_boot:
  assumes "k \<le> n"
  shows "fold (\<lambda>i cm. cm[i := (cm ! i)\<lparr>cm_free := True, cm_size_alloc := 1\<rparr>]) [0..<k]
    (replicate n \<lparr>cm_free = False, cm_size_alloc = 0, cm_lock = False, cm_ptentry = None\<rparr>) = boot_coremap n k"
  (is "fold ?m _ ?r = _")
proof (rule nth_equalityI)
  have k: "0 + k \<le> length ?r" using assms by simp
  note f = fold_update_nth [where f = "\<lambda>e :: cm_entry. e\<lparr>cm_free := True, cm_size_alloc := 1\<rparr>", OF k, unfolded add_0]
  show "length (fold ?m [0..<k] ?r) = length (boot_coremap n k)" using f(1) by simp
  fix j assume "j < length (fold ?m [0..<k] ?r)"
  then show "fold ?m [0..<k] ?r ! j = boot_coremap n k ! j" using f by simp
qed

lemma coremap_bootstrap_eq:
  assumes "coremap_bootstrap ramsize firstfree entry_size s = Some s'"
  obtains n k where "s' = s\<lparr>coremap := boot_coremap n k\<rparr>" and "n \<le> 2 ^ 17" and "k \<le> n"
    and "unat (KVADDR_TO_PADDR firstfree) \<le> k * PAGE_SIZE"
proof -
  define last where "last = (if ramsize > 512 * 1024 * 1024 then 512 * 1024 * 1024 else ramsize)"
  define n where "n = unat last div PAGE_SIZE"
  define m where "m = (entry_size * n + PAGE_SIZE - 1) div PAGE_SIZE"
  define p where "p = unat (KVADDR_TO_PADDR firstfree)"
  note b = assms [unfolded coremap_bootstrap_def Let_def, folded last_def, folded n_def, folded m_def, folded p_def]
  have kn: "p div PAGE_SIZE + m \<le> n" and al: "p mod PAGE_SIZE = 0"
    using b by (auto simp only: kassert_def split: if_splits bind_splits)
  have "s' = s\<lparr>coremap := boot_coremap n (p div PAGE_SIZE + m)\<rparr>"
    using b unfolding mark_boot [OF kn] by (simp only: kassert_def split: if_splits) auto
  moreover have "last \<le> 512 * 1024 * 1024" by (auto simp: last_def not_less)
  then have "n \<le> 2 ^ 17" by (simp add: word_le_nat_alt n_def)
  moreover have "p \<le> (p div PAGE_SIZE + m) * PAGE_SIZE" using div_mult_mod_eq [of p PAGE_SIZE] al by (simp only: add_mult_distrib)
  ultimately show thesis using that kn by (simp add: p_def)
qed

section \<open>The state after boot\<close>

lemma pt_read_no_tables: "ptables s = Map.empty \<Longrightarrow> pt_read s p = None"
  by (cases p) (simp add: pt_read_def)

lemma boot_inv:
  fixes s :: "('f, 'a) kern_st_scheme"
  assumes reg: "regular_file vo content" and tlb: "tlb_ok s" and pt: "ptables s = Map.empty"
    and procs: "procs s = [k \<mapsto> pr]" "p_addrspace pr = None" and vi: "victim_index s = 0"
    and ff: "KVADDR_TO_PADDR firstfree \<noteq> 0"
    and cb: "coremap_bootstrap ramsize firstfree entry_size s = Some s1"
    and vb: "vm_bootstrap (Inr f) True True s1 = Some s2"
  shows "sys_inv vo content s2" and "user_byte content s2 = (\<lambda>_ _. None)"
    and "vm_st.more s2 = vm_st.more s" and "marked (swapmap s2) = {}" and "ptables s2 = Map.empty"
proof -
  obtain n k where c: "s1 = s\<lparr>coremap := boot_coremap n k\<rparr>" "n \<le> 2 ^ 17" "k \<le> n"
    "unat (KVADDR_TO_PADDR firstfree) \<le> k * PAGE_SIZE" by (rule coremap_bootstrap_eq [OF cb])
  obtain b where b: "bitmap_create True True SWAPFILE_NPAGES = Some (Some b)" "bitmap_ok b"
    "nbits b = SWAPFILE_NPAGES" "marked b = {}"
    using bitmap_create_fresh [of SWAPFILE_NPAGES] by auto
  have s2: "s2 = s\<lparr>coremap := boot_coremap n k, swapfile := f, swapmap := b\<rparr>"
    using vb b c(1) by (simp add: vm_bootstrap_def swap_bootstrap_def)
  have "0 < k" using ff c(4) by (auto intro!: gr0I simp: unat_eq_zero)
  then have n: "0 < n" "0 < k" using c(3) by simp_all
  have len: "length (vmstats s) = 10" using tlb by (simp add: tlb_ok_def)
  have as: "p_addrspace pr' = None" if "procs s pid = Some pr'" for pid pr' using that procs by (auto split: if_splits)
  then have ga: "proc_getas s2 = None"
    by (auto simp: s2 proc_getas_def split: bind_splits)
  have "swap_ok vo content s2" using reg b len by (simp add: swap_ok_def s2)
  moreover have "cm_ok s2" using n c(2) vi by (simp add: cm_ok_def s2 frames_ok_boot)
  moreover have "owners_ok None s2"
    using pt by (auto simp: owners_ok_def owned_def s2 pt_read_no_tables)
  moreover have "slots_ok s2" using pt by (simp add: slots_ok_def s2 pt_read_no_tables)
  moreover have "rdonly_ok (\<lambda>_ _. 0) (\<lambda>_. False) s2" using pt by (simp add: rdonly_ok_def s2 pt_read_no_tables)
  moreover have "tlb_coherent (cur_tr s2) s2"
    using tlb ga by (simp add: tlb_coherent_def cur_tr_def s2 tlb_ok_def)
  ultimately have "vm_inv vo content (\<lambda>_ _. 0) (\<lambda>_. False) (cur_tr s2) None s2" by (simp add: vm_inv_def)
  moreover have "\<not> has_table s2 q pr' a t" for q pr' a t
    using as [of q pr'] by (auto simp: has_table_def s2)
  then have "procs_ok content (\<lambda>_ _. 0) (\<lambda>_. False) s2" by (simp add: procs_ok_def)
  ultimately show "sys_inv vo content s2" unfolding sys_inv_def by (intro exI conjI)
  show "user_byte content s2 = (\<lambda>_ _. None)"
    using as by (auto simp: user_byte_def s2 fun_eq_iff split: bind_splits)
  show "vm_st.more s2 = vm_st.more s" and "marked (swapmap s2) = {}" and "ptables s2 = Map.empty"
    using b pt by (simp_all add: s2)
qed


section \<open>A small machine and a small program\<close>

definition kernel_proc :: "'f proc" where
  "kernel_proc = \<lparr>p_name = ''[kernel]'', p_numthreads = 1, p_addrspace = None, p_cwd = None, p_vnode = None,
     status = 0, p_sem = Some 0\<rparr>"

definition reset_machine :: "byte list kern_st" where
  "reset_machine = \<lparr>vmstats = replicate 10 0, tlb = tlb_empty, tlb_victim = 0, tlb_free = True,
     swapmap = swapmap_empty, swapfile = [], ram = (\<lambda>_. 0), ptables = Map.empty, coremap = [], victim_index = 0,
     procs = [0 \<mapsto> kernel_proc], curproc = Some 0, vn_refcount = (\<lambda>_. 1), kproc = 0\<rparr>"

definition exe_example :: "byte list" where
  "exe_example = [
    127, 69, 76, 70, 1, 2, 1, 0, 0, 0, 0, 0, 0, 0, 0, 0, 0, 2, 0, 8, 0, 0, 0, 1, 0, 64, 0, 0, 0, 0,
    0, 52, 0, 0, 0, 0, 0, 0, 0, 0, 0, 52, 0, 32, 0, 2, 0, 0, 0, 0, 0, 0, 0, 0, 0, 1, 0, 0, 0, 116,
    0, 64, 0, 0, 0, 64, 0, 0, 0, 0, 0, 4, 0, 0, 0, 4, 0, 0, 0, 5, 0, 0, 16, 0, 0, 0, 0, 1, 0, 0, 0,
    120, 0, 80, 0, 0, 0, 80, 0, 0, 0, 0, 0, 4, 0, 0, 0, 8, 0, 0, 0, 6, 0, 0, 16, 0, 1, 2, 3, 4, 42,
    43, 44, 45]"

lemma exe_example_ehdr:
  "exe_ehdr exe_example = \<lparr>e_ident = [127, 69, 76, 70, 1, 2, 1, 0, 0, 0, 0, 0, 0, 0, 0, 0], e_type = 2, e_machine = 8,
     e_version = 1, e_entry = 0x400000, e_phoff = 52, e_phentsize = 32, e_phnum = 2\<rparr>"
  by (simp add: exe_ehdr_def ehdr_of_def exe_example_def be16_def be32_def)

lemma exe_example_phdr:
  "exe_phdr exe_example 0 = \<lparr>p_type = 1, p_offset = 116, p_vaddr = 0x400000, p_filesz = 4, p_memsz = 4\<rparr>"
  "exe_phdr exe_example (Suc 0) = \<lparr>p_type = 1, p_offset = 120, p_vaddr = 0x500000, p_filesz = 4, p_memsz = 8\<rparr>"
  by (simp_all add: exe_phdr_def exe_example_ehdr phdr_offset_def, simp_all add: exe_example_def phdr_of_def be16_def be32_def)

lemma exe_example_wf:
  "exe_wf exe_example (exe_phdr exe_example 0) (exe_phdr exe_example (Suc 0))"
proof -
  have l: "length exe_example = 124" by (simp add: exe_example_def)
  have o: "phdr_offset (exe_ehdr exe_example) 0 = 52" "phdr_offset (exe_ehdr exe_example) (Suc 0) = 84"
    by (simp_all add: phdr_offset_def exe_example_ehdr)
  have two: "i < e_phnum (exe_ehdr exe_example) \<longleftrightarrow> i = 0 \<or> i = Suc 0" for i by (auto simp: exe_example_ehdr)
  have "elf_header_ok (exe_ehdr exe_example)" by (simp add: exe_example_ehdr elf_header_ok_def)
  then have "exe_headers_ok exe_example"
    unfolding exe_headers_ok_def two by (auto simp: l o exe_example_phdr)
  moreover have "exe_loads exe_example (e_phnum (exe_ehdr exe_example)) 0 = [exe_phdr exe_example 0, exe_phdr exe_example (Suc 0)]"
    by (simp add: exe_loads_def exe_example_ehdr exe_example_phdr upt_rec)
  ultimately show ?thesis by (simp add: exe_wf_def exe_example_phdr l regions_apart_def)
qed

lemma reset_machine_tlb: "tlb_ok reset_machine"
  using tlb_empty_ok [where x = "replicate 10 0" and s = reset_machine and b = True] by (simp add: reset_machine_def)

lemma example_boot:
  obtains s1 s :: "byte list kern_st" where "coremap_bootstrap 0x80000 0x80010000 16 reset_machine = Some s1"
    and "vm_bootstrap (Inr []) True True s1 = Some s" and "sys_inv list_vnode_ops (\<lambda>f. f) s"
    and "flat_of (\<lambda>f. f) s = \<lparr>f_cur = Some 0, f_mem = (\<lambda>_ _. None)\<rparr>" and "procs s = [0 \<mapsto> kernel_proc]"
    and "ptables s = Map.empty" and "coremap s = boot_coremap 128 17" and "vn_refcount s = (\<lambda>_. 1)" and "kproc s = 0"
proof -
  let ?s1 = "reset_machine\<lparr>coremap := boot_coremap 128 17\<rparr>"
  have s1: "coremap_bootstrap 0x80000 0x80010000 16 reset_machine = Some ?s1"
    using mark_boot [of 17 128] by (simp add: coremap_bootstrap_def Let_def KVADDR_TO_PADDR_def)
  obtain b where b: "bitmap_create True True SWAPFILE_NPAGES = Some (Some b)"
    using bitmap_create_fresh [of SWAPFILE_NPAGES] by auto
  let ?s = "?s1\<lparr>swapfile := [], swapmap := b\<rparr>"
  have s: "vm_bootstrap (Inr []) True True ?s1 = Some ?s" using b by (simp add: vm_bootstrap_def swap_bootstrap_def)
  note bi = boot_inv [OF list_vnode_ops_regular reset_machine_tlb _ _ _ _ _ s1 s, of 0 kernel_proc]
  have f: "ptables reset_machine = Map.empty" "procs reset_machine = [0 \<mapsto> kernel_proc]" "victim_index reset_machine = 0"
    "curproc reset_machine = Some 0" "vn_refcount reset_machine = (\<lambda>_. 1)" "kproc reset_machine = 0"
    by (simp_all add: reset_machine_def)
  have k: "p_addrspace kernel_proc = None" "KVADDR_TO_PADDR 0x80010000 \<noteq> 0"
    by (simp_all add: kernel_proc_def KVADDR_TO_PADDR_def)
  show thesis by (rule that [OF s1 s]) (use bi f k in \<open>simp_all add: flat_of_def\<close>)
qed

abbreviation (input) example_steps :: "byte list event list" where
  "example_steps \<equiv> [Create 1, Start 1, Switch 1, Run exe_example]"

lemma tlb_lookup_empty: "tlb s = tlb_empty \<Longrightarrow> tlb_lookup s va = None"
  by (auto simp: tlb_lookup_def find_Some_iff length_tlb_empty nth_tlb_empty TLBLO_INVALID_def split: option.splits)

lemma example_process:
  obtains s s' :: "byte list kern_st" and pr where "sys_inv list_vnode_ops (\<lambda>f. f) s"
    and "flat_of (\<lambda>f. f) s = \<lparr>f_cur = Some 0, f_mem = (\<lambda>_ _. None)\<rparr>"
    and "run (sys_step list_vnode_ops (\<lambda>f. f)) s [Create 1, Start 1, Switch 1] s'"
    and "sys_inv list_vnode_ops (\<lambda>f. f) s'" and "curproc s' = Some 1" and "procs s' 1 = Some pr"
    and "p_sem pr = Some 0" and "p_numthreads pr = 1" and "p_addrspace pr = None" and "p_cwd pr = None"
    and "ptables s' 0 = None" and "\<exists>e \<in> set (coremap s'). \<not> cm_free e" and "kproc s' = 0" and "vn_refcount s' exe_example = 1"
proof -
  obtain s0 :: "byte list kern_st" where s: "sys_inv list_vnode_ops (\<lambda>f. f) s0"
    "flat_of (\<lambda>f. f) s0 = \<lparr>f_cur = Some 0, f_mem = (\<lambda>_ _. None)\<rparr>" "procs s0 = [0 \<mapsto> kernel_proc]"
    "ptables s0 = Map.empty" "coremap s0 = boot_coremap 128 17" "vn_refcount s0 = (\<lambda>_. 1)" "kproc s0 = 0"
    by (rule example_boot) blast
  have cur: "curproc s0 = Some 0" using s(2) by (simp add: flat_of_def)
  let ?pr = "\<lambda>n. \<lparr>p_name = [], p_numthreads = n, p_addrspace = None, p_cwd = None, p_vnode = None, status = 0, p_sem = Some 0\<rparr>"
  let ?s1 = "s0\<lparr>procs := (procs s0)(1 \<mapsto> ?pr 0)\<rparr>" let ?s2 = "s0\<lparr>procs := (procs s0)(1 \<mapsto> ?pr 1)\<rparr>"
  let ?s3 = "?s2\<lparr>curproc := Some 1\<rparr>"
  let ?step = "sys_step list_vnode_ops (\<lambda>f. f)"
  have "proc_create_runprogram (Some 1) True True [] s0 = Some (Some 1, ?s1)"
    using s cur by (simp add: proc_create_runprogram_def proc_create_def kernel_proc_def)
  then have c: "?step s0 (Create 1) ?s1" using s cur by (intro sys_step.create) simp_all
  have "proc_addthread 1 None ?s1 = Some (Some 1, ?s2)" by (simp add: proc_addthread_def)
  then have a: "?step ?s1 (Start 1) ?s2" by (rule sys_step.start)
  have w: "?step ?s2 (Switch 1) ?s3"
    by (rule sys_step.switch [where pr = "?pr 1"]) (simp_all add: switch_to_def as_activate_def proc_getas_def)
  have r: "run ?step s0 [Create 1, Start 1, Switch 1] ?s3" using c a w by (auto simp only: run.simps)
  have "boot_coremap 128 17 ! 17 \<in> set (boot_coremap 128 17)" by (rule nth_mem) simp
  then have "\<exists>e \<in> set (coremap ?s3). \<not> cm_free e" using s(5) by (auto intro!: bexI)
  then show thesis
    by (intro that [OF s(1,2) r paging.run_inv [OF s(1) r], of "?pr 1"]) (simp_all add: s)
qed

lemma run_append: "run R s (xs @ ys) s' \<longleftrightarrow> (\<exists>s1. run R s xs s1 \<and> run R s1 ys s')"
  by (induction xs arbitrary: s) auto

lemma example_run:
  obtains s s' :: "byte list kern_st" and pr as where "sys_inv list_vnode_ops (\<lambda>f. f) s"
    and "flat_of (\<lambda>f. f) s = \<lparr>f_cur = Some 0, f_mem = (\<lambda>_ _. None)\<rparr>"
    and "run (sys_step list_vnode_ops (\<lambda>f. f)) s example_steps s'"
    and "sys_inv list_vnode_ops (\<lambda>f. f) s'" and "curproc s' = Some 1" and "has_table s' 1 pr as 0"
    and "as = as_regions (phdr_segment (exe_phdr exe_example 0)) (phdr_segment (exe_phdr exe_example (Suc 0))) (Some 0)"
    and "user_byte (\<lambda>f. f) s' 1 = exe_byte exe_example (exe_phdr exe_example 0) (exe_phdr exe_example (Suc 0))"
    and "p_sem pr = Some 0" and "p_numthreads pr = 1" and "p_vnode pr = Some exe_example" and "p_cwd pr = None"
    and "has_room s'" and "tlb s' = tlb_empty" and "kproc s' = 0" and "vn_refcount s' exe_example = 2"
proof -
  let ?as = "as_regions (phdr_segment (exe_phdr exe_example 0)) (phdr_segment (exe_phdr exe_example (Suc 0))) (Some 0)"
  obtain s0 s3 :: "byte list kern_st" and pr where s: "sys_inv list_vnode_ops (\<lambda>f. f) s0"
    "flat_of (\<lambda>f. f) s0 = \<lparr>f_cur = Some 0, f_mem = (\<lambda>_ _. None)\<rparr>"
    and r3: "run (sys_step list_vnode_ops (\<lambda>f. f)) s0 [Create 1, Start 1, Switch 1] s3"
    and i3: "sys_inv list_vnode_ops (\<lambda>f. f) s3" "curproc s3 = Some 1" "procs s3 1 = Some pr"
    and p: "p_sem pr = Some 0" "p_numthreads pr = 1" "p_addrspace pr = None" "p_cwd pr = None"
    and f3: "ptables s3 0 = None" "\<exists>e \<in> set (coremap s3). \<not> cm_free e" "kproc s3 = 0" "vn_refcount s3 exe_example = 1"
    by (rule example_process) blast
  obtain s' where s': "runprogram list_vnode_ops (Inr exe_example) True (\<lambda>_. True) True (Some 0) s3 =
      Some (Inr (e_entry (exe_ehdr exe_example), USERSTACK), s')" "sys_inv list_vnode_ops (\<lambda>f. f) s'"
    "curproc s' = curproc s3" "procs s' = (procs s3)(1 \<mapsto> pr\<lparr>p_vnode := Some exe_example, p_addrspace := Some ?as\<rparr>)"
    "\<And>q va. user_byte (\<lambda>f. f) s' q va =
      (if q = 1 then exe_byte exe_example (exe_phdr exe_example 0) (exe_phdr exe_example (Suc 0)) va else user_byte (\<lambda>f. f) s3 q va)"
    "coremap s' = coremap s3" "tlb s' = tlb_empty" "kproc s' = kproc s3"
    "vn_refcount s' = (vn_refcount s3)(exe_example := vn_refcount s3 exe_example + 1)"
    by (rule runprogram_sys [OF i3 p(3) exe_example_wf f3(1)]) blast
  have "sys_step list_vnode_ops (\<lambda>f. f) s3 (Run exe_example) s'" using i3(2) exe_example_wf f3(1) s'(1) by (rule sys_step.run)
  then have r: "run (sys_step list_vnode_ops (\<lambda>f. f)) s0 ([Create 1, Start 1, Switch 1] @ [Run exe_example]) s'"
    unfolding run_append using r3 by auto
  have "has_room s'" using f3(2) by (simp add: has_room_def s'(6))
  then show thesis
    by (intro that [OF s _ s'(2), of "pr\<lparr>p_vnode := Some exe_example, p_addrspace := Some ?as\<rparr>" ?as])
      (use r s' i3 p f3 in \<open>simp_all add: has_table_def as_regions_def fun_eq_iff\<close>)
qed

section \<open>Properties\<close>

text \<open>The sums the counters of \<^verbatim>\<open>vmstats.c\<close> should satisfy.\<close>

definition counters_ok :: "uint32 list \<Rightarrow> bool" where
  "counters_ok x \<longleftrightarrow> x ! VMSTAT_TLB_FAULT = x ! VMSTAT_TLB_FAULT_FREE + x ! VMSTAT_TLB_FAULT_REPLACE \<and>
     x ! VMSTAT_TLB_FAULT = x ! VMSTAT_TLB_RELOAD + x ! VMSTAT_PAGE_FAULT_ZERO + x ! VMSTAT_PAGE_FAULT_DISK \<and>
     x ! VMSTAT_PAGE_FAULT_DISK = x ! VMSTAT_PAGE_FAULT_ELF + x ! VMSTAT_PAGE_FAULT_SWAP"

lemma fault_counted_sums: "counters_ok x \<Longrightarrow> fault_counted x y \<Longrightarrow> counters_ok y"
  by (auto simp: fault_counted_def counted_def counters_ok_def add.assoc)

lemma example_byte: "exe_byte exe_example (exe_phdr exe_example 0) (exe_phdr exe_example (Suc 0)) 0x500001 = Some 43"
  by (simp add: exe_byte_def phdr_byte_def exe_example_phdr Let_def) (simp add: exe_example_def)

lemma example_no_byte: "exe_byte exe_example (exe_phdr exe_example 0) (exe_phdr exe_example (Suc 0)) 0x600000 = None"
  by (simp add: exe_byte_def phdr_byte_def exe_example_phdr Let_def)







text \<open>
  Claim C2: page faults are transparent. When the running program reads or writes an address of its
  memory that the TLB does not map and a frame can be found, \<^verbatim>\<open>vm_fault\<close>
  returns 0; the memory of every process is the same as before, the
  TLB now maps the address, writable unless it is in the text segment, a load from it gives
  the byte of the flat memory, and the invariant holds.
\<close>

theorem vm_fault_transparent:
  fixes s :: "('f, 'a) sys_st_scheme"
  assumes "sys_inv vo content s" and "curproc s = Some pid" and "user_byte content s pid va = Some b"
    and "ft = VM_FAULT_READ \<or> ft = VM_FAULT_WRITE" and "tlb_lookup s va = None" and "has_room s"
  shows "\<exists>s' pa w. vm_fault vo ft va s = Some (Handled, s') \<and> sys_inv vo content s' \<and>
    procs s' = procs s \<and> curproc s' = curproc s \<and> user_byte content s' = user_byte content s \<and>
    tlb_lookup s' va = Some (pa, w) \<and>
    (\<forall>as. proc_getas s = Some as \<longrightarrow> w = (as_get_segment_type as va \<noteq> Some SEGMENT_TEXT)) \<and>
    user_load s' va = Some b"
  using vm_fault_sys [OF assms(1-5) disjI1 [OF assms(6)]] by blast

theorem vm_fault_transparent_witness:
  "\<exists>s s' :: byte list kern_st. vm_fault list_vnode_ops VM_FAULT_READ 0x500001 s = Some (Handled, s') \<and>
     user_load s 0x500001 = None \<and> user_load s' 0x500001 = Some 43"
proof -
  obtain s :: "byte list kern_st" where r: "sys_inv list_vnode_ops (\<lambda>f. f) s" "curproc s = Some 1"
    "user_byte (\<lambda>f. f) s 1 = exe_byte exe_example (exe_phdr exe_example 0) (exe_phdr exe_example (Suc 0))"
    "has_room s" "tlb s = tlb_empty" by (rule example_run) blast
  have b: "user_byte (\<lambda>f. f) s 1 0x500001 = Some 43" using r(3) example_byte by simp
  have miss: "tlb_lookup s 0x500001 = None" by (rule tlb_lookup_empty [OF r(5)])
  obtain s' :: "byte list kern_st" where "vm_fault list_vnode_ops VM_FAULT_READ 0x500001 s = Some (Handled, s')"
    "user_load s' 0x500001 = Some 43"
    using vm_fault_transparent [OF r(1,2) b disjI1 [OF refl] miss r(4)] by blast
  moreover have "user_load s 0x500001 = None" using miss by (simp add: user_load_def)
  ultimately show ?thesis by blast
qed

text \<open>
  Claim C8: a handled page fault adds one to the counter of TLB faults, to one of the counters
  for a free and a replaced TLB entry, and to the counter for its kind, so the sums
  that the statistics should satisfy (faults = free + replaced = reloads + zeroed pages + pages
  from disk, pages from disk = from ELF + from swap) are kept.
\<close>

theorem handled_fault_counters:
  fixes s :: "('f, 'a) sys_st_scheme"
  assumes "sys_inv vo content s" and "curproc s = Some pid" and "user_byte content s pid va = Some b"
    and "ft = VM_FAULT_READ \<or> ft = VM_FAULT_WRITE" and "tlb_lookup s va = None"
    and "vm_fault vo ft va s = Some (r, s')" and "counters_ok (vmstats s)"
  shows "counters_ok (vmstats s') \<and> vmstats s' ! VMSTAT_TLB_FAULT = vmstats s ! VMSTAT_TLB_FAULT + 1"
proof -
  have "vm_fault vo ft va s \<noteq> None" using assms(6) by simp
  from vm_fault_sys [OF assms(1-5) disjI2 [OF this]] assms(6)
  have f: "fault_counted (vmstats s) (vmstats s')" by auto
  then have "vmstats s' ! VMSTAT_TLB_FAULT = vmstats s ! VMSTAT_TLB_FAULT + 1"
    by (auto simp: fault_counted_def counted_def)
  with fault_counted_sums [OF assms(7) f] show ?thesis by simp
qed

theorem handled_fault_counters_witness:
  "\<exists>s s' :: byte list kern_st. vm_fault list_vnode_ops VM_FAULT_READ 0x500001 s = Some (Handled, s') \<and>
     vmstats s = replicate 10 0 \<and> counters_ok (vmstats s') \<and> vmstats s' ! VMSTAT_TLB_FAULT = 1"
proof -
  obtain s0 :: "byte list kern_st" where r: "sys_inv list_vnode_ops (\<lambda>f. f) s0" "curproc s0 = Some 1"
    "user_byte (\<lambda>f. f) s0 1 = exe_byte exe_example (exe_phdr exe_example 0) (exe_phdr exe_example (Suc 0))"
    "has_room s0" "tlb s0 = tlb_empty" by (rule example_run) blast
  let ?s = "s0\<lparr>vmstats := replicate 10 0\<rparr>"
  have i: "sys_inv list_vnode_ops (\<lambda>f. f) ?s" by (rule vmstats_sys [OF r(1)]) simp
  have "user_byte (\<lambda>f. f) ?s = user_byte (\<lambda>f. f) s0" by (rule vmstats_sys [OF r(1)]) simp
  then have b: "user_byte (\<lambda>f. f) ?s 1 0x500001 = Some 43" using r(3) example_byte by simp
  have miss: "tlb_lookup ?s 0x500001 = None" by (rule tlb_lookup_empty) (simp add: r(5))
  have c: "curproc ?s = Some 1" "has_room ?s" using r(2,4) by (simp_all add: has_room_def)
  obtain s' where s': "vm_fault list_vnode_ops VM_FAULT_READ 0x500001 ?s = Some (Handled, s')"
    using vm_fault_sys [OF i c(1) b disjI1 [OF refl] miss disjI1 [OF c(2)]] by blast
  have "counters_ok (vmstats ?s)" by (simp add: counters_ok_def)
  from handled_fault_counters [OF i c(1) b disjI1 [OF refl] miss s' this] s' show ?thesis
    by (intro exI [of _ ?s] exI [of _ s']) simp
qed

text \<open>
  Stores and loads. A store through the TLB by the running program to an address of its memory
  keeps the invariant; loading the address then gives the stored byte, and no
  other byte of any process changes.
\<close>

theorem store_load:
  fixes s :: "('f, 'a) sys_st_scheme"
  assumes "sys_inv vo content s" and "curproc s = Some pid" and "user_byte content s pid va = Some b"
    and "user_store va c s = Some s'"
  shows "sys_inv vo content s' \<and> user_load s' va = Some c \<and>
    (\<forall>q x. user_byte content s' q x = (if q = pid \<and> x = va then Some c else user_byte content s q x))"
proof -
  have "proc_getas s \<noteq> None" using assms(2,3) by (auto simp: proc_getas_def user_byte_def split: bind_splits)
  note st = user_store_correct [OF assms(1,2) this assms(4)]
  have ub: "user_byte content s' q x = (if q = pid \<and> x = va then Some c else user_byte content s q x)" for q x
    using st(4) [of q x] assms(3) by auto
  obtain pa where "tlb_lookup s va = Some (pa, True)" "va < MIPS_KSEG0" "tlb s' = tlb s"
    using assms(4) by (auto simp: user_store_def split: if_splits option.splits bool.splits)
  then have "\<exists>d. user_load s' va = Some d" by (simp add: user_load_def tlb_lookup_def)
  then obtain d where d: "user_load s' va = Some d" ..
  have "curproc s' = Some pid" "user_byte content s' pid va = Some c" using st(2) assms(2) ub by simp_all
  from user_load_correct [OF st(1) this d] d st(1) ub show ?thesis by simp
qed

theorem store_load_witness:
  "\<exists>s s' :: byte list kern_st. user_store 0x500001 7 s = Some s' \<and> user_load s 0x500001 = Some 43 \<and>
     user_load s' 0x500001 = Some 7"
proof -
  obtain s0 :: "byte list kern_st" and pr as where r: "sys_inv list_vnode_ops (\<lambda>f. f) s0" "curproc s0 = Some 1"
    "has_table s0 1 pr as 0"
    "as = as_regions (phdr_segment (exe_phdr exe_example 0)) (phdr_segment (exe_phdr exe_example (Suc 0))) (Some 0)"
    "user_byte (\<lambda>f. f) s0 1 = exe_byte exe_example (exe_phdr exe_example 0) (exe_phdr exe_example (Suc 0))"
    "has_room s0" "tlb s0 = tlb_empty" by (rule example_run) blast
  have b: "user_byte (\<lambda>f. f) s0 1 0x500001 = Some 43" using r(5) example_byte by simp
  have miss: "tlb_lookup s0 0x500001 = None" by (rule tlb_lookup_empty [OF r(7)])
  have as: "proc_getas s0 = Some as" using r(2,3) by (simp add: proc_getas_def has_table_def)
  obtain s :: "byte list kern_st" and pa w where s: "sys_inv list_vnode_ops (\<lambda>f. f) s" "curproc s = curproc s0"
    "user_byte (\<lambda>f. f) s = user_byte (\<lambda>f. f) s0" "tlb_lookup s 0x500001 = Some (pa, w)"
    "w = (as_get_segment_type as 0x500001 \<noteq> Some SEGMENT_TEXT)" "user_load s 0x500001 = Some 43"
    using vm_fault_sys [OF r(1,2) b disjI1 [OF refl] miss disjI1 [OF r(6)]] as by blast
  have "as_get_segment_type as 0x500001 = Some SEGMENT_DATA"
    by (simp add: r(4) as_regions_def as_get_segment_type_def phdr_segment_def region_segment_def exe_example_phdr in_segment_def)
  then have w: "w" using s(5) by simp
  then obtain s' where s': "user_store 0x500001 7 s = Some s'" using s(4) by (simp add: user_store_def)
  have "curproc s = Some 1" "user_byte (\<lambda>f. f) s 1 0x500001 = Some 43" using s(2,3) r(2) b by simp_all
  from store_load [OF s(1) this s'] s' s(6) show ?thesis by blast
qed

text \<open>
  Claim C7: bad accesses end the process. A store to a read-only page, and an access by a process with
  an image to an address outside its segments, ends the process with status 255: it loses its thread, its
  semaphore is signalled, no process is running, and of the memory system only the
  fault counter changes.
\<close>

theorem bad_access_exits:
  fixes s :: "('f, 'a) sys_st_scheme"
  assumes "sys_inv vo content s" and "curproc s = Some pid" and "has_table s pid pr as t"
    and "0 < p_numthreads pr" and "p_sem pr = Some n"
    and "ft = VM_FAULT_READONLY \<or> (ft = VM_FAULT_READ \<or> ft = VM_FAULT_WRITE) \<and> user_byte content s pid va = None"
  shows "vm_fault vo ft va s = Some (Exited, s\<lparr>vmstats := stat_add VMSTAT_TLB_FAULT (vmstats s),
    procs := (procs s)(pid \<mapsto> pr\<lparr>status := 255, p_numthreads := p_numthreads pr - 1, p_sem := Some (n + 1)\<rparr>),
    curproc := None\<rparr>)"
  by (rule bad_fault_exits [OF assms])

theorem bad_access_exits_witness:
  "\<exists>s s' :: byte list kern_st. vm_fault list_vnode_ops VM_FAULT_WRITE 0x600000 s = Some (Exited, s') \<and>
     curproc s = Some 1 \<and> curproc s' = None \<and> map_option status (procs s' 1) = Some 255"
proof -
  obtain s :: "byte list kern_st" and pr as where r: "sys_inv list_vnode_ops (\<lambda>f. f) s" "curproc s = Some 1"
    "has_table s 1 pr as 0"
    "user_byte (\<lambda>f. f) s 1 = exe_byte exe_example (exe_phdr exe_example 0) (exe_phdr exe_example (Suc 0))"
    "p_sem pr = Some 0" "p_numthreads pr = 1" by (rule example_run) blast
  have n: "0 < p_numthreads pr" using r(6) by simp
  have "VM_FAULT_WRITE = VM_FAULT_READONLY \<or>
      (VM_FAULT_WRITE = VM_FAULT_READ \<or> VM_FAULT_WRITE = VM_FAULT_WRITE) \<and> user_byte (\<lambda>f. f) s 1 0x600000 = None"
    using r(4) example_no_byte by simp
  note e = bad_access_exits [OF r(1-3) n r(5) this]
  show ?thesis by (intro exI conjI, rule e, rule r(2)) simp_all
qed

text \<open>
  Claim C5: waiting reclaims everything. When process \<open>pid\<close> has exited (no threads, its semaphore
  signalled) and is not the one running, \<^verbatim>\<open>proc_wait\<close> returns its exit
  status, the process is gone with its memory and its references to vnodes, exactly the frames and the
  swap slots of its page table become free, and no other process is affected.
\<close>

theorem proc_wait_reclaims:
  fixes s :: "('f, 'a) kern_st_scheme"
  assumes "sys_inv vo content s" and "has_table s pid pr as t" and "refs_ok pr (vn_refcount s)"
    and "pid \<noteq> kproc s" and "curproc s \<noteq> Some pid" and "p_sem pr = Some n" and "0 < n" and "p_numthreads pr = 0"
  shows "\<exists>s'. proc_wait pid s = Some (status pr, s') \<and> sys_inv vo content s' \<and> procs s' = (procs s)(pid := None) \<and>
    vn_refcount s' = drop_refs pr (vn_refcount s) \<and>
    (\<forall>q va. user_byte content s' q va = (if q = pid then None else user_byte content s q va)) \<and>
    used_frames (coremap s') = used_frames (coremap s) - table_frames s t 0 \<and>
    marked (swapmap s') = marked (swapmap s) - table_slots s t 0"
proof -
  obtain s' where "proc_wait pid s = (if p_numthreads pr = 0 then Some (status pr, s') else None)"
    "sys_inv vo content s'" "procs s' = (procs s)(pid := None)" "vn_refcount s' = drop_refs pr (vn_refcount s)"
    "\<And>q va. user_byte content s' q va = (if q = pid then None else user_byte content s q va)"
    "used_frames (coremap s') = used_frames (coremap s) - table_frames s t 0"
    "marked (swapmap s') = marked (swapmap s) - table_slots s t 0"
    by (rule proc_wait_sys [OF assms(1-7)]) blast
  with assms(8) show ?thesis by auto
qed

theorem proc_wait_reclaims_witness:
  "\<exists>s s1 s2 :: byte list kern_st. sys__exit 3 s = Some s1 \<and> proc_wait 1 s1 = Some (3, s2) \<and> procs s2 1 = None \<and>
     user_byte (\<lambda>f. f) s 1 0x500001 = Some 43"
proof -
  obtain s :: "byte list kern_st" and pr as where r: "sys_inv list_vnode_ops (\<lambda>f. f) s" "curproc s = Some 1"
    "has_table s 1 pr as 0"
    "user_byte (\<lambda>f. f) s 1 = exe_byte exe_example (exe_phdr exe_example 0) (exe_phdr exe_example (Suc 0))"
    "p_sem pr = Some 0" "p_numthreads pr = 1" "p_vnode pr = Some exe_example" "p_cwd pr = None"
    "kproc s = 0" "vn_refcount s exe_example = 2" by (rule example_run) blast
  let ?pr = "pr\<lparr>status := 3, p_numthreads := 0, p_sem := Some 1\<rparr>"
  let ?s1 = "s\<lparr>procs := (procs s)(1 \<mapsto> ?pr), curproc := None\<rparr>"
  have x: "sys__exit 3 s = Some ?s1" using sys__exit_eq [where st = 3, OF r(2) _ _ r(5)] r(3,6) by (simp add: has_table_def)
  have i: "sys_inv list_vnode_ops (\<lambda>f. f) ?s1" by (rule sys_exit_sys [OF r(1) x])
  have h: "has_table ?s1 1 ?pr as 0" using r(3) by (simp add: has_table_def)
  have f: "refs_ok ?pr (vn_refcount ?s1)" using r(7,8,10) by (simp add: refs_ok_def)
  have k: "1 \<noteq> kproc ?s1" "curproc ?s1 \<noteq> Some 1" "p_sem ?pr = Some 1" "(0::nat) < 1" "p_numthreads ?pr = 0"
    using r(9) by simp_all
  obtain s2 where "proc_wait 1 ?s1 = Some (status ?pr, s2)" "procs s2 = (procs ?s1)(1 := None)"
    using proc_wait_reclaims [OF i h f k] by blast
  moreover have "user_byte (\<lambda>f. f) s 1 0x500001 = Some 43" using r(4) example_byte by simp
  ultimately show ?thesis using x by (intro exI [of _ s] exI [of _ ?s1] exI [of _ s2]) simp
qed

text \<open>
  Claim C6: starting a program. For an executable with two loadable segments that do not overlap and lie below the stack,
  \<^verbatim>\<open>runprogram\<close> enters user mode at the entry point of the ELF header with the stack pointer at
  \<^verbatim>\<open>USERSTACK\<close>. The memory of the process is then the image of the file: the bytes of the two
  segments, zeros after the part that is in the file, a zeroed stack, and nothing else; no other process
  is affected.
\<close>

theorem runprogram_loads_image:
  fixes s :: "('f, 'a) kern_st_scheme"
  assumes "sys_inv vo content s" and "curproc s = Some pid" and "procs s pid = Some pr" and "p_addrspace pr = None"
    and "exe_wf (content v) ph1 ph2" and "ptables s t = None"
  shows "\<exists>s'. runprogram vo (Inr v) True (\<lambda>_. True) True (Some t) s =
      Some (Inr (e_entry (exe_ehdr (content v)), USERSTACK), s') \<and> sys_inv vo content s' \<and> curproc s' = curproc s \<and>
    (\<forall>q va. user_byte content s' q va = (if q = pid then exe_byte (content v) ph1 ph2 va else user_byte content s q va))"
  by (rule runprogram_sys [OF assms]) blast

theorem runprogram_loads_image_witness:
  "\<exists>s s' :: byte list kern_st. runprogram list_vnode_ops (Inr exe_example) True (\<lambda>_. True) True (Some 0) s =
      Some (Inr (0x400000, USERSTACK), s') \<and> user_byte (\<lambda>f. f) s' 1 0x500001 = Some 43"
proof -
  obtain s :: "byte list kern_st" and pr where s: "sys_inv list_vnode_ops (\<lambda>f. f) s" "curproc s = Some 1"
    "procs s 1 = Some pr" "p_addrspace pr = None" "ptables s 0 = None" by (rule example_process) blast
  have wf: "exe_wf ((\<lambda>f. f) exe_example) (exe_phdr exe_example 0) (exe_phdr exe_example (Suc 0))" using exe_example_wf by simp
  have e: "e_entry (exe_ehdr exe_example) = 0x400000" by (simp add: exe_example_ehdr)
  obtain s' :: "byte list kern_st" where
    "runprogram list_vnode_ops (Inr exe_example) True (\<lambda>_. True) True (Some 0) s =
       Some (Inr (e_entry (exe_ehdr exe_example), USERSTACK), s')"
    "user_byte (\<lambda>f. f) s' 1 0x500001 = exe_byte exe_example (exe_phdr exe_example 0) (exe_phdr exe_example (Suc 0)) 0x500001"
    using runprogram_loads_image [where v = exe_example and content = "\<lambda>f. f", OF s(1-4) wf s(5)] by auto
  with example_byte e show ?thesis by auto
qed

text \<open>
  The other ways in which \<^verbatim>\<open>vm_fault\<close> comes back. An unknown fault type is
  \<^verbatim>\<open>EINVAL\<close>; a fault with no process or with a process that has no address space is
  \<^verbatim>\<open>EFAULT\<close>. In each case only the fault counter has changed.
\<close>

theorem vm_fault_errors:
  fixes s :: "('f, 'a) sys_st_scheme"
  shows "(ft > 2 \<longrightarrow> vm_fault vo ft va s = Some (Failed EINVAL, s\<lparr>vmstats := stat_add VMSTAT_TLB_FAULT (vmstats s)\<rparr>)) \<and>
    (ft < 2 \<and> proc_getas s = None \<longrightarrow>
      vm_fault vo ft va s = Some (Failed EFAULT, s\<lparr>vmstats := stat_add VMSTAT_TLB_FAULT (vmstats s)\<rparr>))"
  by (auto simp: vm_fault_def vmstats_hit_add Let_def proc_getas_def less_2_cases_iff split: option.splits)

theorem vm_fault_errors_witness:
  "vm_fault list_vnode_ops 3 0x500001 reset_machine =
     Some (Failed EINVAL, reset_machine\<lparr>vmstats := stat_add VMSTAT_TLB_FAULT (vmstats reset_machine)\<rparr>) \<and>
   vm_fault list_vnode_ops VM_FAULT_READ 0x500001 reset_machine =
     Some (Failed EFAULT, reset_machine\<lparr>vmstats := stat_add VMSTAT_TLB_FAULT (vmstats reset_machine)\<rparr>)"
proof -
  have "proc_getas reset_machine = None" by (simp add: reset_machine_def proc_getas_def kernel_proc_def)
  then show ?thesis
    using vm_fault_errors [where ft = 3 and vo = list_vnode_ops and va = "0x500001" and s = reset_machine]
      vm_fault_errors [where ft = VM_FAULT_READ and vo = list_vnode_ops and va = "0x500001" and s = reset_machine] by simp
qed



end
