(* ===== verification/Usermem.thy ===== *)
theory Usermem
  imports Paging
begin

unbundle bit_operations_syntax

text \<open>
  The kernel's accesses to user memory: the TLB exceptions of \<^verbatim>\<open>kern/arch/mips/locore/trap.c\<close>, the copy
  functions of \<^verbatim>\<open>kern/vm/copyinout.c\<close> and the system calls of \<^verbatim>\<open>kern/syscall\<close> with their dispatcher.
  A load or store of the kernel at an address below \<^verbatim>\<open>MIPS_KSEG0\<close> goes through the TLB like one of the
  program and may take a page fault; at an address of \<^verbatim>\<open>kseg0\<close> it goes to physical memory. The kernel's
  own buffers are a memory \<open>km\<close> of their own. An access that ends the thread gives \<open>Gone\<close>.

  The copies go byte by byte. \<^verbatim>\<open>memcpy\<close> goes by words when everything is aligned, but an aligned word
  lies on one page, so it faults exactly where its first byte does.
\<close>

section \<open>TLB exceptions\<close>

datatype trapcode = EX_IRQ | EX_MOD | EX_TLBL | EX_TLBS | EX_ADEL | EX_ADES | EX_IBE | EX_DBE
  | EX_SYS | EX_BP | EX_RI | EX_CPU | EX_OVF

text \<open>
  What becomes of the interrupted code: it is resumed, it continues in \<^verbatim>\<open>tm_badfaultfunc\<close>, or its thread
  is gone. A panic is \<^const>\<open>None\<close>.
\<close>

datatype trap_result = Resume | Recover | Dead

definition vm_trap :: "'f vnode_ops \<Rightarrow> bool \<Rightarrow> bool \<Rightarrow> trapcode \<Rightarrow> vaddr \<Rightarrow> ('f, 'a) sys_st_scheme \<Rightarrow>
    (trap_result \<times> ('f, 'a) sys_st_scheme) option" where
  "vm_trap vo iskern badfaultfunc code tf_vaddr s = do {
     (r, s) \<leftarrow> (case code of
         EX_MOD \<Rightarrow> vm_fault vo VM_FAULT_READONLY tf_vaddr s
       | EX_TLBL \<Rightarrow> vm_fault vo VM_FAULT_READ tf_vaddr s
       | EX_TLBS \<Rightarrow> vm_fault vo VM_FAULT_WRITE tf_vaddr s
       | EX_IBE \<Rightarrow> None
       | EX_DBE \<Rightarrow> None
       | _ \<Rightarrow> Some (Failed EFAULT, s));
     case r of
       Handled \<Rightarrow> Some (Resume, s)
     | Exited \<Rightarrow> Some (Dead, s)
     | Failed err \<Rightarrow>
         if \<not> iskern then None
         else if badfaultfunc then Some (Recover, s)
         else None }"

section \<open>Loads and stores of the kernel\<close>

datatype 'b access = Got 'b | Bad | Gone

abbreviation (input) MIPS_KSEG1 :: vaddr where "MIPS_KSEG1 \<equiv> 0xa0000000"

partial_function (option) kload :: "'f vnode_ops \<Rightarrow> bool \<Rightarrow> vaddr \<Rightarrow> ('f, 'a) sys_st_scheme \<Rightarrow>
    (byte access \<times> ('f, 'a) sys_st_scheme) option" where
  "kload vo bf va s =
     (if va < MIPS_KSEG0 then
        (case user_load s va of
           Some b \<Rightarrow> Some (Got b, s)
         | None \<Rightarrow> do {
             (r, s) \<leftarrow> vm_trap vo True bf EX_TLBL va s;
             case r of Resume \<Rightarrow> kload vo bf va s | Recover \<Rightarrow> Some (Bad, s) | Dead \<Rightarrow> Some (Gone, s) })
      else if va < MIPS_KSEG1 then Some (Got (ram s (unat (va - MIPS_KSEG0))), s)
      else None)"

partial_function (option) kstore :: "'f vnode_ops \<Rightarrow> bool \<Rightarrow> vaddr \<Rightarrow> byte \<Rightarrow> ('f, 'a) sys_st_scheme \<Rightarrow>
    (unit access \<times> ('f, 'a) sys_st_scheme) option" where
  "kstore vo bf va b s =
     (if va < MIPS_KSEG0 then
        (case user_store va b s of
           Some s \<Rightarrow> Some (Got (), s)
         | None \<Rightarrow> do {
             (r, s) \<leftarrow> vm_trap vo True bf (if tlb_lookup s va = None then EX_TLBS else EX_MOD) va s;
             case r of Resume \<Rightarrow> kstore vo bf va b s | Recover \<Rightarrow> Some (Bad, s) | Dead \<Rightarrow> Some (Gone, s) })
      else if va < MIPS_KSEG1 then Some (Got (), s\<lparr>ram := (ram s)(unat (va - MIPS_KSEG0) := b)\<rparr>)
      else None)"

section \<open>copyin and copyout\<close>

definition copycheck :: "vaddr \<Rightarrow> uint32 \<Rightarrow> errno + uint32" where
  "copycheck userptr len =
     (let bot = userptr; top = bot + len - 1 in
      if top < bot then Inl EFAULT
      else if bot \<ge> USERSPACETOP then Inl EFAULT
      else if top \<ge> USERSPACETOP then Inr (USERSPACETOP - bot)
      else Inr len)"

primrec load_loop :: "'f vnode_ops \<Rightarrow> nat \<Rightarrow> vaddr \<Rightarrow> nat \<Rightarrow> memory \<Rightarrow> ('f, 'a) sys_st_scheme \<Rightarrow>
    (unit access \<times> memory \<times> ('f, 'a) sys_st_scheme) option" where
  "load_loop vo 0 va d km s = Some (Got (), km, s)"
| "load_loop vo (Suc n) va d km s = do {
     (r, s) \<leftarrow> kload vo True va s;
     case r of Got b \<Rightarrow> load_loop vo n (va + 1) (d + 1) (km(d := b)) s
     | Bad \<Rightarrow> Some (Bad, km, s) | Gone \<Rightarrow> Some (Gone, km, s) }"

primrec store_loop :: "'f vnode_ops \<Rightarrow> nat \<Rightarrow> vaddr \<Rightarrow> nat \<Rightarrow> memory \<Rightarrow> ('f, 'a) sys_st_scheme \<Rightarrow>
    (unit access \<times> ('f, 'a) sys_st_scheme) option" where
  "store_loop vo 0 va d km s = Some (Got (), s)"
| "store_loop vo (Suc n) va d km s = do {
     (r, s) \<leftarrow> kstore vo True va (km d) s;
     case r of Got _ \<Rightarrow> store_loop vo n (va + 1) (d + 1) km s
     | Bad \<Rightarrow> Some (Bad, s) | Gone \<Rightarrow> Some (Gone, s) }"

text \<open>The result is an error number, 0 as \<open>Inr ()\<close>, or the end of the thread.\<close>

definition copyin :: "'f vnode_ops \<Rightarrow> vaddr \<Rightarrow> nat \<Rightarrow> uint32 \<Rightarrow> memory \<Rightarrow> ('f, 'a) sys_st_scheme \<Rightarrow>
    ((errno + unit) access \<times> memory \<times> ('f, 'a) sys_st_scheme) option" where
  "copyin vo usersrc dest len km s =
     (case copycheck usersrc len of
        Inl e \<Rightarrow> Some (Got (Inl e), km, s)
      | Inr stoplen \<Rightarrow>
          if stoplen \<noteq> len then Some (Got (Inl EFAULT), km, s)
          else do {
            (r, km, s) \<leftarrow> load_loop vo (unat len) usersrc dest km s;
            Some (case r of Got _ \<Rightarrow> Got (Inr ()) | Bad \<Rightarrow> Got (Inl EFAULT) | Gone \<Rightarrow> Gone, km, s) })"

definition copyout :: "'f vnode_ops \<Rightarrow> nat \<Rightarrow> vaddr \<Rightarrow> uint32 \<Rightarrow> memory \<Rightarrow> ('f, 'a) sys_st_scheme \<Rightarrow>
    ((errno + unit) access \<times> ('f, 'a) sys_st_scheme) option" where
  "copyout vo src userdest len km s =
     (case copycheck userdest len of
        Inl e \<Rightarrow> Some (Got (Inl e), s)
      | Inr stoplen \<Rightarrow>
          if stoplen \<noteq> len then Some (Got (Inl EFAULT), s)
          else do {
            (r, s) \<leftarrow> store_loop vo (unat len) userdest src km s;
            Some (case r of Got _ \<Rightarrow> Got (Inr ()) | Bad \<Rightarrow> Got (Inl EFAULT) | Gone \<Rightarrow> Gone, s) })"

text \<open>
  \<^verbatim>\<open>copystr\<close> in its two directions. It reads \<^verbatim>\<open>src[i]\<close> twice; the second read is of the same byte and
  cannot fault. \<open>n\<close> is the number of characters still allowed, \<open>i\<close> the number copied; the result is the
  length with the terminator.
\<close>

fun copystr_error :: "uint32 \<Rightarrow> uint32 \<Rightarrow> errno" where
  "copystr_error maxlen stoplen = (if stoplen < maxlen then EFAULT else ENAMETOOLONG)"

primrec copystr_in :: "'f vnode_ops \<Rightarrow> nat \<Rightarrow> nat \<Rightarrow> vaddr \<Rightarrow> nat \<Rightarrow> memory \<Rightarrow> ('f, 'a) sys_st_scheme \<Rightarrow>
    (nat option access \<times> memory \<times> ('f, 'a) sys_st_scheme) option" where
  "copystr_in vo 0 i src d km s = Some (Got None, km, s)"
| "copystr_in vo (Suc n) i src d km s = do {
     (r, s) \<leftarrow> kload vo True src s;
     case r of Got b \<Rightarrow>
       if b = 0 then Some (Got (Some (i + 1)), km(d := b), s)
       else copystr_in vo n (i + 1) (src + 1) (d + 1) (km(d := b)) s
     | Bad \<Rightarrow> Some (Bad, km, s) | Gone \<Rightarrow> Some (Gone, km, s) }"

primrec copystr_out :: "'f vnode_ops \<Rightarrow> nat \<Rightarrow> nat \<Rightarrow> nat \<Rightarrow> vaddr \<Rightarrow> memory \<Rightarrow> ('f, 'a) sys_st_scheme \<Rightarrow>
    (nat option access \<times> ('f, 'a) sys_st_scheme) option" where
  "copystr_out vo 0 i src d km s = Some (Got None, s)"
| "copystr_out vo (Suc n) i src d km s = do {
     (r, s) \<leftarrow> kstore vo True d (km src) s;
     case r of Got _ \<Rightarrow>
       if km src = 0 then Some (Got (Some (i + 1)), s)
       else copystr_out vo n (i + 1) (src + 1) (d + 1) km s
     | Bad \<Rightarrow> Some (Bad, s) | Gone \<Rightarrow> Some (Gone, s) }"

definition copyinstr :: "'f vnode_ops \<Rightarrow> vaddr \<Rightarrow> nat \<Rightarrow> uint32 \<Rightarrow> memory \<Rightarrow> ('f, 'a) sys_st_scheme \<Rightarrow>
    ((errno + nat) access \<times> memory \<times> ('f, 'a) sys_st_scheme) option" where
  "copyinstr vo usersrc dest len km s =
     (case copycheck usersrc len of
        Inl e \<Rightarrow> Some (Got (Inl e), km, s)
      | Inr stoplen \<Rightarrow> do {
          (r, km, s) \<leftarrow> copystr_in vo (min (unat len) (unat stoplen)) 0 usersrc dest km s;
          Some (case r of Got (Some k) \<Rightarrow> Got (Inr k) | Got None \<Rightarrow> Got (Inl (copystr_error len stoplen))
                | Bad \<Rightarrow> Got (Inl EFAULT) | Gone \<Rightarrow> Gone, km, s) })"

definition copyoutstr :: "'f vnode_ops \<Rightarrow> nat \<Rightarrow> vaddr \<Rightarrow> uint32 \<Rightarrow> memory \<Rightarrow> ('f, 'a) sys_st_scheme \<Rightarrow>
    ((errno + nat) access \<times> ('f, 'a) sys_st_scheme) option" where
  "copyoutstr vo src userdest len km s =
     (case copycheck userdest len of
        Inl e \<Rightarrow> Some (Got (Inl e), s)
      | Inr stoplen \<Rightarrow> do {
          (r, s) \<leftarrow> copystr_out vo (min (unat len) (unat stoplen)) 0 src userdest km s;
          Some (case r of Got (Some k) \<Rightarrow> Got (Inr k) | Got None \<Rightarrow> Got (Inl (copystr_error len stoplen))
                | Bad \<Rightarrow> Got (Inl EFAULT) | Gone \<Rightarrow> Gone, s) })"

section \<open>The user range check\<close>

lemma copycheck_eq:
  "copycheck p len =
    (if len = 0 then (if p = 0 then Inr USERSPACETOP else Inl EFAULT)
     else if unat p + unat len > 2 ^ 32 \<or> USERSPACETOP \<le> p then Inl EFAULT
     else Inr (if unat p + unat len \<le> 2 ^ 31 then len else USERSPACETOP - p))"
proof (cases "len = 0")
  case True
  have "p - 1 < p \<longleftrightarrow> p \<noteq> 0"
  proof
    assume "p \<noteq> 0"
    then have "unat (p - 1) = unat p - 1" by (simp add: unat_minus_one)
    moreover have "0 < unat p" using \<open>p \<noteq> 0\<close> by (simp add: unat_gt_0)
    ultimately show "p - 1 < p" by (simp add: word_less_nat_alt)
  qed (auto simp: word_less_nat_alt)
  with True show ?thesis by (auto simp: copycheck_def Let_def)
next
  case False
  have b: "unat p < 2 ^ 32" "unat len < 2 ^ 32" "0 < unat len"
    using unsigned_less [of p] unsigned_less [of len] False by (simp_all add: unat_gt_0)
  have "p + len - 1 = word_of_nat (unat p + unat len - 1)"
    using b(3) by (simp add: of_nat_diff)
  then have top: "unat (p + len - 1) = (unat p + unat len - 1) mod 2 ^ 32"
    by (simp only: unat_of_nat) simp
  show ?thesis
  proof (cases "unat p + unat len > 2 ^ 32")
    case True
    then have "2 ^ 32 \<le> unat p + unat len - 1" and "unat p + unat len - 1 - 2 ^ 32 < 2 ^ 32"
      using b by linarith+
    then have "unat (p + len - 1) = unat p + unat len - 1 - 2 ^ 32"
      unfolding top by (simp only: le_mod_geq mod_less)
    then have "p + len - 1 < p" unfolding word_less_nat_alt using True b by linarith
    with True False show ?thesis by (simp add: copycheck_def Let_def)
  next
    case small: False
    then have t: "unat (p + len - 1) = unat p + unat len - 1" using b by (simp add: top)
    then have "\<not> p + len - 1 < p" unfolding word_less_nat_alt using b by linarith
    moreover have "USERSPACETOP \<le> p + len - 1 \<longleftrightarrow> \<not> unat p + unat len \<le> 2 ^ 31"
      using t b by (simp add: word_le_nat_alt) linarith
    ultimately show ?thesis using small False by (auto simp: copycheck_def Let_def)
  qed
qed

section \<open>Single accesses\<close>

text \<open>What an access leaves alone.\<close>

definition same_sys :: "('f \<Rightarrow> byte list) \<Rightarrow> ('f, 'a) sys_st_scheme \<Rightarrow> ('f, 'a) sys_st_scheme \<Rightarrow> bool" where
  "same_sys content s s' \<longleftrightarrow>
     procs s' = procs s \<and> curproc s' = curproc s \<and> user_byte content s' = user_byte content s"

lemma same_sys_refl [simp]: "same_sys content s s"
  by (simp add: same_sys_def)

lemma same_sys_trans: "same_sys content s s' \<Longrightarrow> same_sys content s' s'' \<Longrightarrow> same_sys content s s''"
  by (simp add: same_sys_def)

lemma user_byte_user:
  assumes "sys_inv vo content s" and "user_byte content s pid va = Some b"
  shows "va < MIPS_KSEG0"
proof -
  obtain img ro where "procs_ok content img ro s" using assms(1) by (auto simp: sys_inv_def)
  from user_byteE [OF this assms(2)] show ?thesis by blast
qed

lemma kload_hit:
  assumes inv: "sys_inv vo content s" and cur: "curproc s = Some pid"
    and b: "user_byte content s pid va = Some b" and hit: "tlb_lookup s va \<noteq> None"
  shows "kload vo bf va s = Some (Got b, s)"
proof -
  note va = user_byte_user [OF inv b]
  then obtain c where c: "user_load s va = Some c" using hit by (auto simp: user_load_def)
  moreover have "c = b" by (rule user_load_correct [OF inv cur b c])
  ultimately show ?thesis using va by (subst kload.simps) simp
qed

lemma kload_user:
  fixes s :: "('f, 'a) sys_st_scheme"
  assumes inv: "sys_inv vo content s" and cur: "curproc s = Some pid"
    and b: "user_byte content s pid va = Some b" and room: "has_room s \<or> kload vo bf va s \<noteq> None"
  shows "\<exists>s'. kload vo bf va s = Some (Got b, s') \<and> sys_inv vo content s' \<and> same_sys content s s' \<and>
    tlb_lookup s' va \<noteq> None \<and> (tlb_lookup s va \<noteq> None \<longrightarrow> s' = s)"
proof (cases "tlb_lookup s va")
  case None
  note va = user_byte_user [OF inv b]
  have miss: "user_load s va = None" using None by (simp add: user_load_def)
  have "has_room s \<or> vm_fault vo VM_FAULT_READ va s \<noteq> None"
  proof (rule disjCI)
    assume "\<not> vm_fault vo VM_FAULT_READ va s \<noteq> None"
    then have "kload vo bf va s = None" using va miss by (subst kload.simps) (simp add: vm_trap_def)
    with room show "has_room s" by blast
  qed
  then obtain s' pa w where s': "vm_fault vo VM_FAULT_READ va s = Some (Handled, s')" "sys_inv vo content s'"
    "procs s' = procs s" "curproc s' = curproc s" "user_byte content s' = user_byte content s"
    "tlb_lookup s' va = Some (pa, w)"
    using vm_fault_sys [OF inv cur b disjI1 [OF refl] None] by blast
  have "kload vo bf va s' = Some (Got b, s')"
    using kload_hit [OF s'(2)] s'(4,5,6) cur b by simp
  then have "kload vo bf va s = Some (Got b, s')"
    using va miss s'(1) by (subst kload.simps) (simp add: vm_trap_def)
  with s' None show ?thesis by (auto simp: same_sys_def)
next
  case (Some x)
  with kload_hit [OF inv cur b] inv show ?thesis by auto
qed

text \<open>A byte the running process may write.\<close>

definition writable :: "('f, 'a) sys_st_scheme \<Rightarrow> vaddr \<Rightarrow> bool" where
  "writable s va \<longleftrightarrow> (\<exists>as. proc_getas s = Some as \<and> as_get_segment_type as va \<noteq> Some SEGMENT_TEXT)"

lemma writable_cong: "procs s' = procs s \<Longrightarrow> curproc s' = curproc s \<Longrightarrow> writable s' va = writable s va"
  by (simp add: writable_def proc_getas_def)

lemma lookup_writable:
  fixes s :: "('f, 'a) sys_st_scheme"
  assumes inv: "sys_inv vo content s" and cur: "curproc s = Some pid"
    and b: "user_byte content s pid va = Some b" and w: "writable s va"
    and look: "tlb_lookup s va = Some (pa, x)"
  shows "x"
proof -
  obtain img ro where vi: "vm_inv vo content img ro (cur_tr s) None s" and ok: "procs_ok content img ro s"
    using inv by (auto simp: sys_inv_def)
  obtain pr as t k e where u: "has_table s pid pr as t" "as_wf as" "in_as as va" "pt_get_index as va = Some k"
    "k < as_npages as" "va < MIPS_KSEG0" "page_no as k = vpn va" by (rule user_byteE [OF ok b])
  have as: "proc_getas s = Some as" using cur u(1) by (simp add: proc_getas_def has_table_def)
  then have "proc_getas s \<noteq> None" by simp
  then obtain pid' pr' as' t' k' where p: "curproc s = Some pid'" "has_table s pid' pr' as' t'"
    "page_no as' k' = vpn va" "k' < as_npages as'" "x = (\<not> text_index as' k')"
    by (rule tlb_lookup_page [OF vi ok _ u(6) look])
  have eq: "as' = as" using p(1,2) cur u(1) by (auto simp: has_table_def)
  have "k' = k" by (rule page_no_eq [OF u(2)]) (use p(3,4) u(5,7) eq in simp_all)
  moreover have "\<not> text_index as k"
    using pt_get_index_spec [OF u(2,3)] u(4) w as unfolding writable_def by (metis option.inject)
  ultimately show ?thesis using p(5) eq by simp
qed

lemma kstore_hit:
  fixes s :: "('f, 'a) sys_st_scheme"
  assumes inv: "sys_inv vo content s" and cur: "curproc s = Some pid"
    and b: "user_byte content s pid va = Some b" and w: "writable s va" and hit: "tlb_lookup s va \<noteq> None"
  shows "\<exists>s'. kstore vo bf va c s = Some (Got (), s') \<and> sys_inv vo content s' \<and> procs s' = procs s \<and>
    curproc s' = curproc s \<and> user_byte content s' = flat_store pid va c (user_byte content s) \<and> tlb s' = tlb s"
proof -
  note va = user_byte_user [OF inv b]
  obtain pa where pa: "tlb_lookup s va = Some (pa, True)"
    using hit lookup_writable [OF inv cur b w] by (metis not_None_eq surj_pair)
  then obtain s' where s': "user_store va c s = Some s'" "tlb s' = tlb s" using va by (simp add: user_store_def)
  have "proc_getas s \<noteq> None" using w by (auto simp: writable_def)
  note st = user_store_correct [OF inv cur this s'(1)]
  have "kstore vo bf va c s = Some (Got (), s')" using va s'(1) by (subst kstore.simps) simp
  with st s'(2) show ?thesis by (auto simp: flat_store_def fun_eq_iff)
qed

lemma kstore_user:
  fixes s :: "('f, 'a) sys_st_scheme"
  assumes inv: "sys_inv vo content s" and cur: "curproc s = Some pid"
    and b: "user_byte content s pid va = Some b" and w: "writable s va"
    and room: "has_room s \<or> kstore vo bf va c s \<noteq> None"
  shows "\<exists>s'. kstore vo bf va c s = Some (Got (), s') \<and> sys_inv vo content s' \<and> procs s' = procs s \<and>
    curproc s' = curproc s \<and> user_byte content s' = flat_store pid va c (user_byte content s) \<and>
    tlb_lookup s' va \<noteq> None \<and> (tlb_lookup s va \<noteq> None \<longrightarrow> tlb s' = tlb s)"
proof (cases "tlb_lookup s va")
  case None
  note va = user_byte_user [OF inv b]
  have miss: "user_store va c s = None" using None by (simp add: user_store_def)
  have "has_room s \<or> vm_fault vo VM_FAULT_WRITE va s \<noteq> None"
  proof (rule disjCI)
    assume "\<not> vm_fault vo VM_FAULT_WRITE va s \<noteq> None"
    then have "kstore vo bf va c s = None" using va miss None by (subst kstore.simps) (simp add: vm_trap_def)
    with room show "has_room s" by blast
  qed
  then obtain s1 pa x where s1: "vm_fault vo VM_FAULT_WRITE va s = Some (Handled, s1)" "sys_inv vo content s1"
    "procs s1 = procs s" "curproc s1 = curproc s" "user_byte content s1 = user_byte content s"
    "tlb_lookup s1 va = Some (pa, x)"
    using vm_fault_sys [OF inv cur b disjI2 [OF refl] None] by blast
  have "curproc s1 = Some pid" "user_byte content s1 pid va = Some b" "writable s1 va" "tlb_lookup s1 va \<noteq> None"
    using s1 cur b w by (simp_all add: writable_cong [of s1 s])
  note st = kstore_hit [OF s1(2) this, of bf c]
  have "kstore vo bf va c s = kstore vo bf va c s1"
    using va miss None s1(1) by (subst kstore.simps) (simp add: vm_trap_def)
  with st s1 None show ?thesis by (auto simp: tlb_lookup_def)
next
  case (Some x)
  then have "tlb_lookup s va \<noteq> None" by simp
  from kstore_hit [OF inv cur b w this, of bf c] this show ?thesis by (auto simp: tlb_lookup_def)
qed

section \<open>Copies of a range\<close>

text \<open>The addresses of a range that ends below the top of the address space.\<close>

lemma range_add:
  assumes "\<And>i. i < n \<Longrightarrow> va + of_nat i < (MIPS_KSEG0 :: vaddr)" and "i < n"
  shows "unat (va + of_nat i) = unat va + i" and "unat va + i < 2 ^ 31"
proof -
  have "unat (va + of_nat i) = unat va + i \<and> unat va + i < 2 ^ 31" using assms(2)
  proof (induction i)
    case 0
    with assms(1) [of 0] show ?case by (simp add: word_less_nat_alt)
  next
    case (Suc i)
    then have "unat va + i < 2 ^ 31" by simp
    moreover have "va + of_nat (Suc i) = word_of_nat (unat va + Suc i)" by simp
    ultimately have "unat (va + of_nat (Suc i)) = unat va + Suc i"
      by (simp only: unat_of_nat) simp
    moreover have "unat (va + of_nat (Suc i)) < 2 ^ 31"
      using assms(1) [OF Suc.prems] unfolding word_less_nat_alt by simp
    ultimately show ?case by linarith
  qed
  then show "unat (va + of_nat i) = unat va + i" and "unat va + i < 2 ^ 31" by blast+
qed

definition one_page :: "vaddr \<Rightarrow> nat \<Rightarrow> bool" where
  "one_page va n \<longleftrightarrow> unat va mod PAGE_SIZE + n \<le> PAGE_SIZE"

lemma div_add_small: "(a + i) div k = a div k" if "a mod k + i < k" for a i k :: nat
proof -
  have "a + i = (a mod k + i) + a div k * k" using mod_div_mult_eq [of a k] by linarith
  then have "(a + i) div k = ((a mod k + i) + a div k * k) div k" by (rule arg_cong)
  also have "\<dots> = a div k + (a mod k + i) div k" using that by (intro div_mult_self1) linarith
  finally show ?thesis using that by simp
qed

lemma one_page_lookup:
  assumes page: "one_page va n" and i: "i < n" and u: "unat (va + of_nat i) = unat va + i"
  shows "tlb_lookup s (va + of_nat i) = tlb_lookup s va"
proof -
  have "unat va mod PAGE_SIZE + i < PAGE_SIZE" using page i by (simp add: one_page_def)
  then have "vpn (va + of_nat i) = vpn va" unfolding vpn_def u by (rule div_add_small)
  then have "(va + of_nat i) AND PAGE_FRAME = va AND PAGE_FRAME" by (simp only: page_frame_eq_iff)
  then show ?thesis unfolding tlb_lookup_def by (simp only:)
qed

text \<open>The bytes of a process at consecutive addresses.\<close>

definition user_bytes :: "('f \<Rightarrow> byte list) \<Rightarrow> ('f, 'a) sys_st_scheme \<Rightarrow> nat \<Rightarrow> vaddr \<Rightarrow> byte list \<Rightarrow> bool" where
  "user_bytes content s pid va bs \<longleftrightarrow> (\<forall>i < length bs. user_byte content s pid (va + of_nat i) = Some (bs ! i))"

lemma user_bytes_Cons:
  "user_bytes content s pid va (b # bs) \<longleftrightarrow> user_byte content s pid va = Some b \<and> user_bytes content s pid (va + 1) bs"
  unfolding user_bytes_def by (auto simp: All_less_Suc2 add.assoc)

lemma user_bytes_range:
  assumes "sys_inv vo content s" and "user_bytes content s pid va bs" and "i < length bs"
  shows "unat (va + of_nat i) = unat va + i" and "unat va + i < 2 ^ 31"
proof -
  have "va + of_nat i < MIPS_KSEG0" if "i < length bs" for i
    using user_byte_user [OF assms(1)] assms(2) that unfolding user_bytes_def by blast
  from range_add [OF this assms(3)] show "unat (va + of_nat i) = unat va + i" and "unat va + i < 2 ^ 31" by simp_all
qed

lemma user_bytes_copycheck:
  assumes "sys_inv vo content s" and "user_bytes content s pid va bs" and "bs \<noteq> []" and "unat len = length bs"
  shows "copycheck va len = Inr len"
proof -
  have "unat va + (length bs - 1) < 2 ^ 31" using user_bytes_range [OF assms(1,2), of "length bs - 1"] assms(3) by simp
  moreover have "0 < length bs" using assms(3) by simp
  ultimately have "unat va + unat len \<le> 2 ^ 31" "0 < unat len" using assms(4) by linarith+
  then have "len \<noteq> 0" "\<not> USERSPACETOP \<le> va" "unat va + unat len \<le> 2 ^ 31" "\<not> unat va + unat len > 2 ^ 32"
    by (auto simp: word_le_nat_alt)
  then show ?thesis by (simp add: copycheck_eq)
qed

text \<open>
  Enough for the accesses to a range to return: the range is on one page and there is room to load it, or
  its pages are in the TLB.
\<close>

definition ready :: "('f, 'a) sys_st_scheme \<Rightarrow> vaddr \<Rightarrow> nat \<Rightarrow> bool" where
  "ready s va n \<longleftrightarrow> has_room s \<and> one_page va n \<or> (\<forall>i < n. tlb_lookup s (va + of_nat i) \<noteq> None)"

lemma ready_tail:
  fixes s s' :: "('f, 'a) sys_st_scheme"
  assumes "sys_inv vo content s" and "user_bytes content s pid va (b # bs)" and "ready s va (Suc (length bs))"
    and hit: "tlb_lookup s' va \<noteq> None" and same: "tlb_lookup s va \<noteq> None \<Longrightarrow> tlb s' = tlb s"
  shows "ready s' (va + 1) (length bs)"
proof (cases "has_room s \<and> one_page va (length (b # bs))")
  case True
  have "tlb_lookup s' (va + 1 + of_nat i) \<noteq> None" if "i < length bs" for i
    using one_page_lookup [OF conjunct2 [OF True] _ user_bytes_range(1) [OF assms(1,2)], of "Suc i" s'] that hit
    by (simp add: add.assoc del: not_None_eq)
  then show ?thesis by (simp add: ready_def)
next
  case False
  with assms(3) same show ?thesis by (auto simp: ready_def All_less_Suc2 add.assoc tlb_lookup_def)
qed

lemma ready_first: "ready s va (Suc n) \<Longrightarrow> has_room s \<or> tlb_lookup s va \<noteq> None"
  by (auto simp: ready_def All_less_Suc2)

lemma kload_step:
  fixes s :: "('f, 'a) sys_st_scheme"
  assumes inv: "sys_inv vo content s" and cur: "curproc s = Some pid" and u: "user_bytes content s pid va (b # bs)"
    and room: "ready s va (Suc (length bs)) \<or> kload vo bf va s \<noteq> None"
  obtains s1 where "kload vo bf va s = Some (Got b, s1)" and "sys_inv vo content s1" and "same_sys content s s1"
    and "curproc s1 = Some pid" and "user_bytes content s1 pid (va + 1) bs"
    and "ready s va (Suc (length bs)) \<longrightarrow> ready s1 (va + 1) (length bs)"
proof -
  have ub: "user_byte content s pid va = Some b" "user_bytes content s pid (va + 1) bs"
    using u by (simp_all add: user_bytes_Cons)
  have "has_room s \<or> kload vo bf va s \<noteq> None"
    using room ready_first kload_hit [OF inv cur ub(1), of bf] by blast
  from kload_user [OF inv cur ub(1) this] obtain s1 where
    s1: "kload vo bf va s = Some (Got b, s1)" "sys_inv vo content s1" "same_sys content s s1"
    "tlb_lookup s1 va \<noteq> None" "tlb_lookup s va \<noteq> None \<longrightarrow> s1 = s" by blast
  show ?thesis
  proof (rule that [OF s1(1-3)])
    show "ready s va (Suc (length bs)) \<longrightarrow> ready s1 (va + 1) (length bs)"
      using ready_tail [OF inv u _ s1(4)] s1(5) by blast
  qed (use s1(3) cur ub(2) in \<open>simp_all add: same_sys_def user_bytes_def\<close>)
qed

lemma mem_put_Cons: "mem_put (km(d := b)) (Suc d) bs = mem_put km d (b # bs)"
  using mem_put_append [of km d "[b]" bs] by (simp add: mem_put_single)

lemma load_loop_user:
  fixes s :: "('f, 'a) sys_st_scheme"
  assumes "sys_inv vo content s" and "curproc s = Some pid" and "user_bytes content s pid va bs"
    and "ready s va (length bs) \<or> load_loop vo (length bs) va d km s \<noteq> None"
  shows "\<exists>s'. load_loop vo (length bs) va d km s = Some (Got (), mem_put km d bs, s') \<and> sys_inv vo content s' \<and>
    same_sys content s s'"
  using assms
proof (induction bs arbitrary: va d km s)
  case (Cons b bs)
  have "ready s va (Suc (length bs)) \<or> kload vo True va s \<noteq> None" using Cons.prems(4) by auto
  from kload_step [OF Cons.prems(1-3) this] obtain s1 where
    s1: "kload vo True va s = Some (Got b, s1)" "sys_inv vo content s1" "same_sys content s s1"
    "curproc s1 = Some pid" "user_bytes content s1 pid (va + 1) bs"
    "ready s va (Suc (length bs)) \<longrightarrow> ready s1 (va + 1) (length bs)" .
  have "ready s1 (va + 1) (length bs) \<or> load_loop vo (length bs) (va + 1) (d + 1) (km(d := b)) s1 \<noteq> None"
    using Cons.prems(4) s1(1,6) by auto
  from Cons.IH [OF s1(2,4,5) this] s1(1,3) show ?case
    by (auto simp: mem_put_Cons simp del: fun_upd_apply intro: same_sys_trans)
qed simp

lemma copystr_in_user:
  fixes s :: "('f, 'a) sys_st_scheme"
  assumes "sys_inv vo content s" and "curproc s = Some pid" and "user_bytes content s pid va (str @ [0])"
    and "0 \<notin> set str" and "length str < n" and "ready s va (length str + 1)"
  shows "\<exists>s'. copystr_in vo n i va d km s = Some (Got (Some (i + length str + 1)), mem_put km d (str @ [0]), s') \<and>
    sys_inv vo content s' \<and> same_sys content s s'"
  using assms
proof (induction str arbitrary: n i va d km s)
  case Nil
  obtain n' where n: "n = Suc n'" using Nil.prems(5) by (cases n) auto
  from Nil.prems kload_step [OF Nil.prems(1,2), of va 0 "[]" True] obtain s1 where
    "kload vo True va s = Some (Got 0, s1)" "sys_inv vo content s1" "same_sys content s s1" by auto
  then show ?case by (simp add: n mem_put_single del: fun_upd_apply)
next
  case (Cons b bs)
  obtain n' where n: "n = Suc n'" "length bs < n'" using Cons.prems(5) by (cases n) auto
  have "ready s va (Suc (length (bs @ [0])))" using Cons.prems(6) by simp
  with kload_step [OF Cons.prems(1,2), of va b "bs @ [0]" True] Cons.prems(3) obtain s1 where
    s1: "kload vo True va s = Some (Got b, s1)" "sys_inv vo content s1" "same_sys content s s1"
    "curproc s1 = Some pid" "user_bytes content s1 pid (va + 1) (bs @ [0])" "ready s1 (va + 1) (length bs + 1)"
    by auto
  have "b \<noteq> 0" "0 \<notin> set bs" using Cons.prems(4) by auto
  from Cons.IH [OF s1(2,4,5) this(2) n(2) s1(6), of "i + 1" "d + 1" "km(d := b)"] s1(1,3) this(1) n(1)
  show ?case by (auto simp: mem_put_Cons simp del: fun_upd_apply intro: same_sys_trans)
qed

lemma copystr_in_long:
  fixes s :: "('f, 'a) sys_st_scheme"
  assumes "sys_inv vo content s" and "curproc s = Some pid" and "user_bytes content s pid va str"
    and "0 \<notin> set str" and "ready s va (length str)"
  shows "\<exists>s'. copystr_in vo (length str) i va d km s = Some (Got None, mem_put km d str, s') \<and>
    sys_inv vo content s' \<and> same_sys content s s'"
  using assms
proof (induction str arbitrary: i va d km s)
  case (Cons b bs)
  from Cons.prems kload_step [OF Cons.prems(1-3), of True] obtain s1 where
    s1: "kload vo True va s = Some (Got b, s1)" "sys_inv vo content s1" "same_sys content s s1"
    "curproc s1 = Some pid" "user_bytes content s1 pid (va + 1) bs" "ready s1 (va + 1) (length bs)" by auto
  have "b \<noteq> 0" "0 \<notin> set bs" using Cons.prems(4) by auto
  from Cons.IH [OF s1(2,4,5) this(2) s1(6), of "i + 1" "d + 1" "km(d := b)"] s1(1,3) this(1)
  show ?case by (auto simp: mem_put_Cons simp del: fun_upd_apply intro: same_sys_trans)
qed simp

text \<open>The memory of the processes after bytes of one have been replaced.\<close>

definition flat_put :: "nat \<Rightarrow> vaddr \<Rightarrow> byte list \<Rightarrow> (nat \<Rightarrow> vaddr \<Rightarrow> byte option) \<Rightarrow> nat \<Rightarrow> vaddr \<Rightarrow> byte option" where
  "flat_put pid va bs m q x =
     (if q = pid \<and> unat va \<le> unat x \<and> unat x < unat va + length bs then Some (bs ! (unat x - unat va)) else m q x)"

lemma flat_put_Nil [simp]: "flat_put pid va [] m = m"
  by (auto simp: flat_put_def fun_eq_iff)

lemma flat_put_Cons:
  assumes "m pid va \<noteq> None" and "bs \<noteq> [] \<Longrightarrow> unat (va + 1) = unat va + 1"
  shows "flat_put pid (va + 1) bs (flat_store pid va b m) = flat_put pid va (b # bs) m"
proof (intro ext)
  fix q x
  have "x = va \<longleftrightarrow> unat x = unat va" by (auto simp: word_unat_eq_iff)
  moreover have "(b # bs) ! (unat x - unat va) = (if unat x = unat va then b else bs ! (unat x - (unat va + 1)))"
    if "unat va \<le> unat x" using that by (auto simp: nth_Cons')
  ultimately show "flat_put pid (va + 1) bs (flat_store pid va b m) q x = flat_put pid va (b # bs) m q x"
    using assms by (cases "bs = []") (auto simp: flat_put_def flat_store_def)
qed

lemma kstore_step:
  fixes s :: "('f, 'a) sys_st_scheme"
  assumes inv: "sys_inv vo content s" and cur: "curproc s = Some pid" and u: "user_bytes content s pid va (b # bs)"
    and w: "\<forall>i < length (b # bs). writable s (va + of_nat i)"
    and room: "ready s va (Suc (length bs)) \<or> kstore vo bf va c s \<noteq> None"
  obtains s1 where "kstore vo bf va c s = Some (Got (), s1)" and "sys_inv vo content s1" and "procs s1 = procs s"
    and "curproc s1 = Some pid" and "user_bytes content s1 pid (va + 1) bs"
    and "\<forall>i < length bs. writable s1 (va + 1 + of_nat i)"
    and "user_byte content s1 = flat_store pid va c (user_byte content s)"
    and "ready s va (Suc (length bs)) \<longrightarrow> ready s1 (va + 1) (length bs)" and "tlb_lookup s1 va \<noteq> None"
proof -
  have ub: "user_byte content s pid va = Some b" "user_bytes content s pid (va + 1) bs"
    using u by (simp_all add: user_bytes_Cons)
  have wr: "writable s va" using w by (simp add: All_less_Suc2)
  have "has_room s \<or> kstore vo bf va c s \<noteq> None"
    using room ready_first kstore_hit [OF inv cur ub(1) wr, of bf c] by blast
  from kstore_user [OF inv cur ub(1) wr this] obtain s1 where
    s1: "kstore vo bf va c s = Some (Got (), s1)" "sys_inv vo content s1" "procs s1 = procs s"
    "curproc s1 = curproc s" "user_byte content s1 = flat_store pid va c (user_byte content s)"
    "tlb_lookup s1 va \<noteq> None" "tlb_lookup s va \<noteq> None \<longrightarrow> tlb s1 = tlb s" by blast
  have "unat (va + 1 + of_nat i) = unat va + Suc i" if "i < length bs" for i
    using user_bytes_range(1) [OF inv u, of "Suc i"] that by (simp add: add.assoc)
  then have "user_bytes content s1 pid (va + 1) bs"
    using ub(2) unfolding user_bytes_def s1(5) flat_store_def by (metis Suc_n_not_le_n le_add1 add_Suc_right)
  moreover have "writable s1 (va + 1 + of_nat i)" if "i < length bs" for i
    using w that s1(3,4) by (simp add: All_less_Suc2 add.assoc writable_cong [of s1 s])
  ultimately show ?thesis
    using that [OF s1(1-3)] s1(4-7) cur ready_tail [OF inv u _ s1(6)] by auto
qed

lemma flat_put_step:
  assumes "sys_inv vo content s" and "user_bytes content s pid va (b # bs)"
  shows "flat_put pid (va + 1) (mem_get km (d + 1) (length bs)) (flat_store pid va (km d) (user_byte content s)) =
    flat_put pid va (mem_get km d (Suc (length bs))) (user_byte content s)"
proof -
  have "mem_get km d (Suc (length bs)) = km d # mem_get km (d + 1) (length bs)"
    using mem_get_add [of km d 1 "length bs"] by simp
  moreover have "unat (va + 1) = unat va + 1" if "mem_get km (d + 1) (length bs) \<noteq> []"
    using user_bytes_range(1) [OF assms, of 1] that by (cases bs) simp_all
  ultimately show ?thesis using assms(2) by (simp add: flat_put_Cons user_bytes_Cons)
qed

lemma store_loop_user:
  fixes s :: "('f, 'a) sys_st_scheme"
  assumes "sys_inv vo content s" and "curproc s = Some pid" and "user_bytes content s pid va bs"
    and "\<forall>i < length bs. writable s (va + of_nat i)"
    and "ready s va (length bs) \<or> store_loop vo (length bs) va d km s \<noteq> None"
  shows "\<exists>s'. store_loop vo (length bs) va d km s = Some (Got (), s') \<and> sys_inv vo content s' \<and> procs s' = procs s \<and>
    curproc s' = curproc s \<and> user_byte content s' = flat_put pid va (mem_get km d (length bs)) (user_byte content s)"
  using assms
proof (induction bs arbitrary: va d s)
  case (Cons b bs)
  have "ready s va (Suc (length bs)) \<or> kstore vo True va (km d) s \<noteq> None" using Cons.prems(5) by auto
  from kstore_step [OF Cons.prems(1-4) this] obtain s1 where
    s1: "kstore vo True va (km d) s = Some (Got (), s1)" "sys_inv vo content s1" "procs s1 = procs s"
    "curproc s1 = Some pid" "user_bytes content s1 pid (va + 1) bs" "\<forall>i < length bs. writable s1 (va + 1 + of_nat i)"
    "user_byte content s1 = flat_store pid va (km d) (user_byte content s)"
    "ready s va (Suc (length bs)) \<longrightarrow> ready s1 (va + 1) (length bs)" "tlb_lookup s1 va \<noteq> None" .
  have "ready s1 (va + 1) (length bs) \<or> store_loop vo (length bs) (va + 1) (d + 1) km s1 \<noteq> None"
    using Cons.prems(5) s1(1,8) by auto
  from Cons.IH [OF s1(2,4-6) this] s1(1,3,4,7) flat_put_step [OF Cons.prems(1,3), of km d] Cons.prems(2)
  show ?case by auto
qed simp

lemma store_loop_hits:
  fixes s :: "('f, 'a) sys_st_scheme"
  assumes "sys_inv vo content s" and "curproc s = Some pid" and "user_bytes content s pid va bs"
    and "\<forall>i < length bs. writable s (va + of_nat i)" and "\<forall>i < length bs. tlb_lookup s (va + of_nat i) \<noteq> None"
    and "store_loop vo (length bs) va d km s = Some (Got (), s')"
  shows "tlb s' = tlb s"
  using assms
proof (induction bs arbitrary: va d s)
  case (Cons b bs)
  have hit: "tlb_lookup s va \<noteq> None" and w: "writable s va" and u: "user_byte content s pid va = Some b"
    using Cons.prems(3-5) by (auto simp: All_less_Suc2 user_bytes_Cons)
  have "ready s va (Suc (length bs))" using Cons.prems(5) by (simp add: ready_def)
  with kstore_step [OF Cons.prems(1-4), of True "km d"] obtain s1 where
    s1: "kstore vo True va (km d) s = Some (Got (), s1)" "sys_inv vo content s1" "curproc s1 = Some pid"
    "user_bytes content s1 pid (va + 1) bs" "\<forall>i < length bs. writable s1 (va + 1 + of_nat i)" by auto
  have t: "tlb s1 = tlb s" using kstore_hit [OF Cons.prems(1,2) u w hit, of True "km d"] s1(1) by auto
  have "\<forall>i < length bs. tlb_lookup s1 (va + 1 + of_nat i) \<noteq> None"
    using Cons.prems(5) by (simp add: All_less_Suc2 add.assoc tlb_lookup_def t)
  with Cons.IH [OF s1(2-5), of "d + 1"] Cons.prems(6) s1(1) t show ?case by simp
qed simp

lemma store_loop_ready:
  fixes s :: "('f, 'a) sys_st_scheme"
  assumes inv: "sys_inv vo content s" and cur: "curproc s = Some pid" and u: "user_bytes content s pid va bs"
    and w: "\<forall>i < length bs. writable s (va + of_nat i)" and rdy: "ready s va (length bs)"
    and run: "store_loop vo (length bs) va d km s = Some (Got (), s')"
  shows "ready s' va (length bs)"
proof (cases "\<forall>i < length bs. tlb_lookup s (va + of_nat i) \<noteq> None")
  case True
  from store_loop_hits [OF inv cur u w True run] True show ?thesis by (simp add: ready_def tlb_lookup_def)
next
  case False
  then have page: "one_page va (length bs)" and "bs \<noteq> []" using rdy by (auto simp: ready_def)
  then obtain b bs' where bs: "bs = b # bs'" by (cases bs) auto
  have "ready s va (Suc (length bs'))" using rdy by (simp add: bs)
  then obtain s1 where
    s1: "kstore vo True va (km d) s = Some (Got (), s1)" "sys_inv vo content s1" "curproc s1 = Some pid"
    "user_bytes content s1 pid (va + 1) bs'" "\<forall>i < length bs'. writable s1 (va + 1 + of_nat i)" "tlb_lookup s1 va \<noteq> None"
    by (rule kstore_step [OF inv cur u [unfolded bs] w [unfolded bs] disjI1, where bf = True and c = "km d"])
  have look: "tlb_lookup s2 (va + of_nat i) = tlb_lookup s2 va" if "i < length bs" for i and s2 :: "('f, 'a) sys_st_scheme"
    by (rule one_page_lookup [OF page that user_bytes_range(1) [OF inv u that]])
  have "\<forall>i < length bs'. tlb_lookup s1 (va + 1 + of_nat i) \<noteq> None"
    using look [of "Suc i" s1 for i] s1(6) by (simp add: bs add.assoc)
  moreover have "store_loop vo (length bs') (va + 1) (d + 1) km s1 = Some (Got (), s')" using run s1(1) by (simp add: bs)
  ultimately have "tlb s' = tlb s1" by (rule store_loop_hits [OF s1(2-5)])
  then have "tlb_lookup s' va \<noteq> None" using s1(6) by (simp add: tlb_lookup_def)
  then show ?thesis using look [of _ s'] by (simp add: ready_def)
qed

lemma copystr_out_user:
  fixes s :: "('f, 'a) sys_st_scheme"
  assumes "sys_inv vo content s" and "curproc s = Some pid" and "user_bytes content s pid va bs"
    and "\<forall>i < length bs. writable s (va + of_nat i)" and "ready s va (length bs)"
    and "mem_get km d (length bs) = str @ [0]" and "0 \<notin> set str" and "length str < n"
  shows "\<exists>s'. copystr_out vo n i d va km s = Some (Got (Some (i + length str + 1)), s') \<and> sys_inv vo content s' \<and>
    procs s' = procs s \<and> curproc s' = curproc s \<and>
    user_byte content s' = flat_put pid va (str @ [0]) (user_byte content s)"
  using assms
proof (induction bs arbitrary: n i va d s str)
  case (Cons b bs)
  obtain n' where n: "n = Suc n'" using Cons.prems(8) by (cases n) auto
  from Cons.prems(5) kstore_step [OF Cons.prems(1-4), of True "km d"] obtain s1 where
    s1: "kstore vo True va (km d) s = Some (Got (), s1)" "sys_inv vo content s1" "procs s1 = procs s"
    "curproc s1 = Some pid" "user_bytes content s1 pid (va + 1) bs" "\<forall>i < length bs. writable s1 (va + 1 + of_nat i)"
    "user_byte content s1 = flat_store pid va (km d) (user_byte content s)" "ready s1 (va + 1) (length bs)" by auto
  have m: "km d # mem_get km (d + 1) (length bs) = str @ [0]"
    using mem_get_add [of km d 1 "length bs"] Cons.prems(6) by simp
  note put = flat_put_step [OF Cons.prems(1,3), of km d]
  show ?case
  proof (cases str)
    case Nil
    with m have "km d = 0" "length bs = 0" by (auto simp: mem_get_def)
    then show ?thesis using s1 put Nil n Cons.prems(2) by auto
  next
    case (Cons c cs)
    have c: "km d = c" "c \<noteq> 0" "mem_get km (d + 1) (length bs) = cs @ [0]" "0 \<notin> set cs" "length cs < n'"
      using m Cons Cons.prems n by auto
    from Cons.IH [OF s1(2,4-6,8) c(3-5), of "i + 1"] s1 put c Cons n Cons.prems(2,6) show ?thesis by auto
  qed
qed simp

section \<open>Bad addresses\<close>

text \<open>The state once the running process has been ended by a fault.\<close>

definition killed :: "nat \<Rightarrow> 'f proc \<Rightarrow> nat \<Rightarrow> ('f, 'a) sys_st_scheme \<Rightarrow> ('f, 'a) sys_st_scheme" where
  "killed pid pr n s = s\<lparr>vmstats := stat_add VMSTAT_TLB_FAULT (vmstats s),
     procs := (procs s)(pid \<mapsto> pr\<lparr>status := 255, p_numthreads := p_numthreads pr - 1, p_sem := Some (n + 1)\<rparr>),
     curproc := None\<rparr>"

lemma kload_bad:
  fixes s :: "('f, 'a) sys_st_scheme"
  assumes "sys_inv vo content s" and "curproc s = Some pid" and "has_table s pid pr as t"
    and "0 < p_numthreads pr" and "p_sem pr = Some n" and "va < MIPS_KSEG0"
    and "user_byte content s pid va = None" and miss: "tlb_lookup s va = None"
  shows "kload vo bf va s = Some (Gone, killed pid pr n s)"
proof -
  have "vm_fault vo VM_FAULT_READ va s = Some (Exited, killed pid pr n s)"
    unfolding killed_def by (rule bad_fault_exits [OF assms(1-5)]) (simp add: assms(7))
  moreover have "user_load s va = None" using miss by (simp add: user_load_def)
  ultimately show ?thesis using assms(6) by (subst kload.simps) (simp add: vm_trap_def)
qed

lemma kstore_bad:
  fixes s :: "('f, 'a) sys_st_scheme"
  assumes "sys_inv vo content s" and "curproc s = Some pid" and "has_table s pid pr as t"
    and "0 < p_numthreads pr" and "p_sem pr = Some n" and "va < MIPS_KSEG0"
    and bad: "user_byte content s pid va = None \<and> tlb_lookup s va = None \<or> (\<exists>pa. tlb_lookup s va = Some (pa, False))"
  shows "kstore vo bf va c s = Some (Gone, killed pid pr n s)"
proof -
  let ?ft = "if tlb_lookup s va = None then VM_FAULT_WRITE else VM_FAULT_READONLY"
  have "vm_fault vo ?ft va s = Some (Exited, killed pid pr n s)"
    unfolding killed_def by (rule bad_fault_exits [OF assms(1-5)]) (use bad in auto)
  moreover have "user_store va c s = None" using bad by (auto simp: user_store_def)
  ultimately show ?thesis using assms(6) bad by (subst kstore.simps) (auto simp: vm_trap_def)
qed

lemma load_loop_bad:
  fixes s :: "('f, 'a) sys_st_scheme"
  assumes "sys_inv vo content s" and "curproc s = Some pid" and "has_table s pid pr as t"
    and "0 < p_numthreads pr" and "p_sem pr = Some n" and "va < MIPS_KSEG0"
    and "user_byte content s pid va = None" and "tlb_lookup s va = None" and "0 < m"
  shows "load_loop vo m va d km s = Some (Gone, km, killed pid pr n s)"
  using kload_bad [OF assms(1-8), of True] assms(9) by (cases m) simp_all

lemma store_loop_bad:
  fixes s :: "('f, 'a) sys_st_scheme"
  assumes "sys_inv vo content s" and "curproc s = Some pid" and "has_table s pid pr as t"
    and "0 < p_numthreads pr" and "p_sem pr = Some n" and "va < MIPS_KSEG0"
    and "user_byte content s pid va = None \<and> tlb_lookup s va = None \<or> (\<exists>pa. tlb_lookup s va = Some (pa, False))"
    and "0 < m"
  shows "store_loop vo m va d km s = Some (Gone, killed pid pr n s)"
  using kstore_bad [OF assms(1-7), of True "km d"] assms(8) by (cases m) simp_all

lemma copycheck_bounds:
  assumes "copycheck va len = Inr len" and "len \<noteq> 0"
  shows "unat va + unat len \<le> 2 ^ 31"
proof (rule ccontr)
  assume long: "\<not> unat va + unat len \<le> 2 ^ 31"
  with assms have "USERSPACETOP - va = len" "\<not> USERSPACETOP \<le> va" by (auto simp: copycheck_eq split: if_splits)
  then have "unat len = unat (USERSPACETOP :: vaddr) - unat va" by (metis nle_le unat_sub)
  moreover have "unat va < 2 ^ 31" using \<open>\<not> USERSPACETOP \<le> va\<close> by (simp add: word_le_nat_alt)
  ultimately show False using long by simp
qed

end
