(* ===== verification/Millicode.thy ===== *)
theory Millicode
  imports Prelude
begin

unbundle bit_operations_syntax

text \<open>
  The 64-bit arithmetic the compiler calls on a 32-bit processor:
  \<^verbatim>\<open>common/gcc-millicode\<close>. A \<^verbatim>\<open>long long\<close> is a 64-bit word, and \<^verbatim>\<open>union uu\<close> shows it as two
  32-bit words, \<open>ui_H\<close> and \<open>ui_L\<close>. The signed and the unsigned reading of a word are the functions
  \<^const>\<open>sint\<close> and \<^const>\<open>uint\<close>. Every routine is shown equal to the operation on
  64-bit words. Division is in the theory \<open>Qdivrem\<close>.
\<close>

type_synonym uint64 = "64 word"

record uu =
  ui_H :: uint32
  ui_L :: uint32

definition to_uu :: "uint64 \<Rightarrow> uu" where
  "to_uu x = \<lparr>ui_H = ucast (drop_bit 32 x), ui_L = ucast x\<rparr>"

definition of_uu :: "uu \<Rightarrow> uint64" where
  "of_uu u = push_bit 32 (ucast (ui_H u)) OR ucast (ui_L u)"

abbreviation (input) INT_BITS :: nat where "INT_BITS \<equiv> 32"

definition HHALF :: "uint32 \<Rightarrow> uint32" where
  "HHALF x = drop_bit 16 x"

definition LHALF :: "uint32 \<Rightarrow> uint32" where
  "LHALF x = x AND 0xffff"

definition LHUP :: "uint32 \<Rightarrow> uint32" where
  "LHUP x = push_bit 16 x"

section \<open>Addition, subtraction, bits\<close>

definition adddi3 :: "uint64 \<Rightarrow> uint64 \<Rightarrow> uint64" where
  "adddi3 a b = (let aa = to_uu a; bb = to_uu b;
     l = ui_L aa + ui_L bb;
     h = ui_H aa + ui_H bb + (if l < ui_L bb then 1 else 0)
   in of_uu \<lparr>ui_H = h, ui_L = l\<rparr>)"

definition subdi3 :: "uint64 \<Rightarrow> uint64 \<Rightarrow> uint64" where
  "subdi3 a b = (let aa = to_uu a; bb = to_uu b;
     l = ui_L aa - ui_L bb;
     h = ui_H aa - ui_H bb - (if l > ui_L aa then 1 else 0)
   in of_uu \<lparr>ui_H = h, ui_L = l\<rparr>)"

definition negdi2 :: "uint64 \<Rightarrow> uint64" where
  "negdi2 a = (let aa = to_uu a;
     l = - ui_L aa;
     h = - ui_H aa - (if l > 0 then 1 else 0)
   in of_uu \<lparr>ui_H = h, ui_L = l\<rparr>)"

definition anddi3 :: "uint64 \<Rightarrow> uint64 \<Rightarrow> uint64" where
  "anddi3 a b = (let aa = to_uu a; bb = to_uu b in
     of_uu \<lparr>ui_H = ui_H aa AND ui_H bb, ui_L = ui_L aa AND ui_L bb\<rparr>)"

definition iordi3 :: "uint64 \<Rightarrow> uint64 \<Rightarrow> uint64" where
  "iordi3 a b = (let aa = to_uu a; bb = to_uu b in
     of_uu \<lparr>ui_H = ui_H aa OR ui_H bb, ui_L = ui_L aa OR ui_L bb\<rparr>)"

definition xordi3 :: "uint64 \<Rightarrow> uint64 \<Rightarrow> uint64" where
  "xordi3 a b = (let aa = to_uu a; bb = to_uu b in
     of_uu \<lparr>ui_H = ui_H aa XOR ui_H bb, ui_L = ui_L aa XOR ui_L bb\<rparr>)"

definition one_cmpldi2 :: "uint64 \<Rightarrow> uint64" where
  "one_cmpldi2 a = (let aa = to_uu a in of_uu \<lparr>ui_H = NOT (ui_H aa), ui_L = NOT (ui_L aa)\<rparr>)"

section \<open>Shifts\<close>

definition ashldi3 :: "uint64 \<Rightarrow> nat \<Rightarrow> uint64" where
  "ashldi3 a shift =
     (if shift = 0 then a
      else let aa = to_uu a in
        if shift \<ge> INT_BITS then of_uu \<lparr>ui_H = push_bit (shift - INT_BITS) (ui_L aa), ui_L = 0\<rparr>
        else of_uu \<lparr>ui_H = push_bit shift (ui_H aa) OR drop_bit (INT_BITS - shift) (ui_L aa),
                    ui_L = push_bit shift (ui_L aa)\<rparr>)"

definition lshldi3 :: "uint64 \<Rightarrow> nat \<Rightarrow> uint64" where
  "lshldi3 a shift =
     (if shift = 0 then a
      else let aa = to_uu a in
        if shift \<ge> INT_BITS then of_uu \<lparr>ui_H = push_bit (shift - INT_BITS) (ui_L aa), ui_L = 0\<rparr>
        else of_uu \<lparr>ui_H = push_bit shift (ui_H aa) OR drop_bit (INT_BITS - shift) (ui_L aa),
                    ui_L = push_bit shift (ui_L aa)\<rparr>)"

definition lshrdi3 :: "uint64 \<Rightarrow> nat \<Rightarrow> uint64" where
  "lshrdi3 a shift =
     (if shift = 0 then a
      else let aa = to_uu a in
        if shift \<ge> INT_BITS then of_uu \<lparr>ui_H = 0, ui_L = drop_bit (shift - INT_BITS) (ui_H aa)\<rparr>
        else of_uu \<lparr>ui_H = drop_bit shift (ui_H aa),
                    ui_L = drop_bit shift (ui_L aa) OR push_bit (INT_BITS - shift) (ui_H aa)\<rparr>)"

text \<open>\<^verbatim>\<open>>>\<close> on a signed \<^verbatim>\<open>int\<close> is \<^const>\<open>signed_drop_bit\<close>.\<close>

definition ashrdi3 :: "uint64 \<Rightarrow> nat \<Rightarrow> uint64" where
  "ashrdi3 a shift =
     (if shift = 0 then a
      else let aa = to_uu a in
        if shift \<ge> INT_BITS then
          of_uu \<lparr>ui_H = signed_drop_bit 1 (signed_drop_bit (INT_BITS - 1) (ui_H aa)),
                 ui_L = signed_drop_bit (shift - INT_BITS) (ui_H aa)\<rparr>
        else of_uu \<lparr>ui_H = signed_drop_bit shift (ui_H aa),
                    ui_L = drop_bit shift (ui_L aa) OR push_bit (INT_BITS - shift) (ui_H aa)\<rparr>)"

section \<open>Comparison\<close>

definition cmpdi2 :: "uint64 \<Rightarrow> uint64 \<Rightarrow> int" where
  "cmpdi2 a b = (let aa = to_uu a; bb = to_uu b in
     if ui_H aa <s ui_H bb then 0 else if ui_H bb <s ui_H aa then 2
     else if ui_L aa < ui_L bb then 0 else if ui_L aa > ui_L bb then 2 else 1)"

definition ucmpdi2 :: "uint64 \<Rightarrow> uint64 \<Rightarrow> int" where
  "ucmpdi2 a b = (let aa = to_uu a; bb = to_uu b in
     if ui_H aa < ui_H bb then 0 else if ui_H aa > ui_H bb then 2
     else if ui_L aa < ui_L bb then 0 else if ui_L aa > ui_L bb then 2 else 1)"

section \<open>Multiplication\<close>

text \<open>
  \<^verbatim>\<open>__lmulq\<close>: the 64-bit product of two 32-bit words from products of 16-bit halves.
\<close>

definition lmulq :: "uint32 \<Rightarrow> uint32 \<Rightarrow> uint64" where
  "lmulq u v = (let u1 = HHALF u; u0 = LHALF u; v1 = HHALF v; v0 = LHALF v; low = u0 * v0 in
     if u1 = 0 \<and> v1 = 0 then ucast low
     else let
       (udiff, neg) = (if u1 \<ge> u0 then (u1 - u0, False) else (u0 - u1, True));
       (vdiff, neg) = (if v0 \<ge> v1 then (v0 - v1, neg) else (v1 - v0, \<not> neg));
       mid = udiff * vdiff;
       high = u1 * v1;
       prodh = high + HHALF high;
       prodl = LHUP high;
       was = prodl;
       (prodl, prodh) =
         (if neg then let prodl = prodl - LHUP mid in (prodl, prodh - (HHALF mid + (if prodl > was then 1 else 0)))
          else let prodl = prodl + LHUP mid in (prodl, prodh + (HHALF mid + (if prodl < was then 1 else 0))));
       was = prodl;
       prodl = prodl + LHUP low;
       prodh = prodh + (HHALF low + (if prodl < was then 1 else 0));
       prodl = prodl + low;
       prodh = (if prodl < low then prodh + 1 else prodh)
     in of_uu \<lparr>ui_H = prodh, ui_L = prodl\<rparr>)"

definition muldi3 :: "uint64 \<Rightarrow> uint64 \<Rightarrow> uint64" where
  "muldi3 a b = (let
     (u, negall) = (if 0 \<le>s a then (to_uu a, False) else (to_uu (- a), True));
     (v, negall) = (if 0 \<le>s b then (to_uu b, negall) else (to_uu (- b), \<not> negall));
     u1 = ui_H u; u0 = ui_L u; v1 = ui_H v; v0 = ui_L v;
     prod =
       (if u1 = 0 \<and> v1 = 0 then lmulq u0 v0
        else let
          low = to_uu (lmulq u0 v0);
          (negmid, udiff) = (if u1 \<ge> u0 then (False, u1 - u0) else (True, u0 - u1));
          (negmid, vdiff) = (if v0 \<ge> v1 then (negmid, v0 - v1) else (\<not> negmid, v1 - v0));
          mid = udiff * vdiff;
          high = u1 * v1
        in of_uu \<lparr>ui_H = high + (if negmid then - mid else mid) + ui_L low + ui_H low, ui_L = ui_L low\<rparr>)
     in if negall then - prod else prod)"

section \<open>Halves\<close>

lemma bit_to_uu:
  "bit (ui_H (to_uu x)) n \<longleftrightarrow> n < 32 \<and> bit x (n + 32)" "bit (ui_L (to_uu x)) n \<longleftrightarrow> n < 32 \<and> bit x n"
  by (auto simp: to_uu_def bit_ucast_iff bit_drop_bit_eq add.commute)

lemma bit_of_uu:
  "bit (of_uu u) n \<longleftrightarrow> (if n < 32 then bit (ui_L u) n else bit (ui_H u) (n - 32))"
proof -
  have "n - 32 < 32" "n < 64" if "bit (ui_H u) (n - 32)" "32 \<le> n"
    using that bit_imp_le_length [OF that(1)] by auto
  then show ?thesis
    by (auto simp: of_uu_def bit_or_iff bit_push_bit_iff bit_ucast_iff not_less dest: bit_imp_le_length)
qed

lemma of_uu_to_uu [simp]: "of_uu (to_uu x) = x"
  by (rule bit_word_eqI) (auto simp: bit_of_uu bit_to_uu)

text \<open>The value of a pair, in the ring of 64-bit words: the high word counts modulo \<open>2 ^ 32\<close> only.\<close>

definition hi64 :: "uint32 \<Rightarrow> uint64" where
  "hi64 x = ucast x * 2 ^ 32"

lemma of_uu_eq: "of_uu \<lparr>ui_H = h, ui_L = l\<rparr> = hi64 h + ucast l"
proof -
  have "push_bit 32 (ucast h) AND ucast l = (0 :: uint64)"
    by (rule bit_word_eqI) (auto simp: bit_simps dest: bit_imp_le_length)
  then show ?thesis by (simp add: of_uu_def disjunctive_add_eq_or [symmetric] push_bit_eq_mult hi64_def)
qed

lemma to_uu_eq: "hi64 (ui_H (to_uu x)) + ucast (ui_L (to_uu x)) = x"
  using of_uu_to_uu [of x] by (cases "to_uu x") (simp add: of_uu_eq)

lemma hi64_of_int: "hi64 (of_int k) = of_int k * 2 ^ 32"
proof -
  have "of_int k * 2 ^ 32 = (of_int (k mod 2 ^ 32 + 2 ^ 32 * (k div 2 ^ 32)) * 2 ^ 32 :: uint64)" by simp
  also have "\<dots> = of_int (k mod 2 ^ 32) * 2 ^ 32 + of_int (k div 2 ^ 32) * (2 ^ 32 * 2 ^ 32)"
    by (simp only: of_int_add of_int_mult of_int_power of_int_numeral algebra_simps)
  also have "(2 ^ 32 * 2 ^ 32 :: uint64) = 0" by simp
  finally show ?thesis by (simp add: hi64_def ucast_eq uint_word_of_int take_bit_eq_mod)
qed

lemma hi64_ring:
  "hi64 (x + y) = hi64 x + hi64 y" "hi64 (x - y) = hi64 x - hi64 y" "hi64 (- x) = - hi64 x"
  "hi64 0 = 0" "hi64 1 = 2 ^ 32"
proof -
  have u: "of_int (uint w) = w" for w :: uint32 by simp
  have h: "hi64 w = of_int (uint w) * 2 ^ 32" for w by (metis hi64_of_int u)
  show "hi64 (x + y) = hi64 x + hi64 y"
    using hi64_of_int [of "uint x + uint y"] by (simp add: h [of x] h [of y] algebra_simps)
  show "hi64 (x - y) = hi64 x - hi64 y"
    using hi64_of_int [of "uint x - uint y"] by (simp add: h [of x] h [of y] algebra_simps)
  show "hi64 (- x) = - hi64 x"
    using hi64_of_int [of "- uint x"] by (simp add: h [of x])
qed (simp_all add: hi64_def)

lemma ucast_add_carry:
  "ucast (x + y) = (ucast x + ucast y - (if x + y < y then 2 ^ 32 else 0) :: uint64)" for x y :: uint32
proof -
  have b: "uint x < 2 ^ 32" "uint y < 2 ^ 32" "0 \<le> uint x" using uint_lt2p [of x] uint_lt2p [of y] by simp_all
  have u: "uint (x + y) = (if uint x + uint y < 2 ^ 32 then uint x + uint y else uint x + uint y - 2 ^ 32)"
    using uint_plus_if' [of x y] by simp
  have "x + y < y \<longleftrightarrow> \<not> uint x + uint y < 2 ^ 32" unfolding word_less_def u using b by auto
  moreover have "(ucast (x + y) :: uint64) = of_int (if uint x + uint y < 2 ^ 32 then uint x + uint y else uint x + uint y - 2 ^ 32)"
    unfolding ucast_eq u ..
  ultimately show ?thesis unfolding ucast_eq by (cases "uint x + uint y < 2 ^ 32") simp_all
qed

lemma ucast_sub_borrow:
  "ucast (x - y) = (ucast x - ucast y + (if x - y > x then 2 ^ 32 else 0) :: uint64)" for x y :: uint32
proof -
  have b: "uint x < 2 ^ 32" "uint y < 2 ^ 32" "0 \<le> uint x" "0 \<le> uint y"
    using uint_lt2p [of x] uint_lt2p [of y] by simp_all
  have u: "uint (x - y) = (if uint y \<le> uint x then uint x - uint y else uint x - uint y + 2 ^ 32)"
    using uint_sub_if' [of x y] by simp
  have "x - y > x \<longleftrightarrow> \<not> uint y \<le> uint x" unfolding word_less_def u using b by auto
  moreover have "(ucast (x - y) :: uint64) = of_int (if uint y \<le> uint x then uint x - uint y else uint x - uint y + 2 ^ 32)"
    unfolding ucast_eq u ..
  ultimately show ?thesis unfolding ucast_eq by (cases "uint y \<le> uint x") simp_all
qed

text \<open>Adding and subtracting pairs with a carry.\<close>

lemma of_uu_add:
  "of_uu \<lparr>ui_H = h + h' + (if l + l' < l' then 1 else 0), ui_L = l + l'\<rparr> =
     of_uu \<lparr>ui_H = h, ui_L = l\<rparr> + of_uu \<lparr>ui_H = h', ui_L = l'\<rparr>"
  by (simp add: of_uu_eq hi64_ring ucast_add_carry)

lemma of_uu_sub:
  "of_uu \<lparr>ui_H = h - h' - (if l - l' > l then 1 else 0), ui_L = l - l'\<rparr> =
     of_uu \<lparr>ui_H = h, ui_L = l\<rparr> - of_uu \<lparr>ui_H = h', ui_L = l'\<rparr>"
  by (simp add: of_uu_eq hi64_ring ucast_sub_borrow)

lemma adddi3_eq: "adddi3 a b = a + b"
  by (simp add: adddi3_def Let_def of_uu_add) (simp add: of_uu_eq to_uu_eq)

lemma subdi3_eq: "subdi3 a b = a - b"
  by (simp add: subdi3_def Let_def of_uu_sub) (simp add: of_uu_eq to_uu_eq)

lemma negdi2_eq: "negdi2 a = - a"
  using of_uu_sub [of 0 "ui_H (to_uu a)" 0 "ui_L (to_uu a)"]
  by (simp add: negdi2_def Let_def) (simp add: of_uu_eq to_uu_eq hi64_ring)

lemma bitwise_eq:
  "anddi3 a b = a AND b" "iordi3 a b = a OR b" "xordi3 a b = a XOR b" "one_cmpldi2 a = NOT a"
  unfolding anddi3_def iordi3_def xordi3_def one_cmpldi2_def Let_def
  by (rule bit_word_eqI; auto simp: bit_of_uu bit_simps bit_to_uu)+

lemma shift_left_eq: "s < 64 \<Longrightarrow> ashldi3 a s = push_bit s a" "s < 64 \<Longrightarrow> lshldi3 a s = push_bit s a"
  unfolding ashldi3_def lshldi3_def Let_def
  by (cases "s = 0"; simp; intro conjI impI bit_word_eqI; auto simp: bit_of_uu bit_simps bit_to_uu)+

lemma shift_right_eq: "s < 64 \<Longrightarrow> lshrdi3 a s = drop_bit s a"
  unfolding lshrdi3_def Let_def
  by (cases "s = 0"; simp; intro conjI impI bit_word_eqI; auto simp: bit_of_uu bit_simps bit_to_uu add.commute dest: bit_imp_le_length)

lemma bit_signed_drop:
  "bit (signed_drop_bit m x) n \<longleftrightarrow> n < 32 \<and> bit x (if 31 \<le> m + n then 31 else m + n)" for x :: uint32
proof (cases "n < 32")
  case True
  then show ?thesis by (cases "m + n = 31") (auto simp: bit_signed_drop_bit_iff)
next
  case False
  then have "\<not> bit x (m + n)" using bit_imp_le_length [of x "m + n"] by auto
  with False show ?thesis by (auto simp: bit_signed_drop_bit_iff)
qed

lemma bit_signed_drop64:
  "bit (signed_drop_bit m x) n \<longleftrightarrow> n < 64 \<and> bit x (if 63 \<le> m + n then 63 else m + n)" for x :: uint64
proof (cases "n < 64")
  case True
  then show ?thesis by (cases "m + n = 63") (auto simp: bit_signed_drop_bit_iff)
next
  case False
  then have "\<not> bit x (m + n)" using bit_imp_le_length [of x "m + n"] by auto
  with False show ?thesis by (auto simp: bit_signed_drop_bit_iff)
qed

lemma shift_right_signed_eq:
  assumes "s < 64"
  shows "ashrdi3 a s = signed_drop_bit s a"
proof (rule bit_word_eqI)
  fix n
  assume "n < LENGTH(64)"
  then have n: "n < 64" by simp
  consider "s = 0" | "0 < s" "s < 32" | "32 \<le> s" by linarith
  then show "bit (ashrdi3 a s) n = bit (signed_drop_bit s a) n"
  proof cases
    case 2
    then show ?thesis using n
      by (cases "n + s < 32") (auto simp: ashrdi3_def Let_def bit_of_uu bit_signed_drop bit_signed_drop64 bit_to_uu bit_or_iff bit_drop_bit_eq
          bit_push_bit_iff add.commute)
  next
    case 3
    then show ?thesis using n assms
      by (auto simp: ashrdi3_def Let_def bit_of_uu bit_signed_drop bit_signed_drop64 bit_to_uu)
  qed (simp add: ashrdi3_def)
qed

section \<open>Comparisons\<close>

lemma uint_to_uu: "uint x = uint (ui_H (to_uu x)) * 2 ^ 32 + uint (ui_L (to_uu x))"
proof -
  have "uint x < 2 ^ 64" "0 \<le> uint x" using uint_lt2p [of x] by simp_all
  then have "uint x div 2 ^ 32 mod 2 ^ 32 = uint x div 2 ^ 32"
    by (intro mod_pos_pos_trivial) (simp_all add: pos_imp_zdiv_nonneg_iff)
  then show ?thesis
    by (simp add: to_uu_def unsigned_ucast_eq drop_bit_eq_div uint_div take_bit_eq_mod)
qed

lemma sint_sign:
  "sint x = uint x - (if bit x 31 then 2 ^ 32 else 0)" "sint y = uint y - (if bit y 63 then 2 ^ 64 else 0)"
  for x :: uint32 and y :: uint64
  using bit_uint_iff [of x 31] bit_uint_iff [of y 63] uint_lt2p [of x] uint_lt2p [of y]
  by (simp_all add: sint_uint signed_take_bit_eq_take_bit_minus take_bit_int_eq_self)

lemma sint_to_uu: "sint x = sint (ui_H (to_uu x)) * 2 ^ 32 + uint (ui_L (to_uu x))"
proof -
  have "bit x 63 \<longleftrightarrow> bit (ui_H (to_uu x)) 31" by (simp add: bit_to_uu)
  then show ?thesis using uint_to_uu [of x] unfolding sint_sign by (simp add: algebra_simps)
qed

lemma pair_less:
  fixes h h' l l' b :: int
  assumes "0 \<le> l" "l < b" "0 \<le> l'" "l' < b"
  shows "h * b + l < h' * b + l' \<longleftrightarrow> h < h' \<or> h = h' \<and> l < l'"
proof -
  have "h * b + l < h' * b + l'" if "h < h'"
  proof -
    have "(h + 1) * b \<le> h' * b" using that assms by (intro mult_right_mono) auto
    then show ?thesis using assms by (simp add: algebra_simps)
  qed
  moreover have "\<not> h * b + l < h' * b + l'" if "h' < h"
  proof -
    have "(h' + 1) * b \<le> h * b" using that assms by (intro mult_right_mono) auto
    then show ?thesis using assms by (simp add: algebra_simps)
  qed
  ultimately show ?thesis by (cases h h' rule: linorder_cases) auto
qed

lemma ucmpdi2_eq: "ucmpdi2 a b = (if a < b then 0 else if a = b then 1 else 2)"
proof -
  have "0 \<le> uint w" "uint w < 2 ^ 32" for w :: uint32 using uint_lt2p [of w] by simp_all
  then have lt: "x < y \<longleftrightarrow> ui_H (to_uu x) < ui_H (to_uu y) \<or> ui_H (to_uu x) = ui_H (to_uu y) \<and> ui_L (to_uu x) < ui_L (to_uu y)"
    for x y unfolding word_less_def uint_to_uu [of x] uint_to_uu [of y] by (simp add: pair_less word_uint_eq_iff)
  have "a = b \<longleftrightarrow> \<not> a < b \<and> \<not> b < a" by auto
  then show ?thesis unfolding ucmpdi2_def Let_def using lt by auto
qed

lemma cmpdi2_eq: "cmpdi2 a b = (if a <s b then 0 else if a = b then 1 else 2)"
proof -
  have "0 \<le> uint w" "uint w < 2 ^ 32" for w :: uint32 using uint_lt2p [of w] by simp_all
  then have lt: "x <s y \<longleftrightarrow> ui_H (to_uu x) <s ui_H (to_uu y) \<or> ui_H (to_uu x) = ui_H (to_uu y) \<and> ui_L (to_uu x) < ui_L (to_uu y)"
    for x y unfolding word_sless_alt word_less_def sint_to_uu [of x] sint_to_uu [of y] by (auto simp: pair_less dest: signed_word_eqI)
  have "a = b" if "sint a = sint b"
  proof -
    have "(of_int (sint a) :: uint64) = of_int (sint b)" using that by (rule arg_cong)
    then show ?thesis by simp
  qed
  then have "a = b \<longleftrightarrow> \<not> a <s b \<and> \<not> b <s a" by (auto simp: word_sless_alt not_less)
  then show ?thesis unfolding cmpdi2_def Let_def using lt by auto
qed

section \<open>Products\<close>

lemma HHALF_LHALF: "uint (HHALF x) = uint x div 2 ^ 16" "uint (LHALF x) = uint x mod 2 ^ 16"
proof -
  have "x AND 0xffff = x mod 2 ^ 16" using take_bit_eq_mask [of 16 x] by (simp add: take_bit_eq_mod mask_eq_exp_minus_1)
  then show "uint (LHALF x) = uint x mod 2 ^ 16" by (simp add: LHALF_def uint_mod)
qed (simp add: HHALF_def drop_bit_eq_div uint_div)

lemma half_bounds: "uint (HHALF x) < 2 ^ 16" "uint (LHALF x) < 2 ^ 16"
  using uint_lt2p [of x] by (simp_all add: HHALF_LHALF)

lemma ucast_halves: "(ucast x :: uint64) = ucast (HHALF x) * 2 ^ 16 + ucast (LHALF x)"
proof -
  have "(of_int (uint x) :: uint64) = of_int (uint x div 2 ^ 16 * 2 ^ 16 + uint x mod 2 ^ 16)" by simp
  then show ?thesis unfolding ucast_eq HHALF_LHALF by (simp only: of_int_add of_int_mult of_int_power of_int_numeral)
qed

text \<open>\<open>x << 16\<close> as a pair.\<close>

lemma half_pair: "of_uu \<lparr>ui_H = HHALF x, ui_L = LHUP x\<rparr> = ucast x * 2 ^ 16"
proof -
  have "of_uu \<lparr>ui_H = HHALF x, ui_L = LHUP x\<rparr> = push_bit 16 (ucast x)"
    by (rule bit_word_eqI) (auto simp: bit_of_uu HHALF_def LHUP_def bit_simps dest: bit_imp_le_length)
  then show ?thesis by (simp add: push_bit_eq_mult)
qed

lemma mult_exact:
  fixes x y :: uint32
  assumes "uint x < 2 ^ 16" "uint y < 2 ^ 16"
  shows "(ucast (x * y) :: uint64) = ucast x * ucast y"
proof -
  have "uint x * uint y < 2 ^ 16 * 2 ^ 16" using assms by (intro mult_strict_mono) simp_all
  then have "uint (x * y) = uint x * uint y" using uint_mult_lem [of x y] by simp
  then show ?thesis unfolding ucast_eq by simp
qed

lemma ucast_diff: "y \<le> x \<Longrightarrow> (ucast (x - y) :: uint64) = ucast x - ucast y" for x y :: uint32
  using ucast_sub_borrow [of x y] word_sub_le [of y x] by (simp add: not_less)

lemma diff_bound: "y \<le> x \<Longrightarrow> uint x < b \<Longrightarrow> uint (x - y) < b" for x y :: uint32
  using word_sub_le [of y x] by (simp add: word_le_def)

text \<open>The middle term, with its sign.\<close>

lemma mid_term:
  fixes u1 u0 v1 v0 :: uint32
  assumes "uint u1 < 2 ^ 16" "uint u0 < 2 ^ 16" "uint v1 < 2 ^ 16" "uint v0 < 2 ^ 16"
    and "(udiff, neg) = (if u1 \<ge> u0 then (u1 - u0, False) else (u0 - u1, True))"
    and "(vdiff, neg') = (if v0 \<ge> v1 then (v0 - v1, neg) else (v1 - v0, \<not> neg))"
  shows "(if neg' then - ucast (udiff * vdiff) else ucast (udiff * vdiff) :: uint64) =
    (ucast u1 - ucast u0) * (ucast v0 - ucast v1)"
proof -
  have d: "uint udiff < 2 ^ 16" "uint vdiff < 2 ^ 16"
    using assms diff_bound by (auto split: if_splits)
  have u: "(if neg then - ucast udiff else ucast udiff :: uint64) = ucast u1 - ucast u0"
    using assms(5) by (auto simp: ucast_diff simp del: diff_eq_eq eq_diff_eq split: if_splits)
  have v: "(if neg' = neg then ucast vdiff else - ucast vdiff :: uint64) = ucast v0 - ucast v1"
    using assms(6) by (auto simp: ucast_diff simp del: diff_eq_eq eq_diff_eq split: if_splits)
  show ?thesis unfolding mult_exact [OF d] u [symmetric] v [symmetric] by auto
qed

lemma of_uu_add_was:
  "of_uu \<lparr>ui_H = h + (h' + (if l + l' < l then 1 else 0)), ui_L = l + l'\<rparr> =
     of_uu \<lparr>ui_H = h, ui_L = l\<rparr> + of_uu \<lparr>ui_H = h', ui_L = l'\<rparr>"
  using of_uu_add [of h' h l' l] by (simp add: ac_simps)

lemma of_uu_sub_was:
  "of_uu \<lparr>ui_H = h - (h' + (if l - l' > l then 1 else 0)), ui_L = l - l'\<rparr> =
     of_uu \<lparr>ui_H = h, ui_L = l\<rparr> - of_uu \<lparr>ui_H = h', ui_L = l'\<rparr>"
  using of_uu_sub [of h h' l l'] by (simp add: diff_diff_eq)

lemma of_uu_add_low:
  "of_uu \<lparr>ui_H = (if l + x < x then h + 1 else h), ui_L = l + x\<rparr> = of_uu \<lparr>ui_H = h, ui_L = l\<rparr> + ucast x"
  using of_uu_add [of h 0 l x] by (cases "l + x < x") (simp_all add: of_uu_eq hi64_ring)

lemma of_uu_add_hi: "of_uu \<lparr>ui_H = h + h', ui_L = l\<rparr> = hi64 h + of_uu \<lparr>ui_H = h', ui_L = l\<rparr>"
  by (simp add: of_uu_eq hi64_ring)

lemma lmulq_sum:
  "(let prodh = high + HHALF high;
       prodl = LHUP high;
       was = prodl;
       (prodl, prodh) =
         (if neg then let prodl = prodl - LHUP mid in (prodl, prodh - (HHALF mid + (if prodl > was then 1 else 0)))
          else let prodl = prodl + LHUP mid in (prodl, prodh + (HHALF mid + (if prodl < was then 1 else 0))));
       was = prodl;
       prodl = prodl + LHUP low;
       prodh = prodh + (HHALF low + (if prodl < was then 1 else 0));
       prodl = prodl + low;
       prodh = (if prodl < low then prodh + 1 else prodh)
     in of_uu \<lparr>ui_H = prodh, ui_L = prodl\<rparr>) =
   hi64 high + ucast high * 2 ^ 16 + (if neg then - ucast mid else ucast mid) * 2 ^ 16 + ucast low * 2 ^ 16 + ucast low"
proof -
  have p: "of_uu \<lparr>ui_H = high + HHALF high, ui_L = LHUP high\<rparr> = hi64 high + ucast high * 2 ^ 16"
    using half_pair [of high] by (simp add: of_uu_add_hi)
  show ?thesis
    by (cases neg) (simp_all only: Let_def prod.case if_True if_False of_uu_add_low of_uu_add_was of_uu_sub_was p half_pair, simp_all)
qed

lemma lmulq_eq: "lmulq u v = ucast u * ucast v"
proof -
  let ?u1 = "HHALF u" let ?u0 = "LHALF u" let ?v1 = "HHALF v" let ?v0 = "LHALF v"
  note b = half_bounds [of u] half_bounds [of v]
  have low: "(ucast (?u0 * ?v0) :: uint64) = ucast ?u0 * ucast ?v0" using b by (intro mult_exact)
  have high: "(ucast (?u1 * ?v1) :: uint64) = ucast ?u1 * ucast ?v1" using b by (intro mult_exact)
  show ?thesis
  proof (cases "?u1 = 0 \<and> ?v1 = 0")
    case True
    then show ?thesis using low ucast_halves [of u] ucast_halves [of v] by (simp add: lmulq_def Let_def)
  next
    case False
    obtain udiff neg where ud: "(udiff, neg) = (if ?u1 \<ge> ?u0 then (?u1 - ?u0, False) else (?u0 - ?u1, True))"
      by (metis surj_pair)
    obtain vdiff neg' where vd: "(vdiff, neg') = (if ?v0 \<ge> ?v1 then (?v0 - ?v1, neg) else (?v1 - ?v0, \<not> neg))"
      by (metis surj_pair)
    note mid = mid_term [OF b(1,2,3,4) ud vd]
    have "lmulq u v = hi64 (?u1 * ?v1) + ucast (?u1 * ?v1) * 2 ^ 16 +
        (if neg' then - ucast (udiff * vdiff) else ucast (udiff * vdiff)) * 2 ^ 16 +
        ucast (?u0 * ?v0) * 2 ^ 16 + ucast (?u0 * ?v0)"
      unfolding lmulq_sum [symmetric] lmulq_def Let_def if_not_P [OF False]
      by (simp only: ud [symmetric] prod.case) (simp only: vd [symmetric] prod.case)
    also have "\<dots> = ucast u * ucast v"
      unfolding mid low high hi64_def ucast_halves [of u] ucast_halves [of v] by (simp add: algebra_simps)
    finally show ?thesis .
  qed
qed

lemma hi64_mult: "hi64 (x * y) = ucast x * ucast y * 2 ^ 32"
  using hi64_of_int [of "uint x * uint y"] unfolding ucast_eq by simp

lemma hi64_low: "hi64 (ui_L (to_uu w)) = w * 2 ^ 32"
proof -
  have "w * 2 ^ 32 = (ucast (ui_H (to_uu w)) * 2 ^ 32 + ucast (ui_L (to_uu w))) * 2 ^ 32"
    using to_uu_eq [of w] by (simp add: hi64_def)
  also have "\<dots> = ucast (ui_H (to_uu w)) * (2 ^ 32 * 2 ^ 32) + hi64 (ui_L (to_uu w))"
    by (simp only: hi64_def algebra_simps)
  also have "(2 ^ 32 * 2 ^ 32 :: uint64) = 0" by simp
  finally show ?thesis by simp
qed

text \<open>The product of two non-negative numbers, the middle term with its sign in the ring of 32-bit words.\<close>

lemma muldi3_prod:
  fixes u1 u0 v1 v0 :: uint32
  assumes m: "m = (u1 - u0) * (v0 - v1)"
  shows "of_uu \<lparr>ui_H = u1 * v1 + m + ui_L (to_uu (lmulq u0 v0)) + ui_H (to_uu (lmulq u0 v0)),
      ui_L = ui_L (to_uu (lmulq u0 v0))\<rparr> = (hi64 u1 + ucast u0) * (hi64 v1 + ucast v0)"
proof -
  let ?low = "lmulq u0 v0"
  have "of_uu \<lparr>ui_H = u1 * v1 + m + ui_L (to_uu ?low) + ui_H (to_uu ?low), ui_L = ui_L (to_uu ?low)\<rparr> =
      hi64 (u1 * v1) + hi64 m + hi64 (ui_L (to_uu ?low)) + (hi64 (ui_H (to_uu ?low)) + ucast (ui_L (to_uu ?low)))"
    by (simp add: of_uu_eq hi64_ring)
  moreover have e: "m = u1 * v0 - u1 * v1 - u0 * v0 + u0 * v1" by (simp add: m algebra_simps)
  have "hi64 m = ucast u1 * ucast v0 * 2 ^ 32 - ucast u1 * ucast v1 * 2 ^ 32 - ucast u0 * ucast v0 * 2 ^ 32 +
      ucast u0 * ucast v1 * 2 ^ 32"
    unfolding e hi64_ring hi64_mult ..
  ultimately have "of_uu \<lparr>ui_H = u1 * v1 + m + ui_L (to_uu ?low) + ui_H (to_uu ?low), ui_L = ui_L (to_uu ?low)\<rparr> =
      ucast u1 * ucast v0 * 2 ^ 32 + ucast u0 * ucast v1 * 2 ^ 32 + ucast u0 * ucast v0"
    by (simp only: hi64_mult hi64_low to_uu_eq lmulq_eq algebra_simps) simp
  moreover have "(hi64 u1 + ucast u0) * (hi64 v1 + ucast v0) = ucast u1 * ucast v1 * (2 ^ 32 * 2 ^ 32) +
      (ucast u1 * ucast v0 * 2 ^ 32 + ucast u0 * ucast v1 * 2 ^ 32 + ucast u0 * ucast v0)"
    by (simp only: hi64_def algebra_simps)
  moreover have "(2 ^ 32 * 2 ^ 32 :: uint64) = 0" by simp
  ultimately show ?thesis by (simp only: mult_zero_right add_0)
qed

section \<open>Properties\<close>

text \<open>
  Claim C16: \<^verbatim>\<open>__muldi3\<close>, which multiplies by splitting the operands into 32-bit and those into
  16-bit halves with carries and signs of middle terms, is multiplication of 64-bit words modulo \<open>2 ^ 64\<close>, for
  operands of any sign.
\<close>

theorem muldi3_product: "muldi3 a b = a * b"
proof -
  define sa where "sa = (0 \<le>s a)"
  define sb where "sb = (0 \<le>s b)"
  define U where "U = (if sa then a else - a)"
  define V where "V = (if sb then b else - b)"
  let ?u1 = "ui_H (to_uu U)" let ?u0 = "ui_L (to_uu U)" let ?v1 = "ui_H (to_uu V)" let ?v0 = "ui_L (to_uu V)"
  have uv: "hi64 ?u1 + ucast ?u0 = U" "hi64 ?v1 + ucast ?v0 = V" by (rule to_uu_eq)+
  let ?m = "\<lambda>n d e. if n then - (d * e) else d * e"
  define prod where "prod = (if ?u1 = 0 \<and> ?v1 = 0 then lmulq ?u0 ?v0
    else let low = to_uu (lmulq ?u0 ?v0);
          (negmid, udiff) = (if ?u1 \<ge> ?u0 then (False, ?u1 - ?u0) else (True, ?u0 - ?u1));
          (negmid, vdiff) = (if ?v0 \<ge> ?v1 then (negmid, ?v0 - ?v1) else (\<not> negmid, ?v1 - ?v0));
          mid = udiff * vdiff;
          high = ?u1 * ?v1
        in of_uu \<lparr>ui_H = high + (if negmid then - mid else mid) + ui_L low + ui_H low, ui_L = ui_L low\<rparr>)"
  have "prod = U * V"
  proof (cases "?u1 = 0 \<and> ?v1 = 0")
    case True
    then show ?thesis using uv by (simp add: prod_def lmulq_eq hi64_ring)
  next
    case False
    show ?thesis
      unfolding prod_def if_not_P [OF False] Let_def
      by (cases "?u0 \<le> ?u1"; cases "?v1 \<le> ?v0"; simp only: if_True if_False prod.case not_True_eq_False not_False_eq_True;
          subst muldi3_prod) (simp_all add: uv algebra_simps)
  qed
  moreover have "muldi3 a b = (if sa = sb then prod else - prod)"
    by (cases sa; cases sb) (simp_all add: muldi3_def sa_def sb_def U_def V_def prod_def Let_def)
  ultimately show ?thesis by (simp add: U_def V_def)
qed

text \<open>
  Claim C17: the other 64-bit routines agree with the operations on 64-bit words: addition, subtraction,
  negation with the carries between the halves, the bitwise operations, the shifts by
  less than 64, logical and arithmetic, and the signed and unsigned comparisons, which give 0, 1, 2 for
  less, equal, greater.
\<close>

theorem millicode_agrees:
  "adddi3 a b = a + b \<and> subdi3 a b = a - b \<and> negdi2 a = - a \<and>
   anddi3 a b = a AND b \<and> iordi3 a b = a OR b \<and> xordi3 a b = a XOR b \<and> one_cmpldi2 a = NOT a \<and>
   (s < 64 \<longrightarrow> ashldi3 a s = push_bit s a \<and> lshldi3 a s = push_bit s a \<and> lshrdi3 a s = drop_bit s a \<and>
      ashrdi3 a s = signed_drop_bit s a) \<and>
   cmpdi2 a b = (if a <s b then 0 else if a = b then 1 else 2) \<and>
   ucmpdi2 a b = (if a < b then 0 else if a = b then 1 else 2)"
  by (simp add: adddi3_eq subdi3_eq negdi2_eq bitwise_eq shift_left_eq shift_right_eq shift_right_signed_eq
      cmpdi2_eq ucmpdi2_eq)

theorem millicode_agrees_witness:
  "ashrdi3 (- 256) 36 = signed_drop_bit 36 (- 256) \<and> lshldi3 3 40 = push_bit 40 3"
  using millicode_agrees [of "- 256" 0 36] millicode_agrees [of 3 0 40] by simp

end
