(* ===== verification/Qdivrem.thy ===== *)
theory Qdivrem
  imports Millicode "HOL-Library.Signed_Division"
begin

unbundle bit_operations_syntax

text \<open>
  64-bit division, \<^verbatim>\<open>common/gcc-millicode/qdivrem.c\<close>: long division in base \<open>2 ^ 16\<close>
  (Knuth, volume 2, Algorithm D). The arrays of digits are lists, the pointers \<^verbatim>\<open>u\<close>, \<^verbatim>\<open>v\<close>, \<^verbatim>\<open>q\<close> into
  them are offsets, and digits are 16-bit words that C promotes to 32 bits. \<open>None\<close> stands for
  a division by zero, a read outside an array or a loop that does not end; the theorems exclude all three.
\<close>

section \<open>Digits\<close>

type_synonym digit = "16 word"

abbreviation (input) HALF_BITS :: nat where "HALF_BITS \<equiv> 16"
abbreviation (input) BASE :: uint32 where "BASE \<equiv> 0x10000"

abbreviation wd :: "digit \<Rightarrow> uint32" where "wd \<equiv> ucast"
abbreviation dg :: "uint32 \<Rightarrow> digit" where "dg \<equiv> ucast"

definition COMBINE :: "uint32 \<Rightarrow> uint32 \<Rightarrow> uint32" where
  "COMBINE a b = push_bit HALF_BITS a OR b"

definition shl :: "digit list \<Rightarrow> nat \<Rightarrow> nat \<Rightarrow> nat \<Rightarrow> digit list" where
  "shl arr p len sh =
     (let arr = fold (\<lambda>i a. a[p + i := dg (LHALF (push_bit sh (wd (a ! (p + i)))) OR
                                          drop_bit (HALF_BITS - sh) (wd (a ! (p + i + 1))))]) [0..<len] arr
      in arr[p + len := dg (LHALF (push_bit sh (wd (arr ! (p + len)))))])"

section \<open>The steps of the division\<close>

text \<open>
  The first loop skips leading zero digits of the divisor; \<open>n = 1\<close> means that the divisor is
  the single digit \<open>v[2]\<close>.
\<close>

function skip_v :: "digit list \<Rightarrow> nat \<Rightarrow> nat \<Rightarrow> nat \<times> nat" where
  "skip_v vs v n =
     (if vs ! (v + 1) \<noteq> 0 then (v, n)
      else if n - 1 \<le> 1 then (v, 1)
      else skip_v vs (v + 1) (n - 1))"
  by pat_completeness auto

termination by (relation "measure (\<lambda>(vs, v, n). n)") auto

declare skip_v.simps [simp del]

text \<open>Leading zero digits of the dividend.\<close>

partial_function (option) skip_u :: "digit list \<Rightarrow> nat \<Rightarrow> nat \<Rightarrow> (nat \<times> nat) option" where
  "skip_u us u m =
     (if u + 1 < length us then
        if us ! (u + 1) = 0 then skip_u us (u + 1) (m - 1) else Some (u, m)
      else None)"

text \<open>The shift that normalises the divisor.\<close>

partial_function (option) norm_shift :: "uint32 \<Rightarrow> nat \<Rightarrow> nat option" where
  "norm_shift t d = (if t < 0x8000 then norm_shift (push_bit 1 t) (d + 1) else Some d)"

text \<open>D3: the trial digit; \<open>qhat_loop\<close> is the \<^verbatim>\<open>while\<close> loop.\<close>

partial_function (option) qhat_loop :: "uint32 \<Rightarrow> uint32 \<Rightarrow> uint32 \<Rightarrow> uint32 \<Rightarrow> uint32 \<Rightarrow> uint32 option" where
  "qhat_loop v1 v2 uj2 qhat rhat =
     (if v2 * qhat > COMBINE rhat uj2 then
        (if rhat + v1 \<ge> BASE then Some (qhat - 1) else qhat_loop v1 v2 uj2 (qhat - 1) (rhat + v1))
      else Some qhat)"

definition trial_digit :: "uint32 \<Rightarrow> uint32 \<Rightarrow> uint32 \<Rightarrow> uint32 \<Rightarrow> uint32 \<Rightarrow> uint32 option" where
  "trial_digit v1 v2 uj0 uj1 uj2 =
     (if uj0 = v1 then
        (if uj1 + v1 \<ge> BASE then Some (BASE - 1) else qhat_loop v1 v2 uj2 (BASE - 1) (uj1 + v1))
      else let nn = COMBINE uj0 uj1 in qhat_loop v1 v2 uj2 (nn div v1) (nn mod v1))"

text \<open>D4: multiply and subtract, for \<open>i\<close> down to 1; the result is the array and the borrow.\<close>

primrec mul_sub :: "digit list \<Rightarrow> nat \<Rightarrow> uint32 \<Rightarrow> nat \<Rightarrow> nat \<Rightarrow> uint32 \<Rightarrow> digit list \<Rightarrow> digit list \<times> uint32" where
  "mul_sub vs v qhat uj 0 t us = (us, t)"
| "mul_sub vs v qhat uj (Suc i) t us =
     (let t = wd (us ! (uj + Suc i)) - wd (vs ! (v + Suc i)) * qhat - t;
          us = us[uj + Suc i := dg (LHALF t)];
          t = (BASE - HHALF t) AND (BASE - 1)
      in mul_sub vs v qhat uj i t us)"

text \<open>D6: add back.\<close>

primrec add_back :: "digit list \<Rightarrow> nat \<Rightarrow> nat \<Rightarrow> nat \<Rightarrow> uint32 \<Rightarrow> digit list \<Rightarrow> digit list \<times> uint32" where
  "add_back vs v uj 0 t us = (us, t)"
| "add_back vs v uj (Suc i) t us =
     (let t = t + (wd (us ! (uj + Suc i)) + wd (vs ! (v + Suc i)));
          us = us[uj + Suc i := dg (LHALF t)];
          t = HHALF t
      in add_back vs v uj i t us)"

text \<open>One round of the loop over \<open>j\<close>, for the dividend digits from \<open>uj = u + j\<close> on.\<close>

definition div_step :: "digit list \<Rightarrow> nat \<Rightarrow> nat \<Rightarrow> nat \<Rightarrow> digit list \<Rightarrow> (digit \<times> digit list) option" where
  "div_step vs v n uj us = do {
     qhat \<leftarrow> trial_digit (wd (vs ! (v + 1))) (wd (vs ! (v + 2)))
               (wd (us ! uj)) (wd (us ! (uj + 1))) (wd (us ! (uj + 2)));
     let (us, t) = mul_sub vs v qhat uj n 0 us;
     let t = wd (us ! uj) - t;
     let us = us[uj := dg (LHALF t)];
     Some (if HHALF t \<noteq> 0 then
             let qhat = qhat - 1;
                 (us, t) = add_back vs v uj n 0 us
             in (dg qhat, us[uj := dg (LHALF (wd (us ! uj) + t))])
           else (dg qhat, us))
   }"

text \<open>The \<^verbatim>\<open>do\<close> loop, \<open>k\<close> rounds from \<open>j\<close> on.\<close>

fun div_loop :: "digit list \<Rightarrow> nat \<Rightarrow> nat \<Rightarrow> nat \<Rightarrow> nat \<Rightarrow> nat \<Rightarrow> nat \<Rightarrow> digit list \<Rightarrow> digit list \<Rightarrow>
    (digit list \<times> digit list) option" where
  "div_loop vs v n u q 0 j qs us = Some (qs, us)"
| "div_loop vs v n u q (Suc k) j qs us = do {
     (d, us) \<leftarrow> div_step vs v n (u + j) us;
     div_loop vs v n u q k (j + 1) (qs[q + j := d]) us
   }"

text \<open>The remainder is shifted back, from digit \<open>i\<close> down to \<open>m + 1\<close> (\<open>k\<close> digits).\<close>

primrec shr_loop :: "nat \<Rightarrow> nat \<Rightarrow> nat \<Rightarrow> digit list \<Rightarrow> digit list" where
  "shr_loop d um 0 us = us"
| "shr_loop d um (Suc k) us = shr_loop d um k
     (us[um + Suc k := dg (drop_bit d (wd (us ! (um + Suc k))) OR
                           LHALF (push_bit (HALF_BITS - d) (wd (us ! (um + k)))))])"

definition digits :: "uint64 \<Rightarrow> digit list" where
  "digits x = (let tmp = to_uu x in
     [0, dg (HHALF (ui_H tmp)), dg (LHALF (ui_H tmp)), dg (HHALF (ui_L tmp)), dg (LHALF (ui_L tmp))])"

definition undigits :: "digit list \<Rightarrow> uint64" where
  "undigits xs = of_uu \<lparr>ui_H = COMBINE (wd (xs ! 1)) (wd (xs ! 2)), ui_L = COMBINE (wd (xs ! 3)) (wd (xs ! 4))\<rparr>"

text \<open>A divisor of one digit.\<close>

definition short_div :: "digit list \<Rightarrow> uint32 \<Rightarrow> uint64 \<times> uint64" where
  "short_div us t = (let
     q1 = dg (wd (us ! 1) div t);
     rbj = COMBINE (wd (us ! 1) mod t) (wd (us ! 2));
     q2 = dg (rbj div t);
     rbj = COMBINE (rbj mod t) (wd (us ! 3));
     q3 = dg (rbj div t);
     rbj = COMBINE (rbj mod t) (wd (us ! 4));
     q4 = dg (rbj div t)
   in (of_uu \<lparr>ui_H = COMBINE (wd q1) (wd q2), ui_L = COMBINE (wd q3) (wd q4)\<rparr>, ucast (rbj mod t)))"

text \<open>
  \<^verbatim>\<open>__qdivrem\<close>: the quotient and the remainder stored through \<^verbatim>\<open>arq\<close>. The digit \<^verbatim>\<open>v[0]\<close> is not
  initialised and not read; it is 0 here.
\<close>

definition qdivrem :: "uint64 \<Rightarrow> uint64 \<Rightarrow> (uint64 \<times> uint64) option" where
  "qdivrem ull vll =
     (if vll = 0 then None
      else if ull < vll then Some (0, ull)
      else let us = digits ull; vs = digits vll; (v, n) = skip_v vs 0 4 in
        if n = 1 then Some (short_div us (wd (vs ! (v + 2))))
        else do {
          (u, m) \<leftarrow> skip_u us 0 (4 - n);
          let qs = replicate (4 - m) 0 @ replicate (1 + m) 0;
          d \<leftarrow> norm_shift (wd (vs ! (v + 1))) 0;
          let us = (if d > 0 then shl us u (m + n) d else us);
          let vs = (if d > 0 then shl vs (v + 1) (n - 1) d else vs);
          (qs, us) \<leftarrow> div_loop vs v n u (4 - m) (m + 1) 0 qs us;
          let us = (if d > 0 then (shr_loop d (u + m) n us)[u + m := 0] else us);
          Some (undigits qs, undigits us)
        })"

definition udivdi3 :: "uint64 \<Rightarrow> uint64 \<Rightarrow> uint64 option" where
  "udivdi3 a b = map_option fst (qdivrem a b)"

definition umoddi3 :: "uint64 \<Rightarrow> uint64 \<Rightarrow> uint64 option" where
  "umoddi3 a b = map_option snd (qdivrem a b)"

definition divdi3 :: "uint64 \<Rightarrow> uint64 \<Rightarrow> uint64 option" where
  "divdi3 a b = (let
     (ua, neg) = (if a <s 0 then (- a, True) else (a, False));
     (ub, neg) = (if b <s 0 then (- b, \<not> neg) else (b, neg))
   in do {
     (uq, ur) \<leftarrow> qdivrem ua ub;
     Some (if neg then - uq else uq)
   })"

definition moddi3 :: "uint64 \<Rightarrow> uint64 \<Rightarrow> uint64 option" where
  "moddi3 a b = (let
     (ua, neg) = (if a <s 0 then (- a, True) else (a, False));
     ub = (if b <s 0 then - b else b)
   in do {
     (uq, ur) \<leftarrow> qdivrem ua ub;
     Some (if neg then - ur else ur)
   })"

section \<open>Values of digit sequences\<close>

abbreviation radix :: "'a :: numeral" where "radix \<equiv> 65536"

primrec nval :: "digit list \<Rightarrow> nat \<Rightarrow> nat \<Rightarrow> nat" where
  "nval xs a 0 = 0"
| "nval xs a (Suc k) = nval xs a k * radix + unat (xs ! (a + k))"

lemma unat_digit: "unat (d :: digit) < radix"
  using unsigned_less [of d] by simp

lemma nval_less: "nval xs a k < radix ^ k"
proof (induction k)
  case (Suc k)
  have "nval xs a k * radix + unat (xs ! (a + k)) < nval xs a k * radix + radix" using unat_digit by simp
  also have "\<dots> = (nval xs a k + 1) * radix" by simp
  also have "\<dots> \<le> radix ^ k * radix" using Suc by (intro mult_right_mono) simp_all
  finally show ?case by simp
qed simp

lemma nval_split: "nval xs a (k + l) = nval xs a k * radix ^ l + nval xs (a + k) l"
  by (induction l) (simp_all add: algebra_simps)

lemma nval_cong: "(\<And>i. a \<le> i \<Longrightarrow> i < a + k \<Longrightarrow> xs ! i = ys ! i) \<Longrightarrow> nval xs a k = nval ys a k"
  by (induction k) simp_all

lemma nval_Suc_top: "nval xs a (Suc k) = unat (xs ! a) * radix ^ k + nval xs (a + 1) k"
  using nval_split [of xs a 1 k] by simp

lemma nval_zeros: "(\<And>i. a \<le> i \<Longrightarrow> i < a + k \<Longrightarrow> xs ! i = 0) \<Longrightarrow> nval xs a k = 0"
  by (induction k) simp_all

section \<open>Halves of words\<close>

lemma unat_wd [simp]: "unat (wd d) = unat d"
  using unat_digit [of d] by (simp add: unsigned_ucast_eq take_bit_nat_eq_self)

lemma unat_dg [simp]: "unat (dg w) = unat w mod radix"
  by (simp add: unsigned_ucast_eq take_bit_eq_mod)

lemma unat_halves: "unat (HHALF w) = unat w div radix" "unat (LHALF w) = unat w mod radix"
  using arg_cong [OF HHALF_LHALF(1) [of w], of nat] arg_cong [OF HHALF_LHALF(2) [of w], of nat]
  by (simp_all add: nat_div_distrib nat_mod_distrib)

lemma unat_COMBINE:
  assumes "unat a < radix" and "unat b < radix"
  shows "unat (COMBINE a b) = unat a * radix + unat b"
proof -
  have "push_bit 16 a AND b = 0"
  proof (rule bit_word_eqI)
    fix n
    have "b < 2 ^ 16" using assms(2) by (simp add: word_less_nat_alt)
    then have "\<not> bit b n" if "16 \<le> n" using that by (metis bit_take_bit_iff leD less_mask_eq take_bit_eq_mask)
    then show "bit (push_bit 16 a AND b) n = bit (0 :: uint32) n" by (auto simp: bit_simps)
  qed
  then have "COMBINE a b = a * 2 ^ 16 + b" by (simp add: COMBINE_def disjunctive_add_eq_or [symmetric] push_bit_eq_mult)
  moreover have "unat a * radix + unat b < 2 ^ 32"
  proof -
    have "unat a * radix \<le> 65535 * radix" using assms(1) by (intro mult_right_mono) simp_all
    with assms(2) show ?thesis by simp
  qed
  ultimately show ?thesis by (simp add: unat_word_ariths unat_of_nat)
qed

section \<open>Multiply and subtract, add back\<close>

lemma sub_word:
  fixes x y z t :: uint32
  assumes b: "unat x < radix" "unat y < radix" "unat z < radix" "unat t < radix"
    and T: "T = int (unat x) - int (unat y) * int (unat z) - int (unat t)"
  shows "int (unat (LHALF (x - y * z - t))) = T mod radix"
    and "int (unat ((BASE - HHALF (x - y * z - t)) AND (BASE - 1))) = - (T div radix)"
proof -
  let ?w = "x - y * z - t"
  have "?w = of_int T" by (simp add: T)
  then have w: "int (unat ?w) = T mod 2 ^ 32" by (simp only: uint_nat [symmetric]) (simp add: uint_word_of_int)
  have "(T mod 2 ^ 32) mod 2 ^ 16 = T mod 2 ^ 16" by (rule mod_mod_cancel) simp
  then show "int (unat (LHALF ?w)) = T mod radix" using w by (simp add: unat_halves of_nat_mod)
  have "int (unat (HHALF ?w)) = (T mod (radix * radix)) div radix" using w by (simp add: unat_halves of_nat_div)
  also have "\<dots> = (T div radix) mod radix" using zmod_zmult2_eq [of radix T radix] by simp
  finally have h: "int (unat (HHALF ?w)) = (T div radix) mod radix" .
  have "unat y * unat z \<le> 65535 * 65535" using b by (intro mult_mono) simp_all
  then have yz: "int (unat y) * int (unat z) \<le> 65535 * 65535"
    using of_nat_mono [where 'a = int] by (fastforce simp only: of_nat_mult of_nat_numeral)
  have pos: "0 \<le> int (unat y) * int (unat z)" by (intro mult_nonneg_nonneg of_nat_0_le_iff)
  have T2: "T < radix" "- (65535 * radix) \<le> T" using b yz pos unfolding T by linarith+
  have r: "T div radix \<le> 0" "- 65535 \<le> T div radix"
    using zdiv_mono1 [of T 65535 radix] zdiv_mono1 [of "- (65535 * radix)" T radix] T2 by simp_all
  have hb: "unat (HHALF ?w) < radix" unfolding unat_halves by (rule less_mult_imp_div_less) simp
  then have "unat (BASE - HHALF ?w) = radix - unat (HHALF ?w)"
    using unat_sub [of "HHALF ?w" BASE] by (simp add: word_le_nat_alt)
  then have "int (unat ((BASE - HHALF ?w) AND (BASE - 1))) = (radix - int (unat (HHALF ?w))) mod radix"
    using unat_halves(2) [of "BASE - HHALF ?w", unfolded LHALF_def] hb by (simp add: of_nat_mod of_nat_diff)
  also have "\<dots> = (- (T div radix)) mod radix" unfolding h by (simp add: mod_simps)
  also have "\<dots> = - (T div radix)" using r by (intro mod_pos_pos_trivial) simp_all
  finally show "int (unat ((BASE - HHALF ?w) AND (BASE - 1))) = - (T div radix)" .
qed

lemma length_mul_sub [simp]: "length (fst (mul_sub vs v q uj i t us)) = length us"
  by (induction i arbitrary: t us) (simp_all add: Let_def)

lemma nth_mul_sub: "k \<le> uj \<or> uj + i < k \<Longrightarrow> fst (mul_sub vs v q uj i t us) ! k = us ! k"
  by (induction i arbitrary: t us) (auto simp: Let_def nth_list_update)

lemma mul_sub_value:
  assumes "unat q < radix" and "unat t < radix" and "uj + i < length us"
    and "mul_sub vs v q uj i t us = (us', t')"
  shows "int (nval us' (uj + 1) i) =
      int (nval us (uj + 1) i) - int (nval vs (v + 1) i) * int (unat q) - int (unat t) + int (unat t') * radix ^ i \<and>
    unat t' < radix"
  using assms(2-)
proof (induction i arbitrary: t us)
  case (Suc i)
  let ?x = "wd (us ! (uj + Suc i))" let ?y = "wd (vs ! (v + Suc i))"
  let ?w = "?x - ?y * q - t" let ?us = "us[uj + Suc i := dg (LHALF ?w)]" let ?t = "(BASE - HHALF ?w) AND (BASE - 1)"
  define T where "T = int (unat ?x) - int (unat ?y) * int (unat q) - int (unat t)"
  have b: "unat ?x < radix" "unat ?y < radix" by (simp_all add: unat_digit)
  note w = sub_word [OF b assms(1) Suc.prems(1) T_def]
  have run: "mul_sub vs v q uj i ?t ?us = (us', t')" using Suc.prems(3) by (simp add: Let_def)
  have tb: "unat ?t < radix" using unat_halves(2) [of "BASE - HHALF ?w", unfolded LHALF_def] by simp
  have len: "uj + i < length ?us" using Suc.prems(2) by simp
  note IH = conjunct1 [OF Suc.IH [OF tb len run]] conjunct2 [OF Suc.IH [OF tb len run]]
  have d: "us' ! (uj + Suc i) = dg (LHALF ?w)"
    using nth_mul_sub [of "uj + Suc i" uj i vs v q ?t ?us] run Suc.prems(2) by simp
  have n: "nval ?us (uj + 1) i = nval us (uj + 1) i" by (rule nval_cong) simp
  have "int (nval us' (uj + 1) (Suc i)) = int (nval us' (uj + 1) i) * radix + int (unat (LHALF ?w))"
    using d by (simp add: unat_halves)
  also have "\<dots> = (int (nval us (uj + 1) i) - int (nval vs (v + 1) i) * int (unat q) + T div radix +
      int (unat t') * radix ^ i) * radix + T mod radix"
    unfolding IH(1) w n by simp
  also have "\<dots> = (int (nval us (uj + 1) i) - int (nval vs (v + 1) i) * int (unat q) + int (unat t') * radix ^ i) * radix +
      (T div radix * radix + T mod radix)" by (simp only: algebra_simps)
  also have "T div radix * radix + T mod radix = T" by simp
  finally have "int (nval us' (uj + 1) (Suc i)) = int (nval us (uj + 1) (Suc i)) -
      int (nval vs (v + 1) (Suc i)) * int (unat q) - int (unat t) + int (unat t') * radix ^ Suc i"
    by (simp add: T_def algebra_simps)
  with IH(2) show ?case by blast
qed simp

lemma length_add_back [simp]: "length (fst (add_back vs v uj i t us)) = length us"
  by (induction i arbitrary: t us) (simp_all add: Let_def)

lemma nth_add_back: "k \<le> uj \<or> uj + i < k \<Longrightarrow> fst (add_back vs v uj i t us) ! k = us ! k"
  by (induction i arbitrary: t us) (auto simp: Let_def nth_list_update)

lemma add_back_value:
  assumes "unat t \<le> 1" and "uj + i < length us" and "add_back vs v uj i t us = (us', t')"
  shows "nval us' (uj + 1) i + unat t' * radix ^ i = nval us (uj + 1) i + nval vs (v + 1) i + unat t \<and>
    unat t' \<le> 1"
  using assms
proof (induction i arbitrary: t us)
  case (Suc i)
  let ?x = "wd (us ! (uj + Suc i))" let ?y = "wd (vs ! (v + Suc i))"
  let ?w = "t + (?x + ?y)" let ?us = "us[uj + Suc i := dg (LHALF ?w)]"
  have b: "unat ?x < radix" "unat ?y < radix" by (simp_all add: unat_digit)
  then have w: "unat ?w = unat t + (unat ?x + unat ?y)"
    using Suc.prems(1) unat_add_small [of ?x ?y] unat_add_small [of t "?x + ?y"] by simp
  then have tb: "unat (HHALF ?w) \<le> 1" using b Suc.prems(1) unfolding unat_halves by simp
  have run: "add_back vs v uj i (HHALF ?w) ?us = (us', t')" using Suc.prems(3) by (simp add: Let_def)
  have len: "uj + i < length ?us" using Suc.prems(2) by simp
  note IH = conjunct1 [OF Suc.IH [OF tb len run]] conjunct2 [OF Suc.IH [OF tb len run]]
  have d: "us' ! (uj + Suc i) = dg (LHALF ?w)"
    using nth_add_back [of "uj + Suc i" uj i vs v "HHALF ?w" ?us] run Suc.prems(2) by simp
  have n: "nval ?us (uj + 1) i = nval us (uj + 1) i" by (rule nval_cong) simp
  have "nval us' (uj + 1) (Suc i) + unat t' * radix ^ Suc i =
      (nval us' (uj + 1) i + unat t' * radix ^ i) * radix + unat ?w mod radix"
    using d by (simp add: unat_halves algebra_simps)
  also have "\<dots> = (nval us (uj + 1) i + nval vs (v + 1) i) * radix + (unat ?w div radix * radix + unat ?w mod radix)"
    unfolding IH(1) n unat_halves by (simp only: algebra_simps)
  also have "unat ?w div radix * radix + unat ?w mod radix = unat ?w" by simp
  finally have "nval us' (uj + 1) (Suc i) + unat t' * radix ^ Suc i =
      nval us (uj + 1) (Suc i) + nval vs (v + 1) (Suc i) + unat t"
    unfolding w by (simp add: algebra_simps)
  with IH(2) show ?case by blast
qed simp

section \<open>The trial digit\<close>

text \<open>
  With \<open>N\<close> the number of the two leading digits, the loop finds the largest digit, not above the
  first guess, whose product with the two leading digits of the divisor fits.
\<close>

lemma qhat_loop_eq:
  assumes v: "0x8000 \<le> unat v1" "unat v1 < radix" "unat v2 < radix" "unat w < radix"
    and b: "unat qhat < radix" "unat rhat < radix" and N: "unat qhat * unat v1 + unat rhat = N"
  shows "\<exists>r. qhat_loop v1 v2 w qhat rhat = Some r \<and>
    unat r = min (unat qhat) ((N * radix + unat w) div (unat v1 * radix + unat v2))"
  using b N
proof (induction "radix - unat rhat" arbitrary: qhat rhat rule: less_induct)
  case less
  let ?a = "N * radix + unat w" let ?b = "unat v1 * radix + unat v2"
  have p: "unat v2 * unat qhat < radix * radix" using v(3) less.prems(1) by (intro mult_strict_mono) simp_all
  have m: "unat (v2 * qhat) = unat v2 * unat qhat" using p unat_mult_lem [of v2 qhat] by simp
  have fits: "k * ?b \<le> ?a \<longleftrightarrow> unat v2 * k \<le> r * radix + unat w" if "k * unat v1 + r = N" for k r
    using that by (auto simp: algebra_simps)
  have test: "v2 * qhat > COMBINE rhat w \<longleftrightarrow> \<not> unat qhat * ?b \<le> ?a"
    using fits [OF less.prems(3)] unat_COMBINE [OF less.prems(2) v(4)] m by (simp add: word_less_nat_alt not_le)
  have b0: "0 < ?b" using v(1) by simp
  show ?case
  proof (cases "unat qhat * ?b \<le> ?a")
    case True
    then have "qhat_loop v1 v2 w qhat rhat = Some qhat" using test by (simp add: qhat_loop.simps)
    moreover have "unat qhat \<le> ?a div ?b" using True b0 by (simp add: less_eq_div_iff_mult_less_eq)
    ultimately show ?thesis by simp
  next
    case False
    then have lt: "?a div ?b < unat qhat" using b0 by (simp add: div_less_iff_less_mult)
    then have q1: "unat (qhat - 1) = unat qhat - 1" by (intro unat_minus_one) auto
    have rv: "unat (rhat + v1) = unat rhat + unat v1" using less.prems(2) v(2) by (intro unat_add_small) simp
    have N1: "unat (qhat - 1) * unat v1 + unat (rhat + v1) = N"
      using less.prems(3) lt unfolding q1 rv by (cases "unat qhat") (simp_all add: algebra_simps)
    show ?thesis
    proof (cases "rhat + v1 \<ge> BASE")
      case True
      then have big: "radix \<le> unat (rhat + v1)" by (simp add: word_le_nat_alt)
      have "unat v2 * unat (qhat - 1) \<le> radix * radix" using v(3) less.prems(1) q1 by (intro mult_mono) simp_all
      also have "\<dots> \<le> unat (rhat + v1) * radix + unat w" using big by (intro trans_le_add1 mult_right_mono) simp_all
      finally have "unat (qhat - 1) * ?b \<le> ?a" using fits [OF N1] by simp
      then have "unat (qhat - 1) \<le> ?a div ?b" using b0 by (simp add: less_eq_div_iff_mult_less_eq)
      then have "unat (qhat - 1) = ?a div ?b" using lt q1 by simp
      moreover have "qhat_loop v1 v2 w qhat rhat = Some (qhat - 1)" using test False True by (simp add: qhat_loop.simps)
      ultimately show ?thesis using lt by simp
    next
      case rsmall: False
      then have r: "unat (rhat + v1) < radix" by (simp add: word_less_nat_alt not_le)
      have "radix - unat (rhat + v1) < radix - unat rhat" using rv v(1) less.prems(2) r by simp
      moreover have "unat (qhat - 1) < radix" using less.prems(1) q1 by simp
      ultimately obtain x where "qhat_loop v1 v2 w (qhat - 1) (rhat + v1) = Some x"
        "unat x = min (unat (qhat - 1)) (?a div ?b)" using less.hyps [OF _ _ r N1] by blast
      moreover have "qhat_loop v1 v2 w qhat rhat = qhat_loop v1 v2 w (qhat - 1) (rhat + v1)"
        using test False rsmall by (subst qhat_loop.simps) simp
      ultimately show ?thesis using lt q1 by auto
    qed
  qed
qed

lemma trial_digit_eq:
  assumes v: "0x8000 \<le> unat v1" "unat v1 < radix" "unat v2 < radix"
    and u: "unat u0 \<le> unat v1" "unat u1 < radix" "unat u2 < radix"
  shows "\<exists>r. trial_digit v1 v2 u0 u1 u2 = Some r \<and>
    unat r = min (radix - 1) (((unat u0 * radix + unat u1) * radix + unat u2) div (unat v1 * radix + unat v2))"
proof (cases "u0 = v1")
  case True
  let ?N = "unat u0 * radix + unat u1"
  let ?a = "?N * radix + unat u2" let ?b = "unat v1 * radix + unat v2"
  have uv: "unat (u1 + v1) = unat u1 + unat v1" using u(2) v(2) by (intro unat_add_small) simp
  have N: "unat (BASE - 1) * unat v1 + unat (u1 + v1) = ?N" unfolding uv by (simp add: True)
  show ?thesis
  proof (cases "u1 + v1 \<ge> BASE")
    case big: True
    then have r: "radix \<le> unat u1 + unat v1" using uv by (simp add: word_le_nat_alt)
    have "65535 * ?b = 65535 * unat v1 * radix + 65535 * unat v2" by simp
    also have "\<dots> \<le> 65535 * unat v1 * radix + radix * radix" using v(3) by simp
    also have "\<dots> \<le> 65535 * unat v1 * radix + (unat u1 + unat v1) * radix" using r by simp
    also have "\<dots> \<le> ?a" by (simp add: True)
    finally have "65535 \<le> ?a div ?b" using v(1) by (simp add: less_eq_div_iff_mult_less_eq)
    with True big show ?thesis by (simp add: trial_digit_def min_def)
  next
    case small: False
    then have "unat (u1 + v1) < radix" by (simp add: word_less_nat_alt not_le)
    from qhat_loop_eq [OF v u(3) _ this N] True small show ?thesis by (auto simp: trial_digit_def)
  qed
next
  case False
  let ?N = "unat u0 * radix + unat u1"
  let ?a = "?N * radix + unat u2" let ?b = "unat v1 * radix + unat v2"
  have lt: "unat u0 < unat v1" using u(1) False by (metis le_neq_implies_less unsigned_word_eqI)
  then have c: "unat (COMBINE u0 u1) = ?N" using v(2) u(2) by (intro unat_COMBINE) simp_all
  have "?N < unat v1 * radix"
  proof -
    have "?N < (unat u0 + 1) * radix" using u(2) by simp
    also have "\<dots> \<le> unat v1 * radix" using lt by (intro mult_right_mono) simp_all
    finally show ?thesis .
  qed
  then have qb: "unat (COMBINE u0 u1 div v1) < radix"
    using c v(1) by (simp add: unat_div div_less_iff_less_mult mult.commute)
  have rb: "unat (COMBINE u0 u1 mod v1) < radix" unfolding unat_mod
    by (rule less_trans [OF mod_less_divisor v(2)]) (use v(1) in simp)
  have N: "unat (COMBINE u0 u1 div v1) * unat v1 + unat (COMBINE u0 u1 mod v1) = ?N"
    using c by (simp add: unat_div unat_mod)
  have "?a div ?b \<le> ?N div unat v1"
  proof -
    have "?a div ?b * ?b \<le> ?a" by simp
    then have "?a div ?b * unat v1 * radix < (?N + 1) * radix" using u(3) by (simp add: algebra_simps)
    then have "?a div ?b * unat v1 \<le> ?N" by (simp only: mult_less_cancel2) simp
    then show ?thesis using v(1) by (simp add: less_eq_div_iff_mult_less_eq)
  qed
  moreover have "?N div unat v1 < radix" using qb c by (simp add: unat_div)
  ultimately have "min (unat (COMBINE u0 u1 div v1)) (?a div ?b) = min (radix - 1) (?a div ?b)"
    using c by (simp add: unat_div min_def)
  with qhat_loop_eq [OF v u(3) qb rb N] False show ?thesis by (auto simp: trial_digit_def Let_def)
qed

text \<open>Knuth, Theorem B: the trial digit is the right one or one too large.\<close>

lemma trial_digit_close:
  fixes R V P a b r0 v0 :: nat
  assumes R: "R = a * P + r0" "r0 < P" and V: "V = b * P + v0" "v0 < P" and nb: "radix * 0x8000 \<le> b" and RV: "R < V * radix"
    and qh: "qh = min (radix - 1) (a div b)"
  shows "R div V \<le> qh \<and> qh \<le> R div V + 1"
proof
  have Vpos: "0 < V" using V nb by (cases "P = 0") simp_all
  have "R div V < radix" using RV Vpos by (simp add: div_less_iff_less_mult mult.commute)
  moreover have "R div V \<le> a div b"
  proof -
    have "R div V * b * P \<le> R div V * V" by (simp add: V(1) algebra_simps)
    also have "\<dots> \<le> R" by simp
    also have "\<dots> < (a + 1) * P" using R by simp
    finally have "R div V * b < a + 1" by (simp only: mult_less_cancel2)
    then show ?thesis using nb by (simp add: less_eq_div_iff_mult_less_eq)
  qed
  ultimately show "R div V \<le> qh" by (simp add: qh)
  show "qh \<le> R div V + 1"
  proof (rule ccontr)
    assume "\<not> qh \<le> R div V + 1"
    then have "(R div V + 1) * V + V \<le> qh * V"
      using mult_right_mono [of "R div V + 2" qh V] by simp
    moreover have "R < (R div V + 1) * V" using Vpos by (metis Suc_eq_plus1 dividend_less_div_times mult_Suc add.commute)
    ultimately have "R + V < qh * V" by simp
    moreover have "qh * b \<le> a" using nb by (simp add: qh min_def) (metis div_times_less_eq_dividend le_trans mult.commute mult_le_mono2 nat_le_linear)
    then have "qh * b * P \<le> a * P" by (rule mult_right_mono) simp
    moreover have "qh * V = qh * b * P + qh * v0" by (simp add: V(1) algebra_simps)
    ultimately have "V < qh * v0" using R(1) by linarith
    also have "\<dots> \<le> radix * P" using V(2) by (intro mult_mono) (simp_all add: qh)
    also have "\<dots> \<le> b * P" using nb by (intro mult_right_mono) simp_all
    finally show False by (simp add: V(1))
  qed
qed

section \<open>One round\<close>

lemma nval_numeral: "nval xs a 2 = unat (xs ! a) * radix + unat (xs ! (a + 1))"
  "nval xs a 3 = (unat (xs ! a) * radix + unat (xs ! (a + 1))) * radix + unat (xs ! (a + 2))"
  by (simp_all add: numeral_2_eq_2 numeral_3_eq_3)

lemma step_digit:
  assumes n: "2 \<le> n" and norm: "0x8000 \<le> unat (vs ! (v + 1))" and top: "nval us uj n < nval vs (v + 1) n"
  shows "\<exists>q. trial_digit (wd (vs ! (v + 1))) (wd (vs ! (v + 2))) (wd (us ! uj)) (wd (us ! (uj + 1))) (wd (us ! (uj + 2))) = Some q \<and>
    unat q < radix \<and> nval us uj (n + 1) div nval vs (v + 1) n \<le> unat q \<and>
    unat q \<le> nval us uj (n + 1) div nval vs (v + 1) n + 1"
proof -
  let ?V = "nval vs (v + 1) n" let ?R = "nval us uj (n + 1)" let ?P = "radix ^ (n - 2) :: nat"
  let ?u0 = "unat (us ! uj)" let ?v1 = "unat (vs ! (v + 1))"
  have R: "?R = nval us uj 3 * ?P + nval us (uj + 3) (n - 2)" using nval_split [of us uj 3 "n - 2"] n by simp
  have e: "v + 1 + 2 = v + 3" by simp
  have V: "?V = nval vs (v + 1) 2 * ?P + nval vs (v + 3) (n - 2)"
    using nval_split [of vs "v + 1" 2 "n - 2"] unfolding le_add_diff_inverse [OF n] e .
  have "?R < (nval us uj n + 1) * radix" using unat_digit [of "us ! (uj + n)"] by simp
  also have "\<dots> \<le> ?V * radix" using top by (intro mult_right_mono) simp_all
  finally have RV: "?R < ?V * radix" .
  have "?u0 \<le> ?v1"
  proof -
    have "?u0 * radix ^ n \<le> ?R" using nval_Suc_top [of us uj n] by simp
    also have "?R < ?V * radix" by (rule RV)
    also have "?V * radix \<le> (?v1 + 1) * radix ^ (n - 1) * radix"
      using nval_Suc_top [of vs "v + 1" "n - 1"] nval_less [of vs "v + 2" "n - 1"] n by (intro mult_right_mono) simp_all
    also have "\<dots> = (?v1 + 1) * radix ^ n" using n by (simp add: power_eq_if)
    finally have "?u0 < ?v1 + 1" by (simp only: mult_less_cancel2)
    then show ?thesis by simp
  qed
  then obtain q where q: "trial_digit (wd (vs ! (v + 1))) (wd (vs ! (v + 2))) (wd (us ! uj)) (wd (us ! (uj + 1)))
      (wd (us ! (uj + 2))) = Some q" "unat q = min (radix - 1) (nval us uj 3 div nval vs (v + 1) 2)"
    using trial_digit_eq [of "wd (vs ! (v + 1))" "wd (vs ! (v + 2))" "wd (us ! uj)" "wd (us ! (uj + 1))" "wd (us ! (uj + 2))"]
      norm by (auto simp: unat_digit nval_numeral)
  have "radix * 0x8000 \<le> nval vs (v + 1) 2" using norm by (simp add: nval_numeral)
  from trial_digit_close [OF R nval_less V nval_less this RV q(2)] q show ?thesis by auto
qed

text \<open>The last subtraction: the borrow tells the sign.\<close>

lemma top_word:
  fixes x t :: uint32
  assumes "unat x < radix" "unat t < radix" and T: "T = int (unat x) - int (unat t)"
  shows "int (unat (LHALF (x - t))) = T mod radix" and "HHALF (x - t) \<noteq> 0 \<longleftrightarrow> T < 0"
proof -
  show "int (unat (LHALF (x - t))) = T mod radix"
    using sub_word(1) [of x 0 0 t T] assms by simp
  have "unat (x - t) = (if unat t \<le> unat x then unat x - unat t else unat x + 2 ^ 32 - unat t)"
    by (simp add: unat_sub_if')
  then have "unat (HHALF (x - t)) \<noteq> 0 \<longleftrightarrow> unat x < unat t"
    unfolding unat_halves using assms(1,2) by (auto simp: div_eq_0_iff not_less)
  moreover have "T < 0 \<longleftrightarrow> unat x < unat t" unfolding T by linarith
  ultimately show "HHALF (x - t) \<noteq> 0 \<longleftrightarrow> T < 0" by (simp add: unat_eq_zero)
qed

lemma top_digit:
  fixes k N P :: int
  assumes "0 \<le> N" "N < P"
  shows "(k * P + N) div P = k" and "k * P + N < 0 \<longleftrightarrow> k < 0"
proof -
  show d: "(k * P + N) div P = k" using assms by simp
  show "k * P + N < 0 \<longleftrightarrow> k < 0"
    using d assms pos_imp_zdiv_neg_iff [of P "k * P + N"] by simp
qed

lemma nval_int_less: "int (nval xs a k) < radix ^ k"
  using nval_less [of xs a k] by (metis of_nat_less_iff of_nat_numeral of_nat_power)

lemma nval_update_top:
  "uj < length us \<Longrightarrow> nval (us[uj := x]) uj (Suc n) = unat x * radix ^ n + nval us (uj + 1) n"
  using nval_cong [of "uj + 1" n "us[uj := x]" us] by (simp only: nval_Suc_top) simp

text \<open>Correcting a trial digit that was one too large.\<close>

lemma add_back_step:
  assumes ab: "add_back vs v uj n 0 us = (us', t)" and len: "uj + n < length us"
    and D: "D = (int (unat (us ! uj)) - radix) * radix ^ n + int (nval us (uj + 1) n)"
    and r: "- int (nval vs (v + 1) n) \<le> D" "D < 0"
  shows "int (nval (us'[uj := dg (LHALF (wd (us' ! uj) + t))]) uj (Suc n)) = D + int (nval vs (v + 1) n)"
proof -
  let ?V = "nval vs (v + 1) n" let ?k = "int (unat (us ! uj)) - radix + int (unat t)"
  have a: "nval us' (uj + 1) n + unat t * radix ^ n = nval us (uj + 1) n + ?V" "unat t \<le> 1"
    using add_back_value [OF _ len ab] by simp_all
  have l: "length us' = length us" "us' ! uj = us ! uj"
    using length_add_back [of vs v uj n 0 us] nth_add_back [of uj uj n vs v 0 us] ab by simp_all
  have DV: "D + int ?V = ?k * radix ^ n + int (nval us' (uj + 1) n)"
    using arg_cong [OF a(1), of int] unfolding D by (simp add: algebra_simps)
  have "(D + int ?V) div radix ^ n = 0"
    using r nval_int_less [of vs "v + 1" n] by (intro div_pos_pos_trivial) linarith+
  then have k: "?k = 0" using top_digit(1) [of "int (nval us' (uj + 1) n)" "radix ^ n" ?k] nval_int_less DV by simp
  then have tu: "unat (us ! uj) + unat t = radix" by linarith
  have "unat (wd (us' ! uj) + t) = unat (us ! uj) + unat t"
    using unat_add_small [of "wd (us' ! uj)" t] tu l by simp
  then have "unat (LHALF (wd (us' ! uj) + t)) = 0" using tu by (simp add: unat_halves)
  then show ?thesis using DV k len l(1) by (simp add: nval_update_top del: nval.simps)
qed

lemma div_step_eq:
  assumes n: "2 \<le> n" and norm: "0x8000 \<le> unat (vs ! (v + 1))" and top: "nval us uj n < nval vs (v + 1) n"
    and len: "uj + n < length us"
  shows "\<exists>d us'. div_step vs v n uj us = Some (d, us') \<and> length us' = length us \<and>
    unat d = nval us uj (Suc n) div nval vs (v + 1) n \<and> nval us' uj (Suc n) = nval us uj (Suc n) mod nval vs (v + 1) n \<and>
    (\<forall>k. k < uj \<or> uj + n < k \<longrightarrow> us' ! k = us ! k)"
proof -
  let ?V = "nval vs (v + 1) n" let ?R = "nval us uj (Suc n)"
  obtain q where q: "trial_digit (wd (vs ! (v + 1))) (wd (vs ! (v + 2))) (wd (us ! uj)) (wd (us ! (uj + 1)))
      (wd (us ! (uj + 2))) = Some q" "unat q < radix" "?R div ?V \<le> unat q" "unat q \<le> ?R div ?V + 1"
    using step_digit [OF n norm top] unfolding Suc_eq_plus1 by blast
  obtain us1 t where ms: "mul_sub vs v q uj n 0 us = (us1, t)" by fastforce
  have l1: "length us1 = length us" using length_mul_sub [of vs v q uj n 0 us] ms by simp
  have k1: "us1 ! k = us ! k" if "k \<le> uj \<or> uj + n < k" for k using nth_mul_sub [OF that, of vs v q 0 us] ms by simp
  have v1: "int (nval us1 (uj + 1) n) = int (nval us (uj + 1) n) - int ?V * int (unat q) + int (unat t) * radix ^ n"
    "unat t < radix" using mul_sub_value [OF q(2) _ len ms] by simp_all
  define T where "T = int (unat (us ! uj)) - int (unat t)"
  define D where "D = int ?R - int (unat q) * int ?V"
  have DT: "D = T * radix ^ n + int (nval us1 (uj + 1) n)"
    unfolding D_def T_def v1 nval_Suc_top by (simp add: algebra_simps)
  let ?w = "wd (us1 ! uj) - t" let ?us2 = "us1[uj := dg (LHALF ?w)]"
  have T: "T = int (unat (wd (us1 ! uj))) - int (unat t)" using k1 [of uj] by (simp add: T_def)
  have wb: "unat (wd (us1 ! uj)) < radix" using unat_digit by simp
  note w = top_word [OF wb v1(2) T]
  have neg: "D < 0 \<longleftrightarrow> T < 0" unfolding DT by (rule top_digit(2) [OF of_nat_0_le_iff nval_int_less])
  have Rdiv: "int ?R = int (?R div ?V) * int ?V + int (?R mod ?V)"
    using div_mult_mod_eq [of ?R ?V] by (metis of_nat_add of_nat_mult)
  show ?thesis
  proof (cases "T < 0")
    case False
    have ds: "div_step vs v n uj us = Some (dg q, ?us2)"
      using q(1) ms w(2) False by (simp add: div_step_def)
    have "T mod radix = T" using False wb unfolding T by (intro mod_pos_pos_trivial) linarith+
    then have "int (nval ?us2 uj (Suc n)) = D"
      using w(1) len l1 unfolding DT by (subst nval_update_top) (simp_all add: unat_halves)
    moreover have "unat q = ?R div ?V"
    proof -
      have "0 \<le> D" using False neg by simp
      then have "unat q * ?V \<le> ?R" unfolding D_def by (metis diff_ge_0_iff_ge of_nat_le_iff of_nat_mult)
      then have "unat q \<le> ?R div ?V" using top by (simp add: less_eq_div_iff_mult_less_eq del: nval.simps)
      with q(3) show ?thesis by simp
    qed
    ultimately have "int (nval ?us2 uj (Suc n)) = int (?R mod ?V)" unfolding D_def using Rdiv by simp
    then have "nval ?us2 uj (Suc n) = ?R mod ?V" by (simp only: of_nat_eq_iff)
    with ds q(2) \<open>unat q = ?R div ?V\<close> k1 l1 show ?thesis by (auto simp del: nval.simps)
  next
    case True
    have qR: "unat q = ?R div ?V + 1"
    proof -
      have "\<not> unat q \<le> ?R div ?V"
      proof
        assume "unat q \<le> ?R div ?V"
        then have "int (unat q) * int ?V \<le> int (?R div ?V) * int ?V"
          by (intro mult_right_mono) (simp_all only: of_nat_le_iff of_nat_0_le_iff)
        then show False using Rdiv True neg unfolding D_def by linarith
      qed
      with q(4) show ?thesis by simp
    qed
    then have DV: "D + int ?V = int (?R mod ?V)" using Rdiv unfolding D_def by (simp add: algebra_simps)
    obtain us3 t3 where ab: "add_back vs v uj n 0 ?us2 = (us3, t3)" by fastforce
    have l2: "uj + n < length ?us2" "uj < length us1" using len l1 by simp_all
    have "T mod radix = T + radix"
    proof -
      have "(T + radix) mod radix = T + radix" using True v1(2) unfolding T_def by (intro mod_pos_pos_trivial) linarith+
      then show ?thesis by simp
    qed
    then have u2: "int (unat (?us2 ! uj)) = T + radix" using w(1) l2 by (simp add: unat_halves)
    have "nval ?us2 (uj + 1) n = nval us1 (uj + 1) n" by (rule nval_cong) simp
    then have D2: "D = (int (unat (?us2 ! uj)) - radix) * radix ^ n + int (nval ?us2 (uj + 1) n)"
      unfolding u2 DT by simp
    have r: "- int ?V \<le> D" "D < 0" using DV True neg by linarith+
    let ?us4 = "us3[uj := dg (LHALF (wd (us3 ! uj) + t3))]"
    have "int (nval ?us4 uj (Suc n)) = int (?R mod ?V)" using add_back_step [OF ab l2(1) D2 r] DV by simp
    then have nv: "nval ?us4 uj (Suc n) = ?R mod ?V" by (simp only: of_nat_eq_iff)
    have l4: "length ?us4 = length us" using length_add_back [of vs v uj n 0 ?us2] ab l1 by simp
    have k4: "?us4 ! k = us ! k" if "k < uj \<or> uj + n < k" for k
      using that nth_add_back [of k uj n vs v 0 ?us2] ab k1 [of k] by auto
    have ds: "div_step vs v n uj us = Some (dg (q - 1), ?us4)"
      using q(1) ms w(2) True ab by (simp add: div_step_def Let_def)
    have "q \<noteq> 0" using qR by auto
    then have "unat (q - 1) = ?R div ?V" using qR unat_minus_one [of q] by simp
    then have "unat (dg (q - 1)) = ?R div ?V" using qR q(2) by simp
    with ds nv l4 k4 show ?thesis by blast
  qed
qed

section \<open>The loop\<close>

lemma div_loop_eq:
  assumes n: "2 \<le> n" and norm: "0x8000 \<le> unat (vs ! (v + 1))" and top: "nval us (u + j) n < nval vs (v + 1) n"
    and len: "u + j + k + n \<le> length us" "q + j + k \<le> length qs"
  shows "\<exists>qs' us'. div_loop vs v n u q k j qs us = Some (qs', us') \<and> length us' = length us \<and>
    nval us (u + j) (n + k) = nval qs' (q + j) k * nval vs (v + 1) n + nval us' (u + j + k) n \<and>
    nval us' (u + j + k) n < nval vs (v + 1) n \<and> (\<forall>i < q + j. qs' ! i = qs ! i) \<and>
    (\<forall>i. u + j \<le> i \<and> i < u + j + k \<longrightarrow> us' ! i = 0) \<and> (\<forall>i < u + j. us' ! i = us ! i)"
  using top len
proof (induction k arbitrary: j qs us)
  case 0
  then show ?case by auto
next
  case (Suc k)
  let ?V = "nval vs (v + 1) n" let ?R = "nval us (u + j) (Suc n)"
  have l: "u + j + n < length us" using Suc.prems(2) by simp
  obtain d us1 where d: "div_step vs v n (u + j) us = Some (d, us1)" "length us1 = length us" "unat d = ?R div ?V"
    "nval us1 (u + j) (Suc n) = ?R mod ?V" "\<And>i. i < u + j \<or> u + j + n < i \<Longrightarrow> us1 ! i = us ! i"
    using div_step_eq [OF n norm Suc.prems(1) l] by blast
  have V: "0 < ?V" using Suc.prems(1) by simp
  have "nval us1 (u + j) (Suc n) < radix ^ n"
    unfolding d(4) by (rule less_trans [OF mod_less_divisor [OF V] nval_less])
  then have "unat (us1 ! (u + j)) * radix ^ n + nval us1 (u + j + 1) n < radix ^ n" unfolding nval_Suc_top .
  then have "unat (us1 ! (u + j)) = 0" by (cases "unat (us1 ! (u + j))") simp_all
  then have z: "us1 ! (u + j) = 0" and r1: "nval us1 (u + (j + 1)) n = ?R mod ?V"
    using d(4) unfolding nval_Suc_top by (simp_all add: unat_eq_zero)
  have t1: "nval us1 (u + (j + 1)) n < ?V" using r1 V by simp
  have "u + (j + 1) + k + n \<le> length us1" "q + (j + 1) + k \<le> length (qs[q + j := d])" using Suc.prems(2,3) d(2) by simp_all
  from Suc.IH [OF t1 this] obtain qs' us' where IH: "div_loop vs v n u q k (j + 1) (qs[q + j := d]) us1 = Some (qs', us')"
    "length us' = length us1"
    "nval us1 (u + (j + 1)) (n + k) = nval qs' (q + (j + 1)) k * ?V + nval us' (u + (j + 1) + k) n"
    "nval us' (u + (j + 1) + k) n < ?V" "\<forall>i < q + (j + 1). qs' ! i = qs[q + j := d] ! i"
    "\<forall>i. u + (j + 1) \<le> i \<and> i < u + (j + 1) + k \<longrightarrow> us' ! i = 0" "\<forall>i < u + (j + 1). us' ! i = us1 ! i" by blast
  have qd: "qs' ! (q + j) = d" using IH(5) Suc.prems(3) by simp
  have rest: "nval us1 (u + j + Suc n) k = nval us (u + j + Suc n) k" by (rule nval_cong) (simp add: d(5))
  have "nval us (u + j) (n + Suc k) = ?R * radix ^ k + nval us (u + j + Suc n) k"
    using nval_split [of us "u + j" "Suc n" k] by simp
  also have "\<dots> = (unat d * ?V + nval us1 (u + (j + 1)) n) * radix ^ k + nval us1 (u + j + Suc n) k"
    using rest d(3) r1 div_mult_mod_eq [of ?R ?V] by simp
  also have "\<dots> = unat d * radix ^ k * ?V + nval us1 (u + (j + 1)) (n + k)"
    using nval_split [of us1 "u + (j + 1)" n k] by (simp add: algebra_simps)
  also have "\<dots> = nval qs' (q + j) (Suc k) * ?V + nval us' (u + j + Suc k) n"
    unfolding IH(3) nval_Suc_top [of qs' "q + j"] qd by (simp add: algebra_simps)
  finally have val: "nval us (u + j) (n + Suc k) = nval qs' (q + j) (Suc k) * ?V + nval us' (u + j + Suc k) n" .
  have zs: "us' ! i = 0" if "u + j \<le> i \<and> i < u + j + Suc k" for i
    using that IH(6,7) z by (cases "i = u + j") auto
  have "us' ! i = us ! i" if "i < u + j" for i using that IH(7) d(5) by simp
  moreover have "qs' ! i = qs ! i" if "i < q + j" for i using that IH(5) by simp
  ultimately show ?case using d(1) IH(1,2,4) d(2) val zs by (intro exI [of _ qs'] exI [of _ us']) (simp del: nval.simps)
qed

section \<open>Shifts of digit sequences\<close>

lemma unat_or_disjoint: "a AND b = 0 \<Longrightarrow> unat (a OR b) = unat a + unat b" for a b :: digit
  by (simp add: unsigned_or_eq disjunctive_add_eq_or unsigned_and_eq [symmetric])

lemma shl_digit:
  assumes "0 < sh" "sh < 16"
  shows "unat (dg (LHALF (push_bit sh (wd x)) OR drop_bit (16 - sh) (wd y))) =
    unat x * 2 ^ sh mod radix + unat y div 2 ^ (16 - sh)"
proof -
  have b: "bit (LHALF w) n \<longleftrightarrow> n < 16 \<and> bit w n" for w n
  proof -
    have "LHALF w = take_bit 16 w" by (simp add: LHALF_def take_bit_eq_mask mask_eq_exp_minus_1)
    then show ?thesis by (simp only: bit_take_bit_iff)
  qed
  have "dg (LHALF (push_bit sh (wd x)) OR drop_bit (16 - sh) (wd y)) = push_bit sh x OR drop_bit (16 - sh) y"
    by (rule bit_word_eqI) (use assms in \<open>auto simp: bit_simps b dest: bit_imp_le_length\<close>)
  moreover have "push_bit sh x AND drop_bit (16 - sh) y = 0"
    by (rule bit_word_eqI) (use assms in \<open>auto simp: bit_simps dest: bit_imp_le_length\<close>)
  moreover have "unat (push_bit sh x) = unat x * 2 ^ sh mod radix"
    unfolding unsigned_push_bit_eq unfolding take_bit_eq_mod push_bit_eq_mult by simp
  moreover have "unat (drop_bit (16 - sh) y) = unat y div 2 ^ (16 - sh)"
    unfolding unsigned_drop_bit_eq unfolding drop_bit_eq_div using unat_digit [of y] by (simp add: take_bit_nat_eq_self)
  ultimately show ?thesis by (simp add: unat_or_disjoint)
qed

lemma shl_last: "sh < 16 \<Longrightarrow> unat (dg (LHALF (push_bit sh (wd x)))) = unat x * 2 ^ sh mod radix"
  using shl_digit [of sh x 0] by (cases "sh = 0") (simp_all add: unat_halves unat_digit)

lemma shr_digit:
  assumes "0 < d" "d < 16"
  shows "unat (dg (drop_bit d (wd x) OR LHALF (push_bit (16 - d) (wd y)))) = unat x div 2 ^ d + unat y mod 2 ^ d * 2 ^ (16 - d)"
proof -
  have "unat y * 2 ^ (16 - d) mod (2 ^ d * 2 ^ (16 - d)) = unat y mod 2 ^ d * 2 ^ (16 - d)" by (rule mod_mult_mult2)
  moreover have "2 ^ d * 2 ^ (16 - d) = (radix :: nat)" using assms by (simp flip: power_add)
  ultimately show ?thesis using shl_digit [of "16 - d" y x] assms by (simp add: or.commute)
qed

lemma shl_digits:
  assumes "p + len < length xs"
  shows "length (shl xs p len sh) = length xs"
    and "i < p \<or> p + len < i \<Longrightarrow> shl xs p len sh ! i = xs ! i"
    and "k < len \<Longrightarrow> shl xs p len sh ! (p + k) =
      dg (LHALF (push_bit sh (wd (xs ! (p + k)))) OR drop_bit (16 - sh) (wd (xs ! (p + k + 1))))"
    and "shl xs p len sh ! (p + len) = dg (LHALF (push_bit sh (wd (xs ! (p + len)))))"
proof -
  let ?g = "\<lambda>i a. a[p + i := dg (LHALF (push_bit sh (wd (a ! (p + i)))) OR drop_bit (16 - sh) (wd (a ! (p + i + 1))))]"
  have f: "length (fold ?g [0..<l] xs) = length xs \<and> (\<forall>i. fold ?g [0..<l] xs ! i =
      (if p \<le> i \<and> i < p + l then dg (LHALF (push_bit sh (wd (xs ! i))) OR drop_bit (16 - sh) (wd (xs ! (i + 1)))) else xs ! i))"
    if "l \<le> len" for l using that assms
    by (induction l) (auto simp: nth_list_update)
  note g = f [OF order_refl]
  show "length (shl xs p len sh) = length xs" using g by (simp add: shl_def Let_def)
  show "i < p \<or> p + len < i \<Longrightarrow> shl xs p len sh ! i = xs ! i" using g by (auto simp: shl_def Let_def)
  show "k < len \<Longrightarrow> shl xs p len sh ! (p + k) =
      dg (LHALF (push_bit sh (wd (xs ! (p + k)))) OR drop_bit (16 - sh) (wd (xs ! (p + k + 1))))"
    using g by (simp add: shl_def Let_def)
  show "shl xs p len sh ! (p + len) = dg (LHALF (push_bit sh (wd (xs ! (p + len)))))"
    using g assms by (simp add: shl_def Let_def)
qed

lemma shl_carry:
  fixes x :: nat
  assumes "0 < sh" "sh < 16"
  shows "x div 2 ^ (16 - sh) * radix + x * 2 ^ sh mod radix = x * 2 ^ sh"
proof -
  have "x * 2 ^ sh div (2 ^ (16 - sh) * 2 ^ sh) = x div 2 ^ (16 - sh)" by (rule div_mult_mult2) simp
  moreover have "2 ^ (16 - sh) * 2 ^ sh = (radix :: nat)" using assms by (simp flip: power_add)
  ultimately show ?thesis using div_mult_mod_eq [of "x * 2 ^ sh" radix] by simp
qed

lemma shl_value:
  assumes len: "p + len < length xs" and sh: "0 < sh" "sh < 16"
  shows "nval (shl xs p len sh) p (Suc len) + unat (xs ! p) div 2 ^ (16 - sh) * radix ^ Suc len = nval xs p (Suc len) * 2 ^ sh"
proof -
  let ?ys = "shl xs p len sh" let ?c = "\<lambda>k. unat (xs ! (p + k)) div 2 ^ (16 - sh)"
  have "nval ?ys p k + ?c 0 * radix ^ k = nval xs p k * 2 ^ sh + ?c k" if "k \<le> len" for k
    using that
  proof (induction k)
    case (Suc k)
    then have IH: "nval ?ys p k + ?c 0 * radix ^ k = nval xs p k * 2 ^ sh + ?c k" by simp
    have d: "unat (?ys ! (p + k)) = unat (xs ! (p + k)) * 2 ^ sh mod radix + ?c (Suc k)"
      using shl_digits(3) [OF len, of k sh] shl_digit [OF sh] Suc.prems by simp
    have "nval ?ys p (Suc k) + ?c 0 * radix ^ Suc k = (nval ?ys p k + ?c 0 * radix ^ k) * radix + unat (?ys ! (p + k))"
      by (simp add: algebra_simps)
    also have "\<dots> = nval xs p k * 2 ^ sh * radix + (?c k * radix + unat (xs ! (p + k)) * 2 ^ sh mod radix) + ?c (Suc k)"
      unfolding IH d by (simp add: algebra_simps)
    finally show ?case unfolding shl_carry [OF sh] by (simp add: algebra_simps)
  qed simp
  from this [of len] have IH: "nval ?ys p len + ?c 0 * radix ^ len = nval xs p len * 2 ^ sh + ?c len" by simp
  have "nval ?ys p (Suc len) + ?c 0 * radix ^ Suc len = (nval ?ys p len + ?c 0 * radix ^ len) * radix + unat (?ys ! (p + len))"
    by (simp add: algebra_simps)
  also have "\<dots> = nval xs p len * 2 ^ sh * radix + (?c len * radix + unat (xs ! (p + len)) * 2 ^ sh mod radix)"
    using shl_digits(4) [OF len, of sh] shl_last [OF sh(2)] unfolding IH by (simp add: algebra_simps)
  finally show ?thesis unfolding shl_carry [OF sh] by (simp add: algebra_simps)
qed

lemma norm_shift_eq:
  assumes "0 < unat t" and "unat t < radix"
  shows "\<exists>k < 16. norm_shift t d = Some (d + k) \<and> 0x8000 \<le> unat t * 2 ^ k \<and> unat t * 2 ^ k < radix"
proof -
  have "\<exists>k < Suc l. norm_shift t d = Some (d + k) \<and> 0x8000 \<le> unat t * 2 ^ k \<and> unat t * 2 ^ k < radix"
    if "0x8000 \<le> unat t * 2 ^ l" "unat t < radix" for l using that
  proof (induction l arbitrary: t d)
    case 0
    then show ?case by (subst norm_shift.simps) (auto simp: word_less_nat_alt)
  next
    case (Suc l)
    show ?case
    proof (cases "t < 0x8000")
      case True
      then have t2: "unat (push_bit 1 t) = 2 * unat t"
        by (simp add: push_bit_eq_mult word_less_nat_alt unat_word_ariths)
      then obtain k where "k < Suc l" "norm_shift (push_bit 1 t) (d + 1) = Some (d + 1 + k)" "0x8000 \<le> unat (push_bit 1 t) * 2 ^ k"
        "unat (push_bit 1 t) * 2 ^ k < radix"
        using Suc.IH [of "push_bit 1 t" "d + 1"] Suc.prems True by (auto simp: word_less_nat_alt)
      then show ?thesis using True t2 by (intro exI [of _ "Suc k"]) (subst norm_shift.simps, simp)
    next
      case False
      then show ?thesis using Suc.prems by (intro exI [of _ 0]) (subst norm_shift.simps, simp add: word_less_nat_alt)
    qed
  qed
  from this [of 15] assms show ?thesis by simp
qed

lemma shr_value:
  assumes "um + k < length us" and d: "0 < d" "d < 16"
  shows "nval (shr_loop d um k us) (um + 1) k * 2 ^ d + unat (us ! (um + k)) mod 2 ^ d =
      nval us (um + 1) k + unat (us ! um) mod 2 ^ d * radix ^ k \<and>
    length (shr_loop d um k us) = length us \<and> (\<forall>i. i \<le> um \<or> um + k < i \<longrightarrow> shr_loop d um k us ! i = us ! i)"
  using assms(1)
proof (induction k arbitrary: us)
  case (Suc k)
  let ?x = "us ! (um + Suc k)" let ?y = "us ! (um + k)"
  let ?us = "us[um + Suc k := dg (drop_bit d (wd ?x) OR LHALF (push_bit (16 - d) (wd ?y)))]"
  let ?ys = "shr_loop d um k ?us"
  have l: "um + k < length ?us" using Suc.prems by simp
  note IH = Suc.IH [OF l]
  have n: "nval ?us (um + 1) k = nval us (um + 1) k" by (rule nval_cong) simp
  have v: "nval ?ys (um + 1) k * 2 ^ d + unat ?y mod 2 ^ d = nval us (um + 1) k + unat (us ! um) mod 2 ^ d * radix ^ k"
    using IH n by simp
  have p: "2 ^ (16 - d) * 2 ^ d = (radix :: nat)" using d by (simp flip: power_add)
  have "unat (?ys ! (um + Suc k)) = unat ?x div 2 ^ d + unat ?y mod 2 ^ d * 2 ^ (16 - d)"
    using IH Suc.prems shr_digit [OF d] by simp
  then have "unat (?ys ! (um + Suc k)) * 2 ^ d + unat ?x mod 2 ^ d =
      unat ?x div 2 ^ d * 2 ^ d + unat ?x mod 2 ^ d + unat ?y mod 2 ^ d * (2 ^ (16 - d) * 2 ^ d)"
    by (simp add: algebra_simps)
  then have x: "unat (?ys ! (um + Suc k)) * 2 ^ d + unat ?x mod 2 ^ d = unat ?x + unat ?y mod 2 ^ d * radix"
    unfolding p div_mult_mod_eq .
  have "nval ?ys (um + 1) (Suc k) * 2 ^ d + unat ?x mod 2 ^ d =
      nval ?ys (um + 1) k * 2 ^ d * radix + (unat (?ys ! (um + Suc k)) * 2 ^ d + unat ?x mod 2 ^ d)"
    by (simp add: algebra_simps)
  also have "\<dots> = (nval ?ys (um + 1) k * 2 ^ d + unat ?y mod 2 ^ d) * radix + unat ?x"
    unfolding x by (simp add: algebra_simps)
  finally have "nval ?ys (um + 1) (Suc k) * 2 ^ d + unat ?x mod 2 ^ d =
      nval us (um + 1) (Suc k) + unat (us ! um) mod 2 ^ d * radix ^ Suc k"
    unfolding v by (simp add: algebra_simps)
  then show ?case using IH by simp
qed simp

section \<open>Reading and writing 64-bit numbers\<close>

lemma to_uu_of_uu: "to_uu (of_uu u) = u"
proof -
  have "ui_H (to_uu (of_uu u)) = ui_H u" by (rule bit_word_eqI) (simp add: bit_to_uu bit_of_uu)
  moreover have "ui_L (to_uu (of_uu u)) = ui_L u" by (rule bit_word_eqI) (simp add: bit_to_uu bit_of_uu)
  ultimately show ?thesis by simp
qed

lemma unat_to_uu: "unat x = unat (ui_H (to_uu x)) * (radix * radix) + unat (ui_L (to_uu x))"
proof -
  have "int (unat x) = int (unat (ui_H (to_uu x)) * (radix * radix) + unat (ui_L (to_uu x)))"
    using uint_to_uu [of x] unfolding uint_nat by simp
  then show ?thesis by (simp only: of_nat_eq_iff)
qed

lemma unat_of_uu: "unat (of_uu u) = unat (ui_H u) * (radix * radix) + unat (ui_L u)"
  using unat_to_uu [of "of_uu u"] by (simp only: to_uu_of_uu)

lemma nval_4: "nval xs 1 4 = (unat (xs ! 1) * radix + unat (xs ! 2)) * (radix * radix) + (unat (xs ! 3) * radix + unat (xs ! 4))"
proof -
  have e: "(2 :: nat) + 2 = 4" "(1 :: nat) + 2 = 3" "(1 :: nat) + 1 = 2" "(3 :: nat) + 1 = 4" by simp_all
  show ?thesis using nval_split [of xs 1 2 2] unfolding e nval_numeral power2_eq_square .
qed

lemma half_digits: "unat (dg (HHALF w)) * radix + unat (dg (LHALF w)) = unat w"
proof -
  have "unat w div radix < radix" by (rule less_mult_imp_div_less) simp
  then show ?thesis by (simp add: unat_halves)
qed

lemma digits_value: "nval (digits x) 1 4 = unat x" "length (digits x) = 5" "digits x ! 0 = 0"
proof -
  show "nval (digits x) 1 4 = unat x"
    using unat_to_uu [of x] half_digits [of "ui_H (to_uu x)"] half_digits [of "ui_L (to_uu x)"]
    unfolding nval_4 by (simp add: digits_def Let_def)
qed (simp_all add: digits_def Let_def)

lemma undigits_value: "unat (undigits xs) = nval xs 1 4"
  unfolding nval_4 undigits_def unat_of_uu by (simp add: unat_COMBINE unat_digit)

text \<open>One step of short division.\<close>

lemma short_step:
  fixes a t u :: nat
  assumes "0 < t" "u < radix"
  shows "(a * radix + u) div t = a div t * radix + (a mod t * radix + u) div t"
    and "(a * radix + u) mod t = (a mod t * radix + u) mod t" and "(a mod t * radix + u) div t < radix"
proof -
  have "a * radix + u = (a div t * t + a mod t) * radix + u" by (simp only: div_mult_mod_eq)
  also have "\<dots> = a div t * radix * t + (a mod t * radix + u)" by (simp only: algebra_simps)
  finally have e: "a * radix + u = a div t * radix * t + (a mod t * radix + u)" .
  show "(a * radix + u) div t = a div t * radix + (a mod t * radix + u) div t"
    using assms(1) by (subst e) (simp only: div_mult_self3 neq0_conv)
  show "(a * radix + u) mod t = (a mod t * radix + u) mod t" by (subst e) (simp only: mod_mult_self3)
  have "a mod t * radix + u < (a mod t + 1) * radix" using assms(2) by simp
  also have "\<dots> \<le> t * radix" using mod_less_divisor [OF assms(1), of a] by (intro mult_right_mono) simp_all
  finally show "(a mod t * radix + u) div t < radix" using assms(1) by (simp add: div_less_iff_less_mult mult.commute)
qed

lemma short_div_eq:
  assumes t: "0 < unat t" "unat t < radix"
  shows "unat (fst (short_div (digits x) t)) = unat x div unat t \<and> unat (snd (short_div (digits x) t)) = unat x mod unat t"
proof -
  let ?u = "\<lambda>i. unat (digits x ! i)"
  define r1 where "r1 = COMBINE (wd (digits x ! 1) mod t) (wd (digits x ! 2))"
  define r2 where "r2 = COMBINE (r1 mod t) (wd (digits x ! 3))"
  define r3 where "r3 = COMBINE (r2 mod t) (wd (digits x ! 4))"
  have m: "unat (w mod t) < radix" for w unfolding unat_mod by (rule less_trans [OF mod_less_divisor [OF t(1)] t(2)])
  have c: "unat (COMBINE (w mod t) (wd d)) = unat w mod unat t * radix + unat d" for w d
    using unat_COMBINE [OF m, of "wd d" w] unat_digit [of d] by (simp add: unat_mod)
  have r: "unat r1 = ?u 1 mod unat t * radix + ?u 2" "unat r2 = unat r1 mod unat t * radix + ?u 3"
    "unat r3 = unat r2 mod unat t * radix + ?u 4"
    unfolding r1_def r2_def r3_def c unat_wd by (rule refl)+
  note b = unat_digit [of "digits x ! 2"] unat_digit [of "digits x ! 3"] unat_digit [of "digits x ! 4"]
  have q1: "?u 1 div unat t < radix" using unat_digit [of "digits x ! 1"] by (meson div_le_dividend le_less_trans)
  define a2 where "a2 = ?u 1 * radix + ?u 2" define a3 where "a3 = a2 * radix + ?u 3"
  note s2 = short_step [OF t(1) b(1), of "?u 1", folded r(1) a2_def]
  have s3: "a3 div unat t = a2 div unat t * radix + unat r2 div unat t" "a3 mod unat t = unat r2 mod unat t" "unat r2 div unat t < radix"
    using short_step [OF t(1) b(2), of a2] s2(2) unfolding a3_def r(2) by simp_all
  have xv: "unat x = a3 * radix + ?u 4" using digits_value(1) [of x] unfolding nval_4 a3_def a2_def by simp
  have s4: "unat x div unat t = a3 div unat t * radix + unat r3 div unat t" "unat x mod unat t = unat r3 mod unat t"
    "unat r3 div unat t < radix"
    using short_step [OF t(1) b(3), of a3] s3(2) unfolding xv r(3) by simp_all
  have "unat (of_uu \<lparr>ui_H = COMBINE (wd (dg (wd (digits x ! 1) div t))) (wd (dg (r1 div t))),
      ui_L = COMBINE (wd (dg (r2 div t))) (wd (dg (r3 div t)))\<rparr>) = unat x div unat t"
    unfolding unat_of_uu s4(1) s3(1) s2(1) using s2(3) s3(3) s4(3) q1
    by (simp add: unat_COMBINE unat_digit unat_div)
  moreover have "unat (ucast (r3 mod t) :: uint64) = unat x mod unat t"
    unfolding s4(2) using unat_less_2p32 [of "r3 mod t"]
    by (simp add: unsigned_ucast_eq take_bit_nat_eq_self unat_mod)
  ultimately show ?thesis unfolding short_div_def Let_def r1_def [symmetric] r2_def [symmetric] r3_def [symmetric] by simp
qed

section \<open>Leading zeros\<close>

lemma skip_v_eq:
  "skip_v vs 0 4 = (if vs ! 1 \<noteq> 0 then (0, 4) else if vs ! 2 \<noteq> 0 then (1, 3) else if vs ! 3 \<noteq> 0 then (2, 2) else (2, 1))"
proof -
  have "skip_v vs 0 4 = (if vs ! 1 \<noteq> 0 then (0, 4) else skip_v vs 1 3)" by (subst skip_v.simps) simp
  moreover have "skip_v vs 1 3 = (if vs ! 2 \<noteq> 0 then (1, 3) else skip_v vs 2 2)"
    by (subst skip_v.simps) (simp add: numeral_2_eq_2)
  moreover have "skip_v vs 2 2 = (if vs ! 3 \<noteq> 0 then (2, 2) else (2, 1))" by (subst skip_v.simps) (simp add: numeral_3_eq_3)
  ultimately show ?thesis by simp
qed

lemma skip_v_cases [consumes 1, case_names short long]:
  assumes "nval vs 1 4 \<noteq> 0"
  obtains (short) "skip_v vs 0 4 = (2, 1)" and "nval vs 1 4 = unat (vs ! 4)" and "0 < unat (vs ! 4)"
    | (long) v n where "skip_v vs 0 4 = (v, n)" and "2 \<le> n" and "v + n = 4" and "vs ! (v + 1) \<noteq> 0"
        and "nval vs 1 4 = nval vs (v + 1) n"
proof -
  have t: "nval vs 1 4 = nval vs (v + 1) n" if "v + n = 4" "\<forall>i. 1 \<le> i \<and> i \<le> v \<longrightarrow> vs ! i = 0" for v n
    using nval_split [of vs 1 v n] nval_zeros [of 1 v vs] that by (simp add: Suc_eq_plus1 [symmetric] del: Suc_eq_plus1)
  consider "vs ! 1 \<noteq> 0" | "vs ! 1 = 0" "vs ! 2 \<noteq> 0" | "vs ! 1 = 0" "vs ! 2 = 0" "vs ! 3 \<noteq> 0"
    | "vs ! 1 = 0" "vs ! 2 = 0" "vs ! 3 = 0" by blast
  then show thesis
  proof cases
    case 1
    then show thesis using long [of 0 4] t [of 0 4] by (simp add: skip_v_eq)
  next
    case 2
    have "\<forall>i. 1 \<le> i \<and> i \<le> 1 \<longrightarrow> vs ! i = 0" using 2 by (auto dest: antisym)
    then show thesis using 2 long [of 1 3] t [of 1 3] by (simp add: skip_v_eq numeral_2_eq_2)
  next
    case 3
    have "i = 1 \<or> i = 2" if "1 \<le> i \<and> i \<le> 2" for i :: nat using that by auto
    then have "\<forall>i. 1 \<le> i \<and> i \<le> 2 \<longrightarrow> vs ! i = 0" using 3 by blast
    then show thesis using 3 long [of 2 2] t [of 2 2] by (simp add: skip_v_eq)
  next
    case 4
    then have "nval vs 1 4 = unat (vs ! 4)" unfolding nval_4 by simp
    then show thesis using 4 short assms by (simp add: skip_v_eq)
  qed
qed

lemma skip_u_eq:
  assumes "j \<le> k" and "us ! (k + 1) \<noteq> 0" and "\<forall>i. j + 1 \<le> i \<and> i \<le> k \<longrightarrow> us ! i = 0" and "k + 1 < length us"
  shows "skip_u us j m = Some (k, m - (k - j))"
  using assms
proof (induction "k - j" arbitrary: j m)
  case 0
  then show ?case by (subst skip_u.simps) auto
next
  case (Suc d)
  then have "skip_u us (j + 1) (m - 1) = Some (k, m - 1 - (k - (j + 1)))" by (intro Suc.hyps(1)) auto
  moreover have "us ! (j + 1) = 0" using Suc.prems Suc.hyps(2) by auto
  ultimately show ?case using Suc by (subst skip_u.simps) auto
qed

text \<open>The leading digit of a dividend that is not smaller than a divisor with \<open>n\<close> digits.\<close>

lemma leading_digit:
  assumes "length us = 5" and "radix ^ (n - 1) \<le> nval us 1 4" and "2 \<le> n" and "n \<le> 4"
  obtains k where "us ! (k + 1) \<noteq> 0" and "\<forall>i. 1 \<le> i \<and> i \<le> k \<longrightarrow> us ! i = 0" and "k \<le> 4 - n"
proof -
  have ex: "\<exists>i. i \<le> 4 - n \<and> us ! (i + 1) \<noteq> 0"
  proof (rule ccontr)
    assume "\<not> ?thesis"
    then have z: "us ! (i + 1) = 0" if "i \<le> 4 - n" for i using that by blast
    have "us ! i = 0" if "1 \<le> i" "i < 1 + (5 - n)" for i using z [of "i - 1"] that assms(4) by simp
    then have "nval us 1 (5 - n) = 0" by (rule nval_zeros)
    then have "nval us 1 4 = nval us (1 + (5 - n)) (n - 1)" using nval_split [of us 1 "5 - n" "n - 1"] assms(3,4) by simp
    then show False using nval_less [of us "1 + (5 - n)" "n - 1"] assms(2) by simp
  qed
  define k where "k = (LEAST i. us ! (i + 1) \<noteq> 0)"
  have k: "us ! (k + 1) \<noteq> 0" "k \<le> 4 - n"
    unfolding k_def using ex LeastI [of "\<lambda>i. us ! (i + 1) \<noteq> 0"] Least_le [of "\<lambda>i. us ! (i + 1) \<noteq> 0"] le_trans by blast+
  have "us ! i = 0" if "1 \<le> i \<and> i \<le> k" for i
    using not_less_Least [of "i - 1" "\<lambda>i. us ! (i + 1) \<noteq> 0"] that unfolding k_def by auto
  with k that show thesis by blast
qed

section \<open>Long division\<close>

text \<open>Normalising the dividend and the divisor.\<close>

lemma normalise:
  assumes "p + len < length xs" and "d < 16" and "unat (xs ! p) * 2 ^ d < radix"
  shows "nval (if d > 0 then shl xs p len d else xs) p (Suc len) = nval xs p (Suc len) * 2 ^ d"
    and "length (if d > 0 then shl xs p len d else xs) = length xs"
    and "i < p \<Longrightarrow> (if d > 0 then shl xs p len d else xs) ! i = xs ! i"
proof -
  have "unat (xs ! p) div 2 ^ (16 - d) = 0" if "0 < d"
  proof -
    have "unat (xs ! p) * 2 ^ d < 2 ^ (16 - d) * 2 ^ d" using assms(2,3) by (simp flip: power_add)
    then show ?thesis by (simp add: div_eq_0_iff)
  qed
  then show "nval (if d > 0 then shl xs p len d else xs) p (Suc len) = nval xs p (Suc len) * 2 ^ d"
    using shl_value [OF assms(1) _ assms(2)] by (cases "d = 0") (simp_all del: nval.simps)
qed (simp_all add: shl_digits [OF assms(1)])

lemma mult_add_unique:
  fixes x r c e :: nat
  assumes "x * e + c = r * e" and "c < e"
  shows "x = r"
proof -
  have "x = (x * e + c) div e" using assms(2) by simp
  also have "\<dots> = r" unfolding assms(1) using assms(2) by simp
  finally show ?thesis .
qed

text \<open>The remainder, shifted back.\<close>

lemma denormalise:
  assumes d: "d < 16" and z: "\<forall>i \<le> p. us ! i = 0" and len: "p + n < length us" and r: "nval us (p + 1) n = r * 2 ^ d"
  shows "nval (if d > 0 then (shr_loop d p n us)[p := 0] else us) (p + 1) n = r"
    and "\<forall>i \<le> p. (if d > 0 then (shr_loop d p n us)[p := 0] else us) ! i = 0"
proof -
  show "nval (if d > 0 then (shr_loop d p n us)[p := 0] else us) (p + 1) n = r"
  proof (cases "d = 0")
    case True
    then show ?thesis using r by simp
  next
    case False
    let ?ys = "shr_loop d p n us" let ?c = "unat (us ! (p + n)) mod 2 ^ d"
    have "nval ?ys (p + 1) n * 2 ^ d + ?c = r * 2 ^ d"
      using shr_value [OF len _ d] False z r by simp
    moreover have "?c < 2 ^ d" by simp
    ultimately have "nval ?ys (p + 1) n = r" by (rule mult_add_unique)
    moreover have "nval (?ys[p := 0]) (p + 1) n = nval ?ys (p + 1) n" by (rule nval_cong) simp
    ultimately show ?thesis using False by simp
  qed
  show "\<forall>i \<le> p. (if d > 0 then (shr_loop d p n us)[p := 0] else us) ! i = 0"
    using shr_value [OF len _ d] z len by (auto simp: nth_list_update)
qed

lemma div_mod_unique:
  fixes U V Q R e :: nat
  assumes "U * e = Q * (V * e) + R" and "R < V * e"
  shows "Q = U div V" and "R = (U mod V) * e"
proof -
  have "0 < V * e" using assms(2) by (cases "V * e") simp_all
  then have e: "0 < e" "0 < V" by simp_all
  define W where "W = V * e"
  have "(Q * W + R) div W = Q" "(Q * W + R) mod W = R" using assms(2) unfolding W_def [symmetric] by simp_all
  then have "U * e div (V * e) = Q" "U * e mod (V * e) = R" unfolding W_def assms(1) [symmetric] by simp_all
  then show "Q = U div V" and "R = (U mod V) * e" using e by (simp_all add: mod_mult_mult2)
qed

lemma qdivrem_long:
  assumes us: "length us = 5" "us ! 0 = 0" and vs: "length vs = 5"
    and v: "2 \<le> n" "v + n = 4" "vs ! (v + 1) \<noteq> 0" and UV: "nval vs (v + 1) n \<le> nval us 1 4"
  shows "\<exists>u m d qs us'. skip_u us 0 (4 - n) = Some (u, m) \<and> norm_shift (wd (vs ! (v + 1))) 0 = Some d \<and>
    div_loop (if d > 0 then shl vs (v + 1) (n - 1) d else vs) v n u (4 - m) (m + 1) 0
      (replicate (4 - m) 0 @ replicate (1 + m) 0) (if d > 0 then shl us u (m + n) d else us) = Some (qs, us') \<and>
    nval qs 1 4 = nval us 1 4 div nval vs (v + 1) n \<and>
    nval (if d > 0 then (shr_loop d (u + m) n us')[u + m := 0] else us') 1 4 = nval us 1 4 mod nval vs (v + 1) n"
proof -
  let ?U = "nval us 1 4" let ?V = "nval vs (v + 1) n"
  have V1: "radix ^ (n - 1) \<le> ?V"
    using nval_Suc_top [of vs "v + 1" "n - 1"] v by (cases "unat (vs ! (v + 1))") (simp_all add: unat_eq_zero)
  obtain k where k: "us ! (k + 1) \<noteq> 0" "\<forall>i. 1 \<le> i \<and> i \<le> k \<longrightarrow> us ! i = 0" "k \<le> 4 - n"
    by (rule leading_digit [OF us(1), of n]) (use V1 UV v in auto)
  define m where "m = 4 - n - k"
  have km: "k + m + n = 4" "m \<le> 2" using k(3) v by (simp_all add: m_def)
  have km': "k + (m + n) = 4" using km(1) by simp
  have su: "skip_u us 0 (4 - n) = Some (k, m)" using skip_u_eq [of 0 k us "4 - n"] k us v by (simp add: m_def)
  have z: "us ! i = 0" if "i \<le> k" for i using k(2) us(2) that by (cases "i = 0") simp_all
  have vb: "0 < unat (wd (vs ! (v + 1)))" "unat (wd (vs ! (v + 1))) < radix" using v(3) unat_digit by (simp_all add: unat_gt_0)
  obtain d where d: "d < 16" "norm_shift (wd (vs ! (v + 1))) 0 = Some d" "0x8000 \<le> unat (vs ! (v + 1)) * 2 ^ d"
    "unat (vs ! (v + 1)) * 2 ^ d < radix" using norm_shift_eq [OF vb, of 0] by auto
  define us1 where "us1 = (if d > 0 then shl us k (m + n) d else us)"
  define vs1 where "vs1 = (if d > 0 then shl vs (v + 1) (n - 1) d else vs)"
  have "k + (m + n) < length us" "unat (us ! k) * 2 ^ d < radix" using km us z [of k] by simp_all
  note nu = normalise [OF this(1) d(1) this(2), folded us1_def]
  have "v + 1 + (n - 1) < length vs" using v vs by simp
  note nv = normalise [OF this d(1) d(4), folded vs1_def]
  have n1: "Suc (n - 1) = n" using v by simp
  have U1: "nval us1 k (n + (m + 1)) = ?U * 2 ^ d"
  proof -
    have "nval us k (Suc (m + n)) = nval us (1 + k) (m + n)" using nval_Suc_top [of us k "m + n"] z [of k] by simp
    also have "\<dots> = ?U" using nval_split [of us 1 k "m + n"] nval_zeros [of 1 k us] z unfolding km' by simp
    finally show ?thesis using nu(1) by (simp add: ac_simps)
  qed
  have V2: "nval vs1 (v + 1) n = ?V * 2 ^ d" using nv(1) unfolding n1 .
  have norm: "0x8000 \<le> unat (vs1 ! (v + 1))"
  proof (cases "d = 0")
    case False
    have "v + 1 + (n - 1) < length vs" "0 < n - 1" using v vs by simp_all
    from shl_digits(3) [OF this, of d] shl_digit [of d] False d show ?thesis by (simp add: vs1_def)
  qed (use d(3) in \<open>simp add: vs1_def\<close>)
  have top: "nval us1 (k + 0) n < nval vs1 (v + 1) n"
  proof -
    have "nval us1 k n * radix ^ (m + 1) \<le> nval us1 k (n + (m + 1))" unfolding nval_split by simp
    also have "\<dots> = ?U * 2 ^ d" by (rule U1)
    also have "?U < radix ^ (n - 1) * radix ^ (m + 1)"
    proof -
      have "?U = nval us (1 + k) (m + n)" using nval_split [of us 1 k "m + n"] nval_zeros [of 1 k us] z unfolding km' by simp
      also have "\<dots> < radix ^ (m + n)" by (rule nval_less)
      also have "m + n = n - 1 + (m + 1)" using v(1) by simp
      also have "(radix :: nat) ^ (n - 1 + (m + 1)) = radix ^ (n - 1) * radix ^ (m + 1)" by (rule power_add)
      finally show ?thesis .
    qed
    then have "?U * 2 ^ d < radix ^ (n - 1) * radix ^ (m + 1) * 2 ^ d" by simp
    finally have "nval us1 k n < radix ^ (n - 1) * 2 ^ d" by (simp add: ac_simps)
    also have "\<dots> \<le> ?V * 2 ^ d" using V1 by simp
    finally show ?thesis using V2 by simp
  qed
  let ?qs = "replicate (4 - m) 0 @ replicate (1 + m) (0 :: digit)"
  have "k + 0 + (m + 1) + n \<le> length us1" "4 - m + 0 + (m + 1) \<le> length ?qs" using nu(2) us km by simp_all
  from div_loop_eq [OF v(1) norm top this] obtain qs us2 where
    r: "div_loop vs1 v n k (4 - m) (m + 1) 0 ?qs us1 = Some (qs, us2)" "length us2 = length us1"
    "nval us1 (k + 0) (n + (m + 1)) = nval qs (4 - m + 0) (m + 1) * nval vs1 (v + 1) n + nval us2 (k + 0 + (m + 1)) n"
    "nval us2 (k + 0 + (m + 1)) n < nval vs1 (v + 1) n" "\<forall>i < 4 - m + 0. qs ! i = ?qs ! i"
    "\<forall>i. k + 0 \<le> i \<and> i < k + 0 + (m + 1) \<longrightarrow> us2 ! i = 0" "\<forall>i < k + 0. us2 ! i = us1 ! i" by blast
  have eqn: "?U * 2 ^ d = nval qs (4 - m) (m + 1) * (?V * 2 ^ d) + nval us2 (k + m + 1) n" "nval us2 (k + m + 1) n < ?V * 2 ^ d"
    using r(3,4) U1 V2 by (simp_all add: ac_simps)
  note u = div_mod_unique [OF eqn]
  have qv: "nval qs 1 4 = nval qs (4 - m) (m + 1)"
  proof -
    have "qs ! i = 0" if "1 \<le> i" "i < 1 + (3 - m)" for i using r(5) that by (simp add: nth_append)
    then have "nval qs 1 (3 - m) = 0" by (rule nval_zeros)
    moreover have "1 + (3 - m) = 4 - m" "3 - m + (m + 1) = 4" using km by simp_all
    ultimately show ?thesis using nval_split [of qs 1 "3 - m" "m + 1"] by simp
  qed
  have zz: "\<forall>i \<le> k + m. us2 ! i = 0"
  proof (intro allI impI)
    fix i assume "i \<le> k + m"
    then show "us2 ! i = 0" using r(6,7) nu(3) z by (cases "i < k") simp_all
  qed
  have "k + m + n < length us2" using r(2) nu(2) us km by simp
  note dn = denormalise [OF d(1) zz this u(2)]
  let ?us3 = "if d > 0 then (shr_loop d (k + m) n us2)[k + m := 0] else us2"
  have "nval ?us3 1 4 = ?U mod ?V"
  proof -
    have "nval ?us3 1 (k + m) = 0" using dn(2) by (intro nval_zeros) simp
    then show ?thesis using nval_split [of ?us3 1 "k + m" n] dn(1) unfolding km(1) by simp
  qed
  then show ?thesis
    using su d(2) r(1) qv u(1) unfolding us1_def vs1_def by (intro exI [of _ k] exI [of _ m] exI [of _ d] exI [of _ qs] exI [of _ us2]) simp
qed

lemma qdivrem_eq:
  assumes "v \<noteq> 0"
  shows "qdivrem u v = Some (u div v, u mod v)"
proof (cases "u < v")
  case True
  then have "unat u < unat v" by (simp add: word_less_nat_alt)
  then have "u div v = 0" "u mod v = u" by (simp_all add: unat_div unat_mod word_unat_eq_iff)
  with True assms show ?thesis by (simp add: qdivrem_def)
next
  case False
  then have uv: "unat v \<le> unat u" by (simp add: word_less_nat_alt not_less)
  have nz: "nval (digits v) 1 4 \<noteq> 0" unfolding digits_value using assms by (simp add: unat_eq_zero)
  have w: "x = y" if "unat x = unat y" for x y :: uint64 using that by (rule unsigned_word_eqI)
  from nz show ?thesis
  proof (cases rule: skip_v_cases)
    case short
    have "0 < unat (wd (digits v ! 4))" "unat (wd (digits v ! 4)) < radix" using short(3) unat_digit by simp_all
    moreover have "unat v = unat (digits v ! 4)" using short(2) unfolding digits_value .
    ultimately have "short_div (digits u) (wd (digits v ! 4)) = (u div v, u mod v)"
      using short_div_eq [of "wd (digits v ! 4)" u] by (auto simp: prod_eq_iff unat_div unat_mod intro!: w)
    then show ?thesis using assms False short(1) by (simp add: qdivrem_def Let_def)
  next
    case (long p n)
    have "nval (digits v) (p + 1) n \<le> nval (digits u) 1 4" using uv unfolding long(5) [symmetric] digits_value .
    from qdivrem_long [OF digits_value(2,3) digits_value(2) long(2,3,4) this] obtain k m d qs us where
      r: "skip_u (digits u) 0 (4 - n) = Some (k, m)" "norm_shift (wd (digits v ! (p + 1))) 0 = Some d"
      "div_loop (if d > 0 then shl (digits v) (p + 1) (n - 1) d else digits v) p n k (4 - m) (m + 1) 0
        (replicate (4 - m) 0 @ replicate (1 + m) 0) (if d > 0 then shl (digits u) k (m + n) d else digits u) = Some (qs, us)"
      "nval qs 1 4 = nval (digits u) 1 4 div nval (digits v) (p + 1) n"
      "nval (if d > 0 then (shr_loop d (k + m) n us)[k + m := 0] else us) 1 4 = nval (digits u) 1 4 mod nval (digits v) (p + 1) n"
      by blast
    have "undigits qs = u div v" "undigits (if d > 0 then (shr_loop d (k + m) n us)[k + m := 0] else us) = u mod v"
      using r(4,5) long(5) by (intro w; simp only: undigits_value digits_value unat_div unat_mod)+
    moreover have "n \<noteq> 1" using long(2) by simp
    ultimately show ?thesis
      using assms False by (simp only: qdivrem_def Let_def long(1) prod.case r(1-3) Option.bind.bind_lunit if_False)
  qed
qed

section \<open>Signed division\<close>

lemma uint_abs: "uint (if a <s 0 then - a else a) = \<bar>sint a\<bar>" for a :: uint64
proof (cases "a <s 0")
  case True
  then have n: "sint a < 0" by (simp add: word_sless_alt)
  then have "uint a \<noteq> 0" by (auto simp: uint_0_iff)
  then have b: "0 < uint a" "uint a < 2 ^ 64" using uint_lt2p [of a] uint_ge_0 [of a] by (simp_all only: order_less_le) simp_all
  have s: "sint a = uint a - 2 ^ 64" using n b sint_sign(2) [of a] by (auto split: if_splits)
  have "uint (- a) = (- uint a) mod 2 ^ 64" by (simp add: uint_word_ariths)
  also have "\<dots> = (2 ^ 64 - uint a) mod 2 ^ 64" by simp
  also have "\<dots> = 2 ^ 64 - uint a" using n s b by (intro mod_pos_pos_trivial) linarith+
  finally show ?thesis using True n s by simp
next
  case False
  then have "0 \<le> sint a" by (simp add: word_sless_alt)
  then show ?thesis using False sint_sign(2) [of a] uint_lt2p [of a] by (auto split: if_splits)
qed

lemma sdiv_word:
  fixes a b :: uint64
  shows "(if a <s 0 then - a else a) div (if b <s 0 then - b else b) = of_int (\<bar>sint a\<bar> div \<bar>sint b\<bar>)"
    and "(if a <s 0 then - a else a) mod (if b <s 0 then - b else b) = of_int (\<bar>sint a\<bar> mod \<bar>sint b\<bar>)"
proof -
  let ?a = "if a <s 0 then - a else a" let ?b = "if b <s 0 then - b else b"
  have "?a div ?b = of_int (uint (?a div ?b))" "?a mod ?b = of_int (uint (?a mod ?b))" by (rule word_of_int_uint [symmetric])+
  then show "?a div ?b = of_int (\<bar>sint a\<bar> div \<bar>sint b\<bar>)" "?a mod ?b = of_int (\<bar>sint a\<bar> mod \<bar>sint b\<bar>)"
    unfolding uint_div uint_mod uint_abs .
qed

section \<open>Properties\<close>

text \<open>
  Claim C14: unsigned 64-bit division. For every dividend and every divisor other than 0,
  \<^verbatim>\<open>__qdivrem\<close> returns (its loops end, no digit is read outside the arrays), and what it returns and
  stores through \<^verbatim>\<open>arq\<close> are the quotient and the remainder; so are the results of \<^verbatim>\<open>__udivdi3\<close> and
  \<^verbatim>\<open>__umoddi3\<close>.
\<close>

theorem qdivrem_divides:
  assumes "v \<noteq> 0"
  shows "qdivrem u v = Some (u div v, u mod v) \<and> udivdi3 u v = Some (u div v) \<and> umoddi3 u v = Some (u mod v)"
  using qdivrem_eq [OF assms] by (simp add: udivdi3_def umoddi3_def)

theorem qdivrem_divides_witness:
  "qdivrem 0x123456789abcdef0 0xfedcba987 = Some (0x1249249, 0x246fe8971) \<and> (0xfedcba987 :: uint64) \<noteq> 0"
  using qdivrem_divides [of "0xfedcba987" "0x123456789abcdef0"] by simp

text \<open>
  Claim C15: signed 64-bit division truncates toward zero. For a divisor other than 0, \<^verbatim>\<open>__divdi3\<close> and \<^verbatim>\<open>__moddi3\<close>
  give the truncated quotient and the remainder with the sign of the dividend, modulo \<open>2 ^ 64\<close>; that matters
  only for the least number divided by -1.
\<close>

theorem signed_division:
  assumes "b \<noteq> 0"
  shows "divdi3 a b = Some (of_int (sint a sdiv sint b)) \<and> moddi3 a b = Some (of_int (sint a smod sint b))"
proof -
  let ?a = "if a <s 0 then - a else a" let ?b = "if b <s 0 then - b else b"
  have "?b \<noteq> 0" using assms by simp
  note q = qdivrem_eq [OF this, of ?a, unfolded sdiv_word]
  have s: "sint a sdiv sint b = (if (a <s 0) \<noteq> (b <s 0) then - (\<bar>sint a\<bar> div \<bar>sint b\<bar>) else \<bar>sint a\<bar> div \<bar>sint b\<bar>)"
    by (auto simp: signed_divide_int_def word_sless_alt sgn_if)
  have m: "sint a smod sint b = (if a <s 0 then - (\<bar>sint a\<bar> mod \<bar>sint b\<bar>) else \<bar>sint a\<bar> mod \<bar>sint b\<bar>)"
    by (auto simp: signed_modulo_int_def word_sless_alt sgn_if)
  show ?thesis
    using q s m by (cases "a <s 0"; cases "b <s 0") (simp_all add: divdi3_def moddi3_def Let_def)
qed

theorem signed_division_witness:
  "divdi3 (- 7) 2 = Some (- 3) \<and> moddi3 (- 7) 2 = Some (- 1) \<and> (2 :: uint64) \<noteq> 0"
  using signed_division [of 2 "- 7"] by (simp add: signed_divide_int_def signed_modulo_int_def)

end
