(* ===== verification/Printf.thy ===== *)
theory Printf
  imports Qdivrem Cstring
begin

unbundle bit_operations_syntax

text \<open>
  Formatted output: \<^verbatim>\<open>common/libc/printf/__printf.c\<close> and \<^verbatim>\<open>snprintf.c\<close>, and the
  console back end of \<^verbatim>\<open>kern/lib/kprintf.c\<close>. The printf state \<open>PF\<close> has the fields
  of the C structure; the callback \<^verbatim>\<open>sendfunc\<close> is an argument \<open>send\<close> that maps
  the client data and a piece of text to the new client data. A C string
  argument is the list of its characters, a variable argument is a value of
  the type \<open>va_arg\<close>, and fetching an argument of another size than the one
  passed does not return. Numbers are converted with the 64-bit division of
  \<open>Qdivrem\<close>, which is what the compiler calls here, in the 23-byte buffer of
  the source, and writing outside that buffer does not return either.

  The locale \<open>print_sink\<close> is the contract of a back end: text sent in pieces is
  the text sent at once. Its instances are the buffer of \<^verbatim>\<open>snprintf\<close> and the
  console.
\<close>

section \<open>State\<close>

datatype va_arg = Arg32 uint32 | Arg64 uint64 | ArgStr "byte list option"

datatype intsize = INTSZ | LONGSZ | LLONGSZ | SIZETSZ

record 'c PF =
  clientdata :: 'c
  ap :: "va_arg list"
  charcount :: uint32
  in_pct :: bool
  int_size :: intsize
  num :: uint64
  sign :: bool
  spacing :: int
  rightspc :: bool
  fillchar :: byte
  base :: uint64
  baseprefix :: bool
  altformat :: bool

text \<open>The characters the code names.\<close>

abbreviation (input) ch_space :: byte where "ch_space \<equiv> 0x20"
abbreviation (input) ch_hash :: byte where "ch_hash \<equiv> 0x23"
abbreviation (input) ch_percent :: byte where "ch_percent \<equiv> 0x25"
abbreviation (input) ch_minus :: byte where "ch_minus \<equiv> 0x2d"
abbreviation (input) ch_0 :: byte where "ch_0 \<equiv> 0x30"
abbreviation (input) ch_9 :: byte where "ch_9 \<equiv> 0x39"
abbreviation (input) ch_c :: byte where "ch_c \<equiv> 0x63"
abbreviation (input) ch_d :: byte where "ch_d \<equiv> 0x64"
abbreviation (input) ch_l :: byte where "ch_l \<equiv> 0x6c"
abbreviation (input) ch_o :: byte where "ch_o \<equiv> 0x6f"
abbreviation (input) ch_p :: byte where "ch_p \<equiv> 0x70"
abbreviation (input) ch_s :: byte where "ch_s \<equiv> 0x73"
abbreviation (input) ch_u :: byte where "ch_u \<equiv> 0x75"
abbreviation (input) ch_x :: byte where "ch_x \<equiv> 0x78"
abbreviation (input) ch_z :: byte where "ch_z \<equiv> 0x7a"

abbreviation (input) NUMBER_BUF_SIZE :: nat where "NUMBER_BUF_SIZE \<equiv> 23"

definition hex_digits :: "byte list" where
  "hex_digits = digit_chars @ [0x61, 0x62, 0x63, 0x64, 0x65, 0x66]"

section \<open>The printer\<close>

definition pf_print :: "('c \<Rightarrow> byte list \<Rightarrow> 'c) \<Rightarrow> byte list \<Rightarrow> 'c PF \<Rightarrow> 'c PF" where
  "pf_print send txt pf = pf\<lparr>clientdata := send (clientdata pf) txt,
     charcount := charcount pf + of_nat (length txt)\<rparr>"

definition pf_endfield :: "'c PF \<Rightarrow> 'c PF" where
  "pf_endfield pf = pf\<lparr>in_pct := False, int_size := INTSZ, num := 0, sign := False, spacing := 0,
     rightspc := False, fillchar := ch_space, base := 0, baseprefix := False, altformat := False\<rparr>"

definition pf_modifier :: "byte \<Rightarrow> 'c PF \<Rightarrow> 'c PF option" where
  "pf_modifier ch pf =
     (if ch = ch_hash then Some (pf\<lparr>altformat := True\<rparr>)
      else if ch = ch_minus then Some (pf\<lparr>rightspc := True\<rparr>)
      else if ch = ch_l then Some (pf\<lparr>int_size := if int_size pf = LONGSZ then LLONGSZ else LONGSZ\<rparr>)
      else if ch = ch_z then Some (pf\<lparr>int_size := SIZETSZ\<rparr>)
      else if ch = ch_0 then
        Some (if spacing pf > 0 then pf\<lparr>spacing := spacing pf * 10\<rparr> else pf\<lparr>fillchar := ch_0\<rparr>)
      else do {
        kassert (ch > ch_0 \<and> ch \<le> ch_9);
        Some (pf\<lparr>spacing := spacing pf * 10 + uint (ch - ch_0)\<rparr>) })"

fun va_int :: "'c PF \<Rightarrow> (uint32 \<times> 'c PF) option" where
  "va_int pf = (case ap pf of Arg32 w # as \<Rightarrow> Some (w, pf\<lparr>ap := as\<rparr>) | _ \<Rightarrow> None)"

fun va_longlong :: "'c PF \<Rightarrow> (uint64 \<times> 'c PF) option" where
  "va_longlong pf = (case ap pf of Arg64 w # as \<Rightarrow> Some (w, pf\<lparr>ap := as\<rparr>) | _ \<Rightarrow> None)"

definition pf_getnum :: "byte \<Rightarrow> 'c PF \<Rightarrow> 'c PF option" where
  "pf_getnum ch pf =
     (if ch = ch_p then do { (w, pf) \<leftarrow> va_int pf; Some (pf\<lparr>num := ucast w\<rparr>) }
      else if ch = ch_d then do {
        (signednum, pf) \<leftarrow> (case int_size pf of
            LLONGSZ \<Rightarrow> va_longlong pf
          | _ \<Rightarrow> do { (w, pf) \<leftarrow> va_int pf; Some (scast w :: uint64, pf) });
        if sint signednum < 0 then Some (pf\<lparr>sign := True, num := - signednum\<rparr>)
        else Some (pf\<lparr>num := signednum\<rparr>) }
      else (case int_size pf of
            LLONGSZ \<Rightarrow> do { (w, pf) \<leftarrow> va_longlong pf; Some (pf\<lparr>num := w\<rparr>) }
          | _ \<Rightarrow> do { (w, pf) \<leftarrow> va_int pf; Some (pf\<lparr>num := ucast w\<rparr>) }))"

definition pf_setbase :: "byte \<Rightarrow> 'c PF \<Rightarrow> 'c PF" where
  "pf_setbase ch pf =
     (let pf = (if ch = ch_d \<or> ch = ch_u then pf\<lparr>base := 10\<rparr>
                else if ch = ch_x \<or> ch = ch_p then pf\<lparr>base := 16\<rparr>
                else if ch = ch_o then pf\<lparr>base := 8\<rparr> else pf)
      in if altformat pf \<or> ch = ch_p then pf\<lparr>baseprefix := True\<rparr> else pf)"

definition pf_fill :: "('c \<Rightarrow> byte list \<Rightarrow> 'c) \<Rightarrow> int \<Rightarrow> 'c PF \<Rightarrow> 'c PF" where
  "pf_fill send spc pf = fold (\<lambda>_. pf_print send [fillchar pf]) [0..<nat spc] pf"

definition pf_printstuff :: "('c \<Rightarrow> byte list \<Rightarrow> 'c) \<Rightarrow> byte list \<Rightarrow> byte list \<Rightarrow> byte list \<Rightarrow> 'c PF \<Rightarrow> 'c PF" where
  "pf_printstuff send prefix prefix2 stuff pf =
     (let len = int (length prefix + length prefix2 + length stuff);
          spc = (if spacing pf > len then spacing pf - len else 0);
          pf = (if spc > 0 \<and> \<not> rightspc pf \<and> fillchar pf \<noteq> ch_0 then pf_fill send spc pf else pf);
          pf = pf_print send prefix pf;
          pf = pf_print send prefix2 pf;
          pf = (if spc > 0 \<and> \<not> rightspc pf \<and> fillchar pf = ch_0 then pf_fill send spc pf else pf);
          pf = pf_print send stuff pf
      in if spc > 0 \<and> rightspc pf then pf_fill send spc pf else pf)"

partial_function (option) digit_loop :: "uint64 \<Rightarrow> uint64 \<Rightarrow> int \<Rightarrow> byte list \<Rightarrow> (int \<times> byte list) option" where
  "digit_loop b xnum x buf = do {
     r \<leftarrow> umoddi3 xnum b;
     kassert (0 \<le> x \<and> x < int (length buf));
     let buf = buf[nat x := hex_digits ! unat r];
     let x = x - 1;
     xnum \<leftarrow> udivdi3 xnum b;
     if xnum > 0 then digit_loop b xnum x buf else Some (x, buf) }"

definition num_text :: "uint64 \<Rightarrow> uint64 \<Rightarrow> byte list option" where
  "num_text b n = do {
     let x = int NUMBER_BUF_SIZE - 1;
     let buf = (replicate NUMBER_BUF_SIZE 0)[nat x := 0];
     let x = x - 1;
     (x, buf) \<leftarrow> digit_loop b n x buf;
     let x = x + 1;
     Some (takeWhile (\<lambda>c. c \<noteq> 0) (drop (nat x) buf)) }"

definition pf_printnum :: "('c \<Rightarrow> byte list \<Rightarrow> 'c) \<Rightarrow> 'c PF \<Rightarrow> 'c PF option" where
  "pf_printnum send pf = do {
     x \<leftarrow> num_text (base pf) (num pf);
     let bprefix = (if baseprefix pf \<and> base pf = 16 then [ch_0, ch_x]
                    else if baseprefix pf \<and> base pf = 8 then [ch_0] else []);
     let sprefix = (if sign pf then [ch_minus] else []);
     Some (pf_printstuff send sprefix bprefix x pf) }"

definition modifier_chars :: "byte list" where
  "modifier_chars = [ch_hash, ch_minus, ch_l, ch_z] @ digit_chars"

definition number_chars :: "byte list" where
  "number_chars = [ch_d, ch_o, ch_u, ch_p, ch_x]"

definition null_string :: "byte list" where
  "null_string = [0x28, 0x6e, 0x75, 0x6c, 0x6c, 0x29]"

definition send_number :: "('c \<Rightarrow> byte list \<Rightarrow> 'c) \<Rightarrow> byte \<Rightarrow> 'c PF \<Rightarrow> 'c PF option" where
  "send_number send ch pf = do {
     pf \<leftarrow> pf_getnum ch pf;
     pf \<leftarrow> pf_printnum send (pf_setbase ch pf);
     Some (pf_endfield pf) }"

definition send_string :: "('c \<Rightarrow> byte list \<Rightarrow> 'c) \<Rightarrow> 'c PF \<Rightarrow> 'c PF option" where
  "send_string send pf =
     (case ap pf of ArgStr str # as \<Rightarrow>
        Some (pf_endfield (pf_printstuff send [] []
          (case str of None \<Rightarrow> null_string | Some s \<Rightarrow> s) (pf\<lparr>ap := as\<rparr>)))
      | _ \<Rightarrow> None)"

definition send_char :: "('c \<Rightarrow> byte list \<Rightarrow> 'c) \<Rightarrow> byte \<Rightarrow> 'c PF \<Rightarrow> 'c PF option" where
  "send_char send ch pf = do {
     (x, pf) \<leftarrow> (if ch = ch_c then do { (w, pf) \<leftarrow> va_int pf; Some (ucast w, pf) } else Some (ch, pf));
     Some (pf_endfield (pf_printstuff send [] [] (if x = 0 then [] else [x]) pf)) }"

definition pf_send :: "('c \<Rightarrow> byte list \<Rightarrow> 'c) \<Rightarrow> byte \<Rightarrow> 'c PF \<Rightarrow> 'c PF option" where
  "pf_send send ch pf = do {
     kassert (ch \<noteq> 0);
     if \<not> in_pct pf \<and> ch \<noteq> ch_percent then Some (pf_print send [ch] pf)
     else if \<not> in_pct pf then Some (pf\<lparr>in_pct := True\<rparr>)
     else if ch \<in> set modifier_chars then pf_modifier ch pf
     else if ch \<in> set number_chars then send_number send ch pf
     else if ch = ch_s then send_string send pf
     else send_char send ch pf }"

primrec pf_sends :: "('c \<Rightarrow> byte list \<Rightarrow> 'c) \<Rightarrow> byte list \<Rightarrow> 'c PF \<Rightarrow> 'c PF option" where
  "pf_sends send [] pf = Some pf"
| "pf_sends send (ch # fmt) pf = do { pf \<leftarrow> pf_send send ch pf; pf_sends send fmt pf }"

definition pf_start :: "'c \<Rightarrow> va_arg list \<Rightarrow> 'c PF" where
  "pf_start c args = pf_endfield \<lparr>clientdata = c, ap = args, charcount = 0, in_pct = False, int_size = INTSZ,
     num = 0, sign = False, spacing = 0, rightspc = False, fillchar = 0, base = 0, baseprefix = False,
     altformat = False\<rparr>"

definition vprintf :: "('c \<Rightarrow> byte list \<Rightarrow> 'c) \<Rightarrow> 'c \<Rightarrow> byte list \<Rightarrow> va_arg list \<Rightarrow> (uint32 \<times> 'c) option" where
  "vprintf send c format args = do {
     pf \<leftarrow> pf_sends send format (pf_start c args);
     Some (charcount pf, clientdata pf) }"

section \<open>The back ends\<close>

record SNP =
  buf :: nat
  buflen :: nat
  bufpos :: nat

primrec snprintf_send :: "SNP \<times> memory \<Rightarrow> byte list \<Rightarrow> SNP \<times> memory" where
  "snprintf_send c [] = c"
| "snprintf_send c (b # data) =
     (case c of (snp, m) \<Rightarrow>
        snprintf_send (if bufpos snp < buflen snp
                       then (snp\<lparr>bufpos := bufpos snp + 1\<rparr>, m(buf snp + bufpos snp := b))
                       else (snp, m)) data)"

definition vsnprintf :: "nat \<Rightarrow> nat \<Rightarrow> byte list \<Rightarrow> va_arg list \<Rightarrow> memory \<Rightarrow> (uint32 \<times> memory) option" where
  "vsnprintf b len fmt args m = do {
     let snp = \<lparr>buf = b, buflen = (if len = 0 then 0 else len - 1), bufpos = 0\<rparr>;
     (chars, snp, m) \<leftarrow> vprintf snprintf_send (snp, m) fmt args;
     Some (chars, if len > 0 then m(b + bufpos snp := 0) else m) }"

text \<open>The console is the list of characters handed to \<^verbatim>\<open>putch\<close> so far.\<close>

primrec console_send :: "byte list \<Rightarrow> byte list \<Rightarrow> byte list" where
  "console_send out [] = out"
| "console_send out (b # data) = console_send (out @ [b]) data"

definition kprintf :: "byte list \<Rightarrow> va_arg list \<Rightarrow> byte list \<Rightarrow> (uint32 \<times> byte list) option" where
  "kprintf fmt args console = vprintf console_send console fmt args"

section \<open>Back ends that do not see how the text is cut\<close>

text \<open>\<open>pf_lift f\<close> is the printer's state with other client data.\<close>

definition pf_lift :: "('b \<Rightarrow> 'c) \<Rightarrow> 'b PF \<Rightarrow> 'c PF" where
  "pf_lift f pf = \<lparr>clientdata = f (clientdata pf), ap = ap pf, charcount = charcount pf, in_pct = in_pct pf,
     int_size = int_size pf, num = num pf, sign = sign pf, spacing = spacing pf, rightspc = rightspc pf,
     fillchar = fillchar pf, base = base pf, baseprefix = baseprefix pf, altformat = altformat pf\<rparr>"

lemma pf_lift_fields [simp]:
  "clientdata (pf_lift f pf) = f (clientdata pf)" "ap (pf_lift f pf) = ap pf"
  "charcount (pf_lift f pf) = charcount pf" "in_pct (pf_lift f pf) = in_pct pf"
  "int_size (pf_lift f pf) = int_size pf" "num (pf_lift f pf) = num pf" "sign (pf_lift f pf) = sign pf"
  "spacing (pf_lift f pf) = spacing pf" "rightspc (pf_lift f pf) = rightspc pf"
  "fillchar (pf_lift f pf) = fillchar pf" "base (pf_lift f pf) = base pf"
  "baseprefix (pf_lift f pf) = baseprefix pf" "altformat (pf_lift f pf) = altformat pf"
  by (simp_all add: pf_lift_def)

lemma pf_lift_endfield: "pf_endfield (pf_lift f pf) = pf_lift f (pf_endfield pf)"
  by (simp add: pf_endfield_def pf_lift_def)

lemma pf_lift_setbase: "pf_setbase ch (pf_lift f pf) = pf_lift f (pf_setbase ch pf)"
  by (simp add: pf_setbase_def pf_lift_def Let_def)

lemma pf_lift_modifier: "pf_modifier ch (pf_lift f pf) = map_option (pf_lift f) (pf_modifier ch pf)"
  by (simp add: pf_modifier_def pf_lift_def kassert_def)

lemma pf_lift_va:
  "va_int (pf_lift f pf) = map_option (apsnd (pf_lift f)) (va_int pf)"
  "va_longlong (pf_lift f pf) = map_option (apsnd (pf_lift f)) (va_longlong pf)"
  by (simp_all add: pf_lift_def split: list.splits va_arg.splits)

lemma pf_lift_getnum: "pf_getnum ch (pf_lift f pf) = map_option (pf_lift f) (pf_getnum ch pf)"
  by (auto simp: pf_getnum_def pf_lift_def split: intsize.splits list.splits va_arg.splits)

text \<open>The text of a field: the prefixes and the number or string, padded to the width.\<close>

definition field_text :: "'c PF \<Rightarrow> byte list \<Rightarrow> byte list \<Rightarrow> byte list \<Rightarrow> byte list" where
  "field_text pf p q s =
     (let pad = replicate (nat (spacing pf - int (length p + length q + length s))) (fillchar pf)
      in if rightspc pf then p @ q @ s @ pad
         else if fillchar pf = ch_0 then p @ q @ pad @ s
         else pad @ p @ q @ s)"

lemma pf_lift_field_text [simp]: "field_text (pf_lift f pf) = field_text pf"
  by (simp add: field_text_def fun_eq_iff Let_def)

locale print_sink =
  fixes send :: "'c \<Rightarrow> byte list \<Rightarrow> 'c"
  assumes send_nil: "send c [] = c"
    and send_append: "send (send c xs) ys = send c (xs @ ys)"
begin

lemma print_nil: "pf_print send [] pf = pf"
  by (simp add: pf_print_def send_nil)

lemma print_print: "pf_print send ys (pf_print send xs pf) = pf_print send (xs @ ys) pf"
  by (simp add: pf_print_def send_append add.assoc)

lemma fill_print: "pf_fill send spc pf = pf_print send (replicate (nat spc) (fillchar pf)) pf"
proof -
  have "fold (\<lambda>_. pf_print send [c]) [0..<n] pf = pf_print send (replicate n c) pf" for c n
    by (induction n) (simp_all add: print_nil print_print replicate_append_same)
  then show ?thesis by (simp add: pf_fill_def)
qed

lemma printstuff_print: "pf_printstuff send p q s pf = pf_print send (field_text pf p q s) pf"
proof -
  have fields: "rightspc (pf_print send xs pf) = rightspc pf" "fillchar (pf_print send xs pf) = fillchar pf" for xs
    by (simp_all add: pf_print_def)
  show ?thesis
    by (cases "spacing pf > int (length p + length q + length s)"; cases "rightspc pf"; cases "fillchar pf = ch_0")
      (simp_all add: pf_printstuff_def field_text_def Let_def fill_print print_print print_nil fields)
qed

lemma lift_print: "pf_print send txt (pf_lift (send c) pf) = pf_lift (send c) (pf_print (@) txt pf)"
  by (simp add: pf_print_def pf_lift_def send_append)

end

interpretation text_sink: print_sink "(@)"
  by unfold_locales simp_all

context print_sink
begin

lemma lift_printstuff:
  "pf_printstuff send p q s (pf_lift (send c) pf) = pf_lift (send c) (pf_printstuff (@) p q s pf)"
  by (simp add: printstuff_print text_sink.printstuff_print lift_print)

lemma lift_printnum:
  "pf_printnum send (pf_lift (send c) pf) = map_option (pf_lift (send c)) (pf_printnum (@) pf)"
  by (cases "num_text (base pf) (num pf)") (simp_all add: pf_printnum_def Let_def lift_printstuff)

lemma lift_number:
  "send_number send ch (pf_lift (send c) pf) = map_option (pf_lift (send c)) (send_number (@) ch pf)"
proof (cases "pf_getnum ch pf")
  case (Some pf')
  then show ?thesis
    by (cases "pf_printnum (@) (pf_setbase ch pf')")
      (simp_all add: send_number_def pf_lift_getnum pf_lift_setbase lift_printnum pf_lift_endfield)
qed (simp add: send_number_def pf_lift_getnum)

lemma lift_string: "send_string send (pf_lift (send c) pf) = map_option (pf_lift (send c)) (send_string (@) pf)"
proof -
  have upd: "(pf_lift (send c) pf)\<lparr>ap := args\<rparr> = pf_lift (send c) (pf\<lparr>ap := args\<rparr>)" for args
    by (simp add: pf_lift_def)
  show ?thesis
    by (simp add: upd send_string_def lift_printstuff pf_lift_endfield split: list.split va_arg.split)
qed

lemma lift_char: "send_char send ch (pf_lift (send c) pf) = map_option (pf_lift (send c)) (send_char (@) ch pf)"
proof (cases "va_int pf")
  case None
  then show ?thesis
    by (simp add: send_char_def lift_printstuff pf_lift_endfield pf_lift_va del: va_int.simps)
next
  case (Some r)
  then show ?thesis
    by (cases r) (simp add: send_char_def lift_printstuff pf_lift_endfield pf_lift_va del: va_int.simps)
qed

lemma lift_send: "pf_send send ch (pf_lift (send c) pf) = map_option (pf_lift (send c)) (pf_send (@) ch pf)"
proof -
  have "(pf_lift (send c) pf)\<lparr>in_pct := True\<rparr> = pf_lift (send c) (pf\<lparr>in_pct := True\<rparr>)"
    by (simp add: pf_lift_def)
  then show ?thesis
    by (simp add: pf_send_def kassert_def lift_print pf_lift_modifier lift_number lift_string lift_char)
qed

lemma lift_sends: "pf_sends send fmt (pf_lift (send c) pf) = map_option (pf_lift (send c)) (pf_sends (@) fmt pf)"
proof (induction fmt arbitrary: pf)
  case (Cons ch fmt)
  then show ?case by (cases "pf_send (@) ch pf") (simp_all add: lift_send)
qed simp

lemma vprintf_text: "vprintf send c fmt args = map_option (apsnd (send c)) (vprintf (@) [] fmt args)"
proof -
  have "pf_start c args = pf_lift (send c) (pf_start [] args)"
    by (simp add: pf_start_def pf_endfield_def pf_lift_def send_nil)
  then show ?thesis
    by (simp add: vprintf_def lift_sends) (cases "pf_sends (@) fmt (pf_start [] args)"; simp)
qed

end

section \<open>The buffer of snprintf and the console\<close>

lemma snprintf_send_append: "snprintf_send (snprintf_send c xs) ys = snprintf_send c (xs @ ys)"
  by (induction xs arbitrary: c) (simp_all split: prod.splits)

interpretation buffer_sink: print_sink snprintf_send
  by unfold_locales (simp_all add: snprintf_send_append)

lemma console_send_eq: "console_send out data = out @ data"
  by (induction data arbitrary: out) simp_all

interpretation console_sink: print_sink console_send
  by unfold_locales (simp_all add: console_send_eq)

lemma snprintf_send_eq:
  "bufpos snp \<le> buflen snp \<Longrightarrow>
    snprintf_send (snp, m) xs =
      (snp\<lparr>bufpos := min (bufpos snp + length xs) (buflen snp)\<rparr>,
       mem_put m (buf snp + bufpos snp) (take (buflen snp - bufpos snp) xs))"
proof (induction xs arbitrary: snp m)
  case (Cons x xs)
  show ?case
  proof (cases "bufpos snp < buflen snp")
    case True
    then have "take (buflen snp - bufpos snp) (x # xs) = [x] @ take (buflen snp - Suc (bufpos snp)) xs"
      by (simp add: take_Cons')
    moreover have "snprintf_send (snp\<lparr>bufpos := bufpos snp + 1\<rparr>, m(buf snp + bufpos snp := x)) xs =
        (snp\<lparr>bufpos := min (bufpos snp + 1 + length xs) (buflen snp)\<rparr>,
         mem_put (m(buf snp + bufpos snp := x)) (buf snp + bufpos snp + 1) (take (buflen snp - Suc (bufpos snp)) xs))"
      using True by (subst Cons.IH) simp_all
    ultimately show ?thesis
      using True mem_put_append [of m "buf snp + bufpos snp" "[x]" "take (buflen snp - Suc (bufpos snp)) xs"]
      by (simp add: mem_put_single)
  next
    case False
    then show ?thesis using Cons by simp
  qed
qed simp

text \<open>The count kept by the printer is the length of what it sent.\<close>

definition counted :: "byte list PF \<Rightarrow> bool" where
  "counted pf \<longleftrightarrow> charcount pf = of_nat (length (clientdata pf))"

lemma counted_print: "counted pf \<Longrightarrow> counted (pf_print (@) t pf)"
  by (simp add: counted_def pf_print_def)

lemma counted_printstuff: "counted pf \<Longrightarrow> counted (pf_printstuff (@) p q s pf)"
  by (simp add: text_sink.printstuff_print counted_print)

lemma counted_fields:
  "counted (pf_endfield pf) = counted pf" "counted (pf_setbase ch pf) = counted pf"
  "counted (pf\<lparr>ap := args\<rparr>) = counted pf" "counted (pf\<lparr>in_pct := b\<rparr>) = counted pf"
  by (simp_all add: counted_def pf_endfield_def pf_setbase_def Let_def)

lemma counted_modifier: "pf_modifier ch pf = Some pf' \<Longrightarrow> counted pf' = counted pf"
  by (auto simp: pf_modifier_def counted_def kassert_def split: if_splits)

lemma counted_getnum: "pf_getnum ch pf = Some pf' \<Longrightarrow> counted pf' = counted pf"
  by (auto simp: pf_getnum_def counted_def split: if_splits intsize.splits list.splits va_arg.splits)

lemma counted_number: "send_number (@) ch pf = Some pf' \<Longrightarrow> counted pf \<Longrightarrow> counted pf'"
  by (auto simp: send_number_def pf_printnum_def Let_def counted_fields counted_printstuff counted_getnum
      elim!: bind_eq_SomeE)

lemma counted_char: "send_char (@) ch pf = Some pf' \<Longrightarrow> counted pf \<Longrightarrow> counted pf'"
  by (auto simp: send_char_def counted_fields counted_printstuff split: if_splits list.splits va_arg.splits)

lemma counted_send: "pf_send (@) ch pf = Some pf' \<Longrightarrow> counted pf \<Longrightarrow> counted pf'"
  by (auto simp: pf_send_def send_string_def kassert_def counted_print counted_printstuff counted_modifier
      counted_fields counted_number counted_char split: if_splits list.splits va_arg.splits)

lemma counted_sends: "pf_sends (@) fmt pf = Some pf' \<Longrightarrow> counted pf \<Longrightarrow> counted pf'"
  by (induction fmt arbitrary: pf) (auto simp: counted_send elim!: bind_eq_SomeE)

text \<open>What is printed: the text and the number of its characters.\<close>

definition printed :: "byte list \<Rightarrow> va_arg list \<Rightarrow> byte list option" where
  "printed fmt args = map_option clientdata (pf_sends (@) fmt (pf_start [] args))"

lemma vprintf_printed: "vprintf (@) [] fmt args = map_option (\<lambda>t. (of_nat (length t), t)) (printed fmt args)"
proof (cases "pf_sends (@) fmt (pf_start [] args)")
  case (Some pf)
  moreover have "counted (pf_start [] args)" by (simp add: counted_def pf_start_def pf_endfield_def)
  ultimately show ?thesis
    using counted_sends [of fmt "pf_start [] args" pf] by (simp add: vprintf_def printed_def counted_def)
qed (simp add: vprintf_def printed_def)

lemma kprintf_printed:
  "kprintf fmt args console = map_option (\<lambda>t. (of_nat (length t), console @ t)) (printed fmt args)"
  by (simp add: kprintf_def console_sink.vprintf_text vprintf_printed console_send_eq option.map_comp comp_def)

lemma vsnprintf_printed:
  "vsnprintf b len fmt args m =
    map_option (\<lambda>t. (of_nat (length t), if len > 0 then mem_put m b (take (len - 1) t @ [0]) else m)) (printed fmt args)"
proof (cases "printed fmt args")
  case (Some t)
  have "m' (b + min (length t) (len - 1) := 0) = mem_put m b (take (len - 1) t @ [0])"
    if "m' = mem_put m b (take (len - 1) t)" "len > 0" for m'
    using that mem_put_append [of m b "take (len - 1) t" "[0]"] by (simp add: mem_put_single)
  with Some show ?thesis
    by (simp add: vsnprintf_def buffer_sink.vprintf_text vprintf_printed Let_def snprintf_send_eq)
qed (simp add: vsnprintf_def buffer_sink.vprintf_text vprintf_printed Let_def)

section \<open>Numerals\<close>

text \<open>\<open>digits_of b n\<close> is the numeral of \<open>n\<close> in base \<open>b\<close>, \<open>numeral_value\<close> its value.\<close>

function digits_of :: "nat \<Rightarrow> nat \<Rightarrow> byte list" where
  "digits_of b n = (if n < b \<or> b < 2 then [hex_digits ! n] else digits_of b (n div b) @ [hex_digits ! (n mod b)])"
  by auto
termination
  by (relation "measure (\<lambda>(b, n). n)") auto

declare digits_of.simps [simp del]

definition numeral_value :: "nat \<Rightarrow> byte list \<Rightarrow> nat" where
  "numeral_value b ds = foldl (\<lambda>v d. v * b + length (takeWhile (\<lambda>c. c \<noteq> d) hex_digits)) 0 ds"

lemma hex_digit_cases: "k < 16 \<Longrightarrow> k \<in> {0, 1, 2, 3, 4, 5, 6, 7, 8, 9, 10, 11, 12, 13, 14, 15 :: nat}"
  unfolding insert_iff empty_iff by presburger

lemma hex_digit_table:
  "\<forall>k\<in>set [0..<16]. length (takeWhile (\<lambda>c. c \<noteq> hex_digits ! k) hex_digits) = k \<and> hex_digits ! k \<noteq> 0"
  by code_simp

lemma hex_digit:
  assumes "k < 16"
  shows "length (takeWhile (\<lambda>c. c \<noteq> hex_digits ! k) hex_digits) = k" "hex_digits ! k \<noteq> 0"
  using hex_digit_table assms by simp_all

lemma dec_digit:
  assumes "k < 10"
  shows "unat (hex_digits ! k - 0x30) = k" "hex_digits ! k \<in> set digit_chars"
  using hex_digit_cases [of k] assms by (auto simp: hex_digits_def digit_chars_def)

lemma numeral_value_digits:
  assumes "2 \<le> b" "b \<le> 16"
  shows "numeral_value b (digits_of b n) = n"
proof (induction n rule: less_induct)
  case (less n)
  show ?case
  proof (cases "n < b")
    case True
    then show ?thesis using assms hex_digit(1) [of n] by (subst digits_of.simps) (simp add: numeral_value_def)
  next
    case False
    then have "numeral_value b (digits_of b (n div b)) = n div b" using assms by (intro less) simp
    moreover have "n mod b < 16" using assms mod_less_divisor [of b n] by linarith
    ultimately show ?thesis
      using False assms hex_digit(1) [of "n mod b"] by (subst digits_of.simps) (simp add: numeral_value_def)
  qed
qed

lemma dec_value_digits: "dec_value (digits_of 10 n) = n" and digits_dec: "set (digits_of 10 n) \<subseteq> set digit_chars"
proof (induction n rule: less_induct)
  case (less n)
  {
    case 1
    then show ?case
      using dec_digit(1) [of n] dec_digit(1) [of "n mod 10"] less(1) [of "n div 10"]
      by (subst digits_of.simps) (auto simp: dec_value_def)
  next
    case 2
    then show ?case
      using dec_digit(2) [of n] dec_digit(2) [of "n mod 10"] less(2) [of "n div 10"]
      by (subst digits_of.simps) auto
  }
qed

lemma digits_nonzero: "2 \<le> b \<Longrightarrow> b \<le> 16 \<Longrightarrow> 0 \<notin> set (digits_of b n)"
proof (induction n rule: less_induct)
  case (less n)
  have "n mod b < 16" using less.prems mod_less_divisor [of b n] by linarith
  then show ?case
    using less.prems hex_digit(2) [of n] hex_digit(2) [of "n mod b"] less.IH [of "n div b"]
    by (subst digits_of.simps) (auto simp: not_less)
qed

lemma digits_length:
  assumes "2 \<le> b"
  shows "n < b ^ Suc k \<Longrightarrow> length (digits_of b n) \<le> Suc k"
proof (induction k arbitrary: n)
  case 0
  then show ?case by (subst digits_of.simps) simp
next
  case (Suc k)
  have "n div b < b ^ Suc k" using Suc.prems assms by (simp add: less_mult_imp_div_less mult.commute)
  then show ?case using Suc.IH [of "n div b"] by (subst digits_of.simps) simp
qed

lemma digits_not_empty [simp]: "digits_of b n \<noteq> []"
  by (subst digits_of.simps) simp

lemma digits_no_leading_zero: "2 \<le> b \<Longrightarrow> b \<le> 16 \<Longrightarrow> n \<noteq> 0 \<Longrightarrow> hd (digits_of b n) \<noteq> 0x30"
proof (induction n rule: less_induct)
  case (less n)
  show ?case
  proof (cases "n < b")
    case True
    then show ?thesis
      using less.prems hex_digit_cases [of n] by (subst digits_of.simps) (auto simp: hex_digits_def digit_chars_def)
  next
    case False
    then show ?thesis
      using less.prems less.IH [of "n div b"] by (subst digits_of.simps) (simp add: div_eq_0_iff)
  qed
qed

lemma digit_loop_eq:
  assumes "2 \<le> unat b" "unat b \<le> 16"
  shows "k < length bs \<Longrightarrow> length (digits_of (unat b) (unat n)) \<le> Suc k \<Longrightarrow>
    digit_loop b n (int k) bs =
      Some (int k - int (length (digits_of (unat b) (unat n))),
        take (Suc k - length (digits_of (unat b) (unat n))) bs @ digits_of (unat b) (unat n) @ drop (Suc k) bs)"
proof (induction "unat n" arbitrary: n k bs rule: less_induct)
  case less
  let ?bs = "bs[k := hex_digits ! (unat n mod unat b)]"
  have b: "b \<noteq> 0" using assms by auto
  have q: "umoddi3 n b = Some (n mod b)" "udivdi3 n b = Some (n div b)"
    by (simp_all add: udivdi3_def umoddi3_def qdivrem_eq [OF b])
  have upd: "?bs = take k bs @ [hex_digits ! (unat n mod unat b)] @ drop (Suc k) bs"
    using less.prems(1) by (simp add: upd_conv_take_nth_drop)
  show ?case
  proof (cases "unat n < unat b")
    case True
    then have "n div b = 0" by (simp add: word_unat_eq_iff unat_div)
    moreover have "digits_of (unat b) (unat n) = [hex_digits ! (unat n mod unat b)]"
      using True by (subst digits_of.simps) simp
    ultimately show ?thesis
      using less.prems upd by (subst digit_loop.simps) (simp add: q kassert_def unat_mod Let_def)
  next
    case False
    have d: "digits_of (unat b) (unat n) =
        digits_of (unat b) (unat (n div b)) @ [hex_digits ! (unat n mod unat b)]"
      using False assms by (subst digits_of.simps) (simp add: unat_div)
    then obtain j where k: "k = Suc j" and len: "length (digits_of (unat b) (unat (n div b))) \<le> Suc j"
      using less.prems(2) by (cases k) auto
    have smaller: "unat (n div b) < unat n" using False assms by (simp add: unat_div)
    have pos: "n div b > 0" using False assms by (simp add: word_less_nat_alt unat_div div_greater_zero_iff)
    have "digit_loop b (n div b) (int j) ?bs =
      Some (int j - int (length (digits_of (unat b) (unat (n div b)))),
        take (Suc j - length (digits_of (unat b) (unat (n div b)))) ?bs @
        digits_of (unat b) (unat (n div b)) @ drop (Suc j) ?bs)"
      using less.prems(1) k len by (intro less.hyps [OF smaller]) simp_all
    moreover have "nat (1 + int j) = k" using k by simp
    ultimately show ?thesis
      using less.prems k d pos upd
      by (subst digit_loop.simps) (simp add: q kassert_def unat_mod Let_def)
  qed
qed

lemma num_text_eq:
  assumes "b \<in> {8, 10, 16}"
  shows "num_text b n = Some (digits_of (unat b) (unat n))" "length (digits_of (unat b) (unat n)) \<le> 22"
proof -
  let ?ds = "digits_of (unat b) (unat n)"
  have b: "8 \<le> unat b" "unat b \<le> 16" using assms by auto
  have "unat n < 2 ^ 64" using unsigned_less [of n] by simp
  also have "(2 :: nat) ^ 64 \<le> 8 ^ Suc 21" by simp
  also have "(8 :: nat) ^ Suc 21 \<le> unat b ^ Suc 21" using b by (intro power_mono) simp_all
  finally show len: "length ?ds \<le> 22" using digits_length [of "unat b" "unat n" 21] b by simp
  have "takeWhile (\<lambda>c. c \<noteq> 0) (?ds @ [0]) = ?ds"
    using digits_nonzero [of "unat b" "unat n"] b by (subst takeWhile_append2) auto
  moreover have "(replicate 23 (0 :: byte))[22 := 0] = replicate 23 0"
    using list_update_id [of "replicate 23 (0 :: byte)" 22] by simp
  ultimately show "num_text b n = Some ?ds"
    using digit_loop_eq [of b 21 "replicate 23 0" n] b len
    by (simp add: num_text_def Let_def nat_diff_distrib)
qed

section \<open>Printing a signed integer\<close>

lemma printnum_eq:
  assumes "base pf \<in> {8, 10, 16}"
  shows "pf_printnum send pf = Some (pf_printstuff send (if sign pf then [ch_minus] else [])
    (if baseprefix pf \<and> base pf = 16 then [ch_0, ch_x] else if baseprefix pf \<and> base pf = 8 then [ch_0] else [])
    (digits_of (unat (base pf)) (unat (num pf))) pf)"
  by (simp add: pf_printnum_def num_text_eq(1) [OF assms] Let_def)

lemma printnum_plain:
  assumes "base pf = 10" "\<not> baseprefix pf" "spacing pf = 0"
  shows "pf_printnum (@) pf =
    Some (pf_print (@) ((if sign pf then [ch_minus] else []) @ digits_of 10 (unat (num pf))) pf)"
  using assms by (simp add: printnum_eq text_sink.printstuff_print field_text_def)

lemma magnitude:
  fixes w :: uint32
  shows "unat (word_of_int \<bar>sint w\<bar> :: uint64) = nat \<bar>sint w\<bar>" and "nat \<bar>sint w\<bar> < 10 ^ Suc 9"
proof -
  have "- (2 ^ 31) \<le> sint w" "sint w < 2 ^ 31" using sint_range_size [of w] by (simp_all add: word_size)
  then have b: "\<bar>sint w\<bar> \<le> 2 ^ 31" by (simp add: abs_le_iff)
  then show "nat \<bar>sint w\<bar> < 10 ^ Suc 9" by simp
  show "unat (word_of_int \<bar>sint w\<bar> :: uint64) = nat \<bar>sint w\<bar>"
    unfolding unat_eq_nat_uint uint_word_of_int using b by simp
qed

definition signed_text :: "int \<Rightarrow> byte list" where
  "signed_text k = (if k < 0 then [ch_minus] else []) @ digits_of 10 (nat \<bar>k\<bar>)"

lemma sint_scast: "sint (scast w :: uint64) = sint (w :: uint32)"
  by (rule sint_up_scast) (simp add: is_up)

lemma getnum_d:
  assumes "int_size pf = INTSZ" "ap pf = Arg32 w # args" "\<not> sign pf"
  shows "pf_getnum ch_d pf = Some (pf\<lparr>ap := args, sign := sint w < 0, num := word_of_int \<bar>sint w\<bar>\<rparr>)"
proof (cases "sint w < 0")
  case True
  then show ?thesis
    using assms by (cases pf) (simp add: pf_getnum_def sint_scast)
next
  case False
  then show ?thesis
    using assms by (cases pf) (simp add: pf_getnum_def sint_scast)
qed

lemma printed_d: "printed [ch_percent, ch_d] [Arg32 w] = Some (signed_text (sint w))"
proof -
  define pf :: "byte list PF" where "pf = (pf_start [] [Arg32 w])\<lparr>in_pct := True\<rparr>"
  define pf' where "pf' = pf_setbase ch_d (pf\<lparr>ap := [], sign := sint w < 0, num := word_of_int \<bar>sint w\<bar>\<rparr>)"
  have "pf_getnum ch_d pf = Some (pf\<lparr>ap := [], sign := sint w < 0, num := word_of_int \<bar>sint w\<bar>\<rparr>)"
    by (rule getnum_d) (simp_all add: pf_def pf_start_def pf_endfield_def)
  moreover have f: "base pf' = 10" "\<not> baseprefix pf'" "sign pf' = (sint w < 0)" "spacing pf' = 0"
    "num pf' = word_of_int \<bar>sint w\<bar>" "clientdata pf' = []"
    by (simp_all add: pf'_def pf_def pf_setbase_def pf_start_def pf_endfield_def Let_def)
  moreover have "pf_printnum (@) pf' = Some (pf_print (@) (signed_text (sint w)) pf')"
    using printnum_plain [OF f(1,2,4)] unfolding f(3,5) magnitude signed_text_def .
  ultimately have "send_number (@) ch_d pf = Some (pf_endfield (pf_print (@) (signed_text (sint w)) pf'))"
    by (simp add: send_number_def pf'_def)
  moreover have "pf_send (@) ch_percent (pf_start [] [Arg32 w]) = Some pf"
    by (simp add: pf_send_def kassert_def pf_start_def pf_endfield_def pf_def)
  moreover have "in_pct pf" by (simp add: pf_def)
  then have "pf_send (@) ch_d pf = send_number (@) ch_d pf"
    by (simp add: pf_send_def kassert_def modifier_chars_def digit_chars_def number_chars_def)
  ultimately show ?thesis
    using f by (simp add: printed_def pf_endfield_def pf_print_def)
qed

lemma signed_text_length: "length (signed_text (sint (w :: uint32))) \<le> 11"
  using digits_length [of 10 "nat \<bar>sint w\<bar>" 9] magnitude(2) [of w] unfolding signed_text_def by (auto simp del: power_Suc)

lemma atoi_signed_text:
  assumes "cstr m t digit_chars" "cstr m s (signed_text (sint w))"
  shows "atoi m t s = Some w"
proof -
  let ?sg = "if sint w < 0 then [ch_minus] else []" let ?ds = "digits_of 10 (nat \<bar>sint w\<bar>)"
  have "atoi m t s = Some (if ?sg = [ch_minus] then - of_nat (dec_value ?ds) else of_nat (dec_value ?ds))"
    using assms digits_dec
    by (intro atoi_cstr [where bl = "[]" and rest = "[]"]) (auto simp: signed_text_def)
  also have "\<dots> = Some w" by (auto simp: dec_value_digits)
  finally show ?thesis .
qed

section \<open>Properties\<close>

text \<open>
  Claim C21: a number is printed as its numeral. For the bases the formats use, the conversion of any
  64-bit number ends inside its 23-byte buffer, and what is printed between the prefixes and the padding is
  the shortest digit string in that base whose value is the number.
\<close>

theorem printnum_numeral:
  assumes "base pf \<in> {8, 10, 16}"
  shows "\<exists>ds. pf_printnum send pf = Some (pf_printstuff send (if sign pf then [ch_minus] else [])
      (if baseprefix pf \<and> base pf = 16 then [ch_0, ch_x] else if baseprefix pf \<and> base pf = 8 then [ch_0] else [])
      ds pf) \<and>
    numeral_value (unat (base pf)) ds = unat (num pf) \<and> ds \<noteq> [] \<and> length ds < NUMBER_BUF_SIZE \<and>
    (num pf \<noteq> 0 \<longrightarrow> hd ds \<noteq> ch_0)"
proof -
  let ?ds = "digits_of (unat (base pf)) (unat (num pf))"
  have b: "2 \<le> unat (base pf)" "unat (base pf) \<le> 16" using assms by auto
  have "hd ?ds \<noteq> ch_0" if "num pf \<noteq> 0"
    using digits_no_leading_zero [OF b, of "unat (num pf)"] that by (simp add: unat_eq_zero)
  then show ?thesis
    using printnum_eq [OF assms, of send] numeral_value_digits [OF b] num_text_eq(2) [OF assms, of "num pf"]
    by (intro exI [of _ ?ds]) simp
qed

theorem printnum_numeral_witness:
  "\<exists>ds. numeral_value 8 ds = 2 ^ 64 - 1 \<and> length ds < 23 \<and> base (pf_setbase ch_o (pf_start [] [])) \<in> {8, 10, 16} \<and>
    pf_printnum (@) (pf_setbase ch_o ((pf_start [] [])\<lparr>num := - 1\<rparr>)) =
      Some (pf_printstuff (@) [] [] ds (pf_setbase ch_o ((pf_start [] [])\<lparr>num := - 1\<rparr>)))"
  using printnum_numeral [of "pf_setbase ch_o ((pf_start [] [])\<lparr>num := - 1\<rparr>)" "(@)"]
  by (auto simp: pf_setbase_def pf_start_def pf_endfield_def Let_def unsigned_minus_1_eq_mask mask_eq_exp_minus_1)

text \<open>
  Claim C20: \<^verbatim>\<open>snprintf\<close> and \<^verbatim>\<open>kprintf\<close> print the same text, and the buffer is safe. When formatting
  returns, \<^verbatim>\<open>kprintf\<close> has put the text on the console; \<^verbatim>\<open>vsnprintf\<close> has stored as much of it as fits and
  a terminator, written no byte outside the \<^verbatim>\<open>len\<close> bytes of its buffer, and none at all when \<^verbatim>\<open>len\<close> is
  0; both return the length of the whole text.
\<close>

theorem snprintf_bounded:
  assumes "vsnprintf b len fmt args m = Some (n, m')"
  shows "\<exists>t. kprintf fmt args console = Some (n, console @ t) \<and> n = of_nat (length t) \<and>
    (len > 0 \<longrightarrow> mem_get m' b (min (length t) (len - 1) + 1) = take (len - 1) t @ [0]) \<and>
    (\<forall>x. x < b \<or> b + len \<le> x \<longrightarrow> m' x = m x)"
proof -
  obtain t where t: "printed fmt args = Some t" and n: "n = of_nat (length t)"
    and m': "m' = (if len > 0 then mem_put m b (take (len - 1) t @ [0]) else m)"
    using assms by (auto simp: vsnprintf_printed)
  have "mem_get m' b (min (length t) (len - 1) + 1) = take (len - 1) t @ [0]" if "len > 0"
    using mem_get_put_same [of m b "take (len - 1) t @ [0]"] that m' by simp
  moreover have "m' x = m x" if "x < b \<or> b + len \<le> x" for x
    using that m' by (auto simp: mem_put_def)
  ultimately show ?thesis using t n by (auto simp: kprintf_printed)
qed

theorem snprintf_bounded_witness:
  "\<exists>m'. vsnprintf 8 3 [ch_percent, ch_d] [Arg32 12345] (\<lambda>_. 7) = Some (5, m') \<and> m' 10 = 0 \<and> m' 11 = 7"
proof -
  have "vsnprintf 8 3 [ch_percent, ch_d] [Arg32 12345] (\<lambda>_. 7) =
      Some (5, mem_put (\<lambda>_. 7) 8 [0x31, 0x32, 0])"
    by (simp add: vsnprintf_printed printed_d signed_text_def digits_of.simps hex_digits_def digit_chars_def)
  from snprintf_bounded [OF this, of "[]"] this show ?thesis
    by (auto simp: mem_put_def)
qed

text \<open>
  Claim C22: \<^verbatim>\<open>atoi\<close> reads back what \<^verbatim>\<open>%d\<close> prints, for every \<^verbatim>\<open>int\<close>, the least one included, when the
  buffer has room for the twelve bytes that takes and does not overlap the table of digits.
\<close>

theorem atoi_snprintf:
  assumes "cstr m t digit_chars" "t + 10 < b \<or> b + 12 \<le> t"
  shows "\<exists>n m'. vsnprintf b 12 [ch_percent, ch_d] [Arg32 w] m = Some (n, m') \<and> atoi m' t b = Some w"
proof -
  let ?t = "signed_text (sint w)" let ?m = "mem_put m b (?t @ [0])"
  have len: "length ?t \<le> 11" by (rule signed_text_length)
  then have "vsnprintf b 12 [ch_percent, ch_d] [Arg32 w] m = Some (of_nat (length ?t), ?m)"
    by (simp add: vsnprintf_printed printed_d)
  moreover have "cstr ?m t digit_chars"
  proof -
    have "\<forall>i\<le>length digit_chars. ?m (t + i) = m (t + i)"
      using assms(2) len by (auto simp: digit_chars_def intro!: mem_put_out)
    then show ?thesis using assms(1) cstr_cong by blast
  qed
  moreover have "0 \<notin> set ?t"
    using digits_nonzero [of 10 "nat \<bar>sint w\<bar>"] by (simp add: signed_text_def)
  then have "cstr ?m b ?t" by (rule cstr_put)
  ultimately show ?thesis using atoi_signed_text by blast
qed

theorem atoi_snprintf_witness:
  "\<exists>n m'. vsnprintf 32 12 [ch_percent, ch_d] [Arg32 0x80000000] (mem_put (\<lambda>_. 0) 4 digit_chars) = Some (n, m') \<and>
    atoi m' 4 32 = Some 0x80000000"
  by (rule atoi_snprintf) (simp_all add: digit_chars_def mem_put_def)

end
