(* ===== verification/Console.thy ===== *)
theory Console
  imports Printf "HOL-Library.Sublist"
begin

unbundle bit_operations_syntax

text \<open>
  The console: \<^verbatim>\<open>kern/dev/generic/console.c\<close> on top of the serial line driver \<^verbatim>\<open>kern/dev/lamebus/lser.c\<close>
  (joined by \<^verbatim>\<open>con_lser.c\<close>), \<^verbatim>\<open>beep.c\<close>, and the line editor \<^verbatim>\<open>kern/lib/kgets.c\<close>.

  The serial device is its registers, whether it is transmitting, and what it has transmitted. It sets the
  \<^verbatim>\<open>ACTIVE\<close> bit of \<^verbatim>\<open>WIRQ\<close> when a transmission is done and the one of \<^verbatim>\<open>RIRQ\<close> when a character has come;
  a write to an interrupt register sets it. A character written during a transmission would be lost
  (\<open>lser_overrun\<close>).

  \<open>con_step\<close> has the threads, the interrupt handler and the device interleaved, each taking a step between
  two points where another may run. \<open>putch\<close> and \<open>getch\<close> are the same code as one thread sees it: a thread
  that waits for a semaphore lets the device and the handler run, and \<open>typed\<close> is what will be typed.

  The locale \<open>char_device\<close> is what the callers of \<^verbatim>\<open>putch\<close> and \<^verbatim>\<open>getch\<close> rely on; the line editor is proved
  once for it.
\<close>

section \<open>The serial line\<close>

abbreviation (input) LSER_IRQ_ENABLE :: uint32 where "LSER_IRQ_ENABLE \<equiv> 1"
abbreviation (input) LSER_IRQ_ACTIVE :: uint32 where "LSER_IRQ_ACTIVE \<equiv> 2"
abbreviation (input) LSER_IRQ_FORCE :: uint32 where "LSER_IRQ_FORCE \<equiv> 4"

record lser_softc =
  ls_wbusy :: bool
  lser_wirq :: uint32
  lser_rirq :: uint32
  lser_char :: byte
  lser_tx :: bool
  lser_overrun :: bool
  lser_out :: "byte list"

text \<open>The device: a character is written to it, it is done with one, it receives one.\<close>

definition hw_putc :: "byte \<Rightarrow> lser_softc \<Rightarrow> lser_softc" where
  "hw_putc ch d = d\<lparr>lser_overrun := lser_overrun d \<or> lser_tx d, lser_tx := True, lser_out := lser_out d @ [ch]\<rparr>"

definition hw_txdone :: "lser_softc \<Rightarrow> lser_softc" where
  "hw_txdone d = (if lser_tx d then d\<lparr>lser_tx := False, lser_wirq := lser_wirq d OR LSER_IRQ_ACTIVE\<rparr> else d)"

definition hw_receive :: "byte \<Rightarrow> lser_softc \<Rightarrow> lser_softc" where
  "hw_receive ch d = d\<lparr>lser_char := ch, lser_rirq := lser_rirq d OR LSER_IRQ_ACTIVE\<rparr>"

definition lser_irq :: "lser_softc \<Rightarrow> bool \<times> byte option \<times> lser_softc" where
  "lser_irq d =
     (let (clear_to_write, d) =
            (if lser_wirq d AND LSER_IRQ_ACTIVE \<noteq> 0
             then (True, d\<lparr>ls_wbusy := False, lser_wirq := LSER_IRQ_ENABLE\<rparr>) else (False, d));
          (ch, d) =
            (if lser_rirq d AND LSER_IRQ_ACTIVE \<noteq> 0
             then (Some (lser_char d), d\<lparr>lser_rirq := LSER_IRQ_ENABLE\<rparr>) else (None, d))
      in (clear_to_write, ch, d))"

definition lser_write :: "byte \<Rightarrow> lser_softc \<Rightarrow> lser_softc option" where
  "lser_write ch d = (if ls_wbusy d then None else Some (hw_putc ch (d\<lparr>ls_wbusy := True\<rparr>)))"

text \<open>The polling loop ends once the transmission in progress is done, and never if there is none.\<close>

definition lser_poll_until_write :: "lser_softc \<Rightarrow> lser_softc option" where
  "lser_poll_until_write d =
     (if lser_wirq d AND LSER_IRQ_ACTIVE \<noteq> 0 then Some d
      else if lser_tx d then Some (hw_txdone d) else None)"

definition lser_writepolled :: "byte \<Rightarrow> lser_softc \<Rightarrow> lser_softc option" where
  "lser_writepolled ch d = do {
     (irqpending, d) \<leftarrow>
       (if ls_wbusy d then do {
          d \<leftarrow> lser_poll_until_write d;
          Some (True, d\<lparr>lser_wirq := LSER_IRQ_FORCE OR LSER_IRQ_ENABLE\<rparr>) }
        else Some (False, d\<lparr>lser_wirq := 0\<rparr>));
     d \<leftarrow> lser_poll_until_write (hw_putc ch d);
     Some (if irqpending then d else d\<lparr>lser_wirq := LSER_IRQ_ENABLE\<rparr>) }"

definition config_lser :: "lser_softc \<Rightarrow> lser_softc" where
  "config_lser d = d\<lparr>ls_wbusy := False, lser_rirq := LSER_IRQ_ENABLE, lser_wirq := LSER_IRQ_ENABLE\<rparr>"

section \<open>The console driver\<close>

abbreviation (input) CONSOLE_INPUT_BUFFER_SIZE :: nat where "CONSOLE_INPUT_BUFFER_SIZE \<equiv> 32"
abbreviation (input) DELAYBUFSIZE :: nat where "DELAYBUFSIZE \<equiv> 1024"

text \<open>The semaphores are their counts; the indices stay below 32.\<close>

record con_softc =
  cs_rsem :: nat
  cs_wsem :: nat
  cs_gotchars :: "byte list"
  cs_gotchars_head :: nat
  cs_gotchars_tail :: nat

definition con_input :: "byte \<Rightarrow> con_softc \<Rightarrow> con_softc" where
  "con_input ch cs =
     (let nexthead = (cs_gotchars_head cs + 1) mod CONSOLE_INPUT_BUFFER_SIZE in
      if nexthead = cs_gotchars_tail cs then cs
      else cs\<lparr>cs_gotchars := (cs_gotchars cs)[cs_gotchars_head cs := ch], cs_gotchars_head := nexthead,
              cs_rsem := cs_rsem cs + 1\<rparr>)"

definition con_start :: "con_softc \<Rightarrow> con_softc" where
  "con_start cs = cs\<lparr>cs_wsem := cs_wsem cs + 1\<rparr>"

text \<open>The rest of \<^verbatim>\<open>getch_intr\<close>, after its \<^verbatim>\<open>P\<close>.\<close>

definition con_take :: "con_softc \<Rightarrow> byte \<times> con_softc" where
  "con_take cs = (cs_gotchars cs ! cs_gotchars_tail cs,
     cs\<lparr>cs_gotchars_tail := (cs_gotchars_tail cs + 1) mod CONSOLE_INPUT_BUFFER_SIZE\<rparr>)"

record con_sys =
  the_console :: "con_softc option"
  the_lser :: lser_softc
  delayed_outbuf :: "byte list"
  typed :: "byte list"

text \<open>
  The whole interrupt handler, and the two waits: for \<^verbatim>\<open>cs_wsem\<close> until the device is done, for
  \<^verbatim>\<open>cs_rsem\<close> until a character is typed.
\<close>

definition con_irq :: "con_sys \<Rightarrow> con_sys" where
  "con_irq c =
     (let (clear_to_write, ch, d) = lser_irq (the_lser c);
          con = the_console c;
          con = (if clear_to_write then map_option con_start con else con);
          con = (case ch of Some b \<Rightarrow> map_option (con_input b) con | None \<Rightarrow> con)
      in c\<lparr>the_lser := d, the_console := con\<rparr>)"

definition P_wsem :: "con_sys \<Rightarrow> con_sys option" where
  "P_wsem c = do {
     cs \<leftarrow> the_console c;
     let c = (if cs_wsem cs = 0 then con_irq (c\<lparr>the_lser := hw_txdone (the_lser c)\<rparr>) else c);
     cs \<leftarrow> the_console c;
     if cs_wsem cs = 0 then None else Some (c\<lparr>the_console := Some (cs\<lparr>cs_wsem := cs_wsem cs - 1\<rparr>)\<rparr>) }"

definition P_rsem :: "con_sys \<Rightarrow> con_sys option" where
  "P_rsem c = do {
     cs \<leftarrow> the_console c;
     c \<leftarrow> (if cs_rsem cs = 0
          then (case typed c of [] \<Rightarrow> None
                | b # bs \<Rightarrow> Some (con_irq (c\<lparr>typed := bs, the_lser := hw_receive b (the_lser c)\<rparr>)))
          else Some c);
     cs \<leftarrow> the_console c;
     if cs_rsem cs = 0 then None else Some (c\<lparr>the_console := Some (cs\<lparr>cs_rsem := cs_rsem cs - 1\<rparr>)\<rparr>) }"

definition putch_delayed :: "byte \<Rightarrow> con_sys \<Rightarrow> con_sys option" where
  "putch_delayed ch c = do {
     kassert (length (delayed_outbuf c) < DELAYBUFSIZE);
     Some (c\<lparr>delayed_outbuf := delayed_outbuf c @ [ch]\<rparr>) }"

definition putch_polled :: "byte \<Rightarrow> con_sys \<Rightarrow> con_sys option" where
  "putch_polled ch c = do { d \<leftarrow> lser_writepolled ch (the_lser c); Some (c\<lparr>the_lser := d\<rparr>) }"

definition putch_intr :: "byte \<Rightarrow> con_sys \<Rightarrow> con_sys option" where
  "putch_intr ch c = do {
     c \<leftarrow> P_wsem c;
     d \<leftarrow> lser_write ch (the_lser c);
     Some (c\<lparr>the_lser := d\<rparr>) }"

definition getch_intr :: "con_sys \<Rightarrow> (byte \<times> con_sys) option" where
  "getch_intr c = do {
     c \<leftarrow> P_rsem c;
     cs \<leftarrow> the_console c;
     let (ret, cs) = con_take cs;
     Some (ret, c\<lparr>the_console := Some cs\<rparr>) }"

text \<open>
  \<open>polled\<close>: the thread is in an interrupt handler, at a raised priority level or holds a spinlock.
\<close>

definition putch :: "bool \<Rightarrow> byte \<Rightarrow> con_sys \<Rightarrow> con_sys option" where
  "putch polled ch c =
     (if the_console c = None then putch_delayed ch c
      else if polled then putch_polled ch c else putch_intr ch c)"

definition getch :: "con_sys \<Rightarrow> (byte \<times> con_sys) option" where
  "getch c = do { kassert (the_console c \<noteq> None); getch_intr c }"

primrec putchs :: "(byte \<Rightarrow> 'c \<Rightarrow> 'c option) \<Rightarrow> byte list \<Rightarrow> 'c \<Rightarrow> 'c option" where
  "putchs put [] c = Some c"
| "putchs put (b # bs) c = do { c \<leftarrow> put b c; putchs put bs c }"

definition flush_delay_buf :: "bool \<Rightarrow> con_sys \<Rightarrow> con_sys option" where
  "flush_delay_buf polled c = do {
     c \<leftarrow> putchs (putch polled) (delayed_outbuf c) c;
     Some (c\<lparr>delayed_outbuf := []\<rparr>) }"

text \<open>
  The device \<open>unit\<close> becomes the console; \<open>mem_ok\<close> says which of the four allocations succeed and \<open>attach\<close> is
  what \<^verbatim>\<open>attach_console_to_vfs\<close> returns.
\<close>

definition config_con :: "bool \<Rightarrow> (nat \<Rightarrow> bool) \<Rightarrow> (errno + unit) \<Rightarrow> con_softc \<Rightarrow> int \<Rightarrow> con_sys \<Rightarrow> ((errno + unit) \<times> con_sys) option" where
  "config_con polled mem_ok attach cs unit c =
     (if unit > 0 then do { kassert (the_console c \<noteq> None); Some (Inl ENODEV, c) }
      else do {
        kassert (the_console c = None);
        if \<not> (mem_ok 0 \<and> mem_ok 1 \<and> mem_ok 2 \<and> mem_ok 3) then Some (Inl ENOMEM, c)
        else do {
          let cs = cs\<lparr>cs_rsem := 0, cs_wsem := 1, cs_gotchars_head := 0, cs_gotchars_tail := 0\<rparr>;
          c \<leftarrow> flush_delay_buf polled (c\<lparr>the_console := Some cs\<rparr>);
          Some (attach, c) } })"

section \<open>The line editor\<close>

text \<open>String constants of the source as bytes.\<close>

definition ascii :: "string \<Rightarrow> byte list" where
  "ascii = map of_char"

text \<open>\<^verbatim>\<open>kprintf\<close> on the console \<open>put\<close>: the text formatted by \<open>Printf\<close>, character by character.\<close>

definition kprintf_to :: "(byte \<Rightarrow> 'c \<Rightarrow> 'c option) \<Rightarrow> byte list \<Rightarrow> va_arg list \<Rightarrow> 'c \<Rightarrow> 'c option" where
  "kprintf_to put fmt args c = do { (n, out) \<leftarrow> kprintf fmt args []; putchs put out c }"

definition beep :: "bool \<Rightarrow> (byte \<Rightarrow> 'c \<Rightarrow> 'c option) \<Rightarrow> 'c \<Rightarrow> 'c option" where
  "beep the_beep put c =
     (if the_beep then Some c else kprintf_to put (ascii ''beep: Warning: no beep device'' @ [10]) [] c)"

definition backsp :: "(byte \<Rightarrow> 'c \<Rightarrow> 'c option) \<Rightarrow> 'c \<Rightarrow> 'c option" where
  "backsp put c = putchs put [8, ch_space, 8] c"

text \<open>\<^verbatim>\<open>while (pos > 0 && test(buf[pos-1])) { backsp(); pos--; }\<close>\<close>

primrec erase_loop :: "(byte \<Rightarrow> 'c \<Rightarrow> 'c option) \<Rightarrow> (nat \<Rightarrow> bool) \<Rightarrow> nat \<Rightarrow> 'c \<Rightarrow> (nat \<times> 'c) option" where
  "erase_loop put test 0 c = Some (0, c)"
| "erase_loop put test (Suc p) c =
     (if test p then do { c \<leftarrow> backsp put c; erase_loop put test p c } else Some (Suc p, c))"

text \<open>What is done with one character, and whether the loop goes on.\<close>

definition kgets_char :: "bool \<Rightarrow> (byte \<Rightarrow> 'c \<Rightarrow> 'c option) \<Rightarrow> nat \<Rightarrow> uint32 \<Rightarrow> byte \<Rightarrow> nat \<Rightarrow> memory \<Rightarrow> 'c \<Rightarrow>
    (bool \<times> nat \<times> memory \<times> 'c) option" where
  "kgets_char bp put b maxlen ch pos m c =
     (if ch = 10 \<or> ch = 13 then do { c \<leftarrow> put 10 c; Some (False, pos, m, c) }
      else if 32 \<le> ch \<and> ch < 127 \<and> pos < unat (maxlen - 1) then do {
        c \<leftarrow> put ch c;
        Some (True, pos + 1, m(b + pos := ch), c) }
      else if (ch = 8 \<or> ch = 127) \<and> pos > 0 then do {
        c \<leftarrow> backsp put c;
        Some (True, pos - 1, m, c) }
      else if ch = 3 then do { c \<leftarrow> putchs put (ascii ''^C'' @ [10]) c; Some (False, 0, m, c) }
      else if ch = 18 then do {
        let m = m(b + pos := 0);
        n \<leftarrow> strlen m b;
        c \<leftarrow> kprintf_to put (ascii ''^R'' @ [10] @ ascii ''%s'') [ArgStr (Some (mem_get m b n))] c;
        Some (True, pos, m, c) }
      else if ch = 21 then do {
        (pos, c) \<leftarrow> erase_loop put (\<lambda>_. True) pos c;
        Some (True, pos, m, c) }
      else if ch = 23 then do {
        (pos, c) \<leftarrow> erase_loop put (\<lambda>p. m (b + p) = ch_space) pos c;
        (pos, c) \<leftarrow> erase_loop put (\<lambda>p. m (b + p) \<noteq> ch_space) pos c;
        Some (True, pos, m, c) }
      else do {
        c \<leftarrow> beep bp put c;
        Some (True, pos, m, c) })"

partial_function (option) kgets_loop :: "bool \<Rightarrow> (byte \<Rightarrow> 'c \<Rightarrow> 'c option) \<Rightarrow> ('c \<Rightarrow> (byte \<times> 'c) option) \<Rightarrow>
    nat \<Rightarrow> uint32 \<Rightarrow> nat \<Rightarrow> memory \<Rightarrow> 'c \<Rightarrow> (nat \<times> memory \<times> 'c) option" where
  "kgets_loop bp put get b maxlen pos m c = do {
     (ch, c) \<leftarrow> get c;
     (again, pos, m, c) \<leftarrow> kgets_char bp put b maxlen ch pos m c;
     if again then kgets_loop bp put get b maxlen pos m c else Some (pos, m, c) }"

definition kgets :: "bool \<Rightarrow> (byte \<Rightarrow> 'c \<Rightarrow> 'c option) \<Rightarrow> ('c \<Rightarrow> (byte \<times> 'c) option) \<Rightarrow> nat \<Rightarrow> uint32 \<Rightarrow> memory \<Rightarrow> 'c \<Rightarrow>
    (memory \<times> 'c) option" where
  "kgets bp put get b maxlen m c = do {
     (pos, m, c) \<leftarrow> kgets_loop bp put get b maxlen 0 m c;
     Some (m(b + pos := 0), c) }"

section \<open>Threads, interrupts and the device interleaved\<close>

text \<open>
  \<open>sending\<close>: characters of threads between the two statements of \<^verbatim>\<open>putch_intr\<close>; \<open>starting\<close> and \<open>incoming\<close>:
  calls of \<^verbatim>\<open>con_start\<close> and \<^verbatim>\<open>con_input\<close> that a handler has still to make; \<open>reading\<close>: the thread that reads is
  past its \<^verbatim>\<open>P\<close>. There is one reader at a time.
\<close>

record con_world = con_sys +
  sending :: "byte list"
  starting :: nat
  incoming :: "byte list"
  reading :: bool

datatype con_event = PutP byte | PutSend byte | PutPolled byte | TxDone | Rx byte | Irq | Start | Input byte
  | GetP | GetTake byte

inductive con_step :: "con_world \<Rightarrow> con_event \<Rightarrow> con_world \<Rightarrow> bool" where
  put_p: "the_console w = Some cs \<Longrightarrow> 0 < cs_wsem cs \<Longrightarrow>
    con_step w (PutP ch) (w\<lparr>the_console := Some (cs\<lparr>cs_wsem := cs_wsem cs - 1\<rparr>), sending := ch # sending w\<rparr>)"
| put_send: "ch \<in> set (sending w) \<Longrightarrow> lser_write ch (the_lser w) = Some d \<Longrightarrow>
    con_step w (PutSend ch) (w\<lparr>the_lser := d, sending := remove1 ch (sending w)\<rparr>)"
| put_polled: "lser_writepolled ch (the_lser w) = Some d \<Longrightarrow> con_step w (PutPolled ch) (w\<lparr>the_lser := d\<rparr>)"
| tx_done: "lser_tx (the_lser w) \<Longrightarrow> con_step w TxDone (w\<lparr>the_lser := hw_txdone (the_lser w)\<rparr>)"
| rx: "con_step w (Rx ch) (w\<lparr>the_lser := hw_receive ch (the_lser w)\<rparr>)"
| irq: "lser_irq (the_lser w) = (clear_to_write, got, d) \<Longrightarrow>
    con_step w Irq (w\<lparr>the_lser := d, starting := starting w + of_bool clear_to_write,
      incoming := incoming w @ (case got of None \<Rightarrow> [] | Some ch \<Rightarrow> [ch])\<rparr>)"
| start: "0 < starting w \<Longrightarrow> the_console w = Some cs \<Longrightarrow>
    con_step w Start (w\<lparr>the_console := Some (con_start cs), starting := starting w - 1\<rparr>)"
| input: "incoming w = ch # rest \<Longrightarrow> the_console w = Some cs \<Longrightarrow>
    con_step w (Input ch) (w\<lparr>the_console := Some (con_input ch cs), incoming := rest\<rparr>)"
| get_p: "the_console w = Some cs \<Longrightarrow> 0 < cs_rsem cs \<Longrightarrow> \<not> reading w \<Longrightarrow>
    con_step w GetP (w\<lparr>the_console := Some (cs\<lparr>cs_rsem := cs_rsem cs - 1\<rparr>), reading := True\<rparr>)"
| get_take: "reading w \<Longrightarrow> the_console w = Some cs \<Longrightarrow> con_take cs = (ch, cs') \<Longrightarrow>
    con_step w (GetTake ch) (w\<lparr>the_console := Some cs', reading := False\<rparr>)"

section \<open>The ring of characters\<close>

locale char_queue =
  fixes ok :: "'q \<Rightarrow> bool" and contents :: "'q \<Rightarrow> byte list" and bound :: nat
    and put :: "byte \<Rightarrow> 'q \<Rightarrow> 'q" and get :: "'q \<Rightarrow> byte \<times> 'q"
  assumes put_ok: "ok q \<Longrightarrow> ok (put b q)"
    and put_contents: "ok q \<Longrightarrow> contents (put b q) = (if length (contents q) < bound then contents q @ [b] else contents q)"
    and get_ok: "ok q \<Longrightarrow> contents q \<noteq> [] \<Longrightarrow> ok (snd (get q))"
    and get_contents: "ok q \<Longrightarrow> contents q \<noteq> [] \<Longrightarrow> contents q = fst (get q) # contents (snd (get q))"
begin

lemma put_empty: "ok q \<Longrightarrow> contents q = [] \<Longrightarrow> 0 < bound \<Longrightarrow> get (put b q) = (b, q') \<Longrightarrow> contents q' = []"
  using get_contents [of "put b q"] put_ok [of q b] put_contents [of q b] by simp

lemma put_length: "ok q \<Longrightarrow> length (contents q) \<le> bound \<Longrightarrow> length (contents (put b q)) \<le> bound"
  by (simp add: put_contents)

end

definition ring_ok :: "con_softc \<Rightarrow> bool" where
  "ring_ok cs \<longleftrightarrow> length (cs_gotchars cs) = CONSOLE_INPUT_BUFFER_SIZE \<and>
     cs_gotchars_head cs < CONSOLE_INPUT_BUFFER_SIZE \<and> cs_gotchars_tail cs < CONSOLE_INPUT_BUFFER_SIZE"

definition ring_length :: "nat \<Rightarrow> nat \<Rightarrow> nat" where
  "ring_length h t = (if t \<le> h then h - t else h + CONSOLE_INPUT_BUFFER_SIZE - t)"

definition ring :: "con_softc \<Rightarrow> byte list" where
  "ring cs = map (\<lambda>i. cs_gotchars cs ! ((cs_gotchars_tail cs + i) mod CONSOLE_INPUT_BUFFER_SIZE))
     [0..<ring_length (cs_gotchars_head cs) (cs_gotchars_tail cs)]"

lemma mod32_Suc: "x < 32 \<Longrightarrow> Suc x mod 32 = (if x = 31 then 0 else Suc x)" for x :: nat
  by simp

lemma ring_index:
  assumes "h < 32" "t < 32"
  shows "(t + ring_length h t) mod 32 = h"
    and "(h + 1) mod 32 = t \<longleftrightarrow> ring_length h t = 31"
    and "(h + 1) mod 32 \<noteq> t \<Longrightarrow> ring_length ((h + 1) mod 32) t = Suc (ring_length h t)"
    and "ring_length h t \<noteq> 0 \<Longrightarrow> ring_length h ((t + 1) mod 32) = ring_length h t - 1"
    and "ring_length h t < 32"
proof -
  show "(t + ring_length h t) mod 32 = h" using assms by (simp add: ring_length_def)
qed (use assms in \<open>auto simp: ring_length_def mod32_Suc simp del: mod_Suc split: if_splits\<close>)

lemma ring_nth: "i < ring_length (cs_gotchars_head cs) (cs_gotchars_tail cs) \<Longrightarrow>
    ring cs ! i = cs_gotchars cs ! ((cs_gotchars_tail cs + i) mod CONSOLE_INPUT_BUFFER_SIZE)"
  by (simp add: ring_def)

lemma ring_len [simp]: "length (ring cs) = ring_length (cs_gotchars_head cs) (cs_gotchars_tail cs)"
  by (simp add: ring_def)

lemma mod32_inj:
  fixes i j t :: nat
  assumes "(t + i) mod 32 = (t + j) mod 32" "i < 32" "j < 32"
  shows "i = j"
proof -
  have "\<not> a < b" if "(t + a) mod 32 = (t + b) mod 32" "b < 32" for a b :: nat
  proof
    assume "a < b"
    then have "32 dvd (t + b) - (t + a)" using that(1) by (intro mod_eq_dvd_iff_nat [THEN iffD1]) simp_all
    then show False using \<open>a < b\<close> that(2) by (auto dest: dvd_imp_le)
  qed
  from this [of i j] this [of j i] assms show ?thesis by simp
qed

lemma con_input_ring:
  assumes "ring_ok cs"
  shows "ring_ok (con_input ch cs)" and "cs_wsem (con_input ch cs) = cs_wsem cs"
    and "ring (con_input ch cs) = (if length (ring cs) < 31 then ring cs @ [ch] else ring cs)"
    and "cs_rsem (con_input ch cs) + length (ring cs) = cs_rsem cs + length (ring (con_input ch cs))"
proof -
  let ?h = "cs_gotchars_head cs" let ?t = "cs_gotchars_tail cs" let ?n = "ring_length ?h ?t"
  have b: "?h < 32" "?t < 32" "length (cs_gotchars cs) = 32" using assms by (auto simp: ring_ok_def)
  note ix = ring_index [OF b(1,2)]
  show "ring_ok (con_input ch cs)" "cs_wsem (con_input ch cs) = cs_wsem cs"
    using b by (auto simp: con_input_def ring_ok_def Let_def)
  have r: "ring (con_input ch cs) = ring cs @ [ch]" if "(?h + 1) mod 32 \<noteq> ?t"
  proof (rule nth_equalityI)
    show "length (ring (con_input ch cs)) = length (ring cs @ [ch])"
      using that ix(3) by (simp add: con_input_def Let_def)
    fix i assume "i < length (ring (con_input ch cs))"
    then have i: "i < Suc ?n" using that ix(3) by (simp add: con_input_def Let_def)
    then have "ring (con_input ch cs) ! i = (cs_gotchars cs)[?h := ch] ! ((?t + i) mod 32)"
      using that ix(3) by (simp add: con_input_def Let_def ring_nth)
    also have "\<dots> = (ring cs @ [ch]) ! i"
    proof (cases "i = ?n")
      case True
      then show ?thesis using ix(1) b by (simp add: nth_append)
    next
      case False
      then have "(?t + i) mod 32 \<noteq> ?h" using mod32_inj [of ?t i ?n] ix(1,5) i by auto
      with False i show ?thesis by (simp add: nth_append ring_nth)
    qed
    finally show "ring (con_input ch cs) ! i = (ring cs @ [ch]) ! i" .
  qed
  show "ring (con_input ch cs) = (if length (ring cs) < 31 then ring cs @ [ch] else ring cs)"
  proof (cases "(?h + 1) mod 32 = ?t")
    case True
    then show ?thesis using ix(2) by (simp add: con_input_def Let_def)
  next
    case False
    then show ?thesis using r ix(2,5) by simp
  qed
  show "cs_rsem (con_input ch cs) + length (ring cs) = cs_rsem cs + length (ring (con_input ch cs))"
    using ix(3) by (auto simp: con_input_def Let_def)
qed

lemma con_take_ring:
  assumes "ring_ok cs" and "ring cs \<noteq> []" and "con_take cs = (ch, cs')"
  shows "ring_ok cs'" and "ring cs = ch # ring cs'" and "cs_wsem cs' = cs_wsem cs" and "cs_rsem cs' = cs_rsem cs"
proof -
  let ?h = "cs_gotchars_head cs" let ?t = "cs_gotchars_tail cs" let ?n = "ring_length ?h ?t"
  have b: "?h < 32" "?t < 32" "length (cs_gotchars cs) = 32" using assms(1) by (auto simp: ring_ok_def)
  note ix = ring_index [OF b(1,2)]
  have c: "ch = cs_gotchars cs ! ?t" "cs' = cs\<lparr>cs_gotchars_tail := (?t + 1) mod 32\<rparr>"
    using assms(3) by (auto simp: con_take_def)
  then show "ring_ok cs'" "cs_wsem cs' = cs_wsem cs" "cs_rsem cs' = cs_rsem cs" using b by (auto simp: ring_ok_def)
  have n: "?n \<noteq> 0" using assms(2) by (simp flip: length_0_conv)
  show "ring cs = ch # ring cs'"
  proof (rule nth_equalityI)
    show "length (ring cs) = length (ch # ring cs')" using n ix(4) by (simp add: c(2))
    fix i assume i: "i < length (ring cs)"
    show "ring cs ! i = (ch # ring cs') ! i"
    proof (cases i)
      case 0
      then show ?thesis using i b by (simp add: ring_nth c(1))
    next
      case (Suc j)
      then have "j < ?n - 1" using i by simp
      then have "ring cs' ! j = cs_gotchars cs ! (((?t + 1) mod 32 + j) mod 32)"
        using ix(4) n by (simp add: ring_nth c(2))
      also have "((?t + 1) mod 32 + j) mod 32 = (?t + i) mod 32" using Suc by (simp add: mod_simps)
      finally show ?thesis using i Suc by (simp add: ring_nth)
    qed
  qed
qed

interpretation con_ring: char_queue ring_ok ring 31 con_input con_take
proof
  fix q b
  assume ok: "ring_ok q"
  show "ring_ok (con_input b q)" "ring (con_input b q) = (if length (ring q) < 31 then ring q @ [b] else ring q)"
    by (rule con_input_ring [OF ok])+
  assume "ring q \<noteq> []"
  from con_take_ring [OF ok this prod.collapse [symmetric]]
  show "ring_ok (snd (con_take q))" "ring q = fst (con_take q) # ring (snd (con_take q))" by simp_all
qed

declare ring_len [simp del]

section \<open>The output side\<close>

definition active :: "uint32 \<Rightarrow> bool" where
  "active w \<longleftrightarrow> w AND LSER_IRQ_ACTIVE \<noteq> 0"

definition lser_ok :: "lser_softc \<Rightarrow> bool" where
  "lser_ok d \<longleftrightarrow> (ls_wbusy d \<longleftrightarrow> lser_tx d \<or> active (lser_wirq d)) \<and> \<not> (lser_tx d \<and> active (lser_wirq d)) \<and>
     \<not> lser_overrun d"

lemma active_simps [simp]: "active (w OR 2)" "\<not> active 0" "\<not> active 1" "\<not> active 5" "active 7"
proof -
  have "bit ((w OR 2) AND 2) 1" by (simp add: bit_simps)
  then show "active (w OR 2)" unfolding active_def by (metis bit_0_eq bot_apply bot_bool_def)
qed (simp_all add: active_def)

lemmas lser_defs = lser_irq_def lser_write_def lser_writepolled_def lser_poll_until_write_def hw_putc_def
  hw_txdone_def hw_receive_def active_def [symmetric]

lemma lser_write_ok:
  assumes "lser_ok d" and "\<not> ls_wbusy d"
  shows "\<exists>d'. lser_write ch d = Some d' \<and> lser_ok d' \<and> ls_wbusy d' \<and> lser_out d' = lser_out d @ [ch] \<and>
    lser_rirq d' = lser_rirq d"
  using assms by (auto simp: lser_ok_def lser_defs)

lemma lser_writepolled_ok:
  assumes "lser_ok d"
  shows "\<exists>d'. lser_writepolled ch d = Some d' \<and> lser_ok d' \<and> ls_wbusy d' = ls_wbusy d \<and>
    lser_out d' = lser_out d @ [ch] \<and> lser_rirq d' = lser_rirq d"
proof (cases "ls_wbusy d")
  case True
  moreover have "(4::uint32) OR 1 = 5" by simp
  ultimately show ?thesis using assms by (auto simp: lser_ok_def lser_defs)
next
  case False
  then show ?thesis using assms by (auto simp: lser_ok_def lser_defs)
qed

lemma hw_ok:
  assumes "lser_ok d"
  shows "lser_ok (hw_txdone d)" and "lser_ok (hw_receive ch d)"
  using assms by (auto simp: lser_ok_def lser_defs)

lemma lser_irq_ok:
  assumes "lser_ok d" and "lser_irq d = (clear_to_write, got, d')"
  shows "lser_ok d'" and "clear_to_write = active (lser_wirq d)" and "lser_out d' = lser_out d"
    and "ls_wbusy d' = (ls_wbusy d \<and> \<not> clear_to_write)" and "got = (if active (lser_rirq d) then Some (lser_char d) else None)"
    and "\<not> active (lser_rirq d')"
  using assms by (auto simp: lser_ok_def lser_defs split: if_splits)

text \<open>
  Exactly one of these has the right to write: the semaphore, a thread, the device, a handler.
\<close>

definition con_inv :: "con_world \<Rightarrow> bool" where
  "con_inv w \<longleftrightarrow> (\<exists>cs. the_console w = Some cs \<and> ring_ok cs \<and> cs_rsem cs + of_bool (reading w) = length (ring cs) \<and>
     lser_ok (the_lser w) \<and>
     cs_wsem cs + length (sending w) + of_bool (ls_wbusy (the_lser w)) + starting w = 1)"

definition con_boot :: "con_softc \<Rightarrow> byte list \<Rightarrow> con_world" where
  "con_boot cs out = \<lparr>the_console = Some (cs\<lparr>cs_rsem := 0, cs_wsem := 1, cs_gotchars_head := 0, cs_gotchars_tail := 0\<rparr>),
     the_lser = \<lparr>ls_wbusy = False, lser_wirq = LSER_IRQ_ENABLE, lser_rirq = LSER_IRQ_ENABLE, lser_char = 0, lser_tx = False,
       lser_overrun = False, lser_out = out\<rparr>,
     delayed_outbuf = [], typed = [], sending = [], starting = 0, incoming = [], reading = False\<rparr>"

lemma con_boot_inv: "length (cs_gotchars cs) = CONSOLE_INPUT_BUFFER_SIZE \<Longrightarrow> con_inv (con_boot cs out)"
  by (simp add: con_inv_def con_boot_def ring_ok_def ring_len ring_length_def lser_ok_def)

text \<open>What the interleaved console promises: a queue of 31 characters, and the characters written in order.\<close>

record con_spec =
  spec_queue :: "byte list"
  spec_out :: "byte list"

fun spec_step :: "con_spec \<Rightarrow> con_event \<Rightarrow> con_spec \<Rightarrow> bool" where
  "spec_step a (Input ch) a' \<longleftrightarrow>
     a' = (if length (spec_queue a) < 31 then a\<lparr>spec_queue := spec_queue a @ [ch]\<rparr> else a)"
| "spec_step a (GetTake ch) a' \<longleftrightarrow> spec_queue a = ch # spec_queue a' \<and> spec_out a' = spec_out a"
| "spec_step a (PutSend ch) a' \<longleftrightarrow> a' = a\<lparr>spec_out := spec_out a @ [ch]\<rparr>"
| "spec_step a (PutPolled ch) a' \<longleftrightarrow> a' = a\<lparr>spec_out := spec_out a @ [ch]\<rparr>"
| "spec_step a _ a' \<longleftrightarrow> a' = a"

definition con_abs :: "con_world \<Rightarrow> con_spec" where
  "con_abs w = \<lparr>spec_queue = ring (the (the_console w)), spec_out = lser_out (the_lser w)\<rparr>"

lemma ring_fields [simp]:
  "ring (cs\<lparr>cs_wsem := n\<rparr>) = ring cs" "ring (cs\<lparr>cs_rsem := n\<rparr>) = ring cs"
  "ring_ok (cs\<lparr>cs_wsem := n\<rparr>) = ring_ok cs" "ring_ok (cs\<lparr>cs_rsem := n\<rparr>) = ring_ok cs"
  by (simp_all add: ring_def ring_ok_def)

lemma con_start_fields [simp]:
  "ring (con_start cs) = ring cs" "ring_ok (con_start cs) = ring_ok cs" "cs_wsem (con_start cs) = cs_wsem cs + 1"
  "cs_rsem (con_start cs) = cs_rsem cs"
  by (simp_all add: con_start_def)

lemma con_step_refines:
  assumes "con_inv w" and "con_step w e w'"
  shows "con_inv w' \<and> spec_step (con_abs w) e (con_abs w')"
proof -
  obtain cs where cs: "the_console w = Some cs" "ring_ok cs" "cs_rsem cs + of_bool (reading w) = length (ring cs)"
    "lser_ok (the_lser w)" "cs_wsem cs + length (sending w) + of_bool (ls_wbusy (the_lser w)) + starting w = 1"
    using assms(1) by (auto simp: con_inv_def)
  from assms(2) show ?thesis
  proof (cases rule: con_step.cases)
    case (put_p cs' ch)
    then have "cs_wsem cs = 1" "length (sending w) = 0" "\<not> ls_wbusy (the_lser w)" "starting w = 0"
      using cs(1,5) by (auto simp flip: length_0_conv)
    with put_p cs show ?thesis by (auto simp: con_inv_def con_abs_def)
  next
    case (start cs')
    then have "cs_wsem cs = 0" "length (sending w) = 0" "\<not> ls_wbusy (the_lser w)" "starting w = 1"
      using cs(1,5) by (auto simp flip: length_0_conv)
    with start cs show ?thesis by (auto simp: con_inv_def con_abs_def)
  next
    case (put_send ch d)
    then have "\<not> ls_wbusy (the_lser w)" by (auto simp: lser_write_def split: if_splits)
    from lser_write_ok [OF cs(4) this, of ch] put_send(4) have d: "lser_ok d" "ls_wbusy d"
      "lser_out d = lser_out (the_lser w) @ [ch]" by auto
    have "length (remove1 ch (sending w)) + 1 = length (sending w)"
      using put_send(3) length_pos_if_in_set [of ch "sending w"] by (simp add: length_remove1)
    then have "length (remove1 ch (sending w)) = 0" "cs_wsem cs = 0" "starting w = 0" using cs(5) by linarith+
    with d cs put_send show ?thesis by (simp add: con_inv_def con_abs_def)
  next
    case (put_polled ch d)
    with lser_writepolled_ok [OF cs(4), of ch] have d: "lser_ok d" "ls_wbusy d = ls_wbusy (the_lser w)"
      "lser_out d = lser_out (the_lser w) @ [ch]" by auto
    with put_polled cs show ?thesis by (auto simp: con_inv_def con_abs_def)
  next
    case (irq ctw got d)
    note i = lser_irq_ok [OF cs(4) irq(3)]
    have "ctw \<Longrightarrow> ls_wbusy (the_lser w)" using cs(4) i(2) by (simp add: lser_ok_def)
    with irq cs i show ?thesis by (auto simp: con_inv_def con_abs_def)
  next
    case (input ch rest cs')
    note i = con_input_ring [OF cs(2), of ch]
    have "cs_rsem (con_input ch cs) + of_bool (reading w) = length (ring (con_input ch cs))"
      using cs(3) i(4) by linarith
    with input i cs show ?thesis by (simp add: con_inv_def con_abs_def)
  next
    case (get_take cs' ch cs'')
    have "ring cs \<noteq> []" using cs(3) get_take(3) by auto
    from con_take_ring [OF cs(2) this, of ch cs''] get_take cs show ?thesis
      by (auto simp: con_inv_def con_abs_def)
  qed (use cs hw_ok [OF cs(4)] in \<open>auto simp: con_inv_def con_abs_def hw_txdone_def hw_receive_def con_start_def\<close>)
qed

interpretation con_sim: simulation con_inv con_step spec_step con_abs
  by unfold_locales (rule con_step_refines)

text \<open>Under the invariant the driver does not panic and the device is not overrun.\<close>

lemma con_inv_safe:
  assumes "con_inv w"
  shows "\<forall>ch \<in> set (sending w). lser_write ch (the_lser w) \<noteq> None" and "lser_writepolled ch (the_lser w) \<noteq> None"
    and "\<not> lser_overrun (the_lser w)"
proof -
  have ok: "lser_ok (the_lser w)" using assms by (auto simp: con_inv_def)
  show "\<forall>ch \<in> set (sending w). lser_write ch (the_lser w) \<noteq> None"
  proof
    fix ch assume "ch \<in> set (sending w)"
    then have "0 < length (sending w)" by (rule length_pos_if_in_set)
    then have "\<not> ls_wbusy (the_lser w)" using assms by (auto simp: con_inv_def)
    then show "lser_write ch (the_lser w) \<noteq> None" by (simp add: lser_write_def)
  qed
  show "lser_writepolled ch (the_lser w) \<noteq> None" using lser_writepolled_ok [OF ok, of ch] by auto
  show "\<not> lser_overrun (the_lser w)" using ok by (simp add: lser_ok_def)
qed

text \<open>The steps that do not begin anything new, and how they give the right to write back.\<close>

definition finishing :: "con_event set" where
  "finishing = {TxDone, Irq, Start} \<union> range PutSend"

definition may_write :: "con_world \<Rightarrow> bool" where
  "may_write w \<longleftrightarrow> (\<exists>cs. the_console w = Some cs \<and> 0 < cs_wsem cs)"

definition leads :: "nat \<Rightarrow> con_world \<Rightarrow> bool" where
  "leads n w \<longleftrightarrow> (\<exists>es w'. run con_step w es w' \<and> set es \<subseteq> finishing \<and> length es \<le> n \<and> may_write w')"

lemma leads_step: "con_step w e w' \<Longrightarrow> e \<in> finishing \<Longrightarrow> leads n w' \<Longrightarrow> leads (Suc n) w"
  unfolding leads_def by (metis (no_types, lifting) Suc_le_mono empty_set insert_subset length_Cons list.simps(15) run.simps(2))

lemma leads_now: "may_write w \<Longrightarrow> leads n w"
  unfolding leads_def by (intro exI [of _ "[]"]) simp

lemma leads_starting:
  assumes inv: "con_inv w" and s: "0 < starting w"
  shows "leads (Suc n) w"
proof -
  obtain cs where cs: "the_console w = Some cs" using inv by (auto simp: con_inv_def)
  have "may_write (w\<lparr>the_console := Some (con_start cs), starting := starting w - 1\<rparr>)" by (simp add: may_write_def)
  then show ?thesis by (intro leads_step [OF con_step.start [OF s cs]] leads_now) (auto simp: finishing_def)
qed

lemma leads_active:
  assumes inv: "con_inv w" and a: "active (lser_wirq (the_lser w))"
  shows "leads (Suc (Suc n)) w"
proof -
  obtain ctw got d where i: "lser_irq (the_lser w) = (ctw, got, d)" by (rule prod_cases3)
  note st = con_step.irq [OF i]
  have ok: "lser_ok (the_lser w)" using inv by (auto simp: con_inv_def)
  have "ctw" using lser_irq_ok(2) [OF ok i] a by simp
  then show ?thesis
    by (intro leads_step [OF st] leads_starting conjunct1 [OF con_step_refines [OF inv st]])
      (auto simp: finishing_def)
qed

lemma leads_tx:
  assumes inv: "con_inv w" and t: "lser_tx (the_lser w)"
  shows "leads (Suc (Suc (Suc n))) w"
proof -
  note st = con_step.tx_done [OF t]
  show ?thesis
    by (intro leads_step [OF st] leads_active conjunct1 [OF con_step_refines [OF inv st]])
      (use t in \<open>auto simp: finishing_def hw_txdone_def\<close>)
qed

lemma con_progress:
  assumes inv: "con_inv w"
  shows "leads 4 w"
proof -
  obtain cs where cs: "the_console w = Some cs" "lser_ok (the_lser w)"
    "cs_wsem cs + length (sending w) + of_bool (ls_wbusy (the_lser w)) + starting w = 1"
    using inv by (auto simp: con_inv_def)
  consider "0 < cs_wsem cs" | "0 < starting w" | "ls_wbusy (the_lser w)" | "sending w \<noteq> []"
    using cs(3) by fastforce
  then show ?thesis
  proof cases
    case 1
    then show ?thesis using cs(1) by (intro leads_now) (simp add: may_write_def)
  next
    case 2
    then show ?thesis using leads_starting [OF inv] by (metis numeral_eq_Suc)
  next
    case 3
    then have "lser_tx (the_lser w) \<or> active (lser_wirq (the_lser w))" using cs(2) by (simp add: lser_ok_def)
    then show ?thesis using leads_active [OF inv, of 2] leads_tx [OF inv, of 1] by (auto simp: numeral_eq_Suc)
  next
    case 4
    then obtain ch where ch: "ch \<in> set (sending w)" by (meson list.set_sel(1))
    then obtain d where d: "lser_write ch (the_lser w) = Some d" using con_inv_safe(1) [OF inv] by blast
    note st = con_step.put_send [OF ch d]
    have "lser_tx d" using d by (auto simp: lser_write_def hw_putc_def split: if_splits)
    then have "leads 3 (w\<lparr>the_lser := d, sending := remove1 ch (sending w)\<rparr>)"
      using leads_tx [OF conjunct1 [OF con_step_refines [OF inv st]], of 0] by (simp add: numeral_eq_Suc)
    then show ?thesis using leads_step [OF st] by (auto simp: finishing_def numeral_eq_Suc)
  qed
qed

section \<open>The console as one thread sees it\<close>

locale char_device =
  fixes ok :: "'c \<Rightarrow> bool" and outp inp :: "'c \<Rightarrow> byte list"
    and put :: "byte \<Rightarrow> 'c \<Rightarrow> 'c option" and get :: "'c \<Rightarrow> (byte \<times> 'c) option"
  assumes put: "ok c \<Longrightarrow> \<exists>c'. put b c = Some c' \<and> ok c' \<and> outp c' = outp c @ [b] \<and> inp c' = inp c"
    and get: "ok c \<Longrightarrow> inp c = b # bs \<Longrightarrow> \<exists>c'. get c = Some (b, c') \<and> ok c' \<and> outp c' = outp c \<and> inp c' = bs"
    and get_blocks: "ok c \<Longrightarrow> inp c = [] \<Longrightarrow> get c = None"
begin

lemma putchs: "ok c \<Longrightarrow> \<exists>c'. putchs put bs c = Some c' \<and> ok c' \<and> outp c' = outp c @ bs \<and> inp c' = inp c"
proof (induction bs arbitrary: c)
  case (Cons b bs)
  obtain c1 where "put b c = Some c1" "ok c1" "outp c1 = outp c @ [b]" "inp c1 = inp c" using put [OF Cons.prems] by blast
  with Cons.IH [of c1] show ?case by auto
qed simp

end

definition con_ok :: "con_sys \<Rightarrow> bool" where
  "con_ok c \<longleftrightarrow> (\<exists>cs. the_console c = Some cs \<and> ring_ok cs \<and> cs_rsem cs = length (ring cs) \<and> lser_ok (the_lser c) \<and>
     cs_wsem cs + of_bool (ls_wbusy (the_lser c)) = 1 \<and> \<not> active (lser_rirq (the_lser c)))"

definition con_out :: "con_sys \<Rightarrow> byte list" where
  "con_out c = lser_out (the_lser c)"

definition con_in :: "con_sys \<Rightarrow> byte list" where
  "con_in c = ring (the (the_console c)) @ typed c"

lemma P_wsem_ok:
  assumes "con_ok c"
  shows "\<exists>c' cs. P_wsem c = Some c' \<and> the_console c' = Some cs \<and> ring_ok cs \<and> cs_rsem cs = length (ring cs) \<and> cs_wsem cs = 0 \<and>
    lser_ok (the_lser c') \<and> \<not> ls_wbusy (the_lser c') \<and> \<not> active (lser_rirq (the_lser c')) \<and>
    con_out c' = con_out c \<and> con_in c' = con_in c"
proof -
  obtain cs where cs: "the_console c = Some cs" "ring_ok cs" "cs_rsem cs = length (ring cs)" "lser_ok (the_lser c)"
    "cs_wsem cs + of_bool (ls_wbusy (the_lser c)) = 1" "\<not> active (lser_rirq (the_lser c))"
    using assms by (auto simp: con_ok_def)
  show ?thesis
  proof (cases "cs_wsem cs = 0")
    case True
    let ?d = "hw_txdone (the_lser c)"
    obtain ctw got d where i: "lser_irq ?d = (ctw, got, d)" by (rule prod_cases3)
    have "ls_wbusy (the_lser c)" using True cs(5) by (cases "ls_wbusy (the_lser c)") simp_all
    then have a: "active (lser_wirq ?d)" "ls_wbusy ?d" "lser_out ?d = lser_out (the_lser c)" "\<not> active (lser_rirq ?d)"
      using cs(4,6) by (auto simp: hw_txdone_def lser_ok_def)
    note r = lser_irq_ok [OF hw_ok(1) [OF cs(4)] i]
    show ?thesis using True cs a r i by (simp add: P_wsem_def con_irq_def con_out_def con_in_def)
  next
    case False
    then show ?thesis using cs by (auto simp: P_wsem_def con_out_def con_in_def)
  qed
qed

lemma putch_ok:
  assumes "con_ok c"
  shows "\<exists>c'. putch polled b c = Some c' \<and> con_ok c' \<and> con_out c' = con_out c @ [b] \<and> con_in c' = con_in c"
proof (cases polled)
  case True
  from assms obtain cs where cs: "the_console c = Some cs" "lser_ok (the_lser c)" by (auto simp: con_ok_def)
  from lser_writepolled_ok [OF cs(2), of b] assms True show ?thesis
    by (auto simp: putch_def putch_polled_def con_ok_def con_out_def con_in_def)
next
  case False
  obtain c1 cs where c1: "P_wsem c = Some c1" "the_console c1 = Some cs" "ring_ok cs" "cs_rsem cs = length (ring cs)" "cs_wsem cs = 0"
    "lser_ok (the_lser c1)" "\<not> ls_wbusy (the_lser c1)" "\<not> active (lser_rirq (the_lser c1))"
    "con_out c1 = con_out c" "con_in c1 = con_in c" using P_wsem_ok [OF assms] by blast
  moreover have "the_console c \<noteq> None" using assms by (auto simp: con_ok_def)
  moreover obtain d where "lser_write b (the_lser c1) = Some d" "lser_ok d" "ls_wbusy d"
    "lser_out d = lser_out (the_lser c1) @ [b]" "lser_rirq d = lser_rirq (the_lser c1)"
    using lser_write_ok [OF c1(6,7), of b] by blast
  ultimately show ?thesis
    using False by (auto simp: putch_def putch_intr_def con_ok_def con_out_def con_in_def)
qed

lemma P_rsem_ok:
  assumes "con_ok c" and "con_in c \<noteq> []"
  shows "\<exists>c' cs. P_rsem c = Some c' \<and> the_console c' = Some cs \<and> ring_ok cs \<and> ring cs \<noteq> [] \<and>
    cs_rsem cs + 1 = length (ring cs) \<and> cs_wsem cs + of_bool (ls_wbusy (the_lser c')) = 1 \<and>
    lser_ok (the_lser c') \<and> \<not> active (lser_rirq (the_lser c')) \<and> con_out c' = con_out c \<and> con_in c' = con_in c"
proof -
  obtain cs where cs: "the_console c = Some cs" "ring_ok cs" "cs_rsem cs = length (ring cs)" "lser_ok (the_lser c)"
    "cs_wsem cs + of_bool (ls_wbusy (the_lser c)) = 1" "\<not> active (lser_rirq (the_lser c))"
    using assms by (auto simp: con_ok_def)
  show ?thesis
  proof (cases "cs_rsem cs = 0")
    case True
    then have e: "ring cs = []" using cs(3) by simp
    with assms(2) obtain b bs where t: "typed c = b # bs" using cs(1) by (cases "typed c") (auto simp: con_in_def)
    let ?d = "hw_receive b (the_lser c)"
    obtain ctw got d where i: "lser_irq ?d = (ctw, got, d)" by (rule prod_cases3)
    have a: "lser_out ?d = lser_out (the_lser c)" "active (lser_rirq ?d)" "lser_char ?d = b" "lser_wirq ?d = lser_wirq (the_lser c)"
      "ls_wbusy ?d = ls_wbusy (the_lser c)" by (simp_all add: hw_receive_def)
    note r = lser_irq_ok [OF hw_ok(2) [OF cs(4)] i, unfolded a]
    have w: "ctw \<Longrightarrow> ls_wbusy (the_lser c)" using cs(4) r(2) by (simp add: lser_ok_def)
    let ?cs = "if ctw then con_start cs else cs"
    have "ring_ok ?cs" "ring ?cs = []" using cs(2) e by simp_all
    note n = con_input_ring [OF this(1), of b, unfolded this(2)]
    have "cs_rsem (con_input b ?cs) = 1" using n(3,4) True by (simp split: if_splits)
    moreover have "cs_wsem (con_input b ?cs) + of_bool (ls_wbusy d) = 1" using n(2) cs(5) r(4) w by auto
    ultimately show ?thesis using True cs(1) t r i n e
      by (auto simp: P_rsem_def con_irq_def con_out_def con_in_def a)
  next
    case False
    then show ?thesis using cs by (auto simp: P_rsem_def con_out_def con_in_def)
  qed
qed

lemma getch_ok:
  assumes "con_ok c" and "con_in c = b # bs"
  shows "\<exists>c'. getch c = Some (b, c') \<and> con_ok c' \<and> con_out c' = con_out c \<and> con_in c' = bs"
proof -
  obtain c1 cs where c1: "P_rsem c = Some c1" "the_console c1 = Some cs" "ring_ok cs" "ring cs \<noteq> []"
    "cs_rsem cs + 1 = length (ring cs)" "cs_wsem cs + of_bool (ls_wbusy (the_lser c1)) = 1"
    "lser_ok (the_lser c1)" "\<not> active (lser_rirq (the_lser c1))" "con_out c1 = con_out c" "con_in c1 = con_in c"
    using P_rsem_ok [OF assms(1)] assms(2) by auto
  obtain ch cs' where t: "con_take cs = (ch, cs')" by fastforce
  note r = con_take_ring [OF c1(3,4) t]
  have "the_console c \<noteq> None" using assms(1) by (auto simp: con_ok_def)
  then show ?thesis using c1 t r assms(2)
    by (auto simp: getch_def getch_intr_def kassert_def con_ok_def con_out_def con_in_def)
qed

lemma getch_waits: "con_ok c \<Longrightarrow> con_in c = [] \<Longrightarrow> getch c = None"
  by (auto simp: getch_def getch_intr_def P_rsem_def kassert_def con_ok_def con_in_def)

interpretation con_dev: char_device con_ok con_out con_in "putch polled" getch for polled
  by unfold_locales (rule putch_ok, assumption, rule getch_ok, assumption+, rule getch_waits, assumption+)

section \<open>What the line editor gives\<close>

text \<open>A text without directives is printed as it is.\<close>

lemma sends_plain:
  assumes "\<not> in_pct pf" and "ch_percent \<notin> set bs" and "0 \<notin> set bs"
  shows "\<exists>n. pf_sends (@) bs pf = Some (pf\<lparr>clientdata := clientdata pf @ bs, charcount := n\<rparr>)"
  using assms
proof (induction bs arbitrary: pf)
  case Nil
  have "pf = pf\<lparr>clientdata := clientdata pf @ [], charcount := charcount pf\<rparr>" by simp
  then show ?case by (metis pf_sends.simps(1))
next
  case (Cons b bs)
  have "pf_send (@) b pf = Some (pf\<lparr>clientdata := clientdata pf @ [b], charcount := charcount pf + 1\<rparr>)"
    using Cons.prems by (simp add: pf_send_def pf_print_def kassert_def)
  then show ?case
    using Cons.IH [of "pf\<lparr>clientdata := clientdata pf @ [b], charcount := charcount pf + 1\<rparr>"] Cons.prems by auto
qed

lemma sends_append: "pf_sends send (xs @ ys) pf = do { pf \<leftarrow> pf_sends send xs pf; pf_sends send ys pf }"
  by (induction xs arbitrary: pf) (simp_all add: bind_assoc)

lemma printed_plain: "ch_percent \<notin> set bs \<Longrightarrow> 0 \<notin> set bs \<Longrightarrow> printed bs args = Some bs"
  using sends_plain [of "pf_start [] args" bs] by (auto simp: printed_def pf_start_def pf_endfield_def)

lemma printed_s:
  assumes "ch_percent \<notin> set bs" and "0 \<notin> set bs"
  shows "printed (bs @ [ch_percent, ch_s]) [ArgStr (Some t)] = Some (bs @ t)"
proof -
  obtain n where n: "pf_sends (@) bs (pf_start [] [ArgStr (Some t)]) =
      Some ((pf_start [] [ArgStr (Some t)])\<lparr>clientdata := bs, charcount := n\<rparr>)"
    using sends_plain [OF _ assms, of "pf_start [] [ArgStr (Some t)]"] by (auto simp: pf_start_def pf_endfield_def)
  then show ?thesis
    by (simp add: printed_def sends_append pf_send_def kassert_def modifier_chars_def digit_chars_def number_chars_def
        send_string_def pf_start_def pf_endfield_def pf_printstuff_def pf_print_def)
qed

text \<open>The editing of a line: the line, what is typed, and the line and the rest of what is typed at the end.\<close>

definition erase_word :: "byte list \<Rightarrow> byte list" where
  "erase_word l = rev (dropWhile (\<lambda>c. c \<noteq> ch_space) (dropWhile (\<lambda>c. c = ch_space) (rev l)))"

definition edit_char :: "nat \<Rightarrow> byte list \<Rightarrow> byte \<Rightarrow> bool \<times> byte list" where
  "edit_char room l ch =
     (if ch = 10 \<or> ch = 13 then (False, l)
      else if 32 \<le> ch \<and> ch < 127 \<and> length l < room then (True, l @ [ch])
      else if (ch = 8 \<or> ch = 127) \<and> l \<noteq> [] then (True, butlast l)
      else if ch = 3 then (False, [])
      else if ch = 21 then (True, [])
      else if ch = 23 then (True, erase_word l)
      else (True, l))"

primrec edit_line :: "nat \<Rightarrow> byte list \<Rightarrow> byte list \<Rightarrow> (byte list \<times> byte list) option" where
  "edit_line room l [] = None"
| "edit_line room l (ch # cs) =
     (case edit_char room l ch of (True, l) \<Rightarrow> edit_line room l cs | (False, l) \<Rightarrow> Some (l, cs))"

lemma edit_line_returns: "10 \<in> set cs \<or> 13 \<in> set cs \<Longrightarrow> edit_line room l cs \<noteq> None"
  by (induction cs arbitrary: l) (auto simp: edit_char_def split: bool.split)

definition printable :: "byte list \<Rightarrow> bool" where
  "printable l \<longleftrightarrow> (\<forall>c \<in> set l. 32 \<le> c \<and> c < 127)"

lemma prefix_erase: "prefix (rev (dropWhile P (rev l))) l"
  using suffix_dropWhile [of P "rev l"] by (simp add: suffix_to_prefix)

lemma prefix_erase_word: "prefix (erase_word l) l"
  unfolding erase_word_def
  using prefix_order.trans [OF prefix_erase [of "\<lambda>c. c \<noteq> ch_space" "rev (dropWhile (\<lambda>c. c = ch_space) (rev l))"]
      prefix_erase [of "\<lambda>c. c = ch_space" l]] by simp

lemma printable_prefix: "prefix l' l \<Longrightarrow> printable l \<and> length l \<le> n \<Longrightarrow> printable l' \<and> length l' \<le> n"
  unfolding printable_def using set_mono_prefix [of l' l] prefix_length_le [of l' l] by auto

lemma edit_char_printable:
  assumes "printable l \<and> length l \<le> room"
  shows "printable (snd (edit_char room l ch)) \<and> length (snd (edit_char room l ch)) \<le> room"
proof -
  note printable_prefix [OF prefix_erase_word assms] printable_prefix [OF prefixeq_butlast assms]
  moreover have "printable (l @ [ch])" if "32 \<le> ch \<and> ch < 127" using assms that by (auto simp: printable_def)
  moreover have "printable []" by (simp add: printable_def)
  ultimately show ?thesis using assms unfolding edit_char_def by (cases "l = []") (simp_all del: length_butlast)
qed

lemma edit_line_printable:
  "edit_line room l cs = Some (l', rest) \<Longrightarrow> printable l \<and> length l \<le> room \<Longrightarrow> printable l' \<and> length l' \<le> room"
proof (induction cs arbitrary: l)
  case (Cons ch cs)
  obtain again k where k: "edit_char room l ch = (again, k)" by fastforce
  with edit_char_printable [OF Cons.prems(2), of ch] Cons show ?case by (cases again) auto
qed simp

lemma mem_get_upd [simp]: "mem_get (m(a + n := x)) a n = mem_get m a n"
  by (rule nth_equalityI) auto

lemma mem_get_prefix:
  assumes "mem_get m b (length l) = l" and "prefix l' l"
  shows "mem_get m b (length l') = l'"
proof -
  obtain ys where l: "l = l' @ ys" using assms(2) by (rule prefixE)
  have "mem_get m b (length l') @ mem_get m (b + length l') (length ys) = l' @ ys"
    using assms(1) unfolding l by (simp add: mem_get_add)
  then show ?thesis by (simp add: append_eq_append_conv)
qed

context char_device
begin

lemma kprintf_to:
  "ok c \<Longrightarrow> printed fmt args = Some t \<Longrightarrow>
    \<exists>c'. kprintf_to put fmt args c = Some c' \<and> ok c' \<and> outp c' = outp c @ t \<and> inp c' = inp c"
  using putchs [of c t] by (simp add: kprintf_to_def kprintf_printed)

lemma beep: "ok c \<Longrightarrow> \<exists>c'. beep bp put c = Some c' \<and> ok c' \<and> inp c' = inp c"
  using kprintf_to [of c "ascii ''beep: Warning: no beep device'' @ [10]" "[]"]
  by (auto simp: beep_def printed_plain ascii_def)

lemma backsp: "ok c \<Longrightarrow> \<exists>c'. backsp put c = Some c' \<and> ok c' \<and> inp c' = inp c"
  using putchs [of c "[8, ch_space, 8]"] by (auto simp: backsp_def)

lemma erase_loop:
  assumes "ok c" and "\<And>p. p < length l \<Longrightarrow> test p = P (l ! p)"
  shows "\<exists>c'. erase_loop put test (length l) c = Some (length (dropWhile P (rev l)), c') \<and> ok c' \<and> inp c' = inp c"
  using assms
proof (induction l arbitrary: c rule: rev_induct)
  case (snoc x l)
  have t: "test (length l) = P x" "\<And>p. p < length l \<Longrightarrow> test p = P (l ! p)"
    using snoc.prems(2) by (simp add: nth_append) (use snoc.prems(2) in \<open>auto simp: nth_append\<close>)
  show ?case
  proof (cases "P x")
    case True
    obtain c1 where "backsp put c = Some c1" "ok c1" "inp c1 = inp c" using backsp [OF snoc.prems(1)] by blast
    with snoc.IH [of c1, OF _ t(2)] t(1) True show ?thesis by auto
  next
    case False
    with t(1) snoc.prems(1) show ?thesis by simp
  qed
qed simp

lemma erase_word_loop:
  assumes "ok c" and "mem_get m b (length l) = l"
  shows "\<exists>n c1 c'. erase_loop put (\<lambda>p. m (b + p) = ch_space) (length l) c = Some (n, c1) \<and>
    erase_loop put (\<lambda>p. m (b + p) \<noteq> ch_space) n c1 = Some (length (erase_word l), c') \<and> ok c' \<and> inp c' = inp c"
proof -
  let ?l = "rev (dropWhile (\<lambda>c. c = ch_space) (rev l))"
  have nth: "m (b + p) = k ! p" if "mem_get m b (length k) = k" "p < length k" for p k
    using that by (metis nth_mem_get)
  have m: "mem_get m b (length ?l) = ?l"
    by (rule mem_get_prefix [OF assms(2) prefix_erase])
  obtain c1 where c1: "erase_loop put (\<lambda>p. m (b + p) = ch_space) (length l) c = Some (length ?l, c1)" "ok c1" "inp c1 = inp c"
    using erase_loop [OF assms(1), of l "\<lambda>p. m (b + p) = ch_space" "\<lambda>c. c = ch_space"] nth [OF assms(2)] by auto
  obtain c' where "erase_loop put (\<lambda>p. m (b + p) \<noteq> ch_space) (length ?l) c1 = Some (length (erase_word l), c')" "ok c'"
    "inp c' = inp c1"
    using erase_loop [OF c1(2), of ?l "\<lambda>p. m (b + p) \<noteq> ch_space" "\<lambda>c. c \<noteq> ch_space"] nth [OF m]
    by (auto simp: erase_word_def)
  with c1 show ?thesis by metis
qed

lemma kgets_char_edit:
  assumes ok: "ok c" and m: "mem_get m b (length l) = l" and l: "printable l" "length l \<le> room"
    and room: "room = unat (maxlen - 1)" and e: "edit_char room l ch = (again, l')"
  shows "\<exists>m' c'. kgets_char bp put b maxlen ch (length l) m c = Some (again, length l', m', c') \<and> ok c' \<and> inp c' = inp c \<and>
    mem_get m' b (length l') = l' \<and> (\<forall>x. x < b \<or> b + room < x \<longrightarrow> m' x = m x)"
proof -
  consider (c_nl) "ch = 10 \<or> ch = 13" | (c_add) "32 \<le> ch" "ch < 127" "length l < room"
    | (c_back) "ch = 8 \<or> ch = 127" "l \<noteq> []" | (c_intr) "ch = 3" | (c_reprint) "ch = 18" | (c_kill) "ch = 21" | (c_word) "ch = 23"
    | (c_other) "ch \<noteq> 10" "ch \<noteq> 13" "\<not> (32 \<le> ch \<and> ch < 127 \<and> length l < room)" "\<not> ((ch = 8 \<or> ch = 127) \<and> l \<noteq> [])"
      "ch \<noteq> 3" "ch \<noteq> 18" "ch \<noteq> 21" "ch \<noteq> 23" by blast
  then show ?thesis
  proof cases
    case c_nl
    with put [OF ok, of 10] e m show ?thesis by (auto simp: kgets_char_def edit_char_def)
  next
    case c_add
    have "mem_get (m(b + length l := ch)) b (length l) = l"
      using m by simp
    then have "mem_get (m(b + length l := ch)) b (length (l @ [ch])) = l @ [ch]"
      using mem_get_add [of "m(b + length l := ch)" b "length l" 1] by simp
    moreover have "ch \<noteq> 10" "ch \<noteq> 13" using c_add(1) by auto
    ultimately show ?thesis using put [OF ok, of ch] e c_add room by (auto simp: kgets_char_def edit_char_def)
  next
    case c_back
    have "mem_get m b (length (butlast l)) = butlast l" by (rule mem_get_prefix [OF m prefixeq_butlast])
    with c_back backsp [OF ok] e show ?thesis by (auto simp: kgets_char_def edit_char_def)
  next
    case c_intr
    with putchs [OF ok, of "ascii ''^C'' @ [10]"] e show ?thesis by (auto simp: kgets_char_def edit_char_def)
  next
    case c_reprint
    let ?m = "m(b + length l := 0)"
    have g: "mem_get ?m b (length l) = l" using m by simp
    have "cstr ?m b l" using g l(1) by (auto simp: cstr_iff printable_def)
    then have "strlen ?m b = Some (length l)" by (rule strlen_cstr)
    moreover have "printed (ascii ''^R'' @ [10] @ ascii ''%s'') [ArgStr (Some l)] = Some (ascii ''^R'' @ [10] @ l)"
      using printed_s [of "ascii ''^R'' @ [10]" l] by (simp add: ascii_def)
    moreover note kprintf_to [OF ok this]
    ultimately show ?thesis using c_reprint e g l(2) by (auto simp: kgets_char_def edit_char_def Let_def)
  next
    case c_kill
    have "dropWhile (\<lambda>_. True) (rev l) = []" by simp
    with c_kill erase_loop [OF ok, of l "\<lambda>_. True" "\<lambda>_. True"] e show ?thesis
      by (auto simp: kgets_char_def edit_char_def)
  next
    case c_word
    have "mem_get m b (length (erase_word l)) = erase_word l" by (rule mem_get_prefix [OF m prefix_erase_word])
    with c_word erase_word_loop [OF ok m] e show ?thesis by (auto simp: kgets_char_def edit_char_def)
  next
    case c_other
    then have "kgets_char bp put b maxlen ch (length l) m c = do { c \<leftarrow> beep bp put c; Some (True, length l, m, c) }"
      and "edit_char room l ch = (True, l)"
      unfolding kgets_char_def edit_char_def room by auto
    with beep [OF ok, of bp] e m show ?thesis by auto
  qed
qed

lemma kgets_loop_edit:
  assumes "ok c" and "inp c = cs" and "mem_get m b (length l) = l" and "printable l \<and> length l \<le> room"
    and room: "room = unat (maxlen - 1)" and "edit_line room l cs = Some (l', rest)"
  shows "\<exists>m' c'. kgets_loop bp put get b maxlen (length l) m c = Some (length l', m', c') \<and> ok c' \<and> inp c' = rest \<and>
    mem_get m' b (length l') = l' \<and> (\<forall>x. x < b \<or> b + room < x \<longrightarrow> m' x = m x)"
  using assms(1-4,6)
proof (induction cs arbitrary: c m l)
  case (Cons ch cs)
  obtain c1 where c1: "get c = Some (ch, c1)" "ok c1" "inp c1 = cs" using get [OF Cons.prems(1,2)] by blast
  obtain again k where k: "edit_char room l ch = (again, k)" by fastforce
  have l: "printable l" "length l \<le> room" using Cons.prems(4) by simp_all
  obtain m2 c2 where c2: "kgets_char bp put b maxlen ch (length l) m c1 = Some (again, length k, m2, c2)" "ok c2"
    "inp c2 = cs" "mem_get m2 b (length k) = k" "\<forall>x. x < b \<or> b + room < x \<longrightarrow> m2 x = m x"
    using kgets_char_edit [OF c1(2) Cons.prems(3) l room k] c1(3) by blast
  have loop: "kgets_loop bp put get b maxlen (length l) m c =
      (if again then kgets_loop bp put get b maxlen (length k) m2 c2 else Some (length k, m2, c2))"
    using c1(1) c2(1) by (subst kgets_loop.simps) simp
  show ?case
  proof (cases again)
    case True
    have "printable k \<and> length k \<le> room" using edit_char_printable [OF Cons.prems(4), of ch] k by simp
    from Cons.IH [OF c2(2-4) this] True Cons.prems(5) k loop c2(5) show ?thesis by fastforce
  next
    case False
    with Cons.prems(5) k loop c2 show ?thesis by auto
  qed
qed simp

lemma kgets_edit:
  assumes "ok c" and "maxlen \<noteq> 0" and "edit_line (unat maxlen - 1) [] (inp c) = Some (l, rest)"
  shows "\<exists>m' c'. kgets bp put get b maxlen m c = Some (m', c') \<and> ok c' \<and> inp c' = rest \<and> cstr m' b l \<and>
    length l < unat maxlen \<and> (\<forall>x. x < b \<or> b + unat maxlen \<le> x \<longrightarrow> m' x = m x)"
proof -
  have u: "unat (maxlen - 1) = unat maxlen - 1" using assms(2) by (simp add: unat_minus_one)
  have pos: "0 < unat maxlen" using assms(2) by (simp add: unat_gt_0)
  have e: "edit_line (unat (maxlen - 1)) [] (inp c) = Some (l, rest)" using assms(3) u by simp
  obtain m' c' where r: "kgets_loop bp put get b maxlen 0 m c = Some (length l, m', c')" "ok c'" "inp c' = rest"
    "mem_get m' b (length l) = l" "\<forall>x. x < b \<or> b + unat (maxlen - 1) < x \<longrightarrow> m' x = m x"
    using kgets_loop_edit [OF assms(1) refl _ _ refl e, of m b bp] by (auto simp: printable_def)
  have p: "printable l \<and> length l \<le> unat maxlen - 1"
    using edit_line_printable [OF assms(3)] by (simp add: printable_def)
  have "mem_get (m'(b + length l := 0)) b (length l) = l" using r(4) by simp
  then have "cstr (m'(b + length l := 0)) b l" using p by (auto simp: cstr_iff printable_def)
  with r p u pos show ?thesis by (auto simp: kgets_def)
qed

end

section \<open>Properties\<close>

primrec written :: "con_event list \<Rightarrow> byte list" where
  "written [] = []"
| "written (e # es) = (case e of PutSend ch \<Rightarrow> [ch] | PutPolled ch \<Rightarrow> [ch] | _ \<Rightarrow> []) @ written es"

lemma spec_written: "run spec_step a es a' \<Longrightarrow> spec_out a' = spec_out a @ written es"
proof (induction es arbitrary: a)
  case (Cons e es)
  then obtain b where "spec_step a e b" "spec_out a' = spec_out b @ written es" by auto
  then show ?case by (cases e) (auto split: if_splits)
qed simp

text \<open>
  Claim C25: the console driver never writes to a busy device. However the threads that print, the interrupt handler and
  the device are interleaved after the console is configured, the panic "Not clear to write" in \<^verbatim>\<open>lser_write\<close> is never
  reached, polled printing always ends, the device never loses a character, and the characters it has
  transmitted are those written, in order.
\<close>

theorem console_output_safe:
  assumes "length (cs_gotchars cs) = CONSOLE_INPUT_BUFFER_SIZE" and "run con_step (con_boot cs out) es w"
  shows "(\<forall>ch \<in> set (sending w). lser_write ch (the_lser w) \<noteq> None) \<and> (\<forall>ch. lser_writepolled ch (the_lser w) \<noteq> None) \<and>
    \<not> lser_overrun (the_lser w) \<and> lser_out (the_lser w) = out @ written es"
proof -
  have inv: "con_inv w" by (rule con_sim.run_inv [OF con_boot_inv [OF assms(1)] assms(2)])
  have "lser_out (the_lser w) = out @ written es"
    using spec_written [OF con_sim.run_refines [OF con_boot_inv [OF assms(1)] assms(2)]]
    by (simp add: con_abs_def con_boot_def)
  with con_inv_safe [OF inv] show ?thesis by blast
qed

text \<open>A run in which one thread prints by interrupt while another prints by polling.\<close>

definition example_con :: con_softc where
  "example_con = \<lparr>cs_rsem = 0, cs_wsem = 1, cs_gotchars = replicate 32 0, cs_gotchars_head = 0, cs_gotchars_tail = 0\<rparr>"

lemma example_con_run:
  "\<exists>w. run con_step (con_boot example_con []) [PutP 65, PutSend 65, PutPolled 66, Rx 67, Irq, Start, Input 67] w \<and>
     sending w = [] \<and> ring (the (the_console w)) = [67] \<and> reading w = False"
proof -
  define cs where "cs = example_con\<lparr>cs_wsem := 0\<rparr>"
  define d1 where "d1 = \<lparr>ls_wbusy = True, lser_wirq = 1, lser_rirq = 1, lser_char = 0, lser_tx = True,
    lser_overrun = False, lser_out = [65]\<rparr>"
  define d2 where "d2 = d1\<lparr>lser_tx := False, lser_wirq := 7, lser_out := [65, 66]\<rparr>"
  define w0 where "w0 = con_boot example_con []"
  define w1 where "w1 = w0\<lparr>the_console := Some cs, sending := [65]\<rparr>"
  define w2 where "w2 = w1\<lparr>the_lser := d1, sending := []\<rparr>"
  define w3 where "w3 = w2\<lparr>the_lser := d2\<rparr>"
  define w4 where "w4 = w3\<lparr>the_lser := hw_receive 67 d2\<rparr>"
  define w5 where "w5 = w4\<lparr>the_lser := d2\<lparr>ls_wbusy := False, lser_wirq := 1, lser_char := 67\<rparr>, starting := 1, incoming := [67]\<rparr>"
  define w6 where "w6 = w5\<lparr>the_console := Some (con_start cs), starting := 0\<rparr>"
  define w7 where "w7 = w6\<lparr>the_console := Some (con_input 67 (con_start cs)), incoming := []\<rparr>"
  note defs = cs_def d1_def d2_def w0_def con_boot_def example_con_def
  have "con_step w0 (PutP 65) w1"
    using con_step.put_p [of w0 "example_con" 65] by (simp add: w1_def defs)
  moreover have "con_step w1 (PutSend 65) w2"
    using con_step.put_send [of 65 w1 d1] by (simp add: w1_def w2_def lser_write_def hw_putc_def defs)
  moreover have "con_step w2 (PutPolled 66) w3"
    using con_step.put_polled [of 66 w2 d2] by (simp add: w2_def w3_def lser_writepolled_def lser_poll_until_write_def hw_putc_def hw_txdone_def defs)
  moreover have "con_step w3 (Rx 67) w4"
    using con_step.rx [of w3 67] by (simp add: w3_def w4_def)
  moreover have "con_step w4 Irq w5"
    using con_step.irq [of w4 True "Some 67" "d2\<lparr>ls_wbusy := False, lser_wirq := 1, lser_char := 67\<rparr>"]
    by (simp add: w3_def w4_def w5_def w2_def w1_def lser_irq_def hw_receive_def defs)
  moreover have "con_step w5 Start w6"
    using con_step.start [of w5 cs] by (simp add: w1_def w2_def w3_def w4_def w5_def w6_def)
  moreover have "con_step w6 (Input 67) w7"
    using con_step.input [of w6 67 "[]" "con_start cs"] by (simp add: w5_def w6_def w7_def)
  ultimately have "run con_step w0 [PutP 65, PutSend 65, PutPolled 66, Rx 67, Irq, Start, Input 67] w7"
    unfolding run.simps by blast
  moreover have "sending w7 = []" "reading w7 = False"
    by (simp_all add: w1_def w2_def w3_def w4_def w5_def w6_def w7_def w0_def con_boot_def)
  moreover have "ring (con_start cs) = []" "ring_ok (con_start cs)"
    by (simp_all add: ring_def ring_length_def ring_ok_def con_start_def cs_def example_con_def)
  then have "ring (con_input 67 (con_start cs)) = [67]" using con_input_ring(3) by simp
  then have "ring (the (the_console w7)) = [67]" by (simp add: w7_def)
  ultimately show ?thesis unfolding w0_def by blast
qed

theorem console_output_safe_witness:
  "\<exists>w. run con_step (con_boot example_con []) [PutP 65, PutSend 65, PutPolled 66, Rx 67, Irq, Start, Input 67] w \<and>
     lser_out (the_lser w) = [65, 66] \<and> \<not> lser_overrun (the_lser w)"
proof -
  obtain w where w: "run con_step (con_boot example_con []) [PutP 65, PutSend 65, PutPolled 66, Rx 67, Irq, Start, Input 67] w"
    using example_con_run by blast
  have "length (cs_gotchars example_con) = CONSOLE_INPUT_BUFFER_SIZE" by (simp add: example_con_def)
  from console_output_safe [OF this w] w show ?thesis by (intro exI [of _ w]) (simp del: run.simps)
qed

text \<open>
  Claim C26: a thread that waits to print gets its turn. From every state the console can get into, at most four steps that
  finish work already begun (a thread past its \<^verbatim>\<open>P\<close> sends, the device is done, the handler runs and calls
  \<^verbatim>\<open>con_start\<close>) lead to one in which \<^verbatim>\<open>P(cs_wsem)\<close> does not wait.
\<close>

theorem console_output_progress:
  assumes "length (cs_gotchars cs) = CONSOLE_INPUT_BUFFER_SIZE" and "run con_step (con_boot cs out) es w"
  shows "\<exists>fs w' cs'. run con_step w fs w' \<and> length fs \<le> 4 \<and> set fs \<subseteq> {TxDone, Irq, Start} \<union> range PutSend \<and>
    the_console w' = Some cs' \<and> 0 < cs_wsem cs'"
  using con_progress [OF con_sim.run_inv [OF con_boot_inv [OF assms(1)] assms(2)]]
  unfolding leads_def finishing_def may_write_def by blast

theorem console_output_progress_witness:
  "\<exists>w fs w' cs'. run con_step (con_boot example_con []) [PutP 65, PutSend 65, PutPolled 66, Rx 67, Irq, Start, Input 67] w \<and>
     run con_step w fs w' \<and> length fs \<le> 4 \<and> the_console w' = Some cs' \<and> 0 < cs_wsem cs'"
proof -
  obtain w where w: "run con_step (con_boot example_con []) [PutP 65, PutSend 65, PutPolled 66, Rx 67, Irq, Start, Input 67] w"
    using example_con_run by blast
  have "length (cs_gotchars example_con) = CONSOLE_INPUT_BUFFER_SIZE" by (simp add: example_con_def)
  from console_output_progress [OF this w] w show ?thesis by blast
qed



text \<open>
  Claim C28: \<^verbatim>\<open>kgets\<close> returns the line as edited. If what is typed ends a line, \<^verbatim>\<open>kgets\<close> returns; its buffer then holds,
  terminated, the line that the editing characters leave (erase, erase word, erase line, interrupt), of fewer than
  \<^verbatim>\<open>maxlen\<close> characters; nothing outside the buffer is written, and what was typed after the line is still to be read.
\<close>

theorem kgets_line:
  assumes "con_ok c" and "maxlen \<noteq> 0" and "10 \<in> set (con_in c) \<or> 13 \<in> set (con_in c)"
  shows "\<exists>l rest m' c'. edit_line (unat maxlen - 1) [] (con_in c) = Some (l, rest) \<and>
    kgets bp (putch polled) getch b maxlen m c = Some (m', c') \<and> con_ok c' \<and> con_in c' = rest \<and> cstr m' b l \<and>
    length l < unat maxlen \<and> (\<forall>x. x < b \<or> b + unat maxlen \<le> x \<longrightarrow> m' x = m x)"
proof -
  obtain r where "edit_line (unat maxlen - 1) [] (con_in c) = Some r"
    using edit_line_returns [OF assms(3), of "unat maxlen - 1" "[]"] by blast
  then obtain l rest where e: "edit_line (unat maxlen - 1) [] (con_in c) = Some (l, rest)" by (cases r) simp
  from con_dev.kgets_edit [where polled = polled and bp = bp and b = b and m = m, OF assms(1,2) e] e
  show ?thesis by (intro exI [of _ l] exI [of _ rest]) simp
qed

text \<open>Typing "ab", an erase and "c".\<close>

definition example_typed :: con_sys where
  "example_typed = \<lparr>the_console = Some example_con, the_lser = the_lser (con_boot example_con []), delayed_outbuf = [],
     typed = [97, 98, 8, 99, 10, 100]\<rparr>"

theorem kgets_line_witness:
  "\<exists>m' c'. kgets True (putch False) getch 0 8 (\<lambda>_. 1) example_typed = Some (m', c') \<and> cstr m' 0 [97, 99] \<and> con_in c' = [100]"
proof -
  have "ring example_con = []" by (simp add: ring_def ring_length_def example_con_def)
  then have ok: "con_ok example_typed" and i: "con_in example_typed = [97, 98, 8, 99, 10, 100]"
    by (simp_all add: con_ok_def con_in_def example_typed_def con_boot_def lser_ok_def ring_ok_def example_con_def)
  have e: "edit_line (unat (8 :: uint32) - 1) [] [97, 98, 8, 99, 10, 100] = Some ([97, 99], [100])"
    by (simp add: edit_char_def)
  have "10 \<in> set (con_in example_typed) \<or> 13 \<in> set (con_in example_typed)" using i by simp
  from kgets_line [OF ok _ this, of 8 True False 0 "\<lambda>_. 1"] show ?thesis unfolding i e by auto
qed

end
