(* ===== verification/Syscall.thy ===== *)
theory Syscall
  imports Boot Usermem Console
begin

unbundle bit_operations_syntax

text \<open>
  The system calls of \<^verbatim>\<open>kern/syscall\<close> with their dispatcher \<^verbatim>\<open>kern/arch/mips/syscall/syscall.c\<close> and the trap
  handler \<^verbatim>\<open>mips_trap\<close>. The state is the system state and the console. An access to user memory that ends
  the thread gives \<open>Gone\<close>; a trap or system call whose thread is gone gives no trap frame. The time of day
  read from the clock device and the interrupt handler are arguments.

  \<^verbatim>\<open>sys_read\<close> and \<^verbatim>\<open>sys_write\<close> use the program's pointer directly, as the source does, and so without the
  recovery address that the copy functions set.
\<close>

section \<open>System calls\<close>

definition errno_num :: "errno \<Rightarrow> uint32" where
  "errno_num e = (case e of ENOSYS \<Rightarrow> 1 | ENOMEM \<Rightarrow> 3 | EAGAIN \<Rightarrow> 4 | EFAULT \<Rightarrow> 6 | ENAMETOOLONG \<Rightarrow> 7 | EINVAL \<Rightarrow> 8
     | EPERM \<Rightarrow> 9 | ENOEXEC \<Rightarrow> 13 | E2BIG \<Rightarrow> 14 | ENOTDIR \<Rightarrow> 17 | EISDIR \<Rightarrow> 18 | ENOENT \<Rightarrow> 19 | ENOTEMPTY \<Rightarrow> 21
     | EEXIST \<Rightarrow> 22 | EXDEV \<Rightarrow> 24 | ENODEV \<Rightarrow> 25 | ENXIO \<Rightarrow> 26 | EBUSY \<Rightarrow> 27 | ENFILE \<Rightarrow> 29 | EIOCTL \<Rightarrow> 31 | EIO \<Rightarrow> 32
     | ESPIPE \<Rightarrow> 33 | ENOSPC \<Rightarrow> 36 | EFBIG \<Rightarrow> 38)"

primrec write_loop :: "'f vnode_ops \<Rightarrow> nat \<Rightarrow> vaddr \<Rightarrow> ('f, 'a) sys_st_scheme \<Rightarrow> con_sys \<Rightarrow>
    (unit access \<times> ('f, 'a) sys_st_scheme \<times> con_sys) option" where
  "write_loop vo 0 p s c = Some (Got (), s, c)"
| "write_loop vo (Suc n) p s c = do {
     (r, s) \<leftarrow> kload vo False p s;
     case r of Got b \<Rightarrow> do { c \<leftarrow> putch False b c; write_loop vo n (p + 1) s c }
     | Bad \<Rightarrow> Some (Bad, s, c) | Gone \<Rightarrow> Some (Gone, s, c) }"

definition sys_write :: "'f vnode_ops \<Rightarrow> uint32 \<Rightarrow> vaddr \<Rightarrow> uint32 \<Rightarrow> ('f, 'a) sys_st_scheme \<Rightarrow> con_sys \<Rightarrow>
    (int access \<times> ('f, 'a) sys_st_scheme \<times> con_sys) option" where
  "sys_write vo fd buf_ptr sz s c =
     (if fd \<noteq> 1 \<and> fd \<noteq> 2 then do {
        c \<leftarrow> kprintf_to (putch False) (ascii ''sys_write supported only to stdout'' @ [10]) [] c;
        Some (Got (- 1), s, c) }
      else do {
        (r, s, c) \<leftarrow> write_loop vo (nat (sint sz)) buf_ptr s c;
        Some (case r of Got _ \<Rightarrow> Got (sint sz) | Bad \<Rightarrow> Bad | Gone \<Rightarrow> Gone, s, c) })"

text \<open>
  The loop of \<^verbatim>\<open>sys_read\<close> gives the index at which it ends, at the latest after \<open>n\<close> more characters. The test
  \<^verbatim>\<open>p[i] < 0\<close> reads the byte back; \<^verbatim>\<open>char\<close> is signed.
\<close>

primrec read_loop :: "'f vnode_ops \<Rightarrow> nat \<Rightarrow> int \<Rightarrow> vaddr \<Rightarrow> ('f, 'a) sys_st_scheme \<Rightarrow> con_sys \<Rightarrow>
    (int access \<times> ('f, 'a) sys_st_scheme \<times> con_sys) option" where
  "read_loop vo 0 i p s c = Some (Got i, s, c)"
| "read_loop vo (Suc n) i p s c = do {
     (ch, c) \<leftarrow> getch c;
     (r, s) \<leftarrow> kstore vo False p ch s;
     case r of Got _ \<Rightarrow> do {
         (r, s) \<leftarrow> kload vo False p s;
         case r of Got b \<Rightarrow> if sint b < 0 then Some (Got i, s, c) else read_loop vo n (i + 1) (p + 1) s c
         | Bad \<Rightarrow> Some (Bad, s, c) | Gone \<Rightarrow> Some (Gone, s, c) }
     | Bad \<Rightarrow> Some (Bad, s, c) | Gone \<Rightarrow> Some (Gone, s, c) }"

definition sys_read :: "'f vnode_ops \<Rightarrow> uint32 \<Rightarrow> vaddr \<Rightarrow> uint32 \<Rightarrow> ('f, 'a) sys_st_scheme \<Rightarrow> con_sys \<Rightarrow>
    (int access \<times> ('f, 'a) sys_st_scheme \<times> con_sys) option" where
  "sys_read vo fd buf_ptr sz s c =
     (if fd \<noteq> 0 then do {
        c \<leftarrow> kprintf_to (putch False) (ascii ''sys_read supported only to stdin'' @ [10]) [] c;
        Some (Got (- 1), s, c) }
      else if sint sz < 0 then Some (Got (sint sz), s, c)
      else read_loop vo (nat (sint sz)) 0 buf_ptr s c)"

text \<open>\<^verbatim>\<open>struct timespec\<close> in memory: eight bytes of seconds, four of nanoseconds, the highest first.\<close>

definition word_bytes :: "nat \<Rightarrow> 'w::len word \<Rightarrow> byte list" where
  "word_bytes n w = map (\<lambda>i. ucast (drop_bit (8 * (n - 1 - i)) w)) [0..<n]"

definition sys___time :: "'f vnode_ops \<Rightarrow> uint64 \<times> uint32 \<Rightarrow> vaddr \<Rightarrow> vaddr \<Rightarrow> ('f, 'a) sys_st_scheme \<Rightarrow>
    ((errno + unit) access \<times> ('f, 'a) sys_st_scheme) option" where
  "sys___time vo ts user_seconds_ptr user_nanoseconds_ptr s = do {
     let km = mem_put (\<lambda>_. 0) 0 (word_bytes 8 (fst ts) @ word_bytes 4 (snd ts));
     (result, s) \<leftarrow> copyout vo 0 user_seconds_ptr 8 km s;
     if result \<noteq> Got (Inr ()) then Some (result, s)
     else copyout vo 8 user_nanoseconds_ptr 4 km s }"

text \<open>After the check of its argument the machine goes down.\<close>

definition sys_reboot :: "uint32 \<Rightarrow> (errno + unit) option" where
  "sys_reboot code = (if code = 0 \<or> code = 1 \<or> code = 2 then None else Some (Inl EINVAL))"

section \<open>The dispatcher and the trap handler\<close>

record trapframe =
  tf_vaddr :: uint32
  tf_status :: uint32
  tf_cause :: uint32
  tf_v0 :: uint32
  tf_a0 :: uint32
  tf_a1 :: uint32
  tf_a2 :: uint32
  tf_a3 :: uint32
  tf_epc :: uint32

abbreviation (input) SYS__exit :: uint32 where "SYS__exit \<equiv> 3"
abbreviation (input) SYS_read :: uint32 where "SYS_read \<equiv> 50"
abbreviation (input) SYS_write :: uint32 where "SYS_write \<equiv> 55"
abbreviation (input) SYS___time :: uint32 where "SYS___time \<equiv> 113"
abbreviation (input) SYS_reboot :: uint32 where "SYS_reboot \<equiv> 119"

text \<open>The \<^verbatim>\<open>switch\<close>: an error number, 0 when there is none, and the value returned.\<close>

definition syscall_switch :: "'f vnode_ops \<Rightarrow> uint64 \<times> uint32 \<Rightarrow> trapframe \<Rightarrow> ('f, 'a) sys_st_scheme \<Rightarrow> con_sys \<Rightarrow>
    ((uint32 \<times> uint32) access \<times> ('f, 'a) sys_st_scheme \<times> con_sys) option" where
  "syscall_switch vo ts tf s c =
     (if tf_v0 tf = SYS_reboot then do {
        err \<leftarrow> sys_reboot (tf_a0 tf);
        Some (Got (case err of Inl e \<Rightarrow> errno_num e | Inr _ \<Rightarrow> 0, 0), s, c) }
      else if tf_v0 tf = SYS___time then do {
        (err, s) \<leftarrow> sys___time vo ts (tf_a0 tf) (tf_a1 tf) s;
        Some (case err of Got (Inl e) \<Rightarrow> Got (errno_num e, 0) | Got (Inr _) \<Rightarrow> Got (0, 0) | Bad \<Rightarrow> Bad | Gone \<Rightarrow> Gone, s, c) }
      else if tf_v0 tf = SYS_write then do {
        (r, s, c) \<leftarrow> sys_write vo (tf_a0 tf) (tf_a1 tf) (tf_a2 tf) s c;
        Some (case r of Got retval \<Rightarrow> Got (if retval < 0 then errno_num ENOSYS else 0, word_of_int retval)
              | Bad \<Rightarrow> Bad | Gone \<Rightarrow> Gone, s, c) }
      else if tf_v0 tf = SYS_read then do {
        (r, s, c) \<leftarrow> sys_read vo (tf_a0 tf) (tf_a1 tf) (tf_a2 tf) s c;
        Some (case r of Got retval \<Rightarrow> Got (if retval < 0 then errno_num ENOSYS else 0, word_of_int retval)
              | Bad \<Rightarrow> Bad | Gone \<Rightarrow> Gone, s, c) }
      else if tf_v0 tf = SYS__exit then do {
        s \<leftarrow> sys__exit (sint (tf_a0 tf)) s;
        Some (Gone, s, c) }
      else do {
        c \<leftarrow> kprintf_to (putch False) (ascii ''Unknown syscall %d'' @ [10]) [Arg32 (tf_v0 tf)] c;
        Some (Got (errno_num ENOSYS, 0), s, c) })"

definition syscall :: "'f vnode_ops \<Rightarrow> uint64 \<times> uint32 \<Rightarrow> trapframe \<Rightarrow> ('f, 'a) sys_st_scheme \<Rightarrow> con_sys \<Rightarrow>
    (trapframe option \<times> ('f, 'a) sys_st_scheme \<times> con_sys) option" where
  "syscall vo ts tf s c = do {
     (r, s, c) \<leftarrow> syscall_switch vo ts tf s c;
     case r of
       Got (err, retval) \<Rightarrow>
         (let tf = (if err \<noteq> 0 then tf\<lparr>tf_v0 := err, tf_a3 := 1\<rparr> else tf\<lparr>tf_v0 := retval, tf_a3 := 0\<rparr>)
          in Some (Some (tf\<lparr>tf_epc := tf_epc tf + 4\<rparr>), s, c))
     | Bad \<Rightarrow> None
     | Gone \<Rightarrow> Some (None, s, c) }"

definition trapcodes :: "trapcode list" where
  "trapcodes = [EX_IRQ, EX_MOD, EX_TLBL, EX_TLBS, EX_ADEL, EX_ADES, EX_IBE, EX_DBE, EX_SYS, EX_BP, EX_RI, EX_CPU, EX_OVF]"

text \<open>
  \<^verbatim>\<open>mips_trap\<close>. \<open>badfaultfunc\<close> is \<^verbatim>\<open>tm_badfaultfunc\<close> of the thread, \<open>interrupt\<close> what \<^verbatim>\<open>mainbus_interrupt\<close> does.
\<close>

definition mips_trap :: "'f vnode_ops \<Rightarrow> uint64 \<times> uint32 \<Rightarrow> (con_sys \<Rightarrow> con_sys) \<Rightarrow> vaddr option \<Rightarrow> trapframe \<Rightarrow>
    ('f, 'a) sys_st_scheme \<Rightarrow> con_sys \<Rightarrow> (trapframe option \<times> ('f, 'a) sys_st_scheme \<times> con_sys) option" where
  "mips_trap vo ts interrupt badfaultfunc tf s c = do {
     let code = unat (drop_bit 2 (tf_cause tf AND 0x3c));
     let iskern = (tf_status tf AND 0x8 = 0);
     kassert (code < length trapcodes);
     if trapcodes ! code = EX_IRQ then Some (Some tf, s, interrupt c)
     else if trapcodes ! code = EX_SYS then syscall vo ts tf s c
     else do {
       (r, s) \<leftarrow> vm_trap vo iskern (badfaultfunc \<noteq> None) (trapcodes ! code) (tf_vaddr tf) s;
       Some (case r of Resume \<Rightarrow> Some tf
             | Recover \<Rightarrow> Some (tf\<lparr>tf_epc := the badfaultfunc\<rparr>)
             | Dead \<Rightarrow> None, s, c) } }"

section \<open>Reading and writing user memory\<close>

lemma write_loop_user:
  fixes s :: "('f, 'a) sys_st_scheme"
  assumes "sys_inv vo content s" and "curproc s = Some pid" and "user_bytes content s pid p bs" and "ready s p (length bs)"
    and "con_ok c"
  shows "\<exists>s' c'. write_loop vo (length bs) p s c = Some (Got (), s', c') \<and> sys_inv vo content s' \<and> same_sys content s s' \<and>
    con_ok c' \<and> con_out c' = con_out c @ bs \<and> con_in c' = con_in c"
  using assms
proof (induction bs arbitrary: p s c)
  case (Cons b bs)
  from Cons.prems(4) kload_step [OF Cons.prems(1-3), of False] obtain s1 where
    s1: "kload vo False p s = Some (Got b, s1)" "sys_inv vo content s1" "same_sys content s s1"
    "curproc s1 = Some pid" "user_bytes content s1 pid (p + 1) bs" "ready s1 (p + 1) (length bs)" by auto
  obtain c1 where c1: "putch False b c = Some c1" "con_ok c1" "con_out c1 = con_out c @ [b]" "con_in c1 = con_in c"
    using putch_ok [OF Cons.prems(5)] by blast
  from Cons.IH [OF s1(2,4-6) c1(2)] s1(1,3) c1 show ?case by (auto intro: same_sys_trans)
qed simp

lemma read_loop_user:
  fixes s :: "('f, 'a) sys_st_scheme"
  assumes "sys_inv vo content s" and "curproc s = Some pid" and "user_bytes content s pid p old"
    and "\<forall>i < length old. writable s (p + of_nat i)" and "ready s p (length old)"
    and "con_ok c" and "con_in c = bs @ rest" and "length bs = length old" and "\<forall>b \<in> set bs. 0 \<le> sint b"
  shows "\<exists>s' c'. read_loop vo (length old) i p s c = Some (Got (i + int (length old)), s', c') \<and> sys_inv vo content s' \<and>
    procs s' = procs s \<and> curproc s' = curproc s \<and> user_byte content s' = flat_put pid p bs (user_byte content s) \<and>
    con_ok c' \<and> con_out c' = con_out c \<and> con_in c' = rest"
  using assms
proof (induction old arbitrary: i p s c bs)
  case (Cons o1 old)
  obtain b bs' where bs: "bs = b # bs'" "length bs' = length old" "0 \<le> sint b" "\<forall>b \<in> set bs'. 0 \<le> sint b"
    using Cons.prems(8,9) by (cases bs) auto
  obtain c1 where c1: "getch c = Some (b, c1)" "con_ok c1" "con_out c1 = con_out c" "con_in c1 = bs' @ rest"
    using getch_ok [OF Cons.prems(6)] Cons.prems(7) bs(1) by auto
  from Cons.prems(5) kstore_step [OF Cons.prems(1-4), of False b] obtain s1 where
    s1: "kstore vo False p b s = Some (Got (), s1)" "sys_inv vo content s1" "procs s1 = procs s"
    "curproc s1 = Some pid" "user_bytes content s1 pid (p + 1) old" "\<forall>i < length old. writable s1 (p + 1 + of_nat i)"
    "user_byte content s1 = flat_store pid p b (user_byte content s)" "ready s1 (p + 1) (length old)"
    "tlb_lookup s1 p \<noteq> None" by auto
  have "user_byte content s1 pid p = Some b"
    using Cons.prems(3) by (simp add: s1(7) flat_store_def user_bytes_Cons)
  then have ld: "kload vo False p s1 = Some (Got b, s1)" using kload_hit [OF s1(2,4) _ s1(9)] by blast
  have "read_loop vo (Suc (length old)) i p s c = read_loop vo (length old) (i + 1) (p + 1) s1 c1"
    using c1(1) s1(1) ld bs(3) by simp
  moreover have "flat_put pid (p + 1) bs' (flat_store pid p b (user_byte content s)) = flat_put pid p bs (user_byte content s)"
  proof -
    have "unat (p + 1) = unat p + 1" if "bs' \<noteq> []"
      using user_bytes_range(1) [OF Cons.prems(1,3), of 1] that bs(2) by (cases old) auto
    then show ?thesis using Cons.prems(3) by (simp add: flat_put_Cons user_bytes_Cons bs(1))
  qed
  moreover note Cons.IH [OF s1(2,4-6,8) c1(2,4) bs(2,4), of "i + 1"]
  ultimately show ?case using s1(3,4,7) c1(3) Cons.prems(2) by (auto simp: algebra_simps)
qed simp

text \<open>A size that fits an \<^verbatim>\<open>int\<close>.\<close>

lemma size_sint: "unat sz = n \<Longrightarrow> n < 2 ^ 31 \<Longrightarrow> sint sz = int n" for sz :: uint32
proof -
  assume n: "unat sz = n" "n < 2 ^ 31"
  then have "uint sz = int n" by auto
  then have "sint sz = signed_take_bit 31 (int n)" by (simp add: sint_uint)
  also have "\<dots> = int n" using n(2) by (intro signed_take_bit_int_eq_self) auto
  finally show ?thesis .
qed

section \<open>Printing a number in a message\<close>



section \<open>An example\<close>

text \<open>The example program of \<open>Boot\<close> has four bytes of data at 0x500000.\<close>

lemma example_data:
  obtains s :: "byte list kern_st" and pr as where "sys_inv list_vnode_ops (\<lambda>f. f) s" and "curproc s = Some 1"
    and "has_table s 1 pr as 0" and "user_bytes (\<lambda>f. f) s 1 0x500000 [42, 43, 44, 45]"
    and "\<forall>i < 4. writable s (0x500000 + of_nat i)" and "ready s 0x500000 4"
    and "p_sem pr = Some 0" and "p_numthreads pr = 1" and "user_byte (\<lambda>f. f) s 1 0x600000 = None" and "tlb s = tlb_empty"
proof -
  obtain s :: "byte list kern_st" and pr as where r: "sys_inv list_vnode_ops (\<lambda>f. f) s" "curproc s = Some 1"
    "has_table s 1 pr as 0"
    "as = as_regions (phdr_segment (exe_phdr exe_example 0)) (phdr_segment (exe_phdr exe_example (Suc 0))) (Some 0)"
    "user_byte (\<lambda>f. f) s 1 = exe_byte exe_example (exe_phdr exe_example 0) (exe_phdr exe_example (Suc 0))"
    "p_sem pr = Some 0" "p_numthreads pr = 1" "has_room s" "tlb s = tlb_empty" by (rule example_run) blast
  have b: "user_byte (\<lambda>f. f) s (Suc 0) = exe_byte exe_example (exe_phdr exe_example 0) (exe_phdr exe_example (Suc 0))"
    using r(5) by simp
  have "user_bytes (\<lambda>f. f) s 1 0x500000 [42, 43, 44, 45]"
    by (simp add: user_bytes_Cons b, simp add: user_bytes_def exe_byte_def phdr_byte_def exe_example_phdr Let_def)
      (simp add: exe_example_def)
  moreover have as: "proc_getas s = Some as" using r(2,3) by (simp add: proc_getas_def has_table_def)
  have "as_get_segment_type as (0x500000 + of_nat i) = Some SEGMENT_DATA" if "i < 4" for i
  proof -
    have "i = 0 \<or> i = 1 \<or> i = 2 \<or> i = 3" using that by arith
    then show ?thesis
      by (elim disjE) (simp_all add: r(4) as_regions_def as_get_segment_type_def phdr_segment_def region_segment_def exe_example_phdr in_segment_def)
  qed
  then have "\<forall>i < 4. writable s (0x500000 + of_nat i)" using as by (simp add: writable_def)
  moreover have "ready s 0x500000 4" using r(8) by (simp add: ready_def one_page_def)
  moreover have "user_byte (\<lambda>f. f) s 1 0x600000 = None" using r(5) example_no_byte by simp
  ultimately show ?thesis using that r by blast
qed

section \<open>The calls\<close>


lemma syscall_got:
  "syscall_switch vo ts tf s c = Some (Got (err, retval), s', c') \<Longrightarrow>
    syscall vo ts tf s c = Some (Some (tf\<lparr>tf_v0 := if err \<noteq> 0 then err else retval, tf_a3 := of_bool (err \<noteq> 0),
      tf_epc := tf_epc tf + 4\<rparr>), s', c')"
  by (simp add: syscall_def)

lemma sys_write_user:
  fixes s :: "('f, 'a) sys_st_scheme"
  assumes "sys_inv vo content s" and "curproc s = Some pid" and "user_bytes content s pid p bs" and "ready s p (length bs)"
    and "con_ok c" and "fd = 1 \<or> fd = 2" and "unat sz = length bs" and "length bs < 2 ^ 31"
  shows "\<exists>s' c'. sys_write vo fd p sz s c = Some (Got (int (length bs)), s', c') \<and> sys_inv vo content s' \<and> same_sys content s s' \<and>
    con_ok c' \<and> con_out c' = con_out c @ bs \<and> con_in c' = con_in c"
proof -
  have sz: "sint sz = int (length bs)" by (rule size_sint [OF assms(7,8)])
  from write_loop_user [OF assms(1-5)] assms(6) show ?thesis by (auto simp: sys_write_def sz)
qed

lemma sys_read_user:
  fixes s :: "('f, 'a) sys_st_scheme"
  assumes "sys_inv vo content s" and "curproc s = Some pid" and "user_bytes content s pid p old"
    and "\<forall>i < length old. writable s (p + of_nat i)" and "ready s p (length old)"
    and "con_ok c" and "con_in c = bs @ rest" and "length bs = length old" and "\<forall>b \<in> set bs. 0 \<le> sint b"
    and "unat sz = length old" and "length old < 2 ^ 31"
  shows "\<exists>s' c'. sys_read vo 0 p sz s c = Some (Got (int (length old)), s', c') \<and> sys_inv vo content s' \<and>
    curproc s' = curproc s \<and> user_byte content s' = flat_put pid p bs (user_byte content s) \<and>
    con_ok c' \<and> con_out c' = con_out c \<and> con_in c' = rest"
proof -
  have sz: "sint sz = int (length old)" by (rule size_sint [OF assms(10,11)])
  from read_loop_user [OF assms(1-9), of 0] show ?thesis by (auto simp: sys_read_def sz)
qed




section \<open>Properties\<close>

text \<open>
  Claim C29: \<^verbatim>\<open>copyin\<close> reads the memory of the running process. For a non-empty range whose bytes the process has, on pages
  that may be in the executable, in the swap file or in memory, the copy returns 0 with exactly those
  bytes in the kernel's buffer, whenever it returns at all, and it does return if the range is on one page and there is
  room for a page. The invariant is kept and no process's memory changes.
\<close>

theorem copyin_user:
  fixes s :: "('f, 'a) sys_st_scheme"
  assumes "sys_inv vo content s" and "curproc s = Some pid" and "user_bytes content s pid usersrc bs" and "bs \<noteq> []"
    and "unat len = length bs" and "ready s usersrc (length bs) \<or> copyin vo usersrc dest len km s \<noteq> None"
  shows "\<exists>s'. copyin vo usersrc dest len km s = Some (Got (Inr ()), mem_put km dest bs, s') \<and> sys_inv vo content s' \<and>
    same_sys content s s'"
proof -
  note chk = user_bytes_copycheck [OF assms(1,3-5)]
  have "ready s usersrc (length bs) \<or> load_loop vo (length bs) usersrc dest km s \<noteq> None"
    using assms(6) chk by (cases "load_loop vo (length bs) usersrc dest km s") (simp_all add: copyin_def assms(5))
  from load_loop_user [OF assms(1-3) this] chk show ?thesis by (auto simp: copyin_def assms(5))
qed

theorem copyin_user_witness:
  "\<exists>s s' :: byte list kern_st. copyin list_vnode_ops 0x500000 8 4 (\<lambda>_. 0) s =
     Some (Got (Inr ()), mem_put (\<lambda>_. 0) 8 [42, 43, 44, 45], s') \<and> tlb s = tlb_empty"
proof -
  obtain s :: "byte list kern_st" where s: "sys_inv list_vnode_ops (\<lambda>f. f) s" "curproc s = Some 1"
    "user_bytes (\<lambda>f. f) s 1 0x500000 [42, 43, 44, 45]" "ready s 0x500000 4" "tlb s = tlb_empty"
    by (rule example_data) blast
  have "ready s 0x500000 (length [42, 43, 44, 45 :: byte]) \<or> copyin list_vnode_ops 0x500000 8 4 (\<lambda>_. 0) s \<noteq> None"
    using s(4) by (simp add: eval_nat_numeral)
  from copyin_user [OF s(1-3) _ _ this] s(5) show ?thesis by auto
qed

text \<open>
  Claim C30: what \<^verbatim>\<open>copyout\<close> writes, \<^verbatim>\<open>copyin\<close> reads back. Copying bytes of the kernel to a writable range of the running process
  replaces exactly these bytes of this process, keeps the invariant, and leaves a state in
  which \<^verbatim>\<open>copyin\<close> from the range returns the same bytes.
\<close>

theorem copyout_copyin:
  fixes s :: "('f, 'a) sys_st_scheme"
  assumes "sys_inv vo content s" and "curproc s = Some pid" and "user_bytes content s pid va old" and "old \<noteq> []"
    and "unat len = length old" and "\<forall>i < length old. writable s (va + of_nat i)" and "ready s va (length old)"
  shows "\<exists>s' s''. copyout vo src va len km s = Some (Got (Inr ()), s') \<and> sys_inv vo content s' \<and>
    user_byte content s' = flat_put pid va (mem_get km src (unat len)) (user_byte content s) \<and>
    copyin vo va dest len km' s' = Some (Got (Inr ()), mem_put km' dest (mem_get km src (unat len)), s'')"
proof -
  let ?bs = "mem_get km src (length old)"
  note chk = user_bytes_copycheck [OF assms(1,3-5)]
  obtain s' where s': "store_loop vo (length old) va src km s = Some (Got (), s')" "sys_inv vo content s'"
    "curproc s' = curproc s" "user_byte content s' = flat_put pid va ?bs (user_byte content s)"
    using store_loop_user [OF assms(1-3,6) disjI1 [OF assms(7)]] by blast
  have "user_bytes content s' pid va ?bs"
    unfolding user_bytes_def s'(4) flat_put_def using user_bytes_range(1) [OF assms(1,3)] by simp
  moreover have "ready s' va (length ?bs)" using store_loop_ready [OF assms(1-3,6,7) s'(1)] by simp
  moreover have "curproc s' = Some pid" using s'(3) assms(2) by simp
  ultimately obtain s'' where "load_loop vo (length ?bs) va dest km' s' = Some (Got (), mem_put km' dest ?bs, s'')"
    using load_loop_user [OF s'(2), of pid va ?bs dest km'] by blast
  with s' chk show ?thesis by (auto simp: copyout_def copyin_def assms(5))
qed

theorem copyout_copyin_witness:
  "\<exists>s s' s'' :: byte list kern_st. copyout list_vnode_ops 0 0x500000 4 (\<lambda>x. of_nat x) s = Some (Got (Inr ()), s') \<and>
     copyin list_vnode_ops 0x500000 0 4 (\<lambda>_. 9) s' = Some (Got (Inr ()), mem_put (\<lambda>_. 9) 0 [0, 1, 2, 3], s'')"
proof -
  obtain s :: "byte list kern_st" where s: "sys_inv list_vnode_ops (\<lambda>f. f) s" "curproc s = Some 1"
    "user_bytes (\<lambda>f. f) s 1 0x500000 [42, 43, 44, 45]" "\<forall>i < 4. writable s (0x500000 + of_nat i)" "ready s 0x500000 4"
    by (rule example_data) blast
  have "\<forall>i < length [42, 43, 44, 45 :: byte]. writable s (0x500000 + of_nat i)" "ready s 0x500000 (length [42, 43, 44, 45 :: byte])"
    using s(4,5) by (simp_all add: eval_nat_numeral)
  moreover have "mem_get (\<lambda>x. of_nat x) 0 4 = [0, 1, 2, 3 :: byte]" by (simp add: mem_get_def upt_rec)
  ultimately show ?thesis
    using copyout_copyin [OF s(1-3), where len = 4 and src = 0 and km = "\<lambda>x. of_nat x" and dest = 0 and km' = "\<lambda>_. 9"]
    by auto
qed

text \<open>
  Claim C31: the copy functions never go outside user memory, and refuse empty copies. \<^verbatim>\<open>copyin\<close> and \<^verbatim>\<open>copyout\<close> of any range that is
  empty or does not lie wholly below \<^verbatim>\<open>USERSPACETOP\<close>, one whose end wraps around included, return \<^verbatim>\<open>EFAULT\<close> at once
  and change nothing; every other range is accepted as it is.
\<close>

theorem copy_range_checked:
  "copyin vo p d len km s =
     (if len = 0 \<or> unat p + unat len > 2 ^ 31 then Some (Got (Inl EFAULT), km, s)
      else do { (r, km, s) \<leftarrow> load_loop vo (unat len) p d km s;
                Some (case r of Got _ \<Rightarrow> Got (Inr ()) | Bad \<Rightarrow> Got (Inl EFAULT) | Gone \<Rightarrow> Gone, km, s) }) \<and>
   copyout vo d p len km s =
     (if len = 0 \<or> unat p + unat len > 2 ^ 31 then Some (Got (Inl EFAULT), s)
      else do { (r, s) \<leftarrow> store_loop vo (unat len) p d km s;
                Some (case r of Got _ \<Rightarrow> Got (Inr ()) | Bad \<Rightarrow> Got (Inl EFAULT) | Gone \<Rightarrow> Gone, s) })"
proof -
  have "copycheck p len \<noteq> Inr len" if "len = 0 \<or> unat p + unat len > 2 ^ 31"
    using that copycheck_bounds [of p len] by (cases "len = 0") (auto simp: copycheck_eq)
  moreover have "copycheck p len = Inr len" if "\<not> (len = 0 \<or> unat p + unat len > 2 ^ 31)"
  proof -
    have "0 < unat len" using that by (simp add: unat_gt_0)
    then have "\<not> USERSPACETOP \<le> p" using that by (simp add: word_le_nat_alt)
    with that show ?thesis by (simp add: copycheck_eq)
  qed
  moreover have "e = EFAULT" if "copycheck p len = Inl e" for e
    using that by (auto simp: copycheck_eq split: if_splits)
  ultimately show ?thesis
    by (cases "len = 0 \<or> unat p + unat len > 2 ^ 31") (auto simp: copyin_def copyout_def split: sum.split)
qed

text \<open>
  Claim C32: a bad pointer ends the process instead of giving \<^verbatim>\<open>EFAULT\<close>. When the range passes the check but its first byte
  is outside the segments of the process (or, for \<^verbatim>\<open>copyout\<close>, on a read-only page), the thread is
  gone: the process has ended with status 255.
\<close>

theorem copy_bad_address:
  fixes s :: "('f, 'a) sys_st_scheme"
  assumes "sys_inv vo content s" and "curproc s = Some pid" and "has_table s pid pr as t"
    and "0 < p_numthreads pr" and "p_sem pr = Some n" and "len \<noteq> 0" and "unat va + unat len \<le> 2 ^ 31"
    and "user_byte content s pid va = None" and "tlb_lookup s va = None"
  shows "copyin vo va d len km s = Some (Gone, km, killed pid pr n s) \<and>
    copyout vo d va len km s = Some (Gone, killed pid pr n s)"
proof -
  have pos: "0 < unat len" using assms(6) by (simp add: unat_gt_0)
  then have va: "va < MIPS_KSEG0" using assms(7) by (simp add: word_less_nat_alt)
  then have chk: "copycheck va len = Inr len" using assms(6,7) by (simp add: copycheck_eq)
  have "load_loop vo (unat len) va d km s = Some (Gone, km, killed pid pr n s)"
    by (rule load_loop_bad [OF assms(1-5) va assms(8,9) pos])
  moreover have "store_loop vo (unat len) va d km s = Some (Gone, killed pid pr n s)"
    by (rule store_loop_bad [OF assms(1-5) va _ pos]) (simp add: assms(8,9))
  ultimately show ?thesis by (simp add: copyin_def copyout_def chk)
qed

theorem copy_bad_address_witness:
  "\<exists>s s' :: byte list kern_st. copyin list_vnode_ops 0x600000 0 4 (\<lambda>_. 0) s = Some (Gone, (\<lambda>_. 0), s') \<and>
     map_option status (procs s' 1) = Some 255 \<and> curproc s' = None"
proof -
  obtain s :: "byte list kern_st" and pr as where s: "sys_inv list_vnode_ops (\<lambda>f. f) s" "curproc s = Some 1"
    "has_table s 1 pr as 0" "p_sem pr = Some 0" "p_numthreads pr = 1" "user_byte (\<lambda>f. f) s 1 0x600000 = None"
    "tlb s = tlb_empty" by (rule example_data) blast
  have "0 < p_numthreads pr" using s(5) by simp
  from copy_bad_address [OF s(1-3) this s(4) _ _ s(6) tlb_lookup_empty [OF s(7)], of 4 0 "\<lambda>_. 0"]
  have "copyin list_vnode_ops 0x600000 0 4 (\<lambda>_. 0) s = Some (Gone, (\<lambda>_. 0), killed 1 pr 0 s)" by simp
  then show ?thesis by (intro exI conjI, assumption) (simp_all add: killed_def)
qed

text \<open>
  Claim C33: \<^verbatim>\<open>write\<close> prints the program's bytes. When the running program calls \<^verbatim>\<open>write\<close> on standard output or standard error
  with a buffer of its memory (on one page, with room to load it), the console shows exactly these bytes, the call
  returns their number with no error, the program resumes after the instruction, and no memory changes.
\<close>

theorem write_call:
  fixes s :: "('f, 'a) sys_st_scheme"
  assumes "sys_inv vo content s" and "curproc s = Some pid" and "user_bytes content s pid (tf_a1 tf) bs"
    and "ready s (tf_a1 tf) (length bs)" and "con_ok c" and "tf_v0 tf = SYS_write" and "tf_a0 tf = 1 \<or> tf_a0 tf = 2"
    and "unat (tf_a2 tf) = length bs" and "length bs < 2 ^ 31"
  shows "\<exists>s' c'. syscall vo ts tf s c =
      Some (Some (tf\<lparr>tf_v0 := tf_a2 tf, tf_a3 := 0, tf_epc := tf_epc tf + 4\<rparr>), s', c') \<and>
    sys_inv vo content s' \<and> same_sys content s s' \<and> con_ok c' \<and> con_out c' = con_out c @ bs \<and> con_in c' = con_in c"
proof -
  obtain s' c' where w: "sys_write vo (tf_a0 tf) (tf_a1 tf) (tf_a2 tf) s c = Some (Got (int (length bs)), s', c')"
    "sys_inv vo content s'" "same_sys content s s'" "con_ok c'" "con_out c' = con_out c @ bs" "con_in c' = con_in c"
    using sys_write_user [OF assms(1-5,7-9)] by blast
  have "word_of_int (int (length bs)) = tf_a2 tf" by (simp flip: assms(8))
  with w have "syscall_switch vo ts tf s c = Some (Got (0, tf_a2 tf), s', c')" by (simp add: syscall_switch_def assms(6))
  from syscall_got [OF this] w show ?thesis by simp
qed

definition example_tf :: "uint32 \<Rightarrow> uint32 \<Rightarrow> uint32 \<Rightarrow> uint32 \<Rightarrow> trapframe" where
  "example_tf v0 a0 a1 a2 = \<lparr>tf_vaddr = 0, tf_status = 8, tf_cause = 32, tf_v0 = v0, tf_a0 = a0, tf_a1 = a1, tf_a2 = a2,
     tf_a3 = 0, tf_epc = 0x400000\<rparr>"

definition example_console :: "byte list \<Rightarrow> con_sys" where
  "example_console t = \<lparr>the_console = Some example_con, the_lser = the_lser (con_boot example_con []), delayed_outbuf = [],
     typed = t\<rparr>"

lemma example_console:
  "con_ok (example_console t)" "con_in (example_console t) = t" "con_out (example_console t) = []"
proof -
  have "ring example_con = []" by (simp add: ring_def ring_length_def example_con_def)
  then show "con_ok (example_console t)" "con_in (example_console t) = t" "con_out (example_console t) = []"
    by (simp_all add: con_ok_def con_in_def con_out_def example_console_def con_boot_def lser_ok_def ring_ok_def example_con_def)
qed

theorem write_call_witness:
  "\<exists>(s :: byte list kern_st) tf s' c'. syscall list_vnode_ops (0, 0) (example_tf SYS_write 1 0x500000 4) s (example_console []) =
     Some (Some tf, s', c') \<and> tf_v0 tf = 4 \<and> tf_a3 tf = 0 \<and> tf_epc tf = 0x400004 \<and> con_out c' = [42, 43, 44, 45]"
proof -
  obtain s :: "byte list kern_st" where s: "sys_inv list_vnode_ops (\<lambda>f. f) s" "curproc s = Some 1"
    "user_bytes (\<lambda>f. f) s 1 0x500000 [42, 43, 44, 45]" "ready s 0x500000 4" by (rule example_data) blast
  let ?tf = "example_tf SYS_write 1 0x500000 4"
  have u: "user_bytes (\<lambda>f. f) s 1 (tf_a1 ?tf) [42, 43, 44, 45]" "ready s (tf_a1 ?tf) (length [42, 43, 44, 45 :: byte])"
    using s(3,4) by (simp_all add: example_tf_def eval_nat_numeral)
  have t: "tf_v0 ?tf = SYS_write" "tf_a0 ?tf = 1 \<or> tf_a0 ?tf = 2" "unat (tf_a2 ?tf) = length [42, 43, 44, 45 :: byte]"
    by (simp_all add: example_tf_def)
  obtain s' c' where r: "syscall list_vnode_ops (0, 0) ?tf s (example_console []) =
      Some (Some (?tf\<lparr>tf_v0 := tf_a2 ?tf, tf_a3 := 0, tf_epc := tf_epc ?tf + 4\<rparr>), s', c')" "con_out c' = [42, 43, 44, 45]"
    using write_call [OF s(1,2) u example_console(1) [of "[]"] t, where ts = "(0, 0)"] by (auto simp: example_console)
  show ?thesis by (intro exI conjI, rule r(1)) (simp_all add: example_tf_def r(2))
qed

text \<open>
  Claim C34: \<^verbatim>\<open>read\<close> stores what is typed. When the running program calls \<^verbatim>\<open>read\<close> on standard input with a writable
  buffer and at least that many 7-bit characters are typed, they replace the buffer's bytes, in order, in this process
  only; the call returns the size and the rest of the input stays unread.
\<close>

theorem read_call:
  fixes s :: "('f, 'a) sys_st_scheme"
  assumes "sys_inv vo content s" and "curproc s = Some pid" and "user_bytes content s pid (tf_a1 tf) old"
    and "\<forall>i < length old. writable s (tf_a1 tf + of_nat i)" and "ready s (tf_a1 tf) (length old)"
    and "con_ok c" and "con_in c = bs @ rest" and "length bs = length old" and "\<forall>b \<in> set bs. b < 128"
    and "tf_v0 tf = SYS_read" and "tf_a0 tf = 0" and "unat (tf_a2 tf) = length old" and "length old < 2 ^ 31"
  shows "\<exists>s' c'. syscall vo ts tf s c =
      Some (Some (tf\<lparr>tf_v0 := tf_a2 tf, tf_a3 := 0, tf_epc := tf_epc tf + 4\<rparr>), s', c') \<and>
    sys_inv vo content s' \<and> curproc s' = curproc s \<and> user_byte content s' = flat_put pid (tf_a1 tf) bs (user_byte content s) \<and>
    con_ok c' \<and> con_out c' = con_out c \<and> con_in c' = rest"
proof -
  have "0 \<le> sint b" if "b \<in> set bs" for b
  proof -
    have "uint b < 128" using assms(9) that by (auto simp: word_less_def)
    then have "signed_take_bit 7 (uint b) = uint b" by (intro signed_take_bit_int_eq_self) (auto intro: order_trans [OF _ uint_ge_0])
    then show ?thesis by (simp add: sint_uint)
  qed
  then have "\<forall>b \<in> set bs. 0 \<le> sint b" by blast
  from sys_read_user [OF assms(1-8) this assms(12,13)] obtain s' c' where
    w: "sys_read vo (tf_a0 tf) (tf_a1 tf) (tf_a2 tf) s c = Some (Got (int (length old)), s', c')"
    "sys_inv vo content s'" "curproc s' = curproc s" "user_byte content s' = flat_put pid (tf_a1 tf) bs (user_byte content s)"
    "con_ok c'" "con_out c' = con_out c" "con_in c' = rest" unfolding assms(11) by blast
  have "word_of_int (int (length old)) = tf_a2 tf" by (simp flip: assms(12))
  with w have "syscall_switch vo ts tf s c = Some (Got (0, tf_a2 tf), s', c')" by (simp add: syscall_switch_def assms(10))
  from syscall_got [OF this] w show ?thesis by simp
qed

theorem read_call_witness:
  "\<exists>(s :: byte list kern_st) tf s' c'. syscall list_vnode_ops (0, 0) (example_tf SYS_read 0 0x500000 4) s
     (example_console [97, 98, 99, 100, 101]) = Some (Some tf, s', c') \<and> tf_v0 tf = 4 \<and> con_in c' = [101] \<and>
     user_byte (\<lambda>f. f) s' 1 0x500001 = Some 98"
proof -
  obtain s :: "byte list kern_st" where s: "sys_inv list_vnode_ops (\<lambda>f. f) s" "curproc s = Some 1"
    "user_bytes (\<lambda>f. f) s 1 0x500000 [42, 43, 44, 45]" "\<forall>i < 4. writable s (0x500000 + of_nat i)" "ready s 0x500000 4"
    by (rule example_data) blast
  let ?tf = "example_tf SYS_read 0 0x500000 4" let ?old = "[42, 43, 44, 45 :: byte]"
  have u: "user_bytes (\<lambda>f. f) s 1 (tf_a1 ?tf) ?old" "\<forall>i < length ?old. writable s (tf_a1 ?tf + of_nat i)"
    "ready s (tf_a1 ?tf) (length ?old)" using s(3-5) by (simp_all add: example_tf_def eval_nat_numeral)
  have t: "con_in (example_console [97, 98, 99, 100, 101]) = [97, 98, 99, 100] @ [101]"
    "length [97, 98, 99, 100 :: byte] = length ?old" "\<forall>b \<in> set [97, 98, 99, 100 :: byte]. b < 128"
    "tf_v0 ?tf = SYS_read" "tf_a0 ?tf = 0" "unat (tf_a2 ?tf) = length ?old" "length ?old < 2 ^ 31"
    by (simp_all add: example_tf_def example_console)
  obtain s' c' where r: "syscall list_vnode_ops (0, 0) ?tf s (example_console [97, 98, 99, 100, 101]) =
      Some (Some (?tf\<lparr>tf_v0 := tf_a2 ?tf, tf_a3 := 0, tf_epc := tf_epc ?tf + 4\<rparr>), s', c')"
    "user_byte (\<lambda>f. f) s' = flat_put 1 (tf_a1 ?tf) [97, 98, 99, 100] (user_byte (\<lambda>f. f) s)" "con_in c' = [101]"
    using read_call [OF s(1,2) u example_console(1) t, where ts = "(0, 0)"] by blast
  show ?thesis by (intro exI conjI, rule r(1)) (simp_all add: example_tf_def r(2,3) flat_put_def)
qed





end
