(* ===== verification/Kpages.thy ===== *)
theory Kpages
  imports Paging
begin

text \<open>
  Kernel memory as the kernel heap sees it: pages from \<^verbatim>\<open>alloc_kpages\<close> and
  \<^verbatim>\<open>free_kpages\<close>, and 32-bit loads and stores through the direct-mapped segment
  \<^verbatim>\<open>kseg0\<close>. The interface is the record \<open>page_ops\<close>, its contract the locale
  \<open>page_layer\<close>, and the virtual memory system is an interpretation of it.
\<close>

section \<open>The interface\<close>

record 's page_ops =
  po_alloc :: "nat \<Rightarrow> 's \<Rightarrow> (vaddr \<times> 's) option"
  po_free :: "vaddr \<Rightarrow> 's \<Rightarrow> 's option"
  po_load :: "vaddr \<Rightarrow> 's \<Rightarrow> uint32 option"
  po_store :: "vaddr \<Rightarrow> uint32 \<Rightarrow> 's \<Rightarrow> 's option"

text \<open>
  Addresses of the contract are natural numbers. A block is its address and its number of
  pages; \<open>mem\<close> is the word at an aligned address, \<open>view\<close> what the rest of the system sees.
\<close>

definition span :: "nat \<times> nat \<Rightarrow> nat set" where
  "span b = {fst b..<fst b + snd b * PAGE_SIZE}"

definition disjoint_from :: "nat \<times> nat \<Rightarrow> (nat \<times> nat) set \<Rightarrow> bool" where
  "disjoint_from b B \<longleftrightarrow> (\<forall>c \<in> B. span b \<inter> span c = {})"

definition same_words :: "(nat \<Rightarrow> uint32) \<Rightarrow> (nat \<Rightarrow> uint32) \<Rightarrow> (nat \<times> nat) set \<Rightarrow> bool" where
  "same_words m m' B \<longleftrightarrow> (\<forall>b \<in> B. \<forall>a \<in> span b. a mod 4 = 0 \<longrightarrow> m' a = m a)"

locale page_layer =
  fixes po :: "'s page_ops" and ok :: "'s \<Rightarrow> bool" and blocks :: "'s \<Rightarrow> (nat \<times> nat) set"
    and mem :: "'s \<Rightarrow> nat \<Rightarrow> uint32" and view :: "'s \<Rightarrow> 'v"
  assumes alloc: "ok s \<Longrightarrow> 0 < n \<Longrightarrow> n < 2 ^ 20 \<Longrightarrow> po_alloc po n s = Some (va, s') \<Longrightarrow>
      ok s' \<and> blocks s' = insert (unat va, n) (blocks s) \<and> disjoint_from (unat va, n) (blocks s) \<and>
      same_words (mem s) (mem s') (blocks s) \<and> view s' = view s"
    and free: "ok s \<Longrightarrow> (a, n) \<in> blocks s \<Longrightarrow> \<exists>s'. po_free po (of_nat a) s = Some s' \<and> ok s' \<and>
      blocks s' = blocks s - {(a, n)} \<and> mem s' = mem s \<and> view s' = view s"
    and load: "ok s \<Longrightarrow> b \<in> blocks s \<Longrightarrow> a \<in> span b \<Longrightarrow> a mod 4 = 0 \<Longrightarrow>
      po_load po (of_nat a) s = Some (mem s a)"
    and store: "ok s \<Longrightarrow> b \<in> blocks s \<Longrightarrow> a \<in> span b \<Longrightarrow> a mod 4 = 0 \<Longrightarrow>
      \<exists>s'. po_store po (of_nat a) v s = Some s' \<and> ok s' \<and> blocks s' = blocks s \<and>
        mem s' = (mem s)(a := v) \<and> view s' = view s"
    and block: "ok s \<Longrightarrow> (a, n) \<in> blocks s \<Longrightarrow>
      0 < n \<and> a mod PAGE_SIZE = 0 \<and> unat MIPS_KSEG0 \<le> a \<and> a + n * PAGE_SIZE < 2 ^ 32"
    and apart: "ok s \<Longrightarrow> b \<in> blocks s \<Longrightarrow> c \<in> blocks s \<Longrightarrow> b \<noteq> c \<Longrightarrow> span b \<inter> span c = {}"

section \<open>The virtual memory system\<close>

text \<open>
  A word in \<^verbatim>\<open>kseg0\<close> (big-endian). An unaligned address traps, an address outside \<^verbatim>\<open>kseg0\<close> or
  past the end of the installed memory is not a kernel object's.
\<close>

definition kseg0_word :: "('f, 'a) vm_st_scheme \<Rightarrow> vaddr \<Rightarrow> bool" where
  "kseg0_word s va \<longleftrightarrow> MIPS_KSEG0 \<le> va \<and> unat va mod 4 = 0 \<and>
     unat (KVADDR_TO_PADDR va) < length (coremap s) * PAGE_SIZE"

definition ram_word :: "(nat \<Rightarrow> byte) \<Rightarrow> nat \<Rightarrow> uint32" where
  "ram_word m a = word_cat (word_cat (m a) (m (a + 1)) :: 16 word) (word_cat (m (a + 2)) (m (a + 3)) :: 16 word)"

definition set_ram_word :: "nat \<Rightarrow> uint32 \<Rightarrow> (nat \<Rightarrow> byte) \<Rightarrow> nat \<Rightarrow> byte" where
  "set_ram_word a v m = m(a := ucast (drop_bit 24 v), a + 1 := ucast (drop_bit 16 v),
     a + 2 := ucast (drop_bit 8 v), a + 3 := ucast v)"

definition kload_word :: "vaddr \<Rightarrow> ('f, 'a) vm_st_scheme \<Rightarrow> uint32 option" where
  "kload_word va s = do { kassert (kseg0_word s va); Some (ram_word (ram s) (unat (KVADDR_TO_PADDR va))) }"

definition kstore_word :: "vaddr \<Rightarrow> uint32 \<Rightarrow> ('f, 'a) vm_st_scheme \<Rightarrow> ('f, 'a) vm_st_scheme option" where
  "kstore_word va v s = do {
     kassert (kseg0_word s va);
     Some (s\<lparr>ram := set_ram_word (unat (KVADDR_TO_PADDR va)) v (ram s)\<rparr>)
   }"

definition vm_pages :: "'f vnode_ops \<Rightarrow> ('f, 'a) vm_st_scheme page_ops" where
  "vm_pages vo = \<lparr>po_alloc = alloc_kpages vo, po_free = free_kpages, po_load = kload_word, po_store = kstore_word\<rparr>"

text \<open>The blocks of the kernel, the words of its memory and what user programs see.\<close>

definition kernel_blocks :: "('f, 'a) vm_st_scheme \<Rightarrow> (nat \<times> nat) set" where
  "kernel_blocks s = {(unat MIPS_KSEG0 + b * PAGE_SIZE, cm_size_alloc (coremap s ! b)) | b. kernel_block s b}"

definition kernel_word :: "('f, 'a) vm_st_scheme \<Rightarrow> nat \<Rightarrow> uint32" where
  "kernel_word s a = (if unat MIPS_KSEG0 \<le> a \<and> a mod 4 = 0 then ram_word (ram s) (a - unat MIPS_KSEG0) else 0)"

section \<open>Words\<close>

lemma ram_word_set: "ram_word (set_ram_word a v m) a = v"
  unfolding ram_word_def set_ram_word_def by (intro bit_eqI) (auto simp: bit_word_cat_iff bit_simps)

lemma ram_word_other:
  assumes "a mod 4 = 0" and "c mod 4 = 0" and "a \<noteq> c"
  shows "ram_word (set_ram_word a v m) c = ram_word m c"
proof -
  have "c + i \<noteq> a + j" if "i < 4" "j < 4" for i j
    using assms that by presburger
  from this [of 0 0] this [of 0 1] this [of 0 2] this [of 0 3] this [of 1 0] this [of 1 1] this [of 1 2] this [of 1 3]
    this [of 2 0] this [of 2 1] this [of 2 2] this [of 2 3] this [of 3 0] this [of 3 1] this [of 3 2] this [of 3 3]
  show ?thesis by (simp add: ram_word_def set_ram_word_def)
qed

lemma same_page_word: "x mod 4 = 0 \<Longrightarrow> i < 4 \<Longrightarrow> (x + i) div PAGE_SIZE = (x :: nat) div PAGE_SIZE"
  using div_mult2_eq [of "x + i" 4 1024] div_mult2_eq [of x 4 1024] div_add1_eq [of x i 4] by simp

lemma ram_word_cong:
  assumes "\<And>i. i < 4 \<Longrightarrow> m' (a + i) = m (a + i)"
  shows "ram_word m' a = ram_word m a"
  using assms [of 0] assms [of 1] assms [of 2] assms [of 3] by (simp add: ram_word_def)

section \<open>The contract holds\<close>

lemma tlb_remove_ram:
  fixes s :: "('f, 'a) vm_st_scheme"
  assumes "tlb_remove_by_paddr pa s = Some s'"
  shows "ram s' = ram s"
proof -
  have "ram (tlb_remove_loop pa i s) = ram s" for i
    by (induction pa i s rule: tlb_remove_loop.induct)
      (subst tlb_remove_loop.simps, simp add: tlb_write_def split: prod.split)
  with assms show ?thesis by (auto simp: tlb_remove_by_paddr_def elim!: bind_eq_SomeE)
qed

lemma get_victim_ram: "coremap_get_victim_loop n s = Some (i, s') \<Longrightarrow> ram s' = ram s"
  by (induction n arbitrary: s) (auto simp: Let_def split: if_splits elim!: bind_eq_SomeE)

lemma pt_set_ram: "pt_set p pa i st s = Some s' \<Longrightarrow> ram s' = ram s"
  by (auto simp: pt_set_def elim!: bind_eq_SomeE)

lemma swap_out_ram: "swap_out vo pa s = Some (i, s') \<Longrightarrow> ram s' = ram s"
  by (auto simp: swap_out_def vmstats_hit_def Let_def split: sum.splits prod.splits elim!: bind_eq_SomeE)

lemma swapout_ram: "coremap_swapout vo n s = Some (i, s') \<Longrightarrow> ram s' = ram s"
  by (auto simp: coremap_swapout_def coremap_get_victim_def Let_def cm_set_lock_def split: if_splits
      elim!: bind_eq_SomeE dest!: get_victim_ram pt_set_ram swap_out_ram tlb_remove_ram)

text \<open>The frames of the block at frame \<open>b\<close>; blocks do not overlap.\<close>

definition frames_of :: "('f, 'a) vm_st_scheme \<Rightarrow> nat \<Rightarrow> nat set" where
  "frames_of s b = {b..<b + cm_size_alloc (coremap s ! b)}"

lemma frames_apart:
  assumes "frames_ok (coremap s)" and "b < length (coremap s)" and "c < length (coremap s)"
    and "0 < cm_size_alloc (coremap s ! b)" and "0 < cm_size_alloc (coremap s ! c)" and "b \<noteq> c"
  shows "frames_of s b \<inter> frames_of s c = {}"
proof -
  have "\<not> (b < c \<and> c < b + cm_size_alloc (coremap s ! b))" "\<not> (c < b \<and> b < c + cm_size_alloc (coremap s ! c))"
    using frames_ok_block(2) [OF assms(1,2,4), of c] frames_ok_block(2) [OF assms(1,3,5), of b] assms(4,5) by auto
  with assms(6) show ?thesis by (auto simp: frames_of_def)
qed

lemma not_owned_kernel:
  assumes "cm_ok s" and "owners_ok None s" and "kernel_block s b" and "f \<in> frames_of s b"
  shows "\<not> owned s f p"
proof
  assume o: "owned s f p"
  have kb: "b < length (coremap s)" "0 < cm_size_alloc (coremap s ! b)" "cm_ptentry (coremap s ! b) = None"
    using assms(3) by (simp_all add: kernel_block_def)
  have "frames_ok (coremap s)" using assms(1) by (simp add: cm_ok_def)
  from frames_ok_block(2) [OF this kb(1,2), of f] assms(4) o kb(3) owners_okD(1) [OF assms(2) o]
  show False by (cases "f = b") (auto simp: owner_ok_def owned_def frames_of_def)
qed

text \<open>Only the frames of user pages matter to user programs.\<close>

lemma kernel_ram:
  fixes s :: "('f, 'a) vm_st_scheme"
  assumes inv: "vm_inv vo content img ro tr None s"
    and same: "\<And>f p off. owned s f p \<Longrightarrow> off < PAGE_SIZE \<Longrightarrow> m (f * PAGE_SIZE + off) = ram s (f * PAGE_SIZE + off)"
  shows "vm_inv vo content img ro tr None (s\<lparr>ram := m\<rparr>)" and "same_pages content img s (s\<lparr>ram := m\<rparr>)"
proof -
  let ?s = "s\<lparr>ram := m\<rparr>"
  have sw: "swap_ok vo content s" and ok: "cm_ok s" and own: "owners_ok None s" and sl: "slots_ok s"
    and rok: "rdonly_ok img ro s" and tc: "tlb_coherent tr s" using inv by (simp_all add: vm_inv_def)
  have rd: "pt_read ?s = pt_read s" by (rule pt_read_cong) simp
  have ram: "m (pt_frame_index e * PAGE_SIZE + off) = ram s (pt_frame_index e * PAGE_SIZE + off)"
    if "pt_read s p = Some e" "in_mem e" "off < PAGE_SIZE" for p e off
    by (rule same [OF owners_okD(2) [OF own that(1,2)] that(3)])
  have "rdonly_ok img ro ?s" using rok ram unfolding rdonly_ok_def rd by (auto simp: in_mem_def)
  moreover have "tlb_coherent tr ?s"
    using tc sw by (intro tlb_coherent_cong [of ?s s]) (auto simp: swap_ok_def)
  moreover have "owners_ok None ?s" using own owners_ok_cong [of ?s s] by simp
  moreover have "slots_ok ?s" using sl slots_ok_cong [of ?s s] by simp
  ultimately show "vm_inv vo content img ro tr None ?s" using sw ok by (simp add: vm_inv_def swap_ok_def cm_ok_def)
  show "same_pages content img s ?s"
    unfolding same_pages_def page_val_def rd using ram by (auto simp: in_mem_def split: option.split pt_status.split)
qed

text \<open>How \<^verbatim>\<open>coremap_getppages\<close> comes by the frames of a kernel block.\<close>

lemma getppages_frames:
  assumes inv: "vm_inv vo content img ro tr None s" and n: "0 < n" "n < 2 ^ 20"
    and run: "coremap_getppages vo n None s = Some (pa, s')"
  obtains b where "pa = frame_addr b" and "b \<noteq> 0" and "b + n \<le> length (coremap s)"
    and "coremap s' = coremap_mark b n None (coremap s)"
    and "ram s' = bzero (b * PAGE_SIZE) (PAGE_SIZE * n) (ram s)"
    and "free_run (coremap s) b n \<or> n = 1 \<and> (\<exists>p. owned s b p \<and> cm_size_alloc (coremap s ! b) = 1)"
proof -
  have ok: "cm_ok s" and own: "owners_ok None s" using inv by (simp_all add: vm_inv_def)
  have fok: "frames_ok (coremap s)" and c0: "cm_free (coremap s ! 0)" "cm_ptentry (coremap s ! 0) = None"
    using ok by (simp_all add: cm_ok_def)
  from coremap_find_freeframes_spec [OF fok n(1)] show thesis
  proof (elim disjE exE conjE)
    fix b
    assume "coremap_find_freeframes n (coremap s) = Some (int b)" and fr: "free_run (coremap s) b n"
    with run that [of b] n c0 show thesis
      by (cases "b = 0") (auto simp: coremap_getppages_def free_run_def)
  next
    assume find: "coremap_find_freeframes n (coremap s) = Some (- 1)" and none: "\<nexists>a. free_run (coremap s) a n"
    then obtain r where sw: "coremap_swapout vo n s = Some r"
      using run by (auto simp: coremap_getppages_def elim!: bind_eq_SomeE)
    have can: "can_alloc vo n s" by (rule getppages_can_alloc [OF inv n(1) run])
    with none have n1: "n = 1" and user: "\<exists>i < length (coremap s). user_frame s i" by (auto simp: can_alloc_def)
    have full: "\<forall>i < length (coremap s). cm_free (coremap s ! i)"
    proof (intro allI impI, rule ccontr)
      fix i
      assume "i < length (coremap s)" "\<not> cm_free (coremap s ! i)"
      then have "free_run (coremap s) i 1" by (auto simp: free_run_def le_less_Suc_eq)
      with none n1 show False by simp
    qed
    obtain vi p s1 where out: "coremap_swapout vo 1 s = Some (int vi, s1)" "owned s vi p" "coremap s1 = coremap s"
      using coremap_swapout_spec [OF inv full user] sw n1 by blast
    have "owner_ok None s vi p" by (rule owners_okD(1) [OF own out(2)])
    then have own1: "cm_size_alloc (coremap s ! vi) = 1" by (simp add: owner_ok_def)
    have "vi < length (coremap s)" "vi \<noteq> 0" using out(2) c0 by (cases "vi = 0"; simp add: owned_def)+
    with run find out own1 n1 that [of vi] swapout_ram [OF out(1)] show thesis
      by (auto simp: coremap_getppages_def intro!: that)
  qed
qed

lemma getppages_blocks:
  assumes inv: "vm_inv vo content img ro tr None s" and n: "0 < n" "n < 2 ^ 20"
    and run: "coremap_getppages vo n None s = Some (pa, s')"
  obtains b where "pa = frame_addr b" and "b < length (coremap s)" and "cm_size_alloc (coremap s' ! b) = n"
    and "\<forall>c. kernel_block s' c \<longleftrightarrow> c = b \<or> kernel_block s c"
    and "\<forall>c. kernel_block s c \<longrightarrow> c \<noteq> b \<and> frames_of s' c = frames_of s c \<and> frames_of s c \<inter> {b..<b + n} = {}"
    and "\<forall>x. x div PAGE_SIZE \<notin> {b..<b + n} \<longrightarrow> ram s' x = ram s x"
proof -
  have ok: "cm_ok s" using inv by (simp add: vm_inv_def)
  have fok: "frames_ok (coremap s)" using ok by (simp add: cm_ok_def)
  obtain b where b: "pa = frame_addr b" "b \<noteq> 0" "b + n \<le> length (coremap s)"
    "coremap s' = coremap_mark b n None (coremap s)" "ram s' = bzero (b * PAGE_SIZE) (PAGE_SIZE * n) (ram s)"
    "free_run (coremap s) b n \<or> n = 1 \<and> (\<exists>p. owned s b p \<and> cm_size_alloc (coremap s ! b) = 1)"
    by (rule getppages_frames [OF inv n run])
  note nth = nth_coremap_mark [OF b(3) _ n(2,1), of _ None]
  have apart: "frames_of s c \<inter> {b..<b + n} = {}" if kb: "kernel_block s c" for c
  proof (rule ccontr)
    assume "frames_of s c \<inter> {b..<b + n} \<noteq> {}"
    then obtain f where f: "f \<in> frames_of s c" "b \<le> f" "f < b + n" by auto
    have c: "c < length (coremap s)" "0 < cm_size_alloc (coremap s ! c)" using kb by (simp_all add: kernel_block_def)
    have "cm_free (coremap s ! f)"
      using frames_ok_block(2) [OF fok c, of f] frames_ok_block(3) [OF fok c] f(1) by (cases "f = c") (auto simp: frames_of_def)
    with b(6) f(2,3) obtain p where p: "n = 1" "owned s b p" by (auto simp: free_run_def)
    with f(2,3) have "f = b" by simp
    with not_owned_kernel [OF ok _ kb f(1)] p(2) inv show False by (simp add: vm_inv_def)
  qed
  have free0: "cm_size_alloc (coremap s ! i) = 0" if "b < i" "i < b + n" for i
    using b(6) that fok b(3) by (auto simp: frames_ok_def free_run_def)
  have nb: "c \<noteq> b" "\<not> (b \<le> c \<and> c < b + n)" if "kernel_block s c" for c
    using apart [OF that] that n by (auto simp: frames_of_def kernel_block_def disjoint_iff)
  have kb: "kernel_block s' c \<longleftrightarrow> c = b \<or> kernel_block s c" for c
    using nth [of c] b n free0 [of c] nb [of c] length_coremap_mark [OF b(3)]
    by (cases "c < length (coremap s)") (auto simp: kernel_block_def split: if_splits)
  have "frames_of s' c = frames_of s c" if "kernel_block s c" for c
    using nth [of c] nb [OF that] that b(4) by (simp add: frames_of_def kernel_block_def)
  moreover have "cm_size_alloc (coremap s' ! b) = n" using nth [of b] b n by simp
  moreover have "ram s' x = ram s x" if "x div PAGE_SIZE \<notin> {b..<b + n}" for x
  proof -
    have "\<not> (b * PAGE_SIZE \<le> x \<and> x < b * PAGE_SIZE + PAGE_SIZE * n)"
      using that by (simp add: div_less_iff_less_mult algebra_simps less_eq_div_iff_mult_less_eq)
    then show ?thesis unfolding b(5) bzero_apply by (simp only: if_False)
  qed
  ultimately show thesis using that [OF b(1)] b(3) n kb nb apart by simp
qed

lemma span_frame:
  assumes "x \<in> span (k + d * PAGE_SIZE, n)"
  shows "(x - k) div PAGE_SIZE \<in> {d..<d + n}"
proof -
  have "d * PAGE_SIZE \<le> x - k" "x - k < (d + n) * PAGE_SIZE" using assms by (auto simp: span_def algebra_simps)
  then show ?thesis by (simp add: div_less_iff_less_mult less_eq_div_iff_mult_less_eq)
qed

lemma kseg0_addr:
  assumes "b < 2 ^ 17"
  shows "unat (PADDR_TO_KVADDR (frame_addr b)) = unat MIPS_KSEG0 + b * PAGE_SIZE"
    and "of_nat (unat MIPS_KSEG0 + b * PAGE_SIZE) = PADDR_TO_KVADDR (frame_addr b)"
proof -
  have f: "unat (frame_addr b) = b * PAGE_SIZE" using assms by (intro unat_frame_addr) simp
  have "b * PAGE_SIZE < 2 ^ 29" using assms by simp
  then show "unat (PADDR_TO_KVADDR (frame_addr b)) = unat MIPS_KSEG0 + b * PAGE_SIZE"
    unfolding PADDR_TO_KVADDR_def by (subst unat_add_small) (simp_all add: f)
  show "of_nat (unat MIPS_KSEG0 + b * PAGE_SIZE) = PADDR_TO_KVADDR (frame_addr b)"
    by (simp add: PADDR_TO_KVADDR_def frame_addr_def)
qed

lemma kernel_blockE:
  assumes "sys_inv vo content s" and "(a, n) \<in> kernel_blocks s"
  obtains b where "a = unat MIPS_KSEG0 + b * PAGE_SIZE" and "n = cm_size_alloc (coremap s ! b)" and "kernel_block s b"
    and "b + n \<le> length (coremap s)" and "length (coremap s) \<le> 2 ^ 17" and "0 < n" and "b < 2 ^ 17"
    and "frames_of s b = {b..<b + n}"
proof -
  have "cm_ok s" using assms(1) by (auto simp: sys_inv_def vm_inv_def)
  then have ok: "frames_ok (coremap s)" "length (coremap s) \<le> 2 ^ 17" by (simp_all add: cm_ok_def)
  obtain b where b: "a = unat MIPS_KSEG0 + b * PAGE_SIZE" "n = cm_size_alloc (coremap s ! b)" "kernel_block s b"
    using assms(2) by (auto simp: kernel_blocks_def)
  then have "b < length (coremap s)" "0 < cm_size_alloc (coremap s ! b)" by (simp_all add: kernel_block_def)
  from frames_ok_block(1) [OF ok(1) this] this b ok(2) that show thesis by (auto simp: frames_of_def)
qed

text \<open>A word of a kernel block.\<close>

lemma kernel_block_word:
  assumes inv: "sys_inv vo content s" and b: "c \<in> kernel_blocks s" "a \<in> span c" "a mod 4 = 0"
  obtains b x where "kernel_block s b" and "a = unat MIPS_KSEG0 + x" and "x div PAGE_SIZE \<in> frames_of s b"
    and "kseg0_word s (of_nat a)" and "unat (KVADDR_TO_PADDR (of_nat a)) = x" and "x mod 4 = 0"
    and "x < length (coremap s) * PAGE_SIZE"
proof -
  obtain a0 n where c: "c = (a0, n)" by (cases c)
  obtain b where k: "a0 = unat MIPS_KSEG0 + b * PAGE_SIZE" "kernel_block s b" "b + n \<le> length (coremap s)"
    "length (coremap s) \<le> 2 ^ 17" "frames_of s b = {b..<b + n}"
    by (rule kernel_blockE [OF inv b(1) [unfolded c]])
  define x where "x = a - unat MIPS_KSEG0"
  have x: "a = unat MIPS_KSEG0 + x" "b * PAGE_SIZE \<le> x" "x < (b + n) * PAGE_SIZE"
    using b(2) by (auto simp: c k(1) span_def x_def algebra_simps)
  have "(b + n) * PAGE_SIZE \<le> length (coremap s) * PAGE_SIZE" using k(3) by (rule mult_le_mono1)
  with x(3) have lt: "x < length (coremap s) * PAGE_SIZE" by simp
  with k(4) have "x < 2 ^ 29" by simp
  then have u: "unat (of_nat a :: vaddr) = a" using x(1) by (intro unat_of_nat32) simp
  have p: "unat (KVADDR_TO_PADDR (of_nat a)) = x"
    unfolding KVADDR_TO_PADDR_def using x(1) u by (subst unat_sub) (simp_all add: word_le_nat_alt)
  have "x div PAGE_SIZE \<in> frames_of s b"
    using x by (simp add: k(5) div_less_iff_less_mult less_eq_div_iff_mult_less_eq)
  moreover have "kseg0_word s (of_nat a)" using u x(1) p lt b(3) by (simp add: kseg0_word_def word_le_nat_alt)
  moreover have "x mod 4 = 0" using b(3) x(1) by (simp add: mod_add_eq [symmetric])
  ultimately show thesis using that [OF k(2) x(1)] p lt by simp
qed

lemma kload_word_spec:
  assumes "sys_inv vo content s" and "c \<in> kernel_blocks s" "a \<in> span c" "a mod 4 = 0"
  shows "kload_word (of_nat a) s = Some (kernel_word s a)"
  by (rule kernel_block_word [OF assms]) (use assms(4) in \<open>simp add: kload_word_def kernel_word_def\<close>)

lemma kstore_word_spec:
  fixes s :: "('f, 'a) sys_st_scheme"
  assumes inv: "sys_inv vo content s" and b: "c \<in> kernel_blocks s" "a \<in> span c" "a mod 4 = 0"
  obtains s' where "kstore_word (of_nat a) v s = Some s'" and "sys_inv vo content s'"
    and "kernel_blocks s' = kernel_blocks s" and "kernel_word s' = (kernel_word s)(a := v)"
    and "user_byte content s' = user_byte content s" and "vm_st.more s' = vm_st.more s"
proof -
  obtain b x where k: "kernel_block s b" "a = unat MIPS_KSEG0 + x" "x div PAGE_SIZE \<in> frames_of s b"
    "kseg0_word s (of_nat a)" "unat (KVADDR_TO_PADDR (of_nat a)) = x" "x mod 4 = 0"
    by (rule kernel_block_word [OF inv b])
  obtain img ro where vi: "vm_inv vo content img ro (cur_tr s) None s" and ok: "procs_ok content img ro s"
    using inv by (auto simp: sys_inv_def)
  let ?m = "set_ram_word x v (ram s)" let ?s = "s\<lparr>ram := ?m\<rparr>"
  have same: "?m (f * PAGE_SIZE + off) = ram s (f * PAGE_SIZE + off)" if o: "owned s f p" "off < PAGE_SIZE" for f p off
  proof -
    have "f \<noteq> x div PAGE_SIZE"
      using not_owned_kernel [OF _ _ k(1,3), of p] o(1) vi by (auto simp: vm_inv_def)
    moreover have "(x + i) div PAGE_SIZE = x div PAGE_SIZE" if "i < 4" for i
      using that k(6) by (rule same_page_word [rotated])
    moreover have "(f * PAGE_SIZE + off) div PAGE_SIZE = f" using o(2) by simp
    ultimately have "f * PAGE_SIZE + off \<noteq> x + i" if "i < 4" for i using that by metis
    from this [of 0] this [of 1] this [of 2] this [of 3] show ?thesis by (simp add: set_ram_word_def)
  qed
  note r = kernel_ram [OF vi same]
  note m = sys_inv_more [OF r(1) ok _ r(2)]
  show thesis
  proof (rule that [of ?s])
    show "kstore_word (of_nat a) v s = Some ?s" using k(4,5) by (simp add: kstore_word_def)
    show "sys_inv vo content ?s" "user_byte content ?s = user_byte content s" using m by simp_all
    show "kernel_blocks ?s = kernel_blocks s" by (simp add: kernel_blocks_def kernel_block_def)
    show "kernel_word ?s = (kernel_word s)(a := v)"
    proof
      fix d
      show "kernel_word ?s d = ((kernel_word s)(a := v)) d"
      proof (cases "unat MIPS_KSEG0 \<le> d \<and> d mod 4 = 0 \<and> d \<noteq> a")
        case True
        then have "(d - unat MIPS_KSEG0) mod 4 = 0" by (auto simp: mod_eq_0_iff_dvd)
        moreover have "d - unat MIPS_KSEG0 \<noteq> x" using True k(2) by linarith
        ultimately show ?thesis using True k(6) by (simp add: kernel_word_def ram_word_other)
      next
        case False
        then show ?thesis using k(2) b(3) by (auto simp: kernel_word_def ram_word_set)
      qed
    qed
  qed simp
qed

lemma alloc_kpages_spec:
  fixes s :: "('f, 'a) sys_st_scheme"
  assumes inv: "sys_inv vo content s" and n: "0 < n" "n < 2 ^ 20" and run: "alloc_kpages vo n s = Some (va, s')"
  shows "kernel_blocks s' = insert (unat va, n) (kernel_blocks s)" and "disjoint_from (unat va, n) (kernel_blocks s)"
    and "same_words (kernel_word s) (kernel_word s') (kernel_blocks s)" and "vm_st.more s' = vm_st.more s"
proof -
  obtain img ro where vi: "vm_inv vo content img ro (cur_tr s) None s" and ok: "procs_ok content img ro s"
    using inv by (auto simp: sys_inv_def)
  obtain pa where r: "coremap_getppages vo n None s = Some (pa, s')" "va = PADDR_TO_KVADDR pa"
    using run by (auto simp: alloc_kpages_def getppages_def elim!: bind_eq_SomeE)
  have can: "can_alloc vo n s" by (rule getppages_can_alloc [OF vi n(1) r(1)])
  obtain b0 s1 where "coremap_getppages vo n None s = Some (frame_addr b0, s1)" "vm_st.more s1 = vm_st.more s"
    by (rule coremap_getppages_spec [where ptentry = None, OF vi n _ can]) simp_all
  with r(1) show "vm_st.more s' = vm_st.more s" by simp
  obtain b where b: "pa = frame_addr b" "b < length (coremap s)" "cm_size_alloc (coremap s' ! b) = n"
    and bl: "\<forall>c. kernel_block s' c \<longleftrightarrow> c = b \<or> kernel_block s c"
      "\<forall>c. kernel_block s c \<longrightarrow> c \<noteq> b \<and> frames_of s' c = frames_of s c \<and> frames_of s c \<inter> {b..<b + n} = {}"
      "\<forall>x. x div PAGE_SIZE \<notin> {b..<b + n} \<longrightarrow> ram s' x = ram s x"
    by (rule getppages_blocks [OF vi n r(1)])
  note kb = bl(1) [rule_format] and old = bl(2) [rule_format] and ram = bl(3) [rule_format]
  have "length (coremap s) \<le> 2 ^ 17" using vi by (simp add: vm_inv_def cm_ok_def)
  with b(2) have b17: "b < 2 ^ 17" by simp
  have va: "unat va = unat MIPS_KSEG0 + b * PAGE_SIZE" using kseg0_addr(1) [OF b17] r(2) b(1) by simp
  have size: "cm_size_alloc (coremap s' ! c) = cm_size_alloc (coremap s ! c)" if "kernel_block s c" for c
  proof -
    have "card (frames_of s' c) = card (frames_of s c)" using old [OF that] by (simp only:)
    then show ?thesis by (simp add: frames_of_def)
  qed
  show "kernel_blocks s' = insert (unat va, n) (kernel_blocks s)"
    unfolding kernel_blocks_def kb using va b(3) size by auto
  show "disjoint_from (unat va, n) (kernel_blocks s)"
    unfolding disjoint_from_def
  proof
    fix c assume c: "c \<in> kernel_blocks s"
    show "span (unat va, n) \<inter> span c = {}"
    proof (rule ccontr)
      assume "span (unat va, n) \<inter> span c \<noteq> {}"
      then obtain x where x: "x \<in> span (unat va, n)" "x \<in> span c" by auto
      obtain a k where ck: "c = (a, k)" by (cases c)
      obtain d where d: "a = unat MIPS_KSEG0 + d * PAGE_SIZE" "kernel_block s d" "frames_of s d = {d..<d + k}"
        by (rule kernel_blockE [OF inv c [unfolded ck]])
      have "(x - unat MIPS_KSEG0) div PAGE_SIZE \<in> {b..<b + n} \<inter> {d..<d + k}"
        using span_frame [OF x(1) [unfolded va]] span_frame [OF x(2) [unfolded ck d(1)]] by simp
      with old [OF d(2)] d(3) show False by blast
    qed
  qed
  show "same_words (kernel_word s) (kernel_word s') (kernel_blocks s)"
    unfolding same_words_def
  proof (intro ballI impI)
    fix c a assume c: "c \<in> kernel_blocks s" "a \<in> span c" "a mod 4 = 0"
    obtain d x where d: "kernel_block s d" "a = unat MIPS_KSEG0 + x" "x div PAGE_SIZE \<in> frames_of s d" "x mod 4 = 0"
      by (rule kernel_block_word [OF inv c])
    have "(x + i) div PAGE_SIZE = x div PAGE_SIZE" if "i < 4" for i using that d(4) by (rule same_page_word [rotated])
    with old [OF d(1)] d(3) have "(x + i) div PAGE_SIZE \<notin> {b..<b + n}" if "i < 4" for i using that by (metis IntI emptyE)
    then have "ram_word (ram s') x = ram_word (ram s) x" by (intro ram_word_cong ram)
    with d(2) c(3) show "kernel_word s' a = kernel_word s a" by (simp add: kernel_word_def)
  qed
qed

lemma free_kpages_blocks:
  fixes s :: "('f, 'a) sys_st_scheme"
  assumes inv: "sys_inv vo content s" and b: "(a, n) \<in> kernel_blocks s"
  obtains s' where "free_kpages (of_nat a) s = Some s'" and "sys_inv vo content s'"
    and "kernel_blocks s' = kernel_blocks s - {(a, n)}" and "kernel_word s' = kernel_word s"
    and "user_byte content s' = user_byte content s" and "vm_st.more s' = vm_st.more s"
proof -
  obtain img ro where vi: "vm_inv vo content img ro (cur_tr s) None s" and ok: "procs_ok content img ro s"
    using inv by (auto simp: sys_inv_def)
  obtain b where k: "a = unat MIPS_KSEG0 + b * PAGE_SIZE" "n = cm_size_alloc (coremap s ! b)" "kernel_block s b"
    "b < 2 ^ 17" by (rule kernel_blockE [OF inv b])
  note f = free_kpages_spec [OF vi k(3)]
  note m = sys_inv_more [OF f(2) ok _ f(3)]
  let ?s = "s\<lparr>coremap := cm_release b (coremap s)\<rparr>"
  have fok: "frames_ok (coremap s)" using vi by (simp add: vm_inv_def cm_ok_def)
  have b': "b < length (coremap s)" "0 < cm_size_alloc (coremap s ! b)" using k(3) by (simp_all add: kernel_block_def)
  have out: "\<not> (b \<le> c \<and> c < b + cm_size_alloc (coremap s ! b))" if "kernel_block s c" "c \<noteq> b" for c
    using frames_ok_block(2) [OF fok b', of c] that by (auto simp: kernel_block_def)
  have kb: "kernel_block ?s c \<longleftrightarrow> kernel_block s c \<and> c \<noteq> b" for c
    using frames_ok_block(2) [OF fok b', of c] nth_cm_release [of c "coremap s" b] b'
    by (cases "c < length (coremap s)") (auto simp: kernel_block_def cm_release_def split: if_splits)
  have sz: "cm_size_alloc (coremap ?s ! c) = cm_size_alloc (coremap s ! c)" if "kernel_block s c" "c \<noteq> b" for c
    using out [OF that] nth_cm_release [of c "coremap s" b] that(1) by (simp add: kernel_block_def)
  have "kernel_blocks ?s = {(unat MIPS_KSEG0 + c * PAGE_SIZE, cm_size_alloc (coremap s ! c)) | c. kernel_block s c \<and> c \<noteq> b}"
    unfolding kernel_blocks_def kb using sz by (metis (no_types, lifting))
  also have "\<dots> = kernel_blocks s - {(a, n)}" by (auto simp: kernel_blocks_def k(1,2))
  finally have bl: "kernel_blocks ?s = kernel_blocks s - {(a, n)}" .
  show thesis
  proof (rule that [of ?s])
    show "free_kpages (of_nat a) s = Some ?s" unfolding k(1) kseg0_addr(2) [OF k(4)] by (rule f(1))
    show "sys_inv vo content ?s" "user_byte content ?s = user_byte content s" using m by simp_all
  qed (use bl in \<open>simp_all add: kernel_word_def fun_eq_iff\<close>)
qed

interpretation kp: page_layer "vm_pages vo" "sys_inv vo content" kernel_blocks kernel_word
  "\<lambda>s :: ('f, 'a) sys_st_scheme. (user_byte content s, vm_st.more s)" for vo content
proof
  fix s s' :: "('f, 'a) sys_st_scheme" and va n a b c v
  assume inv: "sys_inv vo content s"
  show "sys_inv vo content s' \<and> kernel_blocks s' = insert (unat va, n) (kernel_blocks s) \<and>
      disjoint_from (unat va, n) (kernel_blocks s) \<and> same_words (kernel_word s) (kernel_word s') (kernel_blocks s) \<and>
      (user_byte content s', vm_st.more s') = (user_byte content s, vm_st.more s)"
    if "0 < n" "n < 2 ^ 20" "po_alloc (vm_pages vo) n s = Some (va, s')"
  proof -
    from that(3) have run: "alloc_kpages vo n s = Some (va, s')" by (simp add: vm_pages_def)
    from alloc_kpages_spec [OF inv that(1,2) run] alloc_kpages_sys(1,2) [OF inv that(1,2) run] show ?thesis by simp
  qed
  show "\<exists>s'. po_free (vm_pages vo) (of_nat a) s = Some s' \<and> sys_inv vo content s' \<and>
      kernel_blocks s' = kernel_blocks s - {(a, n)} \<and> kernel_word s' = kernel_word s \<and>
      (user_byte content s', vm_st.more s') = (user_byte content s, vm_st.more s)"
    if "(a, n) \<in> kernel_blocks s"
    by (rule free_kpages_blocks [OF inv that]) (auto simp: vm_pages_def)
  show "po_load (vm_pages vo) (of_nat a) s = Some (kernel_word s a)"
    if "b \<in> kernel_blocks s" "a \<in> span b" "a mod 4 = 0"
    using kload_word_spec [OF inv that] by (simp add: vm_pages_def)
  show "\<exists>s'. po_store (vm_pages vo) (of_nat a) v s = Some s' \<and> sys_inv vo content s' \<and>
      kernel_blocks s' = kernel_blocks s \<and> kernel_word s' = (kernel_word s)(a := v) \<and>
      (user_byte content s', vm_st.more s') = (user_byte content s, vm_st.more s)"
    if "b \<in> kernel_blocks s" "a \<in> span b" "a mod 4 = 0"
    by (rule kstore_word_spec [OF inv that]) (auto simp: vm_pages_def)
  show "0 < n \<and> a mod PAGE_SIZE = 0 \<and> unat MIPS_KSEG0 \<le> a \<and> a + n * PAGE_SIZE < 2 ^ 32"
    if "(a, n) \<in> kernel_blocks s"
    by (rule kernel_blockE [OF inv that]) auto
  show "span b \<inter> span c = {}" if "b \<in> kernel_blocks s" "c \<in> kernel_blocks s" "b \<noteq> c"
  proof -
    obtain d where d: "b = (unat MIPS_KSEG0 + d * PAGE_SIZE, cm_size_alloc (coremap s ! d))" "kernel_block s d"
      using \<open>b \<in> kernel_blocks s\<close> by (auto simp: kernel_blocks_def)
    obtain e where e: "c = (unat MIPS_KSEG0 + e * PAGE_SIZE, cm_size_alloc (coremap s ! e))" "kernel_block s e"
      using \<open>c \<in> kernel_blocks s\<close> by (auto simp: kernel_blocks_def)
    have fok: "frames_ok (coremap s)" using inv by (auto simp: sys_inv_def vm_inv_def cm_ok_def)
    have "d \<noteq> e" using that(3) d(1) e(1) by auto
    then have "frames_of s d \<inter> frames_of s e = {}"
      using frames_apart [OF fok] d(2) e(2) by (simp add: kernel_block_def)
    moreover have "(x - unat MIPS_KSEG0) div PAGE_SIZE \<in> frames_of s d \<inter> frames_of s e"
      if "x \<in> span b \<inter> span c" for x
      using that span_frame unfolding d(1) e(1) frames_of_def by blast
    ultimately show ?thesis by blast
  qed
qed

end
