(* ===== verification/Kmalloc.thy ===== *)
theory Kmalloc
  imports Kpages
begin

text \<open>
  The kernel heap, \<^verbatim>\<open>kern/vm/kmalloc.c\<close>, in the configuration of the repository (none of
  \<^verbatim>\<open>SLOW\<close>, \<^verbatim>\<open>GUARDS\<close> and \<^verbatim>\<open>LABELS\<close>): \<open>kheap\<close> holds its static variables, and
  a heap is a pair of them and of the state \<open>'s\<close> of the page layer below.
  The \<^verbatim>\<open>struct pageref\<close> records are kept apart from the words of memory, in a store
  indexed by address: nothing else is ever put into the pages that hold them. The free list
  of a page is in the page itself, as in the code. \<^verbatim>\<open>kmalloc_spinlock\<close> and the messages
  of \<^verbatim>\<open>kprintf\<close> are left out: an operation is one step, so what may change while the lock
  is released around \<^verbatim>\<open>alloc_kpages\<close> does not.
\<close>

section \<open>Data\<close>

definition sizes :: "nat list" where
  "sizes = [16, 32, 64, 128, 256, 512, 1024, 2048]"

abbreviation (input) NSIZES :: nat where "NSIZES \<equiv> 8"
abbreviation (input) LARGEST_SUBPAGE_SIZE :: uint32 where "LARGEST_SUBPAGE_SIZE \<equiv> 2048"
abbreviation (input) INVALID_OFFSET :: "16 word" where "INVALID_OFFSET \<equiv> 0xffff"
abbreviation (input) NPAGEREFS_PER_PAGE :: nat where "NPAGEREFS_PER_PAGE \<equiv> 256"
abbreviation (input) INUSE_WORDS :: nat where "INUSE_WORDS \<equiv> 8"
abbreviation (input) NUM_PAGEREFPAGES :: nat where "NUM_PAGEREFPAGES \<equiv> 16"

text \<open>Pointers are addresses, and 0 is \<^verbatim>\<open>NULL\<close>; a \<^verbatim>\<open>struct pageref\<close> takes 16 bytes.\<close>

record pageref =
  next_samesize :: vaddr
  next_all :: vaddr
  pageaddr_and_blocktype :: vaddr
  freelist_offset :: "16 word"
  nfree :: "16 word"

definition PR_PAGEADDR :: "pageref \<Rightarrow> vaddr" where
  "PR_PAGEADDR pr = pageaddr_and_blocktype pr AND PAGE_FRAME"

definition PR_BLOCKTYPE :: "pageref \<Rightarrow> vaddr" where
  "PR_BLOCKTYPE pr = pageaddr_and_blocktype pr AND NOT PAGE_FRAME"

definition MKPAB :: "vaddr \<Rightarrow> vaddr \<Rightarrow> vaddr" where
  "MKPAB pa blk = (pa AND PAGE_FRAME) OR (blk AND NOT PAGE_FRAME)"

record kheap_root =
  kr_page :: vaddr
  pagerefs_inuse :: "uint32 list"
  numinuse :: nat

record kheap =
  kheaproots :: "kheap_root list"
  pagerefs :: "vaddr \<Rightarrow> pageref"
  sizebases :: "vaddr list"
  allbase :: vaddr

text \<open>The static variables when the kernel starts.\<close>

definition empty_kheap :: "(vaddr \<Rightarrow> pageref) \<Rightarrow> kheap" where
  "empty_kheap refs = \<lparr>kheaproots = replicate NUM_PAGEREFPAGES
       \<lparr>kr_page = 0, pagerefs_inuse = replicate INUSE_WORDS 0, numinuse = 0\<rparr>,
     pagerefs = refs, sizebases = replicate NSIZES 0, allbase = 0\<rparr>"

definition set_root :: "nat \<Rightarrow> kheap_root \<Rightarrow> kheap \<Rightarrow> kheap" where
  "set_root w r h = h\<lparr>kheaproots := (kheaproots h)[w := r]\<rparr>"

definition set_pageref :: "vaddr \<Rightarrow> pageref \<Rightarrow> kheap \<Rightarrow> kheap" where
  "set_pageref p r h = h\<lparr>pagerefs := (pagerefs h)(p := r)\<rparr>"

section \<open>Pagerefs\<close>

definition allocpagerefpage :: "'s page_ops \<Rightarrow> nat \<Rightarrow> kheap \<times> 's \<Rightarrow> (kheap \<times> 's) option" where
  "allocpagerefpage po w x = (case x of (h, s) \<Rightarrow> do {
     kassert (kr_page (kheaproots h ! w) = 0);
     (va, s) \<leftarrow> po_alloc po 1 s;
     if va = 0 then Some (h, s)
     else do {
       kassert (unat va mod PAGE_SIZE = 0);
       if kr_page (kheaproots h ! w) \<noteq> 0 then do {
         s \<leftarrow> po_free po va s;
         kassert (kr_page (kheaproots h ! w) \<noteq> 0);
         Some (h, s)
       }
       else Some (set_root w ((kheaproots h ! w)\<lparr>kr_page := va\<rparr>) h, s)
     }
   })"

text \<open>The first clear bit of a word of the map: \<^verbatim>\<open>k\<close> is the mask of bit \<open>j\<close> and becomes 0 at bit 32.\<close>

definition find_clear :: "uint32 \<Rightarrow> nat option" where
  "find_clear w = List.find (\<lambda>j. w AND push_bit j 1 = 0) [0..<32]"

text \<open>A root that has a free entry: the entry is marked, and the page of the root is allocated when there is none.\<close>

definition takepageref :: "'s page_ops \<Rightarrow> nat \<Rightarrow> nat \<Rightarrow> kheap \<times> 's \<Rightarrow> (vaddr \<times> kheap \<times> 's) option" where
  "takepageref po w i x = (case x of (h, s) \<Rightarrow> do {
     let root = kheaproots h ! w;
     j \<leftarrow> find_clear (pagerefs_inuse root ! i);
     let root = root\<lparr>pagerefs_inuse := (pagerefs_inuse root)[i := pagerefs_inuse root ! i OR push_bit j 1],
                     numinuse := numinuse root + 1\<rparr>;
     let h = set_root w root h;
     (h, s) \<leftarrow> (if kr_page root = 0 then allocpagerefpage po w (h, s) else Some (h, s));
     let page = kr_page (kheaproots h ! w);
     if page = 0 then Some (0, h, s)
     else Some (page + of_nat (16 * (i * 32 + j)), h, s)
   })"

fun allocpageref_from :: "'s page_ops \<Rightarrow> nat list \<Rightarrow> kheap \<times> 's \<Rightarrow> (vaddr \<times> kheap \<times> 's) option" where
  "allocpageref_from po [] x = Some (0, x)"
| "allocpageref_from po (w # ws) x =
     (let root = kheaproots (fst x) ! w in
      if numinuse root \<ge> NPAGEREFS_PER_PAGE then allocpageref_from po ws x
      else case List.find (\<lambda>i. pagerefs_inuse root ! i \<noteq> 0xffffffff) [0..<INUSE_WORDS] of
             None \<Rightarrow> allocpageref_from po ws x
           | Some i \<Rightarrow> takepageref po w i x)"

definition allocpageref :: "'s page_ops \<Rightarrow> kheap \<times> 's \<Rightarrow> (vaddr \<times> kheap \<times> 's) option" where
  "allocpageref po x = allocpageref_from po [0..<NUM_PAGEREFPAGES] x"

text \<open>\<^verbatim>\<open>p - page->refs\<close>: a difference of pointers is signed, and \<open>j\<close> is unsigned.\<close>

definition ref_index :: "vaddr \<Rightarrow> vaddr \<Rightarrow> nat" where
  "ref_index p page = unat (word_of_int (sint (p - page) div 16) :: uint32)"

fun freepageref_from :: "nat list \<Rightarrow> vaddr \<Rightarrow> kheap \<Rightarrow> kheap option" where
  "freepageref_from [] p h = None"
| "freepageref_from (w # ws) p h =
     (let root = kheaproots h ! w; page = kr_page root in
      if page = 0 then do { kassert (numinuse root = 0); freepageref_from ws p h }
      else let j = ref_index p page in
        if j < NPAGEREFS_PER_PAGE then do {
          let i = j div 32;
          let k = push_bit (j mod 32) 1;
          kassert (pagerefs_inuse root ! i AND k \<noteq> 0);
          let root = root\<lparr>pagerefs_inuse := (pagerefs_inuse root)[i := pagerefs_inuse root ! i AND NOT k]\<rparr>;
          kassert (numinuse root > 0);
          Some (set_root w (root\<lparr>numinuse := numinuse root - 1\<rparr>) h)
        }
        else freepageref_from ws p h)"

definition freepageref :: "vaddr \<Rightarrow> kheap \<Rightarrow> kheap option" where
  "freepageref p h = freepageref_from [0..<NUM_PAGEREFPAGES] p h"

section \<open>The lists of pages\<close>

text \<open>
  The pointers to pointers of \<^verbatim>\<open>remove_lists\<close>: the head of a list, or a field of a pageref.
\<close>

datatype link = Sizebase nat | Allbase | Next_samesize vaddr | Next_all vaddr

fun get_link :: "kheap \<Rightarrow> link \<Rightarrow> vaddr" where
  "get_link h (Sizebase b) = sizebases h ! b"
| "get_link h Allbase = allbase h"
| "get_link h (Next_samesize p) = next_samesize (pagerefs h p)"
| "get_link h (Next_all p) = next_all (pagerefs h p)"

fun set_link :: "link \<Rightarrow> vaddr \<Rightarrow> kheap \<Rightarrow> kheap" where
  "set_link (Sizebase b) v h = h\<lparr>sizebases := (sizebases h)[b := v]\<rparr>"
| "set_link Allbase v h = h\<lparr>allbase := v\<rparr>"
| "set_link (Next_samesize p) v h = set_pageref p ((pagerefs h p)\<lparr>next_samesize := v\<rparr>) h"
| "set_link (Next_all p) v h = set_pageref p ((pagerefs h p)\<lparr>next_all := v\<rparr>) h"

partial_function (option) remove_loop :: "(vaddr \<Rightarrow> link) \<Rightarrow> vaddr \<Rightarrow> link \<Rightarrow> kheap \<Rightarrow> kheap option" where
  "remove_loop nxt pr guy h =
     (if get_link h guy = 0 then Some h
      else if get_link h guy = pr then Some (set_link guy (get_link h (nxt pr)) h)
      else remove_loop nxt pr (nxt (get_link h guy)) h)"

definition remove_lists :: "vaddr \<Rightarrow> nat \<Rightarrow> kheap \<Rightarrow> kheap option" where
  "remove_lists pr blktype h = do {
     kassert (blktype < NSIZES);
     h \<leftarrow> remove_loop Next_samesize pr (Sizebase blktype) h;
     remove_loop Next_all pr Allbase h
   }"

definition blocktype :: "uint32 \<Rightarrow> nat option" where
  "blocktype clientsz = List.find (\<lambda>i. unat clientsz \<le> sizes ! i) [0..<NSIZES]"

section \<open>Blocks of a page\<close>

partial_function (option) find_page :: "kheap \<Rightarrow> nat \<Rightarrow> vaddr \<Rightarrow> vaddr option" where
  "find_page h blktype pr =
     (if pr = 0 then Some 0
      else if PR_BLOCKTYPE (pagerefs h pr) \<noteq> of_nat blktype then None
      else if nfree (pagerefs h pr) > 0 then Some pr
      else find_page h blktype (next_samesize (pagerefs h pr)))"

text \<open>From the label \<^verbatim>\<open>doalloc\<close> on: the first block of the free list of the page.\<close>

definition doalloc :: "'s page_ops \<Rightarrow> vaddr \<Rightarrow> kheap \<times> 's \<Rightarrow> (vaddr \<times> kheap \<times> 's) option" where
  "doalloc po p x = (case x of (h, s) \<Rightarrow> do {
     let pr = pagerefs h p;
     kassert (unat (freelist_offset pr) < PAGE_SIZE);
     let prpage = PR_PAGEADDR pr;
     let fla = prpage + ucast (freelist_offset pr);
     fl \<leftarrow> po_load po fla s;
     let pr = pr\<lparr>nfree := nfree pr - 1\<rparr>;
     pr \<leftarrow> (if fl \<noteq> 0 then do {
              kassert (nfree pr > 0);
              kassert (unat (fl - prpage) < PAGE_SIZE);
              Some (pr\<lparr>freelist_offset := ucast (fl - prpage)\<rparr>)
            }
            else do {
              kassert (nfree pr = 0);
              Some (pr\<lparr>freelist_offset := INVALID_OFFSET\<rparr>)
            });
     Some (fla, set_pageref p pr h, s)
   })"

text \<open>The loop that threads the free list through a new page; the block \<open>i\<close> points to the block \<open>i - 1\<close>.\<close>

fun link_blocks :: "'s page_ops \<Rightarrow> vaddr \<Rightarrow> nat \<Rightarrow> nat list \<Rightarrow> 's \<Rightarrow> 's option" where
  "link_blocks po fla sz [] s = Some s"
| "link_blocks po fla sz (i # is) s = do {
     let fl = fla + of_nat (i * sz);
     let nxt = fla + of_nat ((i - 1) * sz);
     s \<leftarrow> po_store po fl nxt s;
     kassert (fl \<noteq> nxt);
     link_blocks po fla sz is s
   }"

definition newpage :: "'s page_ops \<Rightarrow> vaddr \<Rightarrow> nat \<Rightarrow> vaddr \<Rightarrow> kheap \<times> 's \<Rightarrow> (kheap \<times> 's) option" where
  "newpage po p blktype prpage x = (case x of (h, s) \<Rightarrow> do {
     let n = PAGE_SIZE div sizes ! blktype;
     s \<leftarrow> po_store po prpage 0 s;
     s \<leftarrow> link_blocks po prpage (sizes ! blktype) [1..<n] s;
     let fla = prpage + of_nat ((n - 1) * sizes ! blktype);
     let pr = \<lparr>next_samesize = sizebases h ! blktype, next_all = allbase h,
               pageaddr_and_blocktype = MKPAB prpage (of_nat blktype),
               freelist_offset = ucast (fla - prpage), nfree = of_nat n\<rparr>;
     kassert (unat (freelist_offset pr) = (n - 1) * sizes ! blktype);
     let h = set_pageref p pr h;
     Some (h\<lparr>sizebases := (sizebases h)[blktype := p], allbase := p\<rparr>, s)
   })"

definition subpage_kmalloc :: "'s page_ops \<Rightarrow> uint32 \<Rightarrow> kheap \<times> 's \<Rightarrow> (vaddr \<times> kheap \<times> 's) option" where
  "subpage_kmalloc po sz x = (case x of (h, s) \<Rightarrow> do {
     blktype \<leftarrow> blocktype sz;
     p \<leftarrow> find_page h blktype (sizebases h ! blktype);
     if p \<noteq> 0 then doalloc po p (h, s)
     else do {
       (prpage, s) \<leftarrow> po_alloc po 1 s;
       if prpage = 0 then Some (0, h, s)
       else do {
         kassert (unat prpage mod PAGE_SIZE = 0);
         (p, h, s) \<leftarrow> allocpageref po (h, s);
         if p = 0 then do {
           s \<leftarrow> po_free po prpage s;
           Some (0, h, s)
         }
         else do {
           x \<leftarrow> newpage po p blktype prpage (h, s);
           doalloc po p x
         }
       }
     }
   })"

text \<open>The page a pointer is on, along the list of all pages; 0 when there is none.\<close>

partial_function (option) owner_page :: "kheap \<Rightarrow> vaddr \<Rightarrow> vaddr \<Rightarrow> vaddr option" where
  "owner_page h ptraddr p =
     (if p = 0 then Some 0
      else if \<not> unat (PR_BLOCKTYPE (pagerefs h p)) < NSIZES then None
      else if ptraddr \<ge> PR_PAGEADDR (pagerefs h p) \<and> ptraddr < PR_PAGEADDR (pagerefs h p) + 4096 then Some p
      else owner_page h ptraddr (next_all (pagerefs h p)))"

fun fill_deadbeef :: "'s page_ops \<Rightarrow> vaddr \<Rightarrow> nat list \<Rightarrow> 's \<Rightarrow> 's option" where
  "fill_deadbeef po p [] s = Some s"
| "fill_deadbeef po p (i # is) s = do {
     s \<leftarrow> po_store po (p + of_nat (4 * i)) 0xdeadbeef s;
     fill_deadbeef po p is s
   }"

text \<open>The block goes to the front of the free list of its page.\<close>

definition putblock :: "'s page_ops \<Rightarrow> vaddr \<Rightarrow> vaddr \<Rightarrow> kheap \<times> 's \<Rightarrow> (kheap \<times> 's) option" where
  "putblock po p offset x = (case x of (h, s) \<Rightarrow> do {
     let pr = pagerefs h p;
     let prpage = PR_PAGEADDR pr;
     let fla = prpage + offset;
     s \<leftarrow> (if freelist_offset pr = INVALID_OFFSET then po_store po fla 0 s
          else do {
            let nxt = prpage + ucast (freelist_offset pr);
            s \<leftarrow> po_store po fla nxt s;
            kassert (fla \<noteq> nxt);
            Some s
          });
     let pr = pr\<lparr>freelist_offset := ucast offset, nfree := nfree pr + 1\<rparr>;
     Some (set_pageref p pr h, s)
   })"

text \<open>The result is 0, or -1 when the pointer is not on a page of the heap.\<close>

definition subpage_kfree :: "'s page_ops \<Rightarrow> vaddr \<Rightarrow> kheap \<times> 's \<Rightarrow> (int \<times> kheap \<times> 's) option" where
  "subpage_kfree po ptraddr x = (case x of (h, s) \<Rightarrow> do {
     p \<leftarrow> owner_page h ptraddr (allbase h);
     if p = 0 then Some (- 1, h, s)
     else do {
       let prpage = PR_PAGEADDR (pagerefs h p);
       let blktype = unat (PR_BLOCKTYPE (pagerefs h p));
       let offset = ptraddr - prpage;
       kassert (\<not> (unat offset \<ge> PAGE_SIZE \<or> unat offset mod sizes ! blktype \<noteq> 0));
       s \<leftarrow> fill_deadbeef po ptraddr [0..<sizes ! blktype div 4] s;
       (h, s) \<leftarrow> putblock po p offset (h, s);
       kassert (unat (nfree (pagerefs h p)) \<le> PAGE_SIZE div sizes ! blktype);
       if unat (nfree (pagerefs h p)) = PAGE_SIZE div sizes ! blktype then do {
         h \<leftarrow> remove_lists p blktype h;
         h \<leftarrow> freepageref p h;
         s \<leftarrow> po_free po prpage s;
         Some (0, h, s)
       }
       else Some (0, h, s)
     }
   })"

section \<open>Interface\<close>

definition kmalloc :: "'s page_ops \<Rightarrow> uint32 \<Rightarrow> kheap \<times> 's \<Rightarrow> (vaddr \<times> kheap \<times> 's) option" where
  "kmalloc po sz x =
     (if sz \<ge> LARGEST_SUBPAGE_SIZE then do {
        let npages = (sz + 4096 - 1) div 4096;
        (address, s) \<leftarrow> po_alloc po (unat npages) (snd x);
        if address = 0 then Some (0, fst x, s)
        else do {
          kassert (unat address mod PAGE_SIZE = 0);
          Some (address, fst x, s)
        }
      }
      else subpage_kmalloc po sz x)"

definition kfree :: "'s page_ops \<Rightarrow> vaddr \<Rightarrow> kheap \<times> 's \<Rightarrow> (kheap \<times> 's) option" where
  "kfree po ptr x =
     (if ptr = 0 then Some x
      else do {
        (r, h, s) \<leftarrow> subpage_kfree po ptr x;
        if r \<noteq> 0 then do {
          kassert (unat ptr mod PAGE_SIZE = 0);
          s \<leftarrow> po_free po ptr s;
          Some (h, s)
        }
        else Some (h, s)
      })"

end
