(* ===== verification/Kheap.thy ===== *)
theory Kheap
  imports Kmalloc
begin

text \<open>
  Correctness of the kernel heap. A heap is described by the list of its pages, in the order of
  \<^verbatim>\<open>allbase\<close>: the pageref of the page, its address, its block type and the
  offsets of its free blocks, in the order of the free list. \<open>heap_inv\<close> says that a state is
  described by such a list; the operations are related to operations on lists.
\<close>

section \<open>Linked lists\<close>

fun path :: "('p :: zero \<Rightarrow> 'p) \<Rightarrow> 'p \<Rightarrow> 'p list \<Rightarrow> bool" where
  "path nx a [] \<longleftrightarrow> a = 0"
| "path nx a (x # xs) \<longleftrightarrow> a = x \<and> x \<noteq> 0 \<and> path nx (nx x) xs"

lemma path_cong: "path nx a xs \<Longrightarrow> (\<And>x. x \<in> set xs \<Longrightarrow> nx' x = nx x) \<Longrightarrow> path nx' a xs"
  by (induction xs arbitrary: a) auto

lemma path_nonzero: "path nx a xs \<Longrightarrow> 0 \<notin> set xs"
  by (induction xs arbitrary: a) auto

lemma path_remove:
  "path nx a (xs @ x # ys) \<Longrightarrow> distinct (xs @ x # ys) \<Longrightarrow> xs \<noteq> [] \<Longrightarrow> path (nx(last xs := nx x)) a (xs @ ys)"
proof (induction xs arbitrary: a)
  case (Cons z zs)
  show ?case
  proof (cases "zs = []")
    case True
    with Cons.prems have "path nx (nx x) ys" "z \<notin> set ys" by auto
    with True Cons.prems show ?thesis by (auto intro: path_cong)
  next
    case False
    with Cons.prems have "path (nx(last zs := nx x)) (nx z) (zs @ ys)" by (intro Cons.IH) auto
    moreover have "z \<noteq> last zs" using Cons.prems(2) False by auto
    ultimately show ?thesis using Cons.prems False by (auto simp: fun_upd_def)
  qed
qed simp

lemma path_suffix: "path nx a (xs @ x # ys) \<Longrightarrow> path nx (nx x) ys"
  by (induction xs arbitrary: a) auto

section \<open>The description of a heap\<close>

record hpage =
  hp_ref :: vaddr
  hp_page :: nat
  hp_type :: nat
  hp_free :: "nat list"

abbreviation (input) hp_size :: "hpage \<Rightarrow> nat" where "hp_size g \<equiv> sizes ! hp_type g"

fun free_links :: "(nat \<Rightarrow> uint32) \<Rightarrow> nat \<Rightarrow> nat list \<Rightarrow> bool" where
  "free_links m page [] \<longleftrightarrow> True"
| "free_links m page (i # is) \<longleftrightarrow> m (page + i) = (case is of [] \<Rightarrow> 0 | j # _ \<Rightarrow> of_nat (page + j)) \<and> free_links m page is"

definition offset_of :: "nat list \<Rightarrow> 16 word" where
  "offset_of fs = (case fs of [] \<Rightarrow> INVALID_OFFSET | i # _ \<Rightarrow> of_nat i)"

definition blocks_of :: "nat \<Rightarrow> nat set" where
  "blocks_of sz = {i. i < PAGE_SIZE \<and> sz dvd i}"

definition page_ok :: "(nat \<Rightarrow> uint32) \<Rightarrow> pageref \<Rightarrow> hpage \<Rightarrow> bool" where
  "page_ok m pr g \<longleftrightarrow> hp_type g < NSIZES \<and> pageaddr_and_blocktype pr = of_nat (hp_page g + hp_type g) \<and>
     freelist_offset pr = offset_of (hp_free g) \<and> nfree pr = of_nat (length (hp_free g)) \<and>
     distinct (hp_free g) \<and> set (hp_free g) \<subseteq> blocks_of (hp_size g) \<and> free_links m (hp_page g) (hp_free g)"

definition lists_ok :: "kheap \<Rightarrow> hpage list \<Rightarrow> bool" where
  "lists_ok h gs \<longleftrightarrow> length (sizebases h) = NSIZES \<and> distinct (map hp_ref gs) \<and>
     path (\<lambda>p. next_all (pagerefs h p)) (allbase h) (map hp_ref gs) \<and>
     (\<forall>b < NSIZES. path (\<lambda>p. next_samesize (pagerefs h p)) (sizebases h ! b) (map hp_ref (filter (\<lambda>g. hp_type g = b) gs)))"

text \<open>The entries of the pageref pages that are in use: root \<open>w\<close>, entry \<open>k\<close>.\<close>

definition used_of :: "kheap_root \<Rightarrow> nat set" where
  "used_of r = {k. k < NPAGEREFS_PER_PAGE \<and> bit (pagerefs_inuse r ! (k div 32)) (k mod 32)}"

definition used :: "kheap_root list \<Rightarrow> (nat \<times> nat) set" where
  "used rs = {(w, k). w < NUM_PAGEREFPAGES \<and> k \<in> used_of (rs ! w)}"

definition slot_addr :: "kheap_root list \<Rightarrow> nat \<times> nat \<Rightarrow> vaddr" where
  "slot_addr rs wk = kr_page (rs ! fst wk) + of_nat (16 * snd wk)"

definition root_pages :: "kheap_root list \<Rightarrow> (nat \<times> nat) set" where
  "root_pages rs = {(unat (kr_page r), 1) | r. r \<in> set rs \<and> kr_page r \<noteq> 0}"

definition root_ok :: "kheap_root \<Rightarrow> bool" where
  "root_ok r \<longleftrightarrow> length (pagerefs_inuse r) = INUSE_WORDS \<and> numinuse r = card (used_of r) \<and>
     (kr_page r = 0 \<longrightarrow> numinuse r = 0) \<and> unat (kr_page r) mod PAGE_SIZE = 0"

definition roots_ok :: "kheap_root list \<Rightarrow> bool" where
  "roots_ok rs \<longleftrightarrow> length rs = NUM_PAGEREFPAGES \<and> (\<forall>r \<in> set rs. root_ok r) \<and>
     (\<forall>v < NUM_PAGEREFPAGES. \<forall>w < NUM_PAGEREFPAGES. kr_page (rs ! v) \<noteq> 0 \<longrightarrow> kr_page (rs ! v) = kr_page (rs ! w) \<longrightarrow> v = w)"

definition heap_pages :: "hpage list \<Rightarrow> (nat \<times> nat) set" where
  "heap_pages gs = (\<lambda>g. (hp_page g, 1)) ` set gs"

definition heap_wf :: "('s \<Rightarrow> bool) \<Rightarrow> ('s \<Rightarrow> (nat \<times> nat) set) \<Rightarrow> ('s \<Rightarrow> nat \<Rightarrow> uint32) \<Rightarrow> kheap \<times> 's \<Rightarrow> hpage list \<Rightarrow> bool" where
  "heap_wf ok blocks mem x gs \<longleftrightarrow> (case x of (h, s) \<Rightarrow>
     ok s \<and> roots_ok (kheaproots h) \<and> lists_ok h gs \<and>
     (\<forall>g \<in> set gs. page_ok (mem s) (pagerefs h (hp_ref g)) g) \<and>
     hp_ref ` set gs = slot_addr (kheaproots h) ` used (kheaproots h) \<and> distinct (map hp_page gs) \<and>
     heap_pages gs \<union> root_pages (kheaproots h) \<subseteq> blocks s \<and> heap_pages gs \<inter> root_pages (kheaproots h) = {})"

text \<open>Between operations no page is entirely free.\<close>

definition heap_inv :: "('s \<Rightarrow> bool) \<Rightarrow> ('s \<Rightarrow> (nat \<times> nat) set) \<Rightarrow> ('s \<Rightarrow> nat \<Rightarrow> uint32) \<Rightarrow> kheap \<times> 's \<Rightarrow> hpage list \<Rightarrow> bool" where
  "heap_inv ok blocks mem x gs \<longleftrightarrow> heap_wf ok blocks mem x gs \<and> (\<forall>g \<in> set gs. length (hp_free g) < PAGE_SIZE div hp_size g)"

text \<open>What is allocated, as address and size in bytes: blocks of heap pages, and blocks of whole pages.\<close>

definition live_blocks :: "hpage list \<Rightarrow> (nat \<times> nat) set" where
  "live_blocks gs = {(hp_page g + i, hp_size g) | g i. g \<in> set gs \<and> i \<in> blocks_of (hp_size g) \<and> i \<notin> set (hp_free g)}"

definition page_blocks :: "(nat \<times> nat) set \<Rightarrow> kheap \<Rightarrow> hpage list \<Rightarrow> (nat \<times> nat) set" where
  "page_blocks B h gs = (\<lambda>(a, n). (a, n * PAGE_SIZE)) ` (B - heap_pages gs - root_pages (kheaproots h))"

definition live :: "('s \<Rightarrow> (nat \<times> nat) set) \<Rightarrow> kheap \<times> 's \<Rightarrow> hpage list \<Rightarrow> (nat \<times> nat) set" where
  "live blocks x gs = live_blocks gs \<union> page_blocks (blocks (snd x)) (fst x) gs"

definition bytes :: "nat \<times> nat \<Rightarrow> nat set" where
  "bytes b = {fst b..<fst b + snd b}"

text \<open>The words of the blocks \<open>B\<close> are the same in two memories.\<close>

definition kept :: "(nat \<Rightarrow> uint32) \<Rightarrow> (nat \<Rightarrow> uint32) \<Rightarrow> (nat \<times> nat) set \<Rightarrow> bool" where
  "kept m m' B \<longleftrightarrow> (\<forall>b \<in> B. \<forall>a \<in> bytes b. a mod 4 = 0 \<longrightarrow> m' a = m a)"

section \<open>Pagerefs\<close>

lemma clear_bit_iff: "(w :: uint32) AND push_bit j 1 = 0 \<longleftrightarrow> \<not> bit w j"
  by (simp add: push_bit_eq_mult and_exp_eq_0_iff_not_bit)

lemma find_clear_some:
  assumes "w \<noteq> 0xffffffff"
  obtains j where "find_clear w = Some j" and "j < 32" and "\<not> bit w j"
proof (cases "find_clear w")
  case None
  then have "\<forall>j < 32. bit w j" by (auto simp: find_clear_def find_None_iff and_exp_eq_0_iff_not_bit)
  then have "w = - 1" by (intro bit_word_eqI) simp
  with assms show thesis by simp
next
  case (Some j)
  then have "j < 32" "\<not> bit w j" by (auto simp: find_clear_def find_Some_iff and_exp_eq_0_iff_not_bit)
  with Some that show thesis by blast
qed

lemma slot_split: "i < 8 \<Longrightarrow> j < 32 \<Longrightarrow> k div 32 = i \<and> k mod 32 = j \<longleftrightarrow> k = i * 32 + (j :: nat)"
  using div_mult_mod_eq [of k 32] by auto

lemma used_of_take:
  assumes "length (pagerefs_inuse r) = INUSE_WORDS" and "i < INUSE_WORDS" and "j < 32"
  shows "used_of (r\<lparr>pagerefs_inuse := (pagerefs_inuse r)[i := pagerefs_inuse r ! i OR push_bit j 1], numinuse := n\<rparr>) =
     insert (i * 32 + j) (used_of r)"
proof -
  have "bit ((pagerefs_inuse r)[i := pagerefs_inuse r ! i OR push_bit j 1] ! (k div 32)) (k mod 32) \<longleftrightarrow>
      k = i * 32 + j \<or> bit (pagerefs_inuse r ! (k div 32)) (k mod 32)" if "k < NPAGEREFS_PER_PAGE" for k
  proof -
    have "bit (push_bit j 1 :: uint32) (k mod 32) \<longleftrightarrow> k mod 32 = j"
      using assms(3) by (auto simp: bit_exp_iff)
    then show ?thesis
      using slot_split [OF assms(2,3), of k] assms by (auto simp: nth_list_update bit_or_iff)
  qed
  moreover have "i * 32 + j < NPAGEREFS_PER_PAGE" using assms by simp
  ultimately show ?thesis by (auto simp: used_of_def)
qed

lemma used_of_drop:
  assumes "length (pagerefs_inuse r) = INUSE_WORDS" and "k < NPAGEREFS_PER_PAGE"
  shows "used_of (r\<lparr>pagerefs_inuse := (pagerefs_inuse r)[k div 32 := pagerefs_inuse r ! (k div 32) AND NOT (push_bit (k mod 32) 1)],
       numinuse := n\<rparr>) = used_of r - {k}"
proof -
  have "bit ((pagerefs_inuse r)[k div 32 := pagerefs_inuse r ! (k div 32) AND NOT (push_bit (k mod 32) 1)] ! (c div 32)) (c mod 32) \<longleftrightarrow>
      c \<noteq> k \<and> bit (pagerefs_inuse r ! (c div 32)) (c mod 32)" if "c < NPAGEREFS_PER_PAGE" for c
  proof -
    have "bit (NOT (push_bit (k mod 32) 1) :: uint32) (c mod 32) \<longleftrightarrow> c mod 32 \<noteq> k mod 32"
      by (auto simp: bit_exp_iff bit_not_iff)
    moreover have "c = k \<longleftrightarrow> c div 32 = k div 32 \<and> c mod 32 = k mod 32"
      using div_mult_mod_eq [of k 32] div_mult_mod_eq [of c 32] by metis
    ultimately show ?thesis using assms by (auto simp: nth_list_update bit_and_iff)
  qed
  then show ?thesis by (auto simp: used_of_def)
qed

lemma finite_used_of: "finite (used_of r)" "used_of r \<subseteq> {..<NPAGEREFS_PER_PAGE}"
  by (auto simp: used_of_def)

text \<open>Entries of different pages, or different entries of a page, have different addresses.\<close>

lemma slot_addr_unat:
  assumes "roots_ok rs" and "w < NUM_PAGEREFPAGES" and "k < NPAGEREFS_PER_PAGE"
  shows "unat (slot_addr rs (w, k)) = unat (kr_page (rs ! w)) + 16 * k"
proof -
  have "rs ! w \<in> set rs" using assms by (simp add: roots_ok_def)
  then have "unat (kr_page (rs ! w)) mod PAGE_SIZE = 0" using assms by (auto simp: roots_ok_def root_ok_def)
  then obtain q where q: "unat (kr_page (rs ! w)) = PAGE_SIZE * q" using mod_eq_0_iff_dvd by (metis dvdE)
  have "PAGE_SIZE * q < 2 ^ 32" using unat_less_2p32 [of "kr_page (rs ! w)"] q by simp
  then have "q < 2 ^ 20" by simp
  with assms(3) have "PAGE_SIZE * q + 16 * k < 2 ^ 32" by simp
  moreover have "unat (of_nat (16 * k) :: vaddr) = 16 * k" using assms(3) by (intro unat_of_nat32) simp
  ultimately show ?thesis unfolding slot_addr_def fst_conv snd_conv by (subst unat_add_small) (simp_all only: q)
qed

lemma roots_okD:
  assumes "roots_ok rs" and "w < NUM_PAGEREFPAGES"
  shows "rs ! w \<in> set rs" and "root_ok (rs ! w)" and "w < length rs" and "length (pagerefs_inuse (rs ! w)) = INUSE_WORDS"
    and "numinuse (rs ! w) = card (used_of (rs ! w))"
  using assms by (auto simp: roots_ok_def root_ok_def)

lemma root_not_full:
  assumes "root_ok r" and "numinuse r < NPAGEREFS_PER_PAGE"
  shows "\<exists>i < INUSE_WORDS. pagerefs_inuse r ! i \<noteq> 0xffffffff"
proof (rule ccontr)
  assume "\<not> ?thesis"
  then have "pagerefs_inuse r ! i = - 1" if "i < INUSE_WORDS" for i using that by simp
  then have "used_of r = {..<NPAGEREFS_PER_PAGE}" by (auto simp: used_of_def)
  with assms show False by (simp add: root_ok_def)
qed

lemma used_update:
  assumes "roots_ok rs" and "w < NUM_PAGEREFPAGES"
  shows "used (rs[w := r]) = {wk \<in> used rs. fst wk \<noteq> w} \<union> {w} \<times> used_of r"
  using assms roots_okD(3) [OF assms] by (auto simp: used_def nth_list_update split: if_splits)

lemma root_pages_update:
  assumes "w < length rs"
  shows "root_pages (rs[w := r]) \<subseteq> root_pages rs \<union> (if kr_page r = 0 then {} else {(unat (kr_page r), 1)})"
  using set_update_subset_insert [of rs w r] by (auto simp: root_pages_def)

lemma root_pagesI: "w < length rs \<Longrightarrow> kr_page (rs ! w) \<noteq> 0 \<Longrightarrow> (unat (kr_page (rs ! w)), 1) \<in> root_pages rs"
  by (auto simp: root_pages_def)

text \<open>Replacing a root by one with the same page, or by one with a new page.\<close>

lemma roots_ok_update:
  assumes ok: "roots_ok rs" and w: "w < NUM_PAGEREFPAGES" and r: "root_ok r"
    and page: "kr_page r = kr_page (rs ! w) \<or> (unat (kr_page r), 1) \<notin> root_pages rs"
  shows "roots_ok (rs[w := r])"
proof -
  have len: "length rs = NUM_PAGEREFPAGES" using ok by (simp add: roots_ok_def)
  have "v = v'" if v: "v < NUM_PAGEREFPAGES" "v' < NUM_PAGEREFPAGES" "kr_page (rs[w := r] ! v) \<noteq> 0"
    "kr_page (rs[w := r] ! v) = kr_page (rs[w := r] ! v')" for v v'
  proof -
    have old: "kr_page (rs ! u) \<noteq> 0 \<Longrightarrow> kr_page (rs ! u) = kr_page (rs ! u') \<Longrightarrow> u = u'"
      if "u < NUM_PAGEREFPAGES" "u' < NUM_PAGEREFPAGES" for u u' using ok that by (auto simp: roots_ok_def)
    have new: "u = w" if u: "u < NUM_PAGEREFPAGES" "kr_page (rs ! u) = kr_page r" "kr_page r \<noteq> 0" for u
    proof -
      have "(unat (kr_page r), 1) \<in> root_pages rs" using root_pagesI [of u rs] u len by simp
      with page u(2) have "kr_page (rs ! u) = kr_page (rs ! w)" by simp
      with old [OF u(1) w] u(2,3) show ?thesis by simp
    qed
    show ?thesis
    proof (cases "v = w")
      case True
      then show ?thesis using new [OF v(2)] v(3,4) len w by (cases "v' = w") simp_all
    next
      case False
      then show ?thesis using new [OF v(1)] old [OF v(1,2)] v(3,4) len w by (cases "v' = w") simp_all
    qed
  qed
  moreover have "\<forall>r' \<in> set (rs[w := r]). root_ok r'"
    using ok r set_update_subset_insert [of rs w r] by (auto simp: roots_ok_def)
  ultimately show ?thesis using len by (simp add: roots_ok_def)
qed

text \<open>The pointer difference: within the page it is the index of the entry.\<close>

lemma page_base_unique:
  assumes "a mod PAGE_SIZE = 0" and "b mod PAGE_SIZE = 0" and "i < PAGE_SIZE" and "j < PAGE_SIZE" and "a + i = b + (j :: nat)"
  shows "a = b"
proof -
  obtain c d where cd: "a = PAGE_SIZE * c" "b = PAGE_SIZE * d" using assms(1,2) by (metis mod_eq_0_iff_dvd dvdE)
  have "(PAGE_SIZE * c + i) div PAGE_SIZE = c" "(PAGE_SIZE * d + j) div PAGE_SIZE = d" using assms(3,4) by simp_all
  with assms(5) cd show ?thesis by metis
qed

lemma ref_index_cases:
  obtains "ref_index p page = unat (p - page) div 16" | "ref_index p page \<ge> 2 ^ 31" and "unat (p - page) \<ge> 2 ^ 31"
proof -
  define d where "d = uint (p - page)"
  have d: "0 \<le> d" "d < 2 ^ 32" unfolding d_def using uint_lt2p [of "p - page"] by simp_all
  have u: "unat (p - page) = nat d" by (simp only: d_def unat_eq_nat_uint)
  have s: "sint (p - page) = (d + 2 ^ 31) mod 2 ^ 32 - 2 ^ 31"
    using int_word_sint [of d, where 'a = 32] unfolding d_def by simp
  have r: "ref_index p page = nat (sint (p - page) div 16 mod 2 ^ 32)"
    unfolding ref_index_def unat_eq_nat_uint uint_word_of_int by simp
  show thesis
  proof (cases "d < 2 ^ 31")
    case True
    then have "sint (p - page) = d" using d(1) s by simp
    moreover have "d div 16 mod 2 ^ 32 = d div 16" using d by (intro mod_pos_pos_trivial) simp_all
    ultimately show thesis using that(1) r u d(1) by (simp add: nat_div_distrib)
  next
    case False
    define z where "z = (d - 2 ^ 32) div 16"
    have "(d + 2 ^ 31) mod 2 ^ 32 = d + 2 ^ 31 - 2 ^ 32" 
      using mod_pos_geq [of "2 ^ 32" "d + 2 ^ 31"] mod_pos_pos_trivial [of "d + 2 ^ 31 - 2 ^ 32" "2 ^ 32"] False d(2) by simp
    then have "sint (p - page) div 16 = z" using s by (simp add: z_def)
    moreover have z: "- (2 ^ 28) \<le> z" "z < 0" using d False by (auto simp: z_def)
    moreover from z have "z mod 2 ^ 32 = z + 2 ^ 32"
      using mod_add_self2 [of z "2 ^ 32"] mod_pos_pos_trivial [of "z + 2 ^ 32" "2 ^ 32"] by simp
    ultimately have "ref_index p page = nat (z + 2 ^ 32)" using r by simp
    then show thesis using that(2) z False u by simp
  qed
qed

lemma ref_index_in:
  assumes "unat p = unat page + 16 * k" and "k < NPAGEREFS_PER_PAGE"
  shows "ref_index p page = k"
proof -
  have "unat (p - page) = 16 * k" using assms(1) by (subst unat_sub) (simp_all add: word_le_nat_alt)
  with assms(2) show ?thesis by (cases rule: ref_index_cases [of p page]) simp_all
qed

lemma ref_index_out:
  assumes p: "unat p = unat page + 16 * k" "k < NPAGEREFS_PER_PAGE" and a: "unat page mod PAGE_SIZE = 0"
    and b: "unat page' mod PAGE_SIZE = 0" "page \<noteq> page'"
  shows "ref_index p page' \<ge> NPAGEREFS_PER_PAGE"
proof (cases rule: ref_index_cases [of p page'])
  case 1
  have "unat (p - page') \<ge> PAGE_SIZE"
  proof (rule ccontr)
    assume lt: "\<not> ?thesis"
    have "p = page' + (p - page')" by simp
    moreover have "unat page' + unat (p - page') < 2 ^ 32"
    proof -
      obtain q where "unat page' = PAGE_SIZE * q" using b(1) by (metis mod_eq_0_iff_dvd dvdE)
      with lt unat_less_2p32 [of page'] show ?thesis by simp
    qed
    ultimately have "unat p = unat page' + unat (p - page')" by (metis unat_add_small)
    then have "unat page = unat page'"
      using page_base_unique [OF a b(1), of "16 * k" "unat (p - page')"] p lt by simp
    with b(2) show False by (simp add: word_unat_eq_iff)
  qed
  with 1 show ?thesis by simp
qed simp

lemma slot_addr_inj:
  assumes ok: "roots_ok rs"
  shows "inj_on (slot_addr rs) (used rs)"
proof (rule inj_onI)
  fix x y
  assume xy: "x \<in> used rs" "y \<in> used rs" "slot_addr rs x = slot_addr rs y"
  obtain v k w l where x: "x = (v, k)" and y: "y = (w, l)" by (cases x, cases y)
  have v: "v < NUM_PAGEREFPAGES" "k < NPAGEREFS_PER_PAGE" "k \<in> used_of (rs ! v)"
    and w: "w < NUM_PAGEREFPAGES" "l < NPAGEREFS_PER_PAGE" using xy x y by (auto simp: used_def used_of_def)
  note rv = roots_okD [OF ok v(1)] and rw = roots_okD [OF ok w(1)]
  have "0 < numinuse (rs ! v)"
    using rv(5) v(3) finite_used_of(1) [of "rs ! v"] card_gt_0_iff [of "used_of (rs ! v)"] by auto
  then have nz: "kr_page (rs ! v) \<noteq> 0" using rv(2) by (auto simp: root_ok_def)
  have eq: "unat (kr_page (rs ! v)) + 16 * k = unat (kr_page (rs ! w)) + 16 * l"
    using xy(3) slot_addr_unat [OF ok v(1,2)] slot_addr_unat [OF ok w] x y by simp
  then have "unat (kr_page (rs ! v)) = unat (kr_page (rs ! w))"
    by (rule page_base_unique [rotated -1]) (use rv(2) rw(2) v w in \<open>simp_all add: root_ok_def\<close>)
  then have "kr_page (rs ! v) = kr_page (rs ! w)" by (simp add: word_unat_eq_iff)
  moreover from this have "v = w" using ok v(1) w(1) nz by (auto simp: roots_ok_def)
  ultimately show "x = y" using eq x y by simp
qed

text \<open>An entry is taken in a root that has a page, or that gets one.\<close>

definition root_take :: "nat \<Rightarrow> nat \<Rightarrow> vaddr \<Rightarrow> kheap_root \<Rightarrow> kheap_root" where
  "root_take i j pg r = r\<lparr>pagerefs_inuse := (pagerefs_inuse r)[i := pagerefs_inuse r ! i OR push_bit j 1],
     numinuse := numinuse r + 1, kr_page := pg\<rparr>"

lemma root_take:
  assumes ok: "roots_ok rs" and w: "w < NUM_PAGEREFPAGES" and ij: "i < INUSE_WORDS" "j < 32"
    and clear: "\<not> bit (pagerefs_inuse (rs ! w) ! i) j" and pg: "pg \<noteq> 0" "unat pg mod PAGE_SIZE = 0"
    and new: "pg = kr_page (rs ! w) \<or> kr_page (rs ! w) = 0 \<and> (unat pg, 1) \<notin> root_pages rs"
  defines "rs' \<equiv> rs[w := root_take i j pg (rs ! w)]" and "k \<equiv> i * 32 + j"
  shows "roots_ok rs'" and "used rs' = insert (w, k) (used rs)" and "(w, k) \<notin> used rs" and "k < NPAGEREFS_PER_PAGE"
    and "\<forall>wk \<in> used rs. slot_addr rs' wk = slot_addr rs wk" and "root_pages rs' = insert (unat pg, 1) (root_pages rs)"
proof -
  let ?r = "rs ! w"
  note r = roots_okD [OF ok w]
  have eq: "root_take i j pg ?r = (?r\<lparr>pagerefs_inuse := (pagerefs_inuse ?r)[i := pagerefs_inuse ?r ! i OR push_bit j 1],
      numinuse := numinuse ?r + 1\<rparr>)\<lparr>kr_page := pg\<rparr>" by (simp add: root_take_def)
  have u: "used_of (root_take i j pg ?r) = insert k (used_of ?r)"
    unfolding eq k_def using used_of_take [OF r(4) ij] by (simp add: used_of_def)
  have kn: "k \<notin> used_of ?r"
    using slot_split [OF ij, of k] clear by (auto simp: k_def used_of_def)
  show "k < NPAGEREFS_PER_PAGE" using ij by (simp add: k_def)
  show "(w, k) \<notin> used rs" using kn by (simp add: used_def)
  show "used rs' = insert (w, k) (used rs)" unfolding rs'_def used_update [OF ok w] u by (auto simp: used_def w)
  have empty: "used_of ?r = {}" if "kr_page ?r = 0"
    using that r(2) finite_used_of(1) [of ?r] by (auto simp: root_ok_def)
  have "root_ok (root_take i j pg ?r)"
    using r(2,4) pg u kn finite_used_of(1) [of ?r] by (simp add: root_ok_def) (simp add: root_take_def)
  then show "roots_ok rs'" unfolding rs'_def
    by (rule roots_ok_update [OF ok w]) (use new in \<open>auto simp: root_take_def\<close>)
  show "\<forall>wk \<in> used rs. slot_addr rs' wk = slot_addr rs wk"
    using new empty r(3) by (auto simp: slot_addr_def rs'_def used_def nth_list_update root_take_def)
  have "(unat (kr_page x), 1) \<in> root_pages rs'" if x: "x \<in> set rs" "kr_page x \<noteq> 0" for x
  proof -
    obtain v where v: "v < length rs" "rs ! v = x" using x(1) by (auto simp: in_set_conv_nth)
    have "kr_page (rs' ! v) = kr_page x"
      using v x(2) new by (cases "v = w") (auto simp: rs'_def root_take_def)
    then show ?thesis using root_pagesI [of v rs'] x(2) v(1) by (simp add: rs'_def)
  qed
  then have "root_pages rs \<subseteq> root_pages rs'" unfolding root_pages_def [of rs] by auto
  moreover have "(unat pg, 1) \<in> root_pages rs'" using root_pagesI [of w rs'] pg r(3) by (simp add: rs'_def root_take_def)
  moreover have "root_pages rs' \<subseteq> insert (unat pg, 1) (root_pages rs)"
    using root_pages_update [OF r(3), of "root_take i j pg ?r"] pg by (simp add: rs'_def root_take_def)
  ultimately show "root_pages rs' = insert (unat pg, 1) (root_pages rs)" by auto
qed

text \<open>\<^verbatim>\<open>freepageref\<close> finds the root the pageref is on and clears its bit.\<close>

definition root_drop :: "nat \<Rightarrow> kheap_root \<Rightarrow> kheap_root" where
  "root_drop k r = r\<lparr>pagerefs_inuse := (pagerefs_inuse r)[k div 32 := pagerefs_inuse r ! (k div 32) AND NOT (push_bit (k mod 32) 1)],
     numinuse := numinuse r - 1\<rparr>"

lemma root_drop:
  assumes ok: "roots_ok rs" and wk: "(w, k) \<in> used rs"
  defines "rs' \<equiv> rs[w := root_drop k (rs ! w)]"
  shows "roots_ok rs'" and "used rs' = used rs - {(w, k)}" and "slot_addr rs' = slot_addr rs" and "root_pages rs' = root_pages rs"
proof -
  have w: "w < NUM_PAGEREFPAGES" and k: "k < NPAGEREFS_PER_PAGE" "k \<in> used_of (rs ! w)" using wk by (auto simp: used_def used_of_def)
  note r = roots_okD [OF ok w]
  have u: "used_of (root_drop k (rs ! w)) = used_of (rs ! w) - {k}" unfolding root_drop_def by (rule used_of_drop [OF r(4) k(1)])
  have pg: "kr_page (root_drop k (rs ! w)) = kr_page (rs ! w)" by (simp add: root_drop_def)
  have f: "length (pagerefs_inuse (root_drop k (rs ! w))) = INUSE_WORDS" "numinuse (root_drop k (rs ! w)) = numinuse (rs ! w) - 1"
    by (simp_all add: root_drop_def r(4))
  have "card (used_of (rs ! w) - {k}) = card (used_of (rs ! w)) - 1"
    using k(2) finite_used_of(1) [of "rs ! w"] by simp
  then have "root_ok (root_drop k (rs ! w))"
    using r(2) unfolding root_ok_def f u pg by auto
  then show "roots_ok rs'" unfolding rs'_def by (rule roots_ok_update [OF ok w]) (simp add: pg)
  show "used rs' = used rs - {(w, k)}" unfolding rs'_def used_update [OF ok w] u by (auto simp: used_def w)
  show "slot_addr rs' = slot_addr rs"
  proof
    fix wk
    show "slot_addr rs' wk = slot_addr rs wk"
      using r(3) pg by (cases "fst wk = w") (simp_all add: slot_addr_def rs'_def)
  qed
  have "root_pages rs \<subseteq> root_pages rs'"
  proof -
    have "(unat (kr_page x), 1) \<in> root_pages rs'" if x: "x \<in> set rs" "kr_page x \<noteq> 0" for x
    proof -
      obtain v where v: "v < length rs" "rs ! v = x" using x(1) by (auto simp: in_set_conv_nth)
      have "kr_page (rs' ! v) = kr_page x" using v pg by (cases "v = w") (simp_all add: rs'_def)
      then show ?thesis using root_pagesI [of v rs'] x(2) v(1) by (simp add: rs'_def)
    qed
    then show ?thesis unfolding root_pages_def [of rs] by auto
  qed
  moreover have "root_pages rs' \<subseteq> root_pages rs"
    using root_pages_update [OF r(3), of "root_drop k (rs ! w)"] root_pagesI [OF r(3)] pg by (auto simp: rs'_def split: if_splits)
  ultimately show "root_pages rs' = root_pages rs" by auto
qed

lemma freepageref_spec:
  assumes ok: "roots_ok (kheaproots h)" and wk: "(w, k) \<in> used (kheaproots h)"
  shows "freepageref (slot_addr (kheaproots h) (w, k)) h =
     Some (set_root w (root_drop k (kheaproots h ! w)) h)"
proof -
  let ?rs = "kheaproots h" let ?p = "slot_addr ?rs (w, k)"
  have w: "w < NUM_PAGEREFPAGES" and k: "k < NPAGEREFS_PER_PAGE" "k \<in> used_of (?rs ! w)" using wk by (auto simp: used_def used_of_def)
  have p: "unat ?p = unat (kr_page (?rs ! w)) + 16 * k" by (rule slot_addr_unat [OF ok w k(1)])
  note rw = roots_okD [OF ok w]
  have n0: "0 < numinuse (?rs ! w)" using rw(5) k(2) finite_used_of(1) [of "?rs ! w"] card_gt_0_iff [of "used_of (?rs ! w)"] by auto
  then have pw: "kr_page (?rs ! w) \<noteq> 0" using rw(2) by (auto simp: root_ok_def)
  have "freepageref_from ws ?p h = Some (set_root w (root_drop k (?rs ! w)) h)"
    if "w \<in> set ws" "set ws \<subseteq> {..<NUM_PAGEREFPAGES}" for ws
    using that
  proof (induction ws)
    case (Cons v ws)
    show ?case
    proof (cases "v = w")
      case True
      have "pagerefs_inuse (?rs ! w) ! (k div 32) AND push_bit (k mod 32) 1 \<noteq> 0"
        using k(2) by (simp add: clear_bit_iff and_exp_eq_0_iff_not_bit used_of_def)
      then show ?thesis
        using True pw n0 ref_index_in [OF p k(1)] k(1) by (simp add: root_drop_def Let_def)
    next
      case False
      then have v: "v < NUM_PAGEREFPAGES" "w \<in> set ws" "set ws \<subseteq> {..<NUM_PAGEREFPAGES}" using Cons.prems by auto
      note rv = roots_okD [OF ok v(1)]
      show ?thesis
      proof (cases "kr_page (?rs ! v) = 0")
        case True
        then have "numinuse (?rs ! v) = 0" using rv(2) by (simp add: root_ok_def)
        with True Cons.IH [OF v(2,3)] show ?thesis by simp
      next
        case vn: False
        have "kr_page (?rs ! w) \<noteq> kr_page (?rs ! v)" using ok False v(1) w pw by (auto simp: roots_ok_def)
        then have "ref_index ?p (kr_page (?rs ! v)) \<ge> NPAGEREFS_PER_PAGE"
          using ref_index_out [OF p k(1)] rw(2) rv(2) by (simp add: root_ok_def)
        with vn Cons.IH [OF v(2,3)] show ?thesis by (simp add: Let_def)
      qed
    qed
  qed simp
  from this [of "[0..<NUM_PAGEREFPAGES]"] show ?thesis using w by (simp add: freepageref_def atLeast0LessThan)
qed

context page_layer
begin

text \<open>Growth of the state of the page layer: old blocks and their contents stay.\<close>

definition grew :: "'s \<Rightarrow> 's \<Rightarrow> bool" where
  "grew s s' \<longleftrightarrow> ok s' \<and> blocks s \<subseteq> blocks s' \<and> same_words (mem s) (mem s') (blocks s) \<and> view s' = view s"

lemma grew_refl: "ok s \<Longrightarrow> grew s s"
  by (simp add: grew_def same_words_def)

lemma grew_trans: "grew s s' \<Longrightarrow> grew s' s'' \<Longrightarrow> grew s s''"
  by (auto simp: grew_def same_words_def)

lemma alloc_page:
  assumes "ok s" and "po_alloc po 1 s = Some (va, s')"
  shows "grew s s'" and "blocks s' = insert (unat va, 1) (blocks s)" and "disjoint_from (unat va, 1) (blocks s)"
    and "va \<noteq> 0" and "unat va mod PAGE_SIZE = 0" and "(unat va, 1) \<notin> blocks s"
proof -
  note a = alloc [OF assms(1) _ _ assms(2)]
  show "grew s s'" and b: "blocks s' = insert (unat va, 1) (blocks s)" and d: "disjoint_from (unat va, 1) (blocks s)"
    using a by (auto simp: grew_def)
  have "0 < (1 :: nat) \<and> unat va mod PAGE_SIZE = 0 \<and> unat MIPS_KSEG0 \<le> unat va \<and> unat va + 1 * PAGE_SIZE < 2 ^ 32"
    by (rule block [of s']) (use a b in auto)
  then show "va \<noteq> 0" "unat va mod PAGE_SIZE = 0" by auto
  show "(unat va, 1) \<notin> blocks s" using d by (auto simp: disjoint_from_def span_def)
qed

lemma takepageref_spec:
  assumes s: "ok s" and rok: "roots_ok rs" "rs = kheaproots h" and sub: "root_pages rs \<subseteq> blocks s"
    and w: "w < NUM_PAGEREFPAGES" and i: "i < INUSE_WORDS" "pagerefs_inuse (rs ! w) ! i \<noteq> 0xffffffff"
  shows "takepageref po w i (h, s) = None \<Longrightarrow> po_alloc po 1 s = None"
    and "takepageref po w i (h, s) = Some (p, h', s') \<Longrightarrow> \<exists>j pg. j < 32 \<and> \<not> bit (pagerefs_inuse (rs ! w) ! i) j \<and>
      pg \<noteq> 0 \<and> unat pg mod PAGE_SIZE = 0 \<and>
      (pg = kr_page (rs ! w) \<and> s' = s \<or> kr_page (rs ! w) = 0 \<and> (unat pg, 1) \<notin> root_pages rs \<and> po_alloc po 1 s = Some (pg, s')) \<and>
      h' = h\<lparr>kheaproots := rs[w := root_take i j pg (rs ! w)]\<rparr> \<and> p = pg + of_nat (16 * (i * 32 + j))"
proof -
  obtain j where j: "find_clear (pagerefs_inuse (rs ! w) ! i) = Some j" "j < 32" "\<not> bit (pagerefs_inuse (rs ! w) ! i) j"
    by (rule find_clear_some [OF i(2)])
  note r = roots_okD [OF rok(1) w]
  have take: "takepageref po w i (h, s) = (if kr_page (rs ! w) = 0
      then case po_alloc po 1 s of None \<Rightarrow> None | Some (pg, s') \<Rightarrow>
        Some (pg + of_nat (16 * (i * 32 + j)), h\<lparr>kheaproots := rs[w := root_take i j pg (rs ! w)]\<rparr>, s')
      else Some (kr_page (rs ! w) + of_nat (16 * (i * 32 + j)),
        h\<lparr>kheaproots := rs[w := root_take i j (kr_page (rs ! w)) (rs ! w)]\<rparr>, s))"
  proof (cases "kr_page (rs ! w) = 0")
    case True
    have "va \<noteq> 0 \<and> unat va mod PAGE_SIZE = 0" if "po_alloc po 1 s = Some (va, t)" for va t
      using alloc_page(4,5) [OF s that] by simp
    with True j(1) r(3) rok(2) show ?thesis
      by (auto simp: takepageref_def allocpagerefpage_def set_root_def root_take_def Let_def split: option.split)
  next
    case False
    with j(1) r(3) rok(2) show ?thesis
      by (simp add: takepageref_def set_root_def root_take_def Let_def)
  qed
  show "po_alloc po 1 s = None" if "takepageref po w i (h, s) = None"
    using that take by (auto split: if_splits option.splits)
  assume run: "takepageref po w i (h, s) = Some (p, h', s')"
  show "\<exists>j pg. j < 32 \<and> \<not> bit (pagerefs_inuse (rs ! w) ! i) j \<and> pg \<noteq> 0 \<and> unat pg mod PAGE_SIZE = 0 \<and>
      (pg = kr_page (rs ! w) \<and> s' = s \<or> kr_page (rs ! w) = 0 \<and> (unat pg, 1) \<notin> root_pages rs \<and> po_alloc po 1 s = Some (pg, s')) \<and>
      h' = h\<lparr>kheaproots := rs[w := root_take i j pg (rs ! w)]\<rparr> \<and> p = pg + of_nat (16 * (i * 32 + j))"
  proof (cases "kr_page (rs ! w) = 0")
    case True
    then obtain pg where pg: "po_alloc po 1 s = Some (pg, s')"
      "p = pg + of_nat (16 * (i * 32 + j))" "h' = h\<lparr>kheaproots := rs[w := root_take i j pg (rs ! w)]\<rparr>"
      using run take by (auto split: option.splits)
    with alloc_page [OF s pg(1)] True sub j show ?thesis by (intro exI [of _ j] exI [of _ pg]) auto
  next
    case False
    with run take r(2) j show ?thesis by (intro exI [of _ j] exI [of _ "kr_page (rs ! w)"]) (simp add: root_ok_def)
  qed
qed

definition ref_taken :: "kheap \<Rightarrow> 's \<Rightarrow> vaddr \<Rightarrow> kheap \<Rightarrow> 's \<Rightarrow> bool" where
  "ref_taken h s p h' s' \<longleftrightarrow> (\<exists>wk rs'. h' = h\<lparr>kheaproots := rs'\<rparr> \<and> roots_ok rs' \<and>
     used rs' = insert wk (used (kheaproots h)) \<and> wk \<notin> used (kheaproots h) \<and> p = slot_addr rs' wk \<and> p \<noteq> 0 \<and>
     (\<forall>vk \<in> used (kheaproots h). slot_addr rs' vk = slot_addr (kheaproots h) vk) \<and>
     (s' = s \<and> root_pages rs' = root_pages (kheaproots h) \<or>
      (\<exists>pg. po_alloc po 1 s = Some (pg, s') \<and> root_pages rs' = insert (unat pg, 1) (root_pages (kheaproots h)))))"

lemma takepageref_taken:
  assumes s: "ok s" and rok: "roots_ok (kheaproots h)" and sub: "root_pages (kheaproots h) \<subseteq> blocks s"
    and w: "w < NUM_PAGEREFPAGES" and i: "i < INUSE_WORDS" "pagerefs_inuse (kheaproots h ! w) ! i \<noteq> 0xffffffff"
    and run: "takepageref po w i (h, s) = Some (p, h', s')"
  shows "ref_taken h s p h' s'"
proof -
  let ?rs = "kheaproots h"
  obtain j pg where j: "j < 32" "\<not> bit (pagerefs_inuse (?rs ! w) ! i) j" and pg: "pg \<noteq> 0" "unat pg mod PAGE_SIZE = 0"
    and new: "pg = kr_page (?rs ! w) \<and> s' = s \<or>
      kr_page (?rs ! w) = 0 \<and> (unat pg, 1) \<notin> root_pages ?rs \<and> po_alloc po 1 s = Some (pg, s')"
    and h': "h' = h\<lparr>kheaproots := ?rs[w := root_take i j pg (?rs ! w)]\<rparr>" "p = pg + of_nat (16 * (i * 32 + j))"
    using takepageref_spec(2) [OF s rok refl sub w i run] by (elim exE conjE) (rule that)
  have new': "pg = kr_page (?rs ! w) \<or> kr_page (?rs ! w) = 0 \<and> (unat pg, 1) \<notin> root_pages ?rs" using new by blast
  note t = root_take [OF rok w i(1) j pg new']
  have wl: "w < length ?rs" by (rule roots_okD(3) [OF rok w])
  have sl: "p = slot_addr (?rs[w := root_take i j pg (?rs ! w)]) (w, i * 32 + j)"
    using wl h'(2) by (simp add: slot_addr_def root_take_def)
  have "unat p = unat pg + 16 * (i * 32 + j)"
    using slot_addr_unat [OF t(1) w t(4)] wl unfolding sl by (simp add: root_take_def)
  then have "p \<noteq> 0" using pg(1) by (auto simp: unat_eq_zero)
  moreover have "s' = s \<and> root_pages (?rs[w := root_take i j pg (?rs ! w)]) = root_pages ?rs \<or>
      (\<exists>pg'. po_alloc po 1 s = Some (pg', s') \<and>
        root_pages (?rs[w := root_take i j pg (?rs ! w)]) = insert (unat pg', 1) (root_pages ?rs))"
    using new t(6) root_pagesI [OF wl] pg(1) by (elim disjE) (auto simp: insert_absorb)
  ultimately show ?thesis
    unfolding ref_taken_def
    by (intro exI [of _ "(w, i * 32 + j)"] exI [of _ "?rs[w := root_take i j pg (?rs ! w)]"] conjI t h' sl)
qed

lemma allocpageref_from_spec:
  assumes s: "ok s" and rok: "roots_ok (kheaproots h)" and sub: "root_pages (kheaproots h) \<subseteq> blocks s"
    and ws: "set ws \<subseteq> {..<NUM_PAGEREFPAGES}"
  shows "(allocpageref_from po ws (h, s) = None \<longrightarrow> po_alloc po 1 s = None) \<and>
    (\<forall>p h' s'. allocpageref_from po ws (h, s) = Some (p, h', s') \<longrightarrow> ref_taken h s p h' s' \<or>
       p = 0 \<and> h' = h \<and> s' = s \<and> (\<forall>w \<in> set ws. used_of (kheaproots h ! w) = {..<NPAGEREFS_PER_PAGE}))"
  using ws
proof (induction ws)
  case (Cons w ws)
  let ?r = "kheaproots h ! w"
  have w: "w < NUM_PAGEREFPAGES" and IH: "set ws \<subseteq> {..<NUM_PAGEREFPAGES}" using Cons.prems by auto
  note r = roots_okD [OF rok w]
  show ?case
  proof (cases "numinuse ?r \<ge> NPAGEREFS_PER_PAGE")
    case True
    have "used_of ?r = {..<NPAGEREFS_PER_PAGE}"
      using True r(5) finite_used_of(2) [of ?r] card_subset_eq [of "{..<NPAGEREFS_PER_PAGE}" "used_of ?r"]
        card_mono [OF _ finite_used_of(2) [of ?r]] by simp
    with True Cons.IH [OF IH] show ?thesis by (simp add: Let_def)
  next
    case False
    obtain i where i: "List.find (\<lambda>i. pagerefs_inuse ?r ! i \<noteq> 0xffffffff) [0..<INUSE_WORDS] = Some i"
    proof (cases "List.find (\<lambda>i. pagerefs_inuse ?r ! i \<noteq> 0xffffffff) [0..<INUSE_WORDS]")
      case None
      with root_not_full [OF r(2)] False show thesis by (auto simp: find_None_iff)
    qed (use that in blast)
    then have i': "i < INUSE_WORDS" "pagerefs_inuse ?r ! i \<noteq> 0xffffffff" by (auto simp: find_Some_iff)
    have "allocpageref_from po (w # ws) (h, s) = takepageref po w i (h, s)"
      using False i by (simp add: Let_def)
    then show ?thesis
      using takepageref_spec(1) [OF s rok refl sub w i'] takepageref_taken [OF s rok sub w i'] by simp
  qed
qed simp

lemma allocpageref_spec:
  assumes s: "ok s" and rok: "roots_ok (kheaproots h)" and sub: "root_pages (kheaproots h) \<subseteq> blocks s"
  shows "allocpageref po (h, s) = None \<Longrightarrow> po_alloc po 1 s = None"
    and "allocpageref po (h, s) = Some (p, h', s') \<Longrightarrow> ref_taken h s p h' s' \<or>
       p = 0 \<and> h' = h \<and> s' = s \<and> card (used (kheaproots h)) = NUM_PAGEREFPAGES * NPAGEREFS_PER_PAGE"
proof -
  have sub16: "set [0..<NUM_PAGEREFPAGES] \<subseteq> {..<NUM_PAGEREFPAGES}" by auto
  note a = allocpageref_from_spec [OF s rok sub sub16]
  show "allocpageref po (h, s) = None \<Longrightarrow> po_alloc po 1 s = None" using a by (simp add: allocpageref_def)
  have "card (used (kheaproots h)) = NUM_PAGEREFPAGES * NPAGEREFS_PER_PAGE"
    if "\<forall>w \<in> set [0..<NUM_PAGEREFPAGES]. used_of (kheaproots h ! w) = {..<NPAGEREFS_PER_PAGE}"
  proof -
    have "used (kheaproots h) = {..<NUM_PAGEREFPAGES} \<times> {..<NPAGEREFS_PER_PAGE}" using that by (auto simp: used_def)
    then show ?thesis by (simp add: card_cartesian_product)
  qed
  with a show "allocpageref po (h, s) = Some (p, h', s') \<Longrightarrow> ref_taken h s p h' s' \<or>
       p = 0 \<and> h' = h \<and> s' = s \<and> card (used (kheaproots h)) = NUM_PAGEREFPAGES * NPAGEREFS_PER_PAGE"
    unfolding allocpageref_def by blast
qed

end

end
