(* ===== verification/Kalloc.thy ===== *)
theory Kalloc
  imports Kheap
begin

text \<open>
  What \<^verbatim>\<open>kmalloc\<close> and \<^verbatim>\<open>kfree\<close> promise: the blocks that are handed out do not overlap and
  keep their contents, a freed block is available again, and no assertion of the allocator fails.
\<close>

section \<open>Sizes and fields\<close>

lemma size_cases: "b < NSIZES \<Longrightarrow> sizes ! b \<in> {16, 32, 64, 128, 256, 512, 1024, 2048}"
  using nth_mem [of b sizes] by (simp add: sizes_def)

lemma size_facts:
  assumes "b < NSIZES"
  shows "sizes ! b dvd PAGE_SIZE" and "16 dvd sizes ! b" and "16 \<le> sizes ! b" and "sizes ! b \<le> 2048"
    and "4 dvd sizes ! b" and "0 < sizes ! b" and "2 \<le> PAGE_SIZE div sizes ! b" and "PAGE_SIZE div sizes ! b \<le> 256"
    and "PAGE_SIZE div sizes ! b * sizes ! b = PAGE_SIZE"
  using size_cases [OF assms] by auto

lemma blocks_of_eq:
  assumes "b < NSIZES"
  shows "blocks_of (sizes ! b) = (\<lambda>i. i * sizes ! b) ` {..<PAGE_SIZE div sizes ! b}"
proof -
  have "i < PAGE_SIZE div sizes ! b \<longleftrightarrow> i * sizes ! b < PAGE_SIZE" for i
    using size_facts(6,9) [OF assms] by (metis mult_less_cancel2)
  then show ?thesis by (auto simp: blocks_of_def dvd_def image_iff mult.commute)
qed

lemma blocks_of_facts:
  assumes "b < NSIZES"
  shows "finite (blocks_of (sizes ! b))" and "card (blocks_of (sizes ! b)) = PAGE_SIZE div sizes ! b"
  unfolding blocks_of_eq [OF assms] using size_facts(6) [OF assms] by (auto simp: card_image inj_on_def)

lemma free_list_length:
  assumes "b < NSIZES" and "distinct fs" and "set fs \<subseteq> blocks_of (sizes ! b)"
  shows "length fs \<le> PAGE_SIZE div sizes ! b" and "length fs \<le> 256"
    and "length fs = PAGE_SIZE div sizes ! b \<longleftrightarrow> set fs = blocks_of (sizes ! b)"
proof -
  note f = blocks_of_facts [OF assms(1)]
  have l: "length fs = card (set fs)" using assms(2) by (simp add: distinct_card)
  show a: "length fs \<le> PAGE_SIZE div sizes ! b" unfolding l using card_mono [OF f(1) assms(3)] f(2) by simp
  then show "length fs \<le> 256" using size_facts(8) [OF assms(1)] by simp
  show "length fs = PAGE_SIZE div sizes ! b \<longleftrightarrow> set fs = blocks_of (sizes ! b)"
    using card_subset_eq [OF f(1) assms(3)] f(2) l by auto
qed

text \<open>A page of the kernel and the packing of its address with the block type.\<close>

definition kpage :: "nat \<Rightarrow> bool" where
  "kpage a \<longleftrightarrow> a mod PAGE_SIZE = 0 \<and> unat MIPS_KSEG0 \<le> a \<and> a + PAGE_SIZE < 2 ^ 32"

lemma kpage_unat:
  assumes "kpage a" and "i < PAGE_SIZE"
  shows "unat (of_nat (a + i) :: vaddr) = a + i"
  using assms by (intro unat_of_nat32) (simp add: kpage_def)

lemma kpage_nonzero: "kpage a \<Longrightarrow> unat (x :: vaddr) = a + j \<Longrightarrow> x \<noteq> 0"
  by (auto simp: kpage_def)

lemma kpage_split:
  assumes "kpage a" and "i < PAGE_SIZE"
  shows "(a + i) div PAGE_SIZE * PAGE_SIZE = a" and "(a + i) mod PAGE_SIZE = i"
proof -
  obtain q where q: "a = PAGE_SIZE * q" using assms(1) unfolding kpage_def by (metis mod_eq_0_iff_dvd dvdE)
  have "(PAGE_SIZE * q + i) div PAGE_SIZE = q" using assms(2) by simp
  then show "(a + i) div PAGE_SIZE * PAGE_SIZE = a" by (simp only: q mult.commute)
  show "(a + i) mod PAGE_SIZE = i" using assms(2) by (simp add: q)
qed

lemma kpage_word: "kpage a \<Longrightarrow> i mod 4 = 0 \<Longrightarrow> (a + i) mod 4 = 0"
  using dvd_trans [of 4 PAGE_SIZE a] by (simp add: kpage_def mod_eq_0_iff_dvd)

lemma unat_eqD: "unat (x :: vaddr) = n \<Longrightarrow> x = of_nat n"
  by auto

lemma packed:
  assumes "kpage a" and "b < NSIZES" and "pageaddr_and_blocktype pr = of_nat (a + b)"
  shows "unat (PR_PAGEADDR pr) = a" and "PR_PAGEADDR pr = of_nat a"
    and "unat (PR_BLOCKTYPE pr) = b" and "PR_BLOCKTYPE pr = of_nat b"
proof -
  have b: "b < PAGE_SIZE" using assms(2) by simp
  show p: "unat (PR_PAGEADDR pr) = a"
    unfolding PR_PAGEADDR_def assms(3) unat_page_frame kpage_unat [OF assms(1) b] by (rule kpage_split(1) [OF assms(1) b])
  show t: "unat (PR_BLOCKTYPE pr) = b"
    unfolding PR_BLOCKTYPE_def assms(3) unat_page_offset kpage_unat [OF assms(1) b] by (rule kpage_split(2) [OF assms(1) b])
  show "PR_PAGEADDR pr = of_nat a" by (rule unat_eqD [OF p])
  show "PR_BLOCKTYPE pr = of_nat b" by (rule unat_eqD [OF t])
qed

lemma MKPAB_eq:
  assumes "kpage a" and "b < NSIZES"
  shows "MKPAB (of_nat a) (of_nat b) = of_nat (a + b)"
proof -
  have b: "b < PAGE_SIZE" using assms(2) by simp
  have a0: "unat (of_nat a :: vaddr) = a" using kpage_unat [OF assms(1), of 0] by simp
  have b0: "unat (of_nat b :: vaddr) = b" using b by (intro unat_of_nat32) simp
  have "unat (of_nat a AND PAGE_FRAME) = a" unfolding unat_page_frame a0 using kpage_split(1) [OF assms(1), of 0] by simp
  then have x: "of_nat a AND PAGE_FRAME = (of_nat a :: vaddr)" by (rule unat_eqD)
  have "unat (of_nat b AND NOT PAGE_FRAME) = b" unfolding unat_page_offset b0 using b by simp
  then have y: "of_nat b AND NOT PAGE_FRAME = (of_nat b :: vaddr)" by (rule unat_eqD)
  have "(of_nat a AND PAGE_FRAME) + (of_nat b AND NOT PAGE_FRAME) = (of_nat a AND PAGE_FRAME) OR (of_nat b AND NOT PAGE_FRAME :: vaddr)"
    by (rule disjunctive_add_eq_or) (auto simp: bit_eq_iff bit_simps)
  then show ?thesis unfolding MKPAB_def using x y by simp
qed

section \<open>Searching and unlinking\<close>

lemma pagerefs_set_same [simp]: "pagerefs (set_pageref p pr h) p = pr"
  by (simp add: set_pageref_def)

lemma find_page_path:
  "path (\<lambda>p. next_samesize (pagerefs h p)) a (map hp_ref gs) \<Longrightarrow>
   \<forall>g \<in> set gs. PR_BLOCKTYPE (pagerefs h (hp_ref g)) = of_nat b \<and> (0 < nfree (pagerefs h (hp_ref g)) \<longleftrightarrow> hp_free g \<noteq> []) \<Longrightarrow>
   find_page h b a = Some (case List.find (\<lambda>g. hp_free g \<noteq> []) gs of None \<Rightarrow> 0 | Some g \<Rightarrow> hp_ref g)"
  by (induction gs arbitrary: a) (subst find_page.simps; auto)+

lemma owner_page_path:
  "path (\<lambda>p. next_all (pagerefs h p)) a (map hp_ref gs) \<Longrightarrow>
   \<forall>g \<in> set gs. unat (PR_BLOCKTYPE (pagerefs h (hp_ref g))) < NSIZES \<and>
     (PR_PAGEADDR (pagerefs h (hp_ref g)) \<le> ptr \<and> ptr < PR_PAGEADDR (pagerefs h (hp_ref g)) + 4096 \<longleftrightarrow> P g) \<Longrightarrow>
   owner_page h ptr a = Some (case List.find P gs of None \<Rightarrow> 0 | Some g \<Rightarrow> hp_ref g)"
  by (induction gs arbitrary: a) (subst owner_page.simps; auto)+

lemma remove_loop_path:
  assumes "path (\<lambda>q. get_link h (nxt q)) (get_link h guy) (xs @ p # ys)" and "p \<notin> set xs"
  shows "remove_loop nxt p guy h = Some (set_link (if xs = [] then guy else nxt (last xs)) (get_link h (nxt p)) h)"
  using assms
proof (induction xs arbitrary: guy)
  case Nil
  then show ?case by (subst remove_loop.simps) simp
next
  case (Cons x xs)
  then have "remove_loop nxt p guy h = remove_loop nxt p (nxt x) h"
    by (subst remove_loop.simps) auto
  with Cons show ?case by simp
qed

text \<open>Changing the links of pagerefs does not touch what they say about their pages.\<close>

definition same_data :: "kheap \<Rightarrow> kheap \<Rightarrow> bool" where
  "same_data h h' \<longleftrightarrow> kheaproots h' = kheaproots h \<and> length (sizebases h') = length (sizebases h) \<and>
     (\<forall>p. pageaddr_and_blocktype (pagerefs h' p) = pageaddr_and_blocktype (pagerefs h p) \<and>
       freelist_offset (pagerefs h' p) = freelist_offset (pagerefs h p) \<and> nfree (pagerefs h' p) = nfree (pagerefs h p))"

lemma same_data_link: "same_data h (set_link l v h)"
  by (cases l) (auto simp: same_data_def set_pageref_def)

lemma same_data_trans: "same_data h h' \<Longrightarrow> same_data h' h'' \<Longrightarrow> same_data h h''"
  by (simp add: same_data_def)

lemma page_ok_same_data: "same_data h h' \<Longrightarrow> page_ok m (pagerefs h' p) g \<longleftrightarrow> page_ok m (pagerefs h p) g"
  by (simp add: page_ok_def same_data_def)

lemma unlink_all:
  assumes p: "path (\<lambda>q. next_all (pagerefs h q)) (allbase h) (xs @ p # ys)" and d: "distinct (xs @ p # ys)"
  obtains h' where "remove_loop Next_all p Allbase h = Some h'" and "same_data h h'"
    and "path (\<lambda>q. next_all (pagerefs h' q)) (allbase h') (xs @ ys)"
    and "(\<lambda>q. next_samesize (pagerefs h' q)) = (\<lambda>q. next_samesize (pagerefs h q))" and "sizebases h' = sizebases h"
proof -
  let ?l = "if xs = [] then Allbase else Next_all (last xs)"
  let ?h = "set_link ?l (next_all (pagerefs h p)) h"
  have "remove_loop Next_all p Allbase h = Some ?h"
    using remove_loop_path [of h Next_all Allbase xs p ys] p d by simp
  moreover have "path (\<lambda>q. next_all (pagerefs ?h q)) (allbase ?h) (xs @ ys)"
  proof (cases "xs = []")
    case True
    then show ?thesis using path_suffix [OF p] by simp
  next
    case False
    then have "(\<lambda>q. next_all (pagerefs ?h q)) = (\<lambda>q. next_all (pagerefs h q))(last xs := next_all (pagerefs h p))"
      by (auto simp: set_pageref_def)
    with path_remove [OF p d False] False show ?thesis by (simp add: set_pageref_def)
  qed
  moreover have "(\<lambda>q. next_samesize (pagerefs ?h q)) = (\<lambda>q. next_samesize (pagerefs h q))" "sizebases ?h = sizebases h"
    by (auto simp: set_pageref_def)
  ultimately show thesis using that same_data_link by blast
qed

lemma unlink_samesize:
  assumes p: "path (\<lambda>q. next_samesize (pagerefs h q)) (sizebases h ! b) (xs @ p # ys)" and d: "distinct (xs @ p # ys)"
    and b: "b < length (sizebases h)"
  obtains h' where "remove_loop Next_samesize p (Sizebase b) h = Some h'" and "same_data h h'"
    and "path (\<lambda>q. next_samesize (pagerefs h' q)) (sizebases h' ! b) (xs @ ys)"
    and "(\<lambda>q. next_all (pagerefs h' q)) = (\<lambda>q. next_all (pagerefs h q))" and "allbase h' = allbase h"
    and "\<forall>q. q \<notin> set xs \<longrightarrow> next_samesize (pagerefs h' q) = next_samesize (pagerefs h q)"
    and "\<forall>c. c \<noteq> b \<longrightarrow> sizebases h' ! c = sizebases h ! c"
proof -
  let ?l = "if xs = [] then Sizebase b else Next_samesize (last xs)"
  let ?h = "set_link ?l (next_samesize (pagerefs h p)) h"
  have "remove_loop Next_samesize p (Sizebase b) h = Some ?h"
    using remove_loop_path [of h Next_samesize "Sizebase b" xs p ys] p d by simp
  moreover have "path (\<lambda>q. next_samesize (pagerefs ?h q)) (sizebases ?h ! b) (xs @ ys)"
  proof (cases "xs = []")
    case True
    then show ?thesis using path_suffix [OF p] b by simp
  next
    case False
    then have "(\<lambda>q. next_samesize (pagerefs ?h q)) = (\<lambda>q. next_samesize (pagerefs h q))(last xs := next_samesize (pagerefs h p))"
      by (auto simp: set_pageref_def)
    with path_remove [OF p d False] False show ?thesis by (simp add: set_pageref_def)
  qed
  moreover have "(\<lambda>q. next_all (pagerefs ?h q)) = (\<lambda>q. next_all (pagerefs h q))" "allbase ?h = allbase h"
    "\<forall>q. q \<notin> set xs \<longrightarrow> next_samesize (pagerefs ?h q) = next_samesize (pagerefs h q)"
    "\<forall>c. c \<noteq> b \<longrightarrow> sizebases ?h ! c = sizebases h ! c"
    by (auto simp: set_pageref_def)
  ultimately show thesis using that same_data_link by blast
qed

lemma remove_lists_spec:
  assumes l: "lists_ok h (gs @ g # gs')" and b: "hp_type g < NSIZES"
  obtains h' where "remove_lists (hp_ref g) (hp_type g) h = Some h'" and "same_data h h'" and "lists_ok h' (gs @ gs')"
proof -
  let ?b = "hp_type g" let ?f = "\<lambda>b. filter (\<lambda>g. hp_type g = b)"
  have len: "length (sizebases h) = NSIZES" and d: "distinct (map hp_ref (gs @ g # gs'))"
    and pa: "path (\<lambda>p. next_all (pagerefs h p)) (allbase h) (map hp_ref (gs @ g # gs'))"
    and ps: "\<And>c. c < NSIZES \<Longrightarrow> path (\<lambda>p. next_samesize (pagerefs h p)) (sizebases h ! c) (map hp_ref (?f c (gs @ g # gs')))"
    using l by (simp_all add: lists_ok_def)
  have df: "distinct (map hp_ref (?f ?b gs) @ hp_ref g # map hp_ref (?f ?b gs'))"
    using d by (auto simp: distinct_map_filter)
  have pb: "path (\<lambda>p. next_samesize (pagerefs h p)) (sizebases h ! ?b) (map hp_ref (?f ?b gs) @ hp_ref g # map hp_ref (?f ?b gs'))"
    using ps [OF b] by simp
  have bl: "?b < length (sizebases h)" using b len by simp
  obtain h1 where h1: "remove_loop Next_samesize (hp_ref g) (Sizebase ?b) h = Some h1" "same_data h h1"
    "path (\<lambda>q. next_samesize (pagerefs h1 q)) (sizebases h1 ! ?b) (map hp_ref (?f ?b gs) @ map hp_ref (?f ?b gs'))"
    "(\<lambda>q. next_all (pagerefs h1 q)) = (\<lambda>q. next_all (pagerefs h q))" "allbase h1 = allbase h"
    "\<forall>q. q \<notin> set (map hp_ref (?f ?b gs)) \<longrightarrow> next_samesize (pagerefs h1 q) = next_samesize (pagerefs h q)"
    "\<forall>c. c \<noteq> ?b \<longrightarrow> sizebases h1 ! c = sizebases h ! c"
    by (rule unlink_samesize [OF pb df bl])
  have "path (\<lambda>q. next_all (pagerefs h1 q)) (allbase h1) (map hp_ref gs @ hp_ref g # map hp_ref gs')"
    using pa h1(4,5) by simp
  from unlink_all [OF this] d obtain h2 where h2: "remove_loop Next_all (hp_ref g) Allbase h1 = Some h2" "same_data h1 h2"
    "path (\<lambda>q. next_all (pagerefs h2 q)) (allbase h2) (map hp_ref gs @ map hp_ref gs')"
    "(\<lambda>q. next_samesize (pagerefs h2 q)) = (\<lambda>q. next_samesize (pagerefs h1 q))" "sizebases h2 = sizebases h1"
    by auto
  have "path (\<lambda>p. next_samesize (pagerefs h2 p)) (sizebases h2 ! c) (map hp_ref (?f c (gs @ gs')))" if c: "c < NSIZES" for c
  proof (cases "c = ?b")
    case True
    show ?thesis unfolding True h2(4,5) using h1(3) by simp
  next
    case False
    have "q \<notin> set (map hp_ref (?f ?b gs))" if q: "q \<in> set (map hp_ref (?f c (gs @ g # gs')))" for q
    proof
      assume "q \<in> set (map hp_ref (?f ?b gs))"
      then obtain e where e: "q = hp_ref e" "e \<in> set (gs @ g # gs')" "hp_type e = ?b" by auto
      from q obtain e' where e': "q = hp_ref e'" "e' \<in> set (gs @ g # gs')" "hp_type e' = c" by (auto split: if_splits)
      have "inj_on hp_ref (set (gs @ g # gs'))" using d by (simp only: distinct_map)
      from inj_onD [OF this, of e e'] e e' False show False by simp
    qed
    then have "path (\<lambda>p. next_samesize (pagerefs h1 p)) (sizebases h ! c) (map hp_ref (?f c (gs @ g # gs')))"
      using h1(6) by (intro path_cong [OF ps [OF c]]) blast
    then show ?thesis unfolding h2(4,5) using h1(7) False by simp
  qed
  moreover have "length (sizebases h2) = NSIZES" using h1(2) h2(2) len by (simp add: same_data_def)
  ultimately have "lists_ok h2 (gs @ gs')" using d h2(3) by (simp add: lists_ok_def)
  moreover have "remove_lists (hp_ref g) ?b h = Some h2" using b h1(1) h2(1) by (simp add: remove_lists_def)
  ultimately show thesis using that same_data_trans [OF h1(2) h2(2)] by blast
qed

section \<open>The free list of a page\<close>

lemma free_links_cong: "(\<And>i. i \<in> set fs \<Longrightarrow> m' (a + i) = m (a + i)) \<Longrightarrow> free_links m' a fs \<longleftrightarrow> free_links m a fs"
  by (induction fs) auto

lemma page_ok_mem:
  "(\<And>i. i \<in> set (hp_free g) \<Longrightarrow> m' (hp_page g + i) = m (hp_page g + i)) \<Longrightarrow> page_ok m' pr g \<longleftrightarrow> page_ok m pr g"
  using free_links_cong [of "hp_free g" m' "hp_page g" m] by (simp add: page_ok_def)

text \<open>The words a loop of stores leaves behind.\<close>

definition put_words :: "nat list \<Rightarrow> (nat \<Rightarrow> nat) \<Rightarrow> (nat \<Rightarrow> uint32) \<Rightarrow> (nat \<Rightarrow> uint32) \<Rightarrow> nat \<Rightarrow> uint32" where
  "put_words is a v m = fold (\<lambda>i m. m(a i := v i)) is m"

lemma put_words_other: "x \<notin> a ` set is \<Longrightarrow> put_words is a v m x = m x"
  unfolding put_words_def by (induction "is" arbitrary: m) auto

lemma put_words_at: "inj_on a (set is) \<Longrightarrow> i \<in> set is \<Longrightarrow> put_words is a v m (a i) = v i"
proof (induction "is" arbitrary: m)
  case (Cons j js)
  show ?case
  proof (cases "i \<in> set js")
    case True
    then show ?thesis using Cons.IH [of "m(a j := v j)"] Cons.prems by (simp add: put_words_def del: fun_upd_apply)
  next
    case False
    then have ij: "i = j" and "a j \<notin> a ` set js" using Cons.prems by (auto simp: inj_on_def)
    then show ?thesis using put_words_other [of "a j" a js v "m(a j := v j)"] by (simp add: put_words_def)
  qed
qed simp

definition fresh_list :: "nat \<Rightarrow> nat \<Rightarrow> nat list" where
  "fresh_list sz n = map (\<lambda>i. i * sz) (rev [0..<n])"

lemma fresh_list_links:
  assumes "m a = 0" and "\<And>i. 1 \<le> i \<Longrightarrow> i < n \<Longrightarrow> m (a + i * sz) = of_nat (a + (i - 1) * sz)"
  shows "free_links m a (fresh_list sz n)"
  using assms(2)
proof (induction n)
  case (Suc n)
  then have "free_links m a (fresh_list sz n)" by simp
  moreover have "m (a + n * sz) = (case fresh_list sz n of [] \<Rightarrow> 0 | j # _ \<Rightarrow> of_nat (a + j))"
  proof (cases n)
    case 0
    then show ?thesis using assms(1) by (simp add: fresh_list_def)
  next
    case (Suc k)
    then show ?thesis using Suc.prems [of n] by (simp add: fresh_list_def)
  qed
  ultimately show ?case by (simp add: fresh_list_def)
qed (simp add: fresh_list_def)

lemma fresh_list_facts:
  assumes "b < NSIZES"
  defines "n \<equiv> PAGE_SIZE div sizes ! b"
  shows "distinct (fresh_list (sizes ! b) n)" and "set (fresh_list (sizes ! b) n) = blocks_of (sizes ! b)"
    and "length (fresh_list (sizes ! b) n) = n" and "fresh_list (sizes ! b) n = (n - 1) * sizes ! b # fresh_list (sizes ! b) (n - 1)"
proof -
  have sz: "0 < sizes ! b" by (rule size_facts(6) [OF assms(1)])
  show "distinct (fresh_list (sizes ! b) n)"
    using sz by (auto simp: fresh_list_def distinct_map inj_on_def)
  show "set (fresh_list (sizes ! b) n) = blocks_of (sizes ! b)"
    unfolding blocks_of_eq [OF assms(1)] by (auto simp: fresh_list_def n_def)
  show "length (fresh_list (sizes ! b) n) = n" by (simp add: fresh_list_def)
  have "2 \<le> n" unfolding n_def by (rule size_facts(7) [OF assms(1)])
  then show "fresh_list (sizes ! b) n = (n - 1) * sizes ! b # fresh_list (sizes ! b) (n - 1)"
    by (cases n) (simp_all add: fresh_list_def)
qed

context page_layer
begin

lemma kpage_block: "ok s \<Longrightarrow> (a, 1) \<in> blocks s \<Longrightarrow> kpage a"
  using block [of s a 1] by (simp add: kpage_def)

lemma page_load:
  assumes "ok s" and "(a, 1) \<in> blocks s" and "i < PAGE_SIZE" and "i mod 4 = 0"
  shows "po_load po (of_nat a + of_nat i) s = Some (mem s (a + i))"
proof -
  have "(a + i) mod 4 = 0" by (rule kpage_word [OF kpage_block [OF assms(1,2)] assms(4)])
  moreover have "a + i \<in> span (a, 1)" using assms(3) by (simp add: span_def)
  ultimately show ?thesis using load [OF assms(1,2), of "a + i"] by simp
qed

lemma page_store:
  assumes "ok s" and "(a, 1) \<in> blocks s" and "i < PAGE_SIZE" and "i mod 4 = 0"
  obtains s' where "po_store po (of_nat a + of_nat i) v s = Some s'" and "ok s'" and "blocks s' = blocks s"
    and "mem s' = (mem s)(a + i := v)" and "view s' = view s"
proof -
  have "(a + i) mod 4 = 0" by (rule kpage_word [OF kpage_block [OF assms(1,2)] assms(4)])
  moreover have "a + i \<in> span (a, 1)" using assms(3) by (simp add: span_def)
  ultimately show thesis using store [OF assms(1,2), of "a + i" v] that by auto
qed

text \<open>The first block of the free list is taken.\<close>

lemma doalloc_spec:
  assumes s: "ok s" "(hp_page g, 1) \<in> blocks s" and pg: "page_ok (mem s) (pagerefs h p) g" and fs: "hp_free g = i # is"
  obtains pr where "doalloc po p (h, s) = Some (of_nat (hp_page g + i), set_pageref p pr h, s)"
    and "page_ok (mem s) pr (g\<lparr>hp_free := is\<rparr>)"
    and "next_samesize pr = next_samesize (pagerefs h p)" and "next_all pr = next_all (pagerefs h p)"
proof -
  let ?a = "hp_page g" let ?pr = "pagerefs h p"
  have a: "kpage ?a" by (rule kpage_block [OF s])
  have b: "hp_type g < NSIZES" and pab: "pageaddr_and_blocktype ?pr = of_nat (?a + hp_type g)"
    and off: "freelist_offset ?pr = of_nat i" and nf: "nfree ?pr = of_nat (Suc (length is))"
    and d: "distinct (i # is)" and sub: "set (i # is) \<subseteq> blocks_of (hp_size g)" and fl: "free_links (mem s) ?a (i # is)"
    using pg by (simp_all add: page_ok_def fs offset_of_def)
  note pk = packed [OF a b pab]
  have i: "i < PAGE_SIZE" "i mod 4 = 0" using sub size_facts(5) [OF b] by (auto simp: blocks_of_def elim: dvd_trans intro: dvd_imp_mod_0)
  have len: "length (i # is) \<le> 256" by (rule free_list_length(2) [OF b d sub])
  have uo: "unat (freelist_offset ?pr) = i" using i(1) by (simp add: off unat_of_nat)
  have uc: "(ucast (freelist_offset ?pr) :: vaddr) = of_nat i"
    using uo by (metis of_nat_unat)
  have ld: "po_load po (PR_PAGEADDR ?pr + ucast (freelist_offset ?pr)) s = Some (mem s (?a + i))"
    unfolding pk(2) uc by (rule page_load [OF s i])
  have n1: "nfree ?pr - 1 = of_nat (length is)" by (simp add: nf)
  define pr where "pr = ?pr\<lparr>nfree := of_nat (length is), freelist_offset := offset_of is\<rparr>"
  show thesis
  proof (rule that [of pr])
    show "page_ok (mem s) pr (g\<lparr>hp_free := is\<rparr>)" using pg b d sub fl by (simp add: page_ok_def pr_def)
    show "doalloc po p (h, s) = Some (of_nat (?a + i), set_pageref p pr h, s)"
    proof (cases "is")
      case Nil
      then have "mem s (?a + i) = 0" using fl by simp
      with Nil ld uo i n1 show ?thesis
        by (simp add: doalloc_def pr_def offset_of_def pk(2) uc Let_def)
    next
      case (Cons j js)
      then have m: "mem s (?a + i) = of_nat (?a + j)" using fl by simp
      have j: "j < PAGE_SIZE" using sub Cons by (auto simp: blocks_of_def)
      have "unat (of_nat (?a + j) :: vaddr) = ?a + j" by (rule kpage_unat [OF a j])
      then have nz: "(of_nat (?a + j) :: vaddr) \<noteq> 0" by (rule kpage_nonzero [OF a])
      have df: "(of_nat (?a + j) :: vaddr) - PR_PAGEADDR ?pr = of_nat j" by (simp add: pk(2))
      have uj: "unat (of_nat j :: vaddr) = j" using j by (intro unat_of_nat32) simp
      have "unat (of_nat (length is) :: 16 word) = length is" using len by (simp add: unat_of_nat)
      then have "(of_nat (length is) :: 16 word) > 0" using Cons by (simp add: word_less_nat_alt)
      moreover have "(ucast (of_nat j :: vaddr) :: 16 word) = of_nat j" using uj by (metis of_nat_unat)
      ultimately show ?thesis
        using Cons ld uo i n1 m nz df uj j by (simp add: doalloc_def pr_def offset_of_def pk(2) uc Let_def)
    qed
  qed (simp_all add: pr_def)
qed

lemma block_offset:
  assumes "b < NSIZES" and "i < PAGE_SIZE div sizes ! b"
  shows "i * sizes ! b < PAGE_SIZE" and "i * sizes ! b mod 4 = 0" and "i * sizes ! b \<in> blocks_of (sizes ! b)"
proof -
  show "i * sizes ! b \<in> blocks_of (sizes ! b)" unfolding blocks_of_eq [OF assms(1)] using assms(2) by auto
  then show "i * sizes ! b < PAGE_SIZE" by (simp add: blocks_of_def)
  show "i * sizes ! b mod 4 = 0" using size_facts(5) [OF assms(1)] by (simp add: dvd_imp_mod_0)
qed

lemma link_blocks_spec:
  assumes "ok s" and "(a, 1) \<in> blocks s" and b: "b < NSIZES" and "set is \<subseteq> {1..<PAGE_SIZE div sizes ! b}"
  shows "\<exists>s'. link_blocks po (of_nat a) (sizes ! b) is s = Some s' \<and> ok s' \<and> blocks s' = blocks s \<and> view s' = view s \<and>
    mem s' = put_words is (\<lambda>i. a + i * sizes ! b) (\<lambda>i. of_nat a + of_nat ((i - 1) * sizes ! b)) (mem s)"
  using assms(1,2,4)
proof (induction "is" arbitrary: s)
  case (Cons i "is")
  let ?sz = "sizes ! b" let ?v = "of_nat a + of_nat ((i - 1) * ?sz) :: vaddr"
  have i: "1 \<le> i" "i < PAGE_SIZE div ?sz" "i - 1 < PAGE_SIZE div ?sz" using Cons.prems(3) by auto
  note o = block_offset [OF b i(2)] and o' = block_offset [OF b i(3)]
  obtain s1 where s1: "po_store po (of_nat a + of_nat (i * ?sz)) ?v s = Some s1" "ok s1" "blocks s1 = blocks s"
    "mem s1 = (mem s)(a + i * ?sz := ?v)" "view s1 = view s" by (rule page_store [OF Cons.prems(1,2) o(1,2)])
  have a: "kpage a" by (rule kpage_block [OF Cons.prems(1,2)])
  have ne: "of_nat a + of_nat (i * ?sz) \<noteq> ?v"
  proof
    assume "of_nat a + of_nat (i * ?sz) = ?v"
    then have "unat (of_nat (a + i * ?sz) :: vaddr) = unat (of_nat (a + (i - 1) * ?sz) :: vaddr)" by (simp only: of_nat_add)
    then have "i * ?sz = (i - 1) * ?sz" unfolding kpage_unat [OF a o(1)] kpage_unat [OF a o'(1)] by simp
    then show False using i(1) size_facts(6) [OF b] by simp
  qed
  have "link_blocks po (of_nat a) ?sz (i # is) s = link_blocks po (of_nat a) ?sz is s1"
    using s1(1) ne by (simp del: of_nat_mult of_nat_add of_nat_diff)
  moreover have "put_words (i # is) (\<lambda>i. a + i * ?sz) (\<lambda>i. of_nat a + of_nat ((i - 1) * ?sz)) (mem s) =
      put_words is (\<lambda>i. a + i * ?sz) (\<lambda>i. of_nat a + of_nat ((i - 1) * ?sz)) (mem s1)"
    by (simp only: put_words_def fold_Cons s1(4) comp_apply)
  ultimately show ?case using Cons.IH [OF s1(2)] Cons.prems s1(3,5) by simp
qed (simp add: put_words_def)

lemma newpage_spec:
  assumes s: "ok s" "(a, 1) \<in> blocks s" and b: "b < NSIZES"
  obtains pr s' where "newpage po p b (of_nat a) (h, s) =
      Some ((set_pageref p pr h)\<lparr>sizebases := (sizebases h)[b := p], allbase := p\<rparr>, s')"
    and "ok s'" and "blocks s' = blocks s" and "view s' = view s" and "\<forall>x. x \<notin> span (a, 1) \<longrightarrow> mem s' x = mem s x"
    and "page_ok (mem s') pr \<lparr>hp_ref = p, hp_page = a, hp_type = b, hp_free = fresh_list (sizes ! b) (PAGE_SIZE div sizes ! b)\<rparr>"
    and "next_samesize pr = sizebases h ! b" and "next_all pr = allbase h"
proof -
  let ?sz = "sizes ! b" let ?n = "PAGE_SIZE div ?sz"
  have a: "kpage a" by (rule kpage_block [OF s])
  obtain s1 where "po_store po (of_nat a + of_nat 0) 0 s = Some s1" and s1: "ok s1" "blocks s1 = blocks s"
    "mem s1 = (mem s)(a + 0 := 0)" "view s1 = view s"
    using page_store [OF s, of 0 0] by auto
  then have st: "po_store po (of_nat a) 0 s = Some s1" by simp
  have n: "2 \<le> ?n" "?n \<le> 256" by (rule size_facts [OF b])+
  obtain s2 where s2: "link_blocks po (of_nat a) ?sz [1..<?n] s1 = Some s2" "ok s2" "blocks s2 = blocks s1" "view s2 = view s1"
    "mem s2 = put_words [1..<?n] (\<lambda>i. a + i * ?sz) (\<lambda>i. of_nat a + of_nat ((i - 1) * ?sz)) (mem s1)"
    using link_blocks_spec [OF s1(1) _ b, of a "[1..<?n]"] s1(2) s(2) by auto
  have sz: "0 < ?sz" by (rule size_facts(6) [OF b])
  have inj: "inj_on (\<lambda>i. a + i * ?sz) (set [1..<?n])" using sz by (simp add: inj_on_def)
  have at0: "mem s2 a = 0"
    unfolding s2(5) using sz by (subst put_words_other) (auto simp: s1(3))
  have at: "mem s2 (a + i * ?sz) = of_nat (a + (i - 1) * ?sz)" if "1 \<le> i" "i < ?n" for i
    unfolding s2(5) using put_words_at [OF inj, of i] that by (simp del: of_nat_mult)
  have out: "mem s2 x = mem s x" if "x \<notin> span (a, 1)" for x
  proof -
    have ne: "x \<noteq> a + i * ?sz" if "i < ?n" for i
      using block_offset(1) [OF b that] \<open>x \<notin> span (a, 1)\<close> by (auto simp: span_def)
    have "x \<notin> (\<lambda>i. a + i * ?sz) ` set [1..<?n]"
    proof
      assume "x \<in> (\<lambda>i. a + i * ?sz) ` set [1..<?n]"
      then obtain i where "i < ?n" "x = a + i * ?sz" by auto
      with ne [of i] show False by simp
    qed
    moreover have "x \<noteq> a" using ne [of 0] n by simp
    ultimately
    show ?thesis unfolding s2(5) by (subst put_words_other) (simp_all add: s1(3))
  qed
  have n1: "?n - 1 < ?n" using n by simp
  note o = block_offset [OF b n1]
  have u: "unat (of_nat ((?n - 1) * ?sz) :: 16 word) = (?n - 1) * ?sz" using o(1) by (simp add: unat_of_nat del: of_nat_mult)
  have "unat (of_nat ((?n - 1) * ?sz) :: vaddr) = (?n - 1) * ?sz" using o(1) by (intro unat_of_nat32) simp
  then have uc: "(ucast (of_nat a + of_nat ((?n - 1) * ?sz) - of_nat a :: vaddr) :: 16 word) = of_nat ((?n - 1) * ?sz)"
    by (metis of_nat_unat add_diff_cancel_left')
  define pr where "pr = \<lparr>next_samesize = sizebases h ! b, next_all = allbase h,
      pageaddr_and_blocktype = of_nat (a + b), freelist_offset = of_nat ((?n - 1) * ?sz), nfree = of_nat ?n\<rparr>"
  show thesis
  proof (rule that [of pr s2])
    show "newpage po p b (of_nat a) (h, s) =
        Some ((set_pageref p pr h)\<lparr>sizebases := (sizebases h)[b := p], allbase := p\<rparr>, s2)"
      unfolding newpage_def MKPAB_eq [OF a b] Let_def using st s2(1)
      by (simp only: prod.case bind.bind_lunit uc pageref.simps u kassert_simps refl pr_def
          set_pageref_def simp_thms) simp
    show "page_ok (mem s2) pr \<lparr>hp_ref = p, hp_page = a, hp_type = b, hp_free = fresh_list ?sz ?n\<rparr>"
      using fresh_list_facts [OF b] fresh_list_links [of "mem s2" a ?n ?sz, OF at0 at] b
      by (simp add: page_ok_def pr_def offset_of_def)
  qed (use s1 s2 out in \<open>simp_all add: pr_def\<close>)
qed

lemma fill_deadbeef_spec:
  assumes "ok s" and "(a, 1) \<in> blocks s" and "i mod 4 = 0" and "\<forall>k \<in> set ks. i + 4 * k < PAGE_SIZE"
  shows "\<exists>s'. fill_deadbeef po (of_nat (a + i)) ks s = Some s' \<and> ok s' \<and> blocks s' = blocks s \<and> view s' = view s \<and>
    mem s' = put_words ks (\<lambda>k. a + (i + 4 * k)) (\<lambda>k. 0xdeadbeef) (mem s)"
  using assms(1,2,4)
proof (induction ks arbitrary: s)
  case (Cons k ks)
  have k: "i + 4 * k < PAGE_SIZE" "(i + 4 * k) mod 4 = 0" using Cons.prems(3) assms(3) by simp_all
  obtain s1 where s1: "po_store po (of_nat a + of_nat (i + 4 * k)) 0xdeadbeef s = Some s1" "ok s1" "blocks s1 = blocks s"
    "mem s1 = (mem s)(a + (i + 4 * k) := 0xdeadbeef)" "view s1 = view s"
    by (rule page_store [OF Cons.prems(1,2) k])
  have "of_nat (a + i) + of_nat (4 * k) = of_nat a + (of_nat (i + 4 * k) :: vaddr)" by simp
  then have "fill_deadbeef po (of_nat (a + i)) (k # ks) s = fill_deadbeef po (of_nat (a + i)) ks s1"
    using s1(1) by (simp only: fill_deadbeef.simps bind.bind_lunit)
  moreover have "put_words (k # ks) (\<lambda>k. a + (i + 4 * k)) (\<lambda>k. 0xdeadbeef) (mem s) =
      put_words ks (\<lambda>k. a + (i + 4 * k)) (\<lambda>k. 0xdeadbeef) (mem s1)"
    by (simp only: put_words_def fold_Cons s1(4) comp_apply)
  ultimately show ?case using Cons.IH [OF s1(2)] Cons.prems s1(3,5) by simp
qed (simp add: put_words_def)

text \<open>Filling the block at \<open>i\<close> leaves the words outside of it alone.\<close>

lemma fill_block:
  assumes s: "ok s" "(a, 1) \<in> blocks s" and b: "b < NSIZES" and i: "i \<in> blocks_of (sizes ! b)"
  obtains s' where "fill_deadbeef po (of_nat (a + i)) [0..<sizes ! b div 4] s = Some s'" and "ok s'"
    and "blocks s' = blocks s" and "view s' = view s" and "\<forall>x. x \<notin> bytes (a + i, sizes ! b) \<longrightarrow> mem s' x = mem s x"
proof -
  let ?sz = "sizes ! b"
  have i': "i < PAGE_SIZE" "?sz dvd i" using i by (simp_all add: blocks_of_def)
  have "?sz dvd PAGE_SIZE" by (rule size_facts(1) [OF b])
  then have le: "i + ?sz \<le> PAGE_SIZE" using i' by (metis dvd_def Suc_leI mult_Suc_right add.commute mult_le_mono2 mult_less_cancel1)
  have k: "4 * k < ?sz" if "k < ?sz div 4" for k using that by simp
  have "i mod 4 = 0" using i'(2) size_facts(5) [OF b] by (meson dvd_trans dvd_imp_mod_0)
  moreover have "\<forall>k \<in> set [0..<?sz div 4]. i + 4 * k < PAGE_SIZE" using k le by fastforce
  ultimately have "\<exists>s'. fill_deadbeef po (of_nat (a + i)) [0..<?sz div 4] s = Some s' \<and> ok s' \<and> blocks s' = blocks s \<and> view s' = view s \<and>
      mem s' = put_words [0..<?sz div 4] (\<lambda>k. a + (i + 4 * k)) (\<lambda>k. 0xdeadbeef) (mem s)"
    by (rule fill_deadbeef_spec [OF s])
  then obtain s' where s': "fill_deadbeef po (of_nat (a + i)) [0..<?sz div 4] s = Some s'" "ok s'"
    "blocks s' = blocks s" "view s' = view s"
    "mem s' = put_words [0..<?sz div 4] (\<lambda>k. a + (i + 4 * k)) (\<lambda>k. 0xdeadbeef) (mem s)"
    by blast
  have "x \<notin> (\<lambda>k. a + (i + 4 * k)) ` set [0..<?sz div 4]" if "x \<notin> bytes (a + i, ?sz)" for x
    using that k by (auto simp: bytes_def)
  then have "\<forall>x. x \<notin> bytes (a + i, ?sz) \<longrightarrow> mem s' x = mem s x" 
    unfolding s'(5) by (intro allI impI put_words_other)
  with s' that show thesis by blast
qed

lemma putblock_spec:
  assumes s: "ok s" "(hp_page g, 1) \<in> blocks s" and pg: "page_ok (mem s) (pagerefs h p) g"
    and i: "i \<in> blocks_of (hp_size g)" "i \<notin> set (hp_free g)"
  obtains pr s' where "putblock po p (of_nat i) (h, s) = Some (set_pageref p pr h, s')"
    and "ok s'" and "blocks s' = blocks s" and "view s' = view s" and "\<forall>x. x \<noteq> hp_page g + i \<longrightarrow> mem s' x = mem s x"
    and "page_ok (mem s') pr (g\<lparr>hp_free := i # hp_free g\<rparr>)"
    and "next_samesize pr = next_samesize (pagerefs h p)" and "next_all pr = next_all (pagerefs h p)"
proof -
  let ?a = "hp_page g" let ?pr = "pagerefs h p" let ?fs = "hp_free g"
  have a: "kpage ?a" by (rule kpage_block [OF s])
  have b: "hp_type g < NSIZES" and pab: "pageaddr_and_blocktype ?pr = of_nat (?a + hp_type g)"
    and off: "freelist_offset ?pr = offset_of ?fs" and nf: "nfree ?pr = of_nat (length ?fs)"
    and d: "distinct ?fs" and sub: "set ?fs \<subseteq> blocks_of (hp_size g)" and fl: "free_links (mem s) ?a ?fs"
    using pg by (simp_all add: page_ok_def)
  note pk = packed [OF a b pab]
  have i': "i < PAGE_SIZE" "i mod 4 = 0"
    using i(1) size_facts(5) [OF b] by (auto simp: blocks_of_def elim: dvd_trans intro: dvd_imp_mod_0)
  let ?v = "(case ?fs of [] \<Rightarrow> 0 | j # _ \<Rightarrow> of_nat (?a + j)) :: vaddr"
  obtain s' where s': "po_store po (of_nat ?a + of_nat i) ?v s = Some s'" "ok s'" "blocks s' = blocks s"
    "mem s' = (mem s)(?a + i := ?v)" "view s' = view s" by (rule page_store [OF s i'])
  have ui: "unat (of_nat i :: vaddr) = i" using i'(1) by (intro unat_of_nat32) simp
  have uc: "(ucast (of_nat i :: vaddr) :: 16 word) = of_nat i" using ui by (metis of_nat_unat)
  define pr where "pr = ?pr\<lparr>freelist_offset := of_nat i, nfree := nfree ?pr + 1\<rparr>"
  show thesis
  proof (rule that [of pr s'])
    have "free_links (mem s') ?a ?fs"
      unfolding s'(4) by (subst free_links_cong [of ?fs _ ?a "mem s"]) (use i(2) fl in auto)
    then show "page_ok (mem s') pr (g\<lparr>hp_free := i # ?fs\<rparr>)"
      using pg i d s'(4) by (auto simp: page_ok_def pr_def offset_of_def nf ac_simps split: list.split)
    show "putblock po p (of_nat i) (h, s) = Some (set_pageref p pr h, s')"
    proof (cases ?fs)
      case Nil
      then show ?thesis using s'(1) by (simp add: putblock_def pk(2) off offset_of_def pr_def uc Let_def)
    next
      case (Cons j js)
      have j: "j < PAGE_SIZE" using sub Cons by (auto simp: blocks_of_def)
      have uj: "unat (of_nat j :: 16 word) = j" using j by (simp add: unat_of_nat)
      have ucj: "(ucast (of_nat j :: 16 word) :: vaddr) = of_nat j" using uj by (metis of_nat_unat)
      have "(of_nat j :: 16 word) \<noteq> INVALID_OFFSET" 
      proof
        assume "(of_nat j :: 16 word) = INVALID_OFFSET"
        then have "unat (of_nat j :: 16 word) = unat INVALID_OFFSET" by (simp only:)
        with uj j show False by simp
      qed
      moreover have "of_nat ?a + of_nat i \<noteq> (of_nat ?a + of_nat j :: vaddr)"
      proof
        assume "of_nat ?a + of_nat i = (of_nat ?a + of_nat j :: vaddr)"
        then have "unat (of_nat i :: vaddr) = unat (of_nat j :: vaddr)" by simp
        with ui j i(2) Cons show False by (simp add: unat_of_nat32)
      qed
      ultimately show ?thesis
        using s'(1) Cons by (simp add: putblock_def pk(2) off offset_of_def pr_def uc ucj Let_def)
    qed
  qed (use s' in \<open>simp_all add: pr_def\<close>)
qed

text \<open>Changing the free list of one page.\<close>

lemma heap_wfD:
  assumes "heap_wf ok blocks mem (h, s) gs"
  shows "ok s" and "roots_ok (kheaproots h)" and "lists_ok h gs"
    and "g \<in> set gs \<Longrightarrow> page_ok (mem s) (pagerefs h (hp_ref g)) g"
    and "hp_ref ` set gs = slot_addr (kheaproots h) ` used (kheaproots h)" and "distinct (map hp_page gs)"
    and "g \<in> set gs \<Longrightarrow> (hp_page g, 1) \<in> blocks s" and "root_pages (kheaproots h) \<subseteq> blocks s"
    and "heap_pages gs \<inter> root_pages (kheaproots h) = {}" and "g \<in> set gs \<Longrightarrow> hp_type g < NSIZES"
  using assms by (auto simp: heap_wf_def heap_pages_def page_ok_def)

lemma page_words:
  assumes inv: "heap_wf ok blocks mem (h, s) gs" and g: "g \<in> set gs" and i: "i \<in> set (hp_free g)"
  shows "hp_page g + i \<in> span (hp_page g, 1)" and "(hp_page g + i) mod 4 = 0"
proof -
  note p = heap_wfD(4) [OF inv g] and b = heap_wfD(10) [OF inv g]
  have "i \<in> blocks_of (hp_size g)" using p i by (auto simp: page_ok_def)
  then have i': "i < PAGE_SIZE" "i mod 4 = 0" using size_facts(5) [OF b]
    by (auto simp: blocks_of_def elim: dvd_trans intro: dvd_imp_mod_0)
  then show "hp_page g + i \<in> span (hp_page g, 1)" by (simp add: span_def)
  show "(hp_page g + i) mod 4 = 0"
    by (rule kpage_word [OF kpage_block [OF heap_wfD(1) [OF inv] heap_wfD(7) [OF inv g]] i'(2)])
qed

lemma lists_ok_replace:
  assumes "lists_ok h (xs @ g # ys)" and "hp_ref g' = hp_ref g" and "hp_type g' = hp_type g"
    and "next_samesize pr = next_samesize (pagerefs h p)" and "next_all pr = next_all (pagerefs h p)"
  shows "lists_ok (set_pageref p pr h) (xs @ g' # ys)"
proof -
  have "(\<lambda>q. next_samesize (pagerefs (set_pageref p pr h) q)) = (\<lambda>q. next_samesize (pagerefs h q))"
    "(\<lambda>q. next_all (pagerefs (set_pageref p pr h) q)) = (\<lambda>q. next_all (pagerefs h q))"
    using assms(4,5) by (auto simp: set_pageref_def)
  moreover have "map hp_ref (filter (\<lambda>g. hp_type g = b) (xs @ g' # ys)) = map hp_ref (filter (\<lambda>g. hp_type g = b) (xs @ g # ys))" for b
    using assms(2,3) by simp
  moreover have "map hp_ref (xs @ g' # ys) = map hp_ref (xs @ g # ys)" using assms(2) by simp
  ultimately show ?thesis using assms(1) unfolding lists_ok_def by (simp add: set_pageref_def)
qed

lemma other_pages:
  assumes inv: "heap_wf ok blocks mem (h, s) (xs @ g # ys)" and g': "g' \<in> set xs \<union> set ys"
  shows "hp_ref g' \<noteq> hp_ref g" and "span (hp_page g', 1) \<inter> span (hp_page g, 1) = {}"
proof -
  have "distinct (map hp_ref (xs @ g # ys))" using heap_wfD(3) [OF inv] by (simp add: lists_ok_def)
  then show "hp_ref g' \<noteq> hp_ref g" using g' imageI [of g' _ hp_ref] by fastforce
  have "hp_page g' \<noteq> hp_page g" using heap_wfD(6) [OF inv] g' imageI [of g' _ hp_page] by fastforce
  then show "span (hp_page g', 1) \<inter> span (hp_page g, 1) = {}"
    using apart [OF heap_wfD(1) [OF inv] heap_wfD(7) [OF inv] heap_wfD(7) [OF inv], of g' g] g' by auto
qed

lemma wf_replace:
  assumes inv: "heap_wf ok blocks mem (h, s) (xs @ g # ys)" and s': "ok s'" "blocks s' = blocks s"
    and m: "\<forall>x. x \<notin> span (hp_page g, 1) \<longrightarrow> mem s' x = mem s x"
    and pr: "page_ok (mem s') pr (g\<lparr>hp_free := fs\<rparr>)"
      "next_samesize pr = next_samesize (pagerefs h (hp_ref g))" "next_all pr = next_all (pagerefs h (hp_ref g))"
  shows "heap_wf ok blocks mem (set_pageref (hp_ref g) pr h, s') (xs @ g\<lparr>hp_free := fs\<rparr> # ys)"
proof -
  let ?g = "g\<lparr>hp_free := fs\<rparr>" let ?h = "set_pageref (hp_ref g) pr h"
  have l: "lists_ok ?h (xs @ ?g # ys)"
    by (rule lists_ok_replace [OF heap_wfD(3) [OF inv] _ _ pr(2,3)]) simp_all
  have "page_ok (mem s') (pagerefs ?h (hp_ref g')) g'" if g': "g' \<in> set xs \<union> set ys" for g'
  proof -
    note o = other_pages [OF inv g']
    have mem: "g' \<in> set (xs @ g # ys)" using g' by auto
    have "page_ok (mem s') (pagerefs h (hp_ref g')) g' \<longleftrightarrow> page_ok (mem s) (pagerefs h (hp_ref g')) g'"
      by (rule page_ok_mem) (use page_words(1) [OF inv mem] o(2) m in blast)
    with heap_wfD(4) [OF inv mem] o(1) show ?thesis by (simp add: set_pageref_def)
  qed
  moreover have "page_ok (mem s') (pagerefs ?h (hp_ref ?g)) ?g" using pr(1) by (simp add: set_pageref_def)
  moreover have "heap_pages (xs @ ?g # ys) = heap_pages (xs @ g # ys)" by (auto simp: heap_pages_def)
  moreover have "hp_ref ` set (xs @ ?g # ys) = hp_ref ` set (xs @ g # ys)" by auto
  moreover have "kheaproots ?h = kheaproots h" by (simp add: set_pageref_def)
  ultimately show ?thesis
    using inv s' l unfolding heap_wf_def by auto
qed

lemma wf_remove:
  assumes inv: "heap_wf ok blocks mem (h, s) (xs @ g # ys)"
  obtains h1 h2 s' where "remove_lists (hp_ref g) (hp_type g) h = Some h1" and "freepageref (hp_ref g) h1 = Some h2"
    and "po_free po (of_nat (hp_page g)) s = Some s'" and "heap_wf ok blocks mem (h2, s') (xs @ ys)"
    and "blocks s' = blocks s - {(hp_page g, 1)}" and "mem s' = mem s" and "view s' = view s"
    and "root_pages (kheaproots h2) = root_pages (kheaproots h)"
proof -
  let ?rs = "kheaproots h"
  have gin: "g \<in> set (xs @ g # ys)" by simp
  obtain h1 where h1: "remove_lists (hp_ref g) (hp_type g) h = Some h1" "same_data h h1" "lists_ok h1 (xs @ ys)"
    by (rule remove_lists_spec [OF heap_wfD(3) [OF inv] heap_wfD(10) [OF inv gin]])
  have rs1: "kheaproots h1 = ?rs" using h1(2) by (simp add: same_data_def)
  obtain w k where wk: "hp_ref g = slot_addr ?rs (w, k)" "(w, k) \<in> used ?rs"
    using heap_wfD(5) [OF inv] by (metis gin image_iff surj_pair)
  note rd = root_drop [OF heap_wfD(2) [OF inv] wk(2)]
  define h2 where "h2 = set_root w (root_drop k (?rs ! w)) h1"
  have h2: "freepageref (hp_ref g) h1 = Some h2"
    using freepageref_spec [of h1 w k] wk heap_wfD(2) [OF inv] rs1 by (simp add: h2_def)
  obtain s' where s': "po_free po (of_nat (hp_page g)) s = Some s'" "ok s'" "blocks s' = blocks s - {(hp_page g, 1)}"
    "mem s' = mem s" "view s' = view s" using free [OF heap_wfD(1) [OF inv] heap_wfD(7) [OF inv gin]] by blast
  have rs2: "kheaproots h2 = ?rs[w := root_drop k (?rs ! w)]" by (simp add: h2_def set_root_def rs1)
  have dref: "distinct (map hp_ref (xs @ g # ys))" using heap_wfD(3) [OF inv] by (simp add: lists_ok_def)
  have "hp_ref ` set (xs @ ys) = hp_ref ` set (xs @ g # ys) - {hp_ref g}"
    using dref Diff_insert_absorb [of "hp_ref g" "hp_ref ` set (xs @ ys)"] by (simp add: image_Un)
  also have "\<dots> = slot_addr ?rs ` (used ?rs - {(w, k)})"
    unfolding heap_wfD(5) [OF inv] wk(1) using inj_on_image_set_diff [OF slot_addr_inj [OF heap_wfD(2) [OF inv]], of "used ?rs" "{(w, k)}"] wk(2)
    by simp
  finally have refs: "hp_ref ` set (xs @ ys) = slot_addr (kheaproots h2) ` used (kheaproots h2)"
    unfolding rs2 rd(2,3) .
  have pg: "page_ok (mem s') (pagerefs h2 (hp_ref g')) g'" if "g' \<in> set (xs @ ys)" for g'
    using heap_wfD(4) [OF inv, of g'] that page_ok_same_data [OF h1(2)] by (auto simp: h2_def set_root_def s'(4))
  have "heap_pages (xs @ ys) = heap_pages (xs @ g # ys) - {(hp_page g, 1)}"
    using heap_wfD(6) [OF inv] by (auto simp: heap_pages_def image_iff)
  then have "heap_pages (xs @ ys) \<union> root_pages (kheaproots h2) \<subseteq> blocks s'"
    and "heap_pages (xs @ ys) \<inter> root_pages (kheaproots h2) = {}"
    unfolding rs2 rd(4) s'(3) using inv by (auto simp: heap_wf_def heap_pages_def)
  moreover have "lists_ok h2 (xs @ ys)" using h1(3) by (simp add: lists_ok_def h2_def set_root_def)
  ultimately have "heap_wf ok blocks mem (h2, s') (xs @ ys)"
    using s'(2) rd(1) refs pg heap_wfD(6) [OF inv] unfolding heap_wf_def by (simp add: rs2)
  then show thesis using that [OF h1(1) h2 s'(1) _ s'(3-5)] rs2 rd(4) by simp
qed

text \<open>A new page in front of the lists; \<open>s1\<close> is the state after its frame was allocated.\<close>

lemma wf_new:
  assumes inv: "heap_wf ok blocks mem (h, s) gs" and al: "po_alloc po 1 s = Some (va, s1)"
    and ref: "ref_taken h s1 p h2 s2" and b: "b < NSIZES"
  obtains h3 s3 where "newpage po p b va (h2, s2) = Some (h3, s3)"
    and "heap_wf ok blocks mem (h3, s3)
      (\<lparr>hp_ref = p, hp_page = unat va, hp_type = b, hp_free = fresh_list (sizes ! b) (PAGE_SIZE div sizes ! b)\<rparr> # gs)"
    and "blocks s3 = insert (unat va, 1) (blocks s) \<union> root_pages (kheaproots h3)"
    and "root_pages (kheaproots h3) \<inter> insert (unat va, 1) (blocks s) = root_pages (kheaproots h)"
    and "same_words (mem s) (mem s3) (blocks s)" and "view s3 = view s" and "(unat va, 1) \<notin> blocks s"
proof -
  let ?rs = "kheaproots h" let ?g = "\<lparr>hp_ref = p, hp_page = unat va, hp_type = b, hp_free = fresh_list (sizes ! b) (PAGE_SIZE div sizes ! b)\<rparr>"
  note a1 = alloc_page [OF heap_wfD(1) [OF inv] al]
  obtain wk rs where t: "h2 = h\<lparr>kheaproots := rs\<rparr>" "roots_ok rs" "used rs = insert wk (used ?rs)" "wk \<notin> used ?rs"
    "p = slot_addr rs wk" "p \<noteq> 0" "\<forall>vk \<in> used ?rs. slot_addr rs vk = slot_addr ?rs vk"
    and st: "s2 = s1 \<and> root_pages rs = root_pages ?rs \<or>
      (\<exists>pg. po_alloc po 1 s1 = Some (pg, s2) \<and> root_pages rs = insert (unat pg, 1) (root_pages ?rs))"
    using ref unfolding ref_taken_def by blast
  have ok1: "ok s1" using a1(1) by (simp add: grew_def)
  have s2: "grew s1 s2" "blocks s2 = insert (unat va, 1) (blocks s) \<union> root_pages rs"
    "root_pages rs \<inter> insert (unat va, 1) (blocks s) = root_pages ?rs"
  proof -
    have sub: "root_pages ?rs \<subseteq> blocks s" by (rule heap_wfD(8) [OF inv])
    have "grew s1 s2 \<and> blocks s2 = insert (unat va, 1) (blocks s) \<union> root_pages rs \<and>
      root_pages rs \<inter> insert (unat va, 1) (blocks s) = root_pages ?rs"
      using st
    proof
      assume "s2 = s1 \<and> root_pages rs = root_pages ?rs"
      then show ?thesis using grew_refl [OF ok1] a1(2) sub by auto
    next
      assume "\<exists>pg. po_alloc po 1 s1 = Some (pg, s2) \<and> root_pages rs = insert (unat pg, 1) (root_pages ?rs)"
      then obtain pg where pg: "po_alloc po 1 s1 = Some (pg, s2)" "root_pages rs = insert (unat pg, 1) (root_pages ?rs)" by blast
      from alloc_page [OF ok1 pg(1)] a1(2) sub pg(2) show ?thesis by auto
    qed
    then show "grew s1 s2" "blocks s2 = insert (unat va, 1) (blocks s) \<union> root_pages rs"
      "root_pages rs \<inter> insert (unat va, 1) (blocks s) = root_pages ?rs" by blast+
  qed
  have ok2: "ok s2" and va2: "(unat va, 1) \<in> blocks s2" using s2(1,2) by (simp_all add: grew_def)
  obtain pr s3 where n: "newpage po p b (of_nat (unat va)) (h2, s2) =
      Some ((set_pageref p pr h2)\<lparr>sizebases := (sizebases h2)[b := p], allbase := p\<rparr>, s3)"
    "ok s3" "blocks s3 = blocks s2" "view s3 = view s2" "\<forall>x. x \<notin> span (unat va, 1) \<longrightarrow> mem s3 x = mem s2 x"
    "page_ok (mem s3) pr ?g" "next_samesize pr = sizebases h2 ! b" "next_all pr = allbase h2"
    by (rule newpage_spec [OF ok2 va2 b])
  let ?h = "(set_pageref p pr h2)\<lparr>sizebases := (sizebases h2)[b := p], allbase := p\<rparr>"
  have pnew: "p \<notin> hp_ref ` set gs"
  proof
    assume "p \<in> hp_ref ` set gs"
    then obtain vk where vk: "vk \<in> used ?rs" "p = slot_addr ?rs vk" unfolding heap_wfD(5) [OF inv] by blast
    then have "slot_addr rs vk = slot_addr rs wk" using t(5,7) by simp
    with inj_onD [OF slot_addr_inj [OF t(2)], of vk wk] vk(1) t(3,4) show False by auto
  qed
  have words: "same_words (mem s) (mem s3) (blocks s)"
  proof -
    have "same_words (mem s) (mem s2) (blocks s)" using grew_trans [OF a1(1) s2(1)] by (simp add: grew_def)
    moreover have "x \<notin> span (unat va, 1)" if "x \<in> span c" "c \<in> blocks s" for x c
      using a1(3) that by (auto simp: disjoint_from_def)
    ultimately show ?thesis using n(5) unfolding same_words_def by metis
  qed
  have old: "page_ok (mem s3) (pagerefs ?h (hp_ref g)) g" if g: "g \<in> set gs" for g
  proof -
    have "page_ok (mem s3) (pagerefs h (hp_ref g)) g \<longleftrightarrow> page_ok (mem s) (pagerefs h (hp_ref g)) g"
      by (rule page_ok_mem) (use page_words [OF inv g] heap_wfD(7) [OF inv g] words in \<open>auto simp: same_words_def\<close>)
    moreover have "hp_ref g \<noteq> p" using pnew g by auto
    ultimately show ?thesis using heap_wfD(4) [OF inv g] by (simp add: set_pageref_def t(1))
  qed
  have l: "lists_ok h gs" by (rule heap_wfD(3) [OF inv])
  have pq: "pagerefs ?h q = pagerefs h q" if "q \<in> hp_ref ` set gs" for q
    using that pnew by (auto simp: set_pageref_def t(1))
  have pa: "path (\<lambda>q. next_all (pagerefs ?h q)) (allbase h) (map hp_ref gs)"
    by (rule path_cong [of "\<lambda>q. next_all (pagerefs h q)"]) (use l pq in \<open>simp_all add: lists_ok_def\<close>)
  have ps: "path (\<lambda>q. next_samesize (pagerefs ?h q)) (sizebases h ! c) (map hp_ref (filter (\<lambda>g. hp_type g = c) gs))"
    if "c < NSIZES" for c
    by (rule path_cong [of "\<lambda>q. next_samesize (pagerefs h q)"])
      (use l that in \<open>simp add: lists_ok_def\<close>, use pq in fastforce)
  have hp: "pagerefs ?h p = pr" "sizebases ?h = (sizebases h)[b := p]" "allbase ?h = p"
    by (simp_all add: set_pageref_def t(1))
  have len: "length (sizebases h) = NSIZES" "distinct (map hp_ref gs)" using l by (simp_all add: lists_ok_def)
  have "path (\<lambda>q. next_samesize (pagerefs ?h q)) (sizebases ?h ! c) (map hp_ref (filter (\<lambda>g. hp_type g = c) (?g # gs)))"
    if c: "c < NSIZES" for c
    using ps [OF c] n(7) t(1,6) len(1) c unfolding hp(2) by (cases "c = b") (simp_all add: hp(1))
  moreover have "path (\<lambda>q. next_all (pagerefs ?h q)) (allbase ?h) (map hp_ref (?g # gs))"
    using pa n(8) t(1,6) hp(1) unfolding hp(3) by simp
  ultimately have "lists_ok ?h (?g # gs)"
    using len pnew unfolding lists_ok_def hp(2) by simp
  moreover have "hp_ref ` set (?g # gs) = slot_addr rs ` used rs"
    using heap_wfD(5) [OF inv] t(3,5,7) by (auto simp: image_iff)
  moreover have "unat va \<notin> hp_page ` set gs" using a1(6) heap_wfD(7) [OF inv] by auto
  moreover have "heap_pages (?g # gs) \<union> root_pages rs \<subseteq> blocks s3"
    using heap_wfD(7) [OF inv] s2(2) n(3) by (auto simp: heap_pages_def)
  moreover have "heap_pages (?g # gs) \<inter> root_pages rs = {}"
  proof -
    have "heap_pages gs \<subseteq> blocks s" using inv by (auto simp: heap_wf_def)
    then have "heap_pages (?g # gs) \<inter> root_pages rs \<subseteq> heap_pages (?g # gs) \<inter> root_pages ?rs"
      unfolding s2(3) [symmetric] by (auto simp: heap_pages_def)
    moreover have "(unat va, 1) \<notin> root_pages ?rs" using a1(6) heap_wfD(8) [OF inv] by blast
    ultimately show ?thesis using heap_wfD(9) [OF inv] by (auto simp: heap_pages_def)
  qed
  ultimately have "heap_wf ok blocks mem (?h, s3) (?g # gs)"
    using n(2,6) t(1,2) old heap_wfD(6) [OF inv] unfolding heap_wf_def by (simp add: set_pageref_def)
  then show thesis
    by (rule that [rotated]) (use n s2 t(1) words a1(6) grew_trans [OF a1(1) s2(1)] in \<open>simp_all add: set_pageref_def grew_def\<close>)
qed

section \<open>What is allocated\<close>

lemma block_fits:
  assumes "b < NSIZES" and "i \<in> blocks_of (sizes ! b)"
  shows "i + sizes ! b \<le> PAGE_SIZE"
proof -
  obtain k where "i = k * sizes ! b" "k < PAGE_SIZE div sizes ! b" using assms(2) unfolding blocks_of_eq [OF assms(1)] by auto
  then have "i + sizes ! b = (k + 1) * sizes ! b" "k + 1 \<le> PAGE_SIZE div sizes ! b" by simp_all
  then show ?thesis using size_facts(9) [OF assms(1)] mult_le_mono1 [of "k + 1" "PAGE_SIZE div sizes ! b" "sizes ! b"] by simp
qed

lemma bytes_apart:
  assumes "b < NSIZES" and "i \<in> blocks_of (sizes ! b)" and "j \<in> blocks_of (sizes ! b)" and "i \<noteq> j"
  shows "bytes (a + i, sizes ! b) \<inter> bytes (a + j, sizes ! b) = {}"
proof -
  let ?sz = "sizes ! b"
  obtain k l where kl: "i = k * ?sz" "j = l * ?sz" using assms(2,3) unfolding blocks_of_eq [OF assms(1)] by auto
  then have "k < l \<or> l < k" using assms(4) by auto
  then have "(k + 1) * ?sz \<le> l * ?sz \<or> (l + 1) * ?sz \<le> k * ?sz" using mult_le_mono1 [of "k + 1" l ?sz] mult_le_mono1 [of "l + 1" k ?sz] by auto
  then have "i + ?sz \<le> j \<or> j + ?sz \<le> i" using kl by auto
  then show ?thesis by (auto simp: bytes_def)
qed

text \<open>Every block lies in a block of the page layer.\<close>

lemma live_cases:
  assumes inv: "heap_wf ok blocks mem (h, s) gs" and b: "b \<in> live blocks (h, s) gs"
  obtains (sub) g i where "g \<in> set gs" and "b = (hp_page g + i, hp_size g)" and "i \<in> blocks_of (hp_size g)"
      and "i \<notin> set (hp_free g)" and "bytes b \<subseteq> span (hp_page g, 1)"
  | (whole) a n where "b = (a, n * PAGE_SIZE)" and "(a, n) \<in> blocks s" and "(a, n) \<notin> heap_pages gs"
      and "(a, n) \<notin> root_pages (kheaproots h)" and "bytes b = span (a, n)"
proof -
  from b consider "b \<in> live_blocks gs" | "b \<in> page_blocks (blocks s) h gs" by (auto simp: live_def)
  then show thesis
  proof cases
    case 1
    then obtain g i where g: "g \<in> set gs" "b = (hp_page g + i, hp_size g)" "i \<in> blocks_of (hp_size g)" "i \<notin> set (hp_free g)"
      by (auto simp: live_blocks_def)
    from block_fits [OF heap_wfD(10) [OF inv g(1)] g(3)] g(2) have "bytes b \<subseteq> span (hp_page g, 1)"
      by (auto simp: bytes_def span_def)
    with g show thesis by (rule sub)
  next
    case 2
    then show thesis using whole by (auto simp: page_blocks_def bytes_def span_def)
  qed
qed

lemma live_home:
  assumes inv: "heap_wf ok blocks mem (h, s) gs" and b: "b \<in> live blocks (h, s) gs"
  obtains c where "c \<in> blocks s" and "bytes b \<subseteq> span c"
  using inv b by (cases rule: live_cases) (use heap_wfD(7) [OF inv] that in \<open>auto\<close>)

lemma kept_words:
  assumes inv: "heap_wf ok blocks mem (h, s) gs" and w: "same_words (mem s) m (blocks s)"
  shows "kept (mem s) m (live blocks (h, s) gs)"
  unfolding kept_def
proof (intro ballI impI)
  fix b a
  assume b: "b \<in> live blocks (h, s) gs" "a \<in> bytes b" "a mod 4 = 0"
  obtain c where "c \<in> blocks s" "bytes b \<subseteq> span c" by (rule live_home [OF inv b(1)])
  with b w show "m a = mem s a" by (auto simp: same_words_def)
qed

lemma live_disjoint:
  assumes inv: "heap_wf ok blocks mem (h, s) gs" and b: "b \<in> live blocks (h, s) gs" and c: "c \<in> live blocks (h, s) gs"
    and ne: "b \<noteq> c"
  shows "bytes b \<inter> bytes c = {}"
  using inv b
proof (cases rule: live_cases)
  case b: (sub g i)
  from inv c show ?thesis
  proof (cases rule: live_cases)
    case c: (sub g' j)
    show ?thesis
    proof (cases "g' = g")
      case True
      then show ?thesis using b c ne bytes_apart [OF heap_wfD(10) [OF inv b(1)] b(3)] by auto
    next
      case False
      then have "hp_page g \<noteq> hp_page g'" using heap_wfD(6) [OF inv] b(1) c(1) by (auto simp: distinct_map inj_on_def)
      then have "span (hp_page g, 1) \<inter> span (hp_page g', 1) = {}"
        using apart [OF heap_wfD(1) [OF inv] heap_wfD(7) [OF inv b(1)] heap_wfD(7) [OF inv c(1)]] by simp
      with b(5) c(5) show ?thesis by blast
    qed
  next
    case c: (whole a n)
    have "(a, n) \<noteq> (hp_page g, 1)" using b(1) c(3) by (auto simp: heap_pages_def)
    then have "span (a, n) \<inter> span (hp_page g, 1) = {}"
      using apart [OF heap_wfD(1) [OF inv] c(2) heap_wfD(7) [OF inv b(1)]] by simp
    with b(5) c(5) show ?thesis by blast
  qed
next
  case b: (whole a n)
  from inv c show ?thesis
  proof (cases rule: live_cases)
    case c: (sub g j)
    have "(a, n) \<noteq> (hp_page g, 1)" using c(1) b(3) by (auto simp: heap_pages_def)
    then have "span (a, n) \<inter> span (hp_page g, 1) = {}"
      using apart [OF heap_wfD(1) [OF inv] b(2) heap_wfD(7) [OF inv c(1)]] by simp
    with b(5) c(5) show ?thesis by blast
  next
    case c: (whole a' n')
    have "(a, n) \<noteq> (a', n')" using b(1) c(1) ne by auto
    then have "span (a, n) \<inter> span (a', n') = {}" by (rule apart [OF heap_wfD(1) [OF inv] b(2) c(2)])
    with b(5) c(5) show ?thesis by blast
  qed
qed

end

end
