(* ===== verification/Kcontract.thy ===== *)
theory Kcontract
  imports Kalloc
begin

text \<open>
  The contract of \<^verbatim>\<open>kmalloc\<close> and \<^verbatim>\<open>kfree\<close>, first over any page layer and then over the
  virtual memory system of this kernel.
\<close>

section \<open>Allocating a block of a page\<close>

lemma live_blocks_Un: "live_blocks (xs @ g # ys) = live_blocks xs \<union> live_blocks [g] \<union> live_blocks ys"
  by (auto simp: live_blocks_def)

lemma live_blocks_take:
  assumes "hp_free g = i # is" and "i \<in> blocks_of (hp_size g)" and "i \<notin> set is"
  shows "live_blocks (xs @ g\<lparr>hp_free := is\<rparr> # ys) = insert (hp_page g + i, hp_size g) (live_blocks (xs @ g # ys))"
proof -
  have "live_blocks [g\<lparr>hp_free := is\<rparr>] = insert (hp_page g + i, hp_size g) (live_blocks [g])"
    using assms by (auto simp: live_blocks_def)
  then show ?thesis unfolding live_blocks_Un by auto
qed

lemma page_blocks_cong:
  "heap_pages gs' = heap_pages gs \<Longrightarrow> root_pages (kheaproots h') = root_pages (kheaproots h) \<Longrightarrow>
     page_blocks B h' gs' = page_blocks B h gs"
  by (simp add: page_blocks_def)

lemma heap_pages_replace: "heap_pages (xs @ g\<lparr>hp_free := fs\<rparr> # ys) = heap_pages (xs @ g # ys)"
  by (auto simp: heap_pages_def)

lemma blocktype_some:
  assumes "unat sz \<le> 2048"
  obtains b where "blocktype sz = Some b" and "b < NSIZES" and "unat sz \<le> sizes ! b"
proof (cases "blocktype sz")
  case None
  then have "\<not> unat sz \<le> sizes ! 7" by (auto simp: blocktype_def find_None_iff)
  with assms show thesis by (simp add: sizes_def)
next
  case (Some b)
  then have "b < NSIZES" "unat sz \<le> sizes ! b" by (auto simp: blocktype_def find_Some_iff)
  with Some that show thesis by blast
qed

lemma kmalloc_npages:
  assumes "2048 \<le> unat sz" and "unat sz \<le> 2 ^ 32 - PAGE_SIZE"
  defines "n \<equiv> unat ((sz + 4096 - 1) div 4096 :: uint32)"
  shows "n = (unat sz + 4095) div PAGE_SIZE" and "0 < n" and "n < 2 ^ 20" and "unat sz \<le> n * PAGE_SIZE"
proof -
  have "unat (sz + 4095) = unat sz + 4095" using assms(2) by (subst unat_add_small) simp_all
  moreover have "sz + 4096 - 1 = sz + 4095" by simp
  ultimately show n: "n = (unat sz + 4095) div PAGE_SIZE" unfolding n_def by (simp only: unat_div_distrib) simp
  show "0 < n" "n < 2 ^ 20" "unat sz \<le> n * PAGE_SIZE"
    unfolding n using assms div_le_mono [of 4096 "unat sz + 4095" PAGE_SIZE] dividend_less_times_div [of PAGE_SIZE "unat sz + 4095"] by simp_all
qed

text \<open>The abstract effect of an allocation: \<open>L\<close> and \<open>L'\<close> are the allocated blocks before and after.\<close>

definition fresh_block :: "nat \<Rightarrow> nat \<Rightarrow> (nat \<times> nat) set \<Rightarrow> (nat \<times> nat) set \<Rightarrow> bool" where
  "fresh_block sz p L L' \<longleftrightarrow> (\<exists>n. sz \<le> n \<and> 0 < n \<and> L' = insert (p, n) L \<and> (\<forall>b \<in> L. bytes b \<inter> bytes (p, n) = {}) \<and>
     p mod 16 = 0)"

context page_layer
begin

lemma take_from_page:
  assumes inv: "heap_wf ok blocks mem (h, s) (xs @ g # ys)" and fs: "hp_free g = i # is"
  obtains h' where "doalloc po (hp_ref g) (h, s) = Some (of_nat (hp_page g + i), h', s)"
    and "heap_wf ok blocks mem (h', s) (xs @ g\<lparr>hp_free := is\<rparr> # ys)"
    and "live blocks (h', s) (xs @ g\<lparr>hp_free := is\<rparr> # ys) = insert (hp_page g + i, hp_size g) (live blocks (h, s) (xs @ g # ys))"
    and "unat (of_nat (hp_page g + i) :: vaddr) = hp_page g + i" and "(hp_page g + i) mod 16 = 0"
    and "length is < PAGE_SIZE div hp_size g" and "(of_nat (hp_page g + i) :: vaddr) \<noteq> 0"
proof -
  have g: "g \<in> set (xs @ g # ys)" by simp
  note p = heap_wfD(4) [OF inv g] and b = heap_wfD(10) [OF inv g] and bl = heap_wfD(7) [OF inv g]
  have fsd: "distinct (i # is)" "set (i # is) \<subseteq> blocks_of (hp_size g)" using p fs by (simp_all add: page_ok_def)
  obtain pr where pr: "doalloc po (hp_ref g) (h, s) = Some (of_nat (hp_page g + i), set_pageref (hp_ref g) pr h, s)"
    "page_ok (mem s) pr (g\<lparr>hp_free := is\<rparr>)" "next_samesize pr = next_samesize (pagerefs h (hp_ref g))"
    "next_all pr = next_all (pagerefs h (hp_ref g))" by (rule doalloc_spec [OF heap_wfD(1) [OF inv] bl p fs])
  have wf: "heap_wf ok blocks mem (set_pageref (hp_ref g) pr h, s) (xs @ g\<lparr>hp_free := is\<rparr> # ys)"
    by (rule wf_replace [OF inv heap_wfD(1) [OF inv] refl _ pr(2-4)]) simp
  have i: "i \<in> blocks_of (hp_size g)" "i < PAGE_SIZE" using fsd by (simp_all add: blocks_of_def)
  have a: "kpage (hp_page g)" by (rule kpage_block [OF heap_wfD(1) [OF inv] bl])
  have u: "unat (of_nat (hp_page g + i) :: vaddr) = hp_page g + i" by (rule kpage_unat [OF a i(2)])
  have "16 dvd hp_page g" using a dvd_trans [of 16 PAGE_SIZE "hp_page g"] by (simp add: kpage_def mod_eq_0_iff_dvd)
  moreover have "16 dvd i" using i(1) size_facts(2) [OF b] by (auto simp: blocks_of_def intro: dvd_trans)
  ultimately have "(hp_page g + i) mod 16 = 0" by (simp add: mod_eq_0_iff_dvd)
  moreover have "length is < PAGE_SIZE div hp_size g" using free_list_length(1) [OF b fsd] by simp
  moreover have "page_blocks (blocks s) (set_pageref (hp_ref g) pr h) (xs @ g\<lparr>hp_free := is\<rparr> # ys) = page_blocks (blocks s) h (xs @ g # ys)"
    by (rule page_blocks_cong [OF heap_pages_replace]) (simp add: set_pageref_def)
  ultimately show thesis
    using that [OF pr(1) wf] live_blocks_take [OF fs i(1), of xs ys] fsd(1) u kpage_nonzero [OF a u] by (simp add: live_def)
qed

lemma take_fresh:
  assumes inv: "heap_wf ok blocks mem (h, s) (xs @ g # ys)" and fs: "hp_free g = i # is" and sz: "sz \<le> hp_size g"
    and wf: "heap_wf ok blocks mem (h', s) (xs @ g\<lparr>hp_free := is\<rparr> # ys)"
    and eq: "live blocks (h', s) (xs @ g\<lparr>hp_free := is\<rparr> # ys) = insert (hp_page g + i, hp_size g) (live blocks (h, s) (xs @ g # ys))"
    and al: "(hp_page g + i) mod 16 = 0"
  shows "fresh_block sz (hp_page g + i) (live blocks (h, s) (xs @ g # ys)) (live blocks (h', s) (xs @ g\<lparr>hp_free := is\<rparr> # ys))"
proof -
  let ?b = "(hp_page g + i, hp_size g)" let ?L = "live blocks (h, s) (xs @ g # ys)"
  have g: "g \<in> set (xs @ g # ys)" by simp
  have y: "hp_page g + i \<in> bytes ?b" "hp_page g + i \<in> span (hp_page g, 1)"
    using size_facts(6) [OF heap_wfD(10) [OF inv g]] page_words(1) [OF inv g, of i] fs by (simp_all add: bytes_def)
  have "?b \<notin> ?L"
  proof
    assume "?b \<in> ?L"
    with inv show False
    proof (cases rule: live_cases)
      case (sub g' j)
      have x: "hp_page g + i \<in> span (hp_page g', 1) \<inter> span (hp_page g, 1)" using y sub(5) by blast
      have "g' = g"
      proof (rule ccontr)
        assume "g' \<noteq> g"
        then have "g' \<in> set xs \<union> set ys" using sub(1) by simp
        from other_pages(2) [OF inv this] x show False by simp
      qed
      with sub fs show False by simp
    next
      case (whole a n)
      have "hp_page g + i \<in> span (a, n)" using y(1) unfolding whole(5) .
      moreover have "(a, n) \<noteq> (hp_page g, 1)" using whole(3) by (auto simp: heap_pages_def)
      ultimately show False using y(2) apart [OF heap_wfD(1) [OF inv] whole(2) heap_wfD(7) [OF inv g]] by blast
    qed
  qed
  then have "bytes b \<inter> bytes ?b = {}" if "b \<in> ?L" for b
    using live_disjoint [OF wf, of b ?b] that unfolding eq by blast
  then show ?thesis unfolding fresh_block_def eq
    using sz al size_facts(6) [OF heap_wfD(10) [OF inv g]] by (intro exI [of _ "hp_size g"]) simp
qed

lemma wf_find_page:
  assumes inv: "heap_wf ok blocks mem (h, s) gs" and b: "b < NSIZES"
  shows "find_page h b (sizebases h ! b) =
    Some (case List.find (\<lambda>g. hp_free g \<noteq> []) (filter (\<lambda>g. hp_type g = b) gs) of None \<Rightarrow> 0 | Some g \<Rightarrow> hp_ref g)"
proof (rule find_page_path)
  show "path (\<lambda>p. next_samesize (pagerefs h p)) (sizebases h ! b) (map hp_ref (filter (\<lambda>g. hp_type g = b) gs))"
    using heap_wfD(3) [OF inv] b by (simp add: lists_ok_def)
  show "\<forall>g \<in> set (filter (\<lambda>g. hp_type g = b) gs). PR_BLOCKTYPE (pagerefs h (hp_ref g)) = of_nat b \<and>
      (0 < nfree (pagerefs h (hp_ref g)) \<longleftrightarrow> hp_free g \<noteq> [])"
  proof
    fix g
    assume "g \<in> set (filter (\<lambda>g. hp_type g = b) gs)"
    then have g: "g \<in> set gs" and t: "hp_type g = b" by simp_all
    note p = heap_wfD(4) [OF inv g]
    have a: "kpage (hp_page g)" by (rule kpage_block [OF heap_wfD(1) [OF inv] heap_wfD(7) [OF inv g]])
    have "PR_BLOCKTYPE (pagerefs h (hp_ref g)) = of_nat b"
      using packed(4) [OF a heap_wfD(10) [OF inv g]] p t by (simp add: page_ok_def)
    moreover have "length (hp_free g) \<le> 256"
      using free_list_length(2) [OF heap_wfD(10) [OF inv g]] p by (simp add: page_ok_def)
    then have "unat (nfree (pagerefs h (hp_ref g))) = length (hp_free g)" using p by (simp add: page_ok_def unat_of_nat)
    ultimately show "PR_BLOCKTYPE (pagerefs h (hp_ref g)) = of_nat b \<and> (0 < nfree (pagerefs h (hp_ref g)) \<longleftrightarrow> hp_free g \<noteq> [])"
      by (simp add: word_less_nat_alt)
  qed
qed

lemma subpage_kmalloc_reuse:
  assumes inv: "heap_inv ok blocks mem (h, s) gs" and b: "blocktype sz = Some b" "b < NSIZES" "unat sz \<le> sizes ! b"
    and g: "List.find (\<lambda>g. hp_free g \<noteq> []) (filter (\<lambda>g. hp_type g = b) gs) = Some g"
  shows "\<exists>p h' gs'. subpage_kmalloc po sz (h, s) = Some (p, h', s) \<and> heap_inv ok blocks mem (h', s) gs' \<and> p \<noteq> 0 \<and>
    fresh_block (unat sz) (unat p) (live blocks (h, s) gs) (live blocks (h', s) gs')"
proof -
  have wf: "heap_wf ok blocks mem (h, s) gs" and nf: "\<forall>g \<in> set gs. length (hp_free g) < PAGE_SIZE div hp_size g"
    using inv by (simp_all add: heap_inv_def)
  have "g \<in> set (filter (\<lambda>g. hp_type g = b) gs)" "hp_free g \<noteq> []"
    using g unfolding find_Some_iff by (metis nth_mem)+
  then obtain xs ys i "is" where gs: "gs = xs @ g # ys" and t: "hp_type g = b" and fs: "hp_free g = i # is"
    by (auto dest: split_list simp: neq_Nil_conv)
  note wf' = wf [unfolded gs]
  obtain h' where h': "doalloc po (hp_ref g) (h, s) = Some (of_nat (hp_page g + i), h', s)"
    "heap_wf ok blocks mem (h', s) (xs @ g\<lparr>hp_free := is\<rparr> # ys)"
    "live blocks (h', s) (xs @ g\<lparr>hp_free := is\<rparr> # ys) = insert (hp_page g + i, hp_size g) (live blocks (h, s) (xs @ g # ys))"
    "unat (of_nat (hp_page g + i) :: vaddr) = hp_page g + i" "(hp_page g + i) mod 16 = 0" "length is < PAGE_SIZE div hp_size g"
    "(of_nat (hp_page g + i) :: vaddr) \<noteq> 0" by (rule take_from_page [OF wf' fs])
  have "unat sz \<le> hp_size g" using b(3) t by simp
  note fr = take_fresh [OF wf' fs this h'(2,3,5)]
  have "hp_ref g \<noteq> 0"
    using heap_wfD(3) [OF wf'] path_nonzero [of "\<lambda>p. next_all (pagerefs h p)" "allbase h" "map hp_ref (xs @ g # ys)"]
    by (auto simp: lists_ok_def)
  then have "subpage_kmalloc po sz (h, s) = Some (of_nat (hp_page g + i), h', s)"
    using b(1) wf_find_page [OF wf b(2)] g h'(1) by (simp add: subpage_kmalloc_def)
  moreover have "heap_inv ok blocks mem (h', s) (xs @ g\<lparr>hp_free := is\<rparr> # ys)"
    using h'(2,6) nf gs by (auto simp: heap_inv_def)
  ultimately show ?thesis using fr h'(4,7) gs by metis
qed

lemma subpage_kmalloc_fresh:
  assumes inv: "heap_inv ok blocks mem (h, s) gs" and b: "blocktype sz = Some b" "b < NSIZES" "unat sz \<le> sizes ! b"
    and g: "List.find (\<lambda>g. hp_free g \<noteq> []) (filter (\<lambda>g. hp_type g = b) gs) = None"
    and run: "subpage_kmalloc po sz (h, s) = Some (p, h', s')"
  shows "\<exists>gs'. heap_inv ok blocks mem (h', s') gs' \<and> view s' = view s \<and> kept (mem s) (mem s') (live blocks (h, s) gs) \<and>
    (if p = 0 then live blocks (h', s') gs' = live blocks (h, s) gs \<and> card (used (kheaproots h)) = NUM_PAGEREFPAGES * NPAGEREFS_PER_PAGE
     else fresh_block (unat sz) (unat p) (live blocks (h, s) gs) (live blocks (h', s') gs'))"
proof -
  have wf: "heap_wf ok blocks mem (h, s) gs" and nf: "\<forall>g \<in> set gs. length (hp_free g) < PAGE_SIZE div hp_size g"
    using inv by (simp_all add: heap_inv_def)
  have fp: "find_page h b (sizebases h ! b) = Some 0" using wf_find_page [OF wf b(2)] g by simp
  obtain va s1 where al: "po_alloc po 1 s = Some (va, s1)"
    using run b(1) fp by (auto simp: subpage_kmalloc_def elim!: bind_eq_SomeE)
  note a1 = alloc_page [OF heap_wfD(1) [OF wf] al]
  have ok1: "ok s1" using a1(1) by (simp add: grew_def)
  have sub1: "root_pages (kheaproots h) \<subseteq> blocks s1" using heap_wfD(8) [OF wf] a1(2) by auto
  obtain q h2 s2 where q: "allocpageref po (h, s1) = Some (q, h2, s2)"
    using run b(1) fp al a1(4,5) by (auto simp: subpage_kmalloc_def elim!: bind_eq_SomeE)
  from allocpageref_spec(2) [OF ok1 heap_wfD(2) [OF wf] sub1 q] show ?thesis
  proof
    assume z: "q = 0 \<and> h2 = h \<and> s2 = s1 \<and> card (used (kheaproots h)) = NUM_PAGEREFPAGES * NPAGEREFS_PER_PAGE"
    obtain s3 where s3: "po_free po (of_nat (unat va)) s1 = Some s3" "ok s3" "blocks s3 = blocks s1 - {(unat va, 1)}"
      "mem s3 = mem s1" "view s3 = view s1" using free [OF ok1, of "unat va" 1] a1(2) by auto
    have r: "p = 0" "h' = h" "s' = s3" using run b(1) fp al a1(4,5) q z s3(1) by (simp_all add: subpage_kmalloc_def)
    have bl: "blocks s3 = blocks s" using s3(3) a1(2,6) by auto
    have words: "same_words (mem s) (mem s3) (blocks s)" using a1(1) s3(4) by (simp add: grew_def)
    have "page_ok (mem s3) (pagerefs h (hp_ref g)) g" if g: "g \<in> set gs" for g
    proof -
      have "page_ok (mem s3) (pagerefs h (hp_ref g)) g \<longleftrightarrow> page_ok (mem s) (pagerefs h (hp_ref g)) g"
        by (rule page_ok_mem) (use page_words [OF wf g] heap_wfD(7) [OF wf g] words in \<open>auto simp: same_words_def\<close>)
      with heap_wfD(4) [OF wf g] show ?thesis by simp
    qed
    then have "heap_wf ok blocks mem (h, s3) gs" using wf s3(2) bl by (simp add: heap_wf_def)
    then have "heap_inv ok blocks mem (h', s') gs" using nf r by (simp add: heap_inv_def)
    moreover have "live blocks (h', s') gs = live blocks (h, s) gs" using r bl by (simp add: live_def)
    moreover have "view s' = view s" using a1(1) s3(5) r by (simp add: grew_def)
    ultimately show ?thesis using r z kept_words [OF wf words] by auto
  next
    assume ref: "ref_taken h s1 q h2 s2"
    let ?sz = "sizes ! b" let ?n = "PAGE_SIZE div ?sz"
    let ?g = "\<lparr>hp_ref = q, hp_page = unat va, hp_type = b, hp_free = fresh_list ?sz ?n\<rparr>"
    obtain h3 s3 where n: "newpage po q b va (h2, s2) = Some (h3, s3)" "heap_wf ok blocks mem (h3, s3) (?g # gs)"
      "blocks s3 = insert (unat va, 1) (blocks s) \<union> root_pages (kheaproots h3)"
      "root_pages (kheaproots h3) \<inter> insert (unat va, 1) (blocks s) = root_pages (kheaproots h)"
      "same_words (mem s) (mem s3) (blocks s)" "view s3 = view s" "(unat va, 1) \<notin> blocks s"
      by (rule wf_new [OF wf al ref b(2)])
    have q0: "q \<noteq> 0" using ref by (auto simp: ref_taken_def)
    have fl: "hp_free ?g = (?n - 1) * ?sz # fresh_list ?sz (?n - 1)" using fresh_list_facts(4) [OF b(2)] by simp
    have n2: "heap_wf ok blocks mem (h3, s3) ([] @ ?g # gs)" using n(2) by simp
    obtain h4 where h4: "doalloc po (hp_ref ?g) (h3, s3) = Some (of_nat (hp_page ?g + (?n - 1) * ?sz), h4, s3)"
      "heap_wf ok blocks mem (h4, s3) ([] @ ?g\<lparr>hp_free := fresh_list ?sz (?n - 1)\<rparr> # gs)"
      "live blocks (h4, s3) ([] @ ?g\<lparr>hp_free := fresh_list ?sz (?n - 1)\<rparr> # gs) =
        insert (hp_page ?g + (?n - 1) * ?sz, hp_size ?g) (live blocks (h3, s3) ([] @ ?g # gs))"
      "unat (of_nat (hp_page ?g + (?n - 1) * ?sz) :: vaddr) = hp_page ?g + (?n - 1) * ?sz" "(hp_page ?g + (?n - 1) * ?sz) mod 16 = 0"
      "length (fresh_list ?sz (?n - 1)) < PAGE_SIZE div hp_size ?g" "(of_nat (hp_page ?g + (?n - 1) * ?sz) :: vaddr) \<noteq> 0"
      by (rule take_from_page [OF n2 fl])
    have "unat sz \<le> hp_size ?g" using b(3) by simp
    note fr = take_fresh [OF n2 fl this h4(2,3,5)]
    have "live_blocks [?g] = {}" using fresh_list_facts(2) [OF b(2)] by (auto simp: live_blocks_def)
    then have "live_blocks ([] @ ?g # gs) = live_blocks gs" unfolding live_blocks_Un by (auto simp: live_blocks_def)
    moreover have "blocks s3 - heap_pages (?g # gs) - root_pages (kheaproots h3) = blocks s - heap_pages gs - root_pages (kheaproots h)"
      using n(3,4,7) by (auto simp: heap_pages_def)
    then have "page_blocks (blocks s3) h3 ([] @ ?g # gs) = page_blocks (blocks s) h gs" by (simp add: page_blocks_def)
    ultimately have L: "live blocks (h3, s3) ([] @ ?g # gs) = live blocks (h, s) gs" by (simp add: live_def)
    have r: "p = of_nat (hp_page ?g + (?n - 1) * ?sz)" "h' = h4" "s' = s3"
      using run b(1) fp al a1(4,5) q q0 n(1) h4(1) by (simp_all add: subpage_kmalloc_def)
    have "heap_inv ok blocks mem (h4, s3) (?g\<lparr>hp_free := fresh_list ?sz (?n - 1)\<rparr> # gs)"
      using h4(2,6) nf by (simp add: heap_inv_def)
    moreover have "fresh_block (unat sz) (unat p) (live blocks (h, s) gs) (live blocks (h4, s3) (?g\<lparr>hp_free := fresh_list ?sz (?n - 1)\<rparr> # gs))"
      using fr unfolding L r(1) h4(4) by simp
    ultimately show ?thesis using h4(7) r n(6) kept_words [OF wf n(5)] by metis
  qed
qed

lemma kmalloc_large:
  assumes inv: "heap_inv ok blocks mem (h, s) gs" and sz: "2048 \<le> unat sz" "unat sz \<le> 2 ^ 32 - PAGE_SIZE"
    and run: "kmalloc po sz (h, s) = Some (p, h', s')"
  shows "heap_inv ok blocks mem (h', s') gs \<and> view s' = view s \<and> kept (mem s) (mem s') (live blocks (h, s) gs) \<and>
    p \<noteq> 0 \<and> fresh_block (unat sz) (unat p) (live blocks (h, s) gs) (live blocks (h', s') gs)"
proof -
  let ?n = "unat ((sz + 4096 - 1) div 4096)"
  have wf: "heap_wf ok blocks mem (h, s) gs" and nf: "\<forall>g \<in> set gs. length (hp_free g) < PAGE_SIZE div hp_size g"
    using inv by (simp_all add: heap_inv_def)
  note n' = kmalloc_npages(2-4) [OF sz]
  have big: "sz \<ge> LARGEST_SUBPAGE_SIZE" using sz(1) by (simp add: word_le_nat_alt)
  obtain va s1 where al: "po_alloc po ?n s = Some (va, s1)"
    using run big by (auto simp: kmalloc_def elim!: bind_eq_SomeE)
  have a: "ok s1" "blocks s1 = insert (unat va, ?n) (blocks s)" "disjoint_from (unat va, ?n) (blocks s)"
    "same_words (mem s) (mem s1) (blocks s)" "view s1 = view s"
    using alloc [OF heap_wfD(1) [OF wf] n'(1,2) al] by blast+
  have vb: "unat va mod PAGE_SIZE = 0" "unat MIPS_KSEG0 \<le> unat va" using block [OF a(1), of "unat va" ?n] a(2) by auto
  then have va0: "va \<noteq> 0" by auto
  have new: "(unat va, ?n) \<notin> blocks s"
  proof
    assume "(unat va, ?n) \<in> blocks s"
    with a(3) have "span (unat va, ?n) = {}" by (auto simp: disjoint_from_def)
    with n'(1) show False by (simp add: span_def)
  qed
  have r: "p = va" "h' = h" "s' = s1" using run big al va0 vb(1) by (simp_all add: kmalloc_def)
  have "page_ok (mem s1) (pagerefs h (hp_ref g)) g" if g: "g \<in> set gs" for g
  proof -
    have "page_ok (mem s1) (pagerefs h (hp_ref g)) g \<longleftrightarrow> page_ok (mem s) (pagerefs h (hp_ref g)) g"
      by (rule page_ok_mem) (use page_words [OF wf g] heap_wfD(7) [OF wf g] a(4) in \<open>auto simp: same_words_def\<close>)
    with heap_wfD(4) [OF wf g] show ?thesis by simp
  qed
  then have wf1: "heap_wf ok blocks mem (h, s1) gs" using wf a(1,2) by (auto simp: heap_wf_def)
  have "(unat va, ?n) \<notin> heap_pages gs \<union> root_pages (kheaproots h)" using new wf by (auto simp: heap_wf_def)
  then have L: "live blocks (h, s1) gs = insert (unat va, ?n * PAGE_SIZE) (live blocks (h, s) gs)"
    using a(2) by (auto simp: live_def page_blocks_def)
  have "bytes b \<inter> bytes (unat va, ?n * PAGE_SIZE) = {}" if b: "b \<in> live blocks (h, s) gs" for b
  proof -
    obtain c where "c \<in> blocks s" "bytes b \<subseteq> span c" by (rule live_home [OF wf b])
    moreover have "bytes (unat va, ?n * PAGE_SIZE) = span (unat va, ?n)" by (simp add: bytes_def span_def)
    ultimately show ?thesis using a(3) unfolding disjoint_from_def by blast
  qed
  moreover have "unat va mod 16 = 0"
    using vb(1) dvd_trans [of 16 PAGE_SIZE "unat va"] by (simp add: mod_eq_0_iff_dvd)
  ultimately have "fresh_block (unat sz) (unat va) (live blocks (h, s) gs) (live blocks (h, s1) gs)"
    unfolding fresh_block_def L using n' by (intro exI [of _ "?n * PAGE_SIZE"]) simp
  then show ?thesis using r wf1 nf a(5) kept_words [OF wf a(4)] va0 by (simp add: heap_inv_def)
qed

text \<open>The contract of \<^verbatim>\<open>kmalloc\<close>.\<close>

lemma kmalloc_spec:
  assumes inv: "heap_inv ok blocks mem (h, s) gs" and sz: "unat sz \<le> 2 ^ 32 - PAGE_SIZE"
    and run: "kmalloc po sz (h, s) = Some (p, h', s')"
  shows "\<exists>gs'. heap_inv ok blocks mem (h', s') gs' \<and> view s' = view s \<and> kept (mem s) (mem s') (live blocks (h, s) gs) \<and>
    (if p = 0 then live blocks (h', s') gs' = live blocks (h, s) gs \<and> card (used (kheaproots h)) = NUM_PAGEREFPAGES * NPAGEREFS_PER_PAGE
     else fresh_block (unat sz) (unat p) (live blocks (h, s) gs) (live blocks (h', s') gs'))"
proof (cases "2048 \<le> unat sz")
  case True
  from kmalloc_large [OF inv True sz run] show ?thesis by (intro exI [of _ gs]) simp
next
  case False
  then obtain b where b: "blocktype sz = Some b" "b < NSIZES" "unat sz \<le> sizes ! b"
    using blocktype_some [of sz] by auto
  have run': "subpage_kmalloc po sz (h, s) = Some (p, h', s')"
    using run False by (simp add: kmalloc_def word_le_nat_alt)
  show ?thesis
  proof (cases "List.find (\<lambda>g. hp_free g \<noteq> []) (filter (\<lambda>g. hp_type g = b) gs)")
    case None
    from subpage_kmalloc_fresh [OF inv b None run'] show ?thesis .
  next
    case (Some g)
    from subpage_kmalloc_reuse [OF inv b Some] run' show ?thesis by (auto simp: kept_def)
  qed
qed

text \<open>It stops the machine only when the page layer does.\<close>

lemma subpage_kmalloc_total:
  assumes inv: "heap_inv ok blocks mem (h, s) gs" and sz: "unat sz < 2048" and run: "subpage_kmalloc po sz (h, s) = None"
  shows "po_alloc po 1 s = None \<or> (\<exists>va s1. po_alloc po 1 s = Some (va, s1) \<and> po_alloc po 1 s1 = None)"
proof (rule ccontr)
  assume not: "\<not> ?thesis"
  then obtain va s1 where al: "po_alloc po 1 s = Some (va, s1)" and al1: "po_alloc po 1 s1 \<noteq> None" by auto
  have wf: "heap_wf ok blocks mem (h, s) gs" using inv by (simp add: heap_inv_def)
  obtain b where b: "blocktype sz = Some b" "b < NSIZES" "unat sz \<le> sizes ! b" using blocktype_some [of sz] sz by auto
  have g: "List.find (\<lambda>g. hp_free g \<noteq> []) (filter (\<lambda>g. hp_type g = b) gs) = None"
    using subpage_kmalloc_reuse [OF inv b] run by (cases "List.find (\<lambda>g. hp_free g \<noteq> []) (filter (\<lambda>g. hp_type g = b) gs)") auto
  have fp: "find_page h b (sizebases h ! b) = Some 0" using wf_find_page [OF wf b(2)] g by simp
  note a1 = alloc_page [OF heap_wfD(1) [OF wf] al]
  have ok1: "ok s1" using a1(1) by (simp add: grew_def)
  have sub1: "root_pages (kheaproots h) \<subseteq> blocks s1" using heap_wfD(8) [OF wf] a1(2) by auto
  note ap = allocpageref_spec [OF ok1 heap_wfD(2) [OF wf] sub1]
  obtain q h2 s2 where q: "allocpageref po (h, s1) = Some (q, h2, s2)" using ap(1) al1 by (cases "allocpageref po (h, s1)") auto
  from ap(2) [OF q] show False
  proof
    assume z: "q = 0 \<and> h2 = h \<and> s2 = s1 \<and> card (used (kheaproots h)) = NUM_PAGEREFPAGES * NPAGEREFS_PER_PAGE"
    obtain s3 where "po_free po (of_nat (unat va)) s1 = Some s3" using free [OF ok1, of "unat va" 1] a1(2) by auto
    with run b(1) fp al a1(4,5) q z show False by (simp add: subpage_kmalloc_def)
  next
    assume ref: "ref_taken h s1 q h2 s2"
    let ?sz = "sizes ! b" let ?n = "PAGE_SIZE div ?sz"
    let ?g = "\<lparr>hp_ref = q, hp_page = unat va, hp_type = b, hp_free = fresh_list ?sz ?n\<rparr>"
    obtain h3 s3 where n: "newpage po q b va (h2, s2) = Some (h3, s3)" "heap_wf ok blocks mem (h3, s3) (?g # gs)"
      by (rule wf_new [OF wf al ref b(2)])
    have q0: "q \<noteq> 0" using ref by (auto simp: ref_taken_def)
    have fl: "hp_free ?g = (?n - 1) * ?sz # fresh_list ?sz (?n - 1)" using fresh_list_facts(4) [OF b(2)] by simp
    have n2: "heap_wf ok blocks mem (h3, s3) ([] @ ?g # gs)" using n(2) by simp
    obtain h4 where "doalloc po (hp_ref ?g) (h3, s3) = Some (of_nat (hp_page ?g + (?n - 1) * ?sz), h4, s3)"
      by (rule take_from_page [OF n2 fl])
    with run b(1) fp al a1(4,5) q q0 n(1) show False by (simp add: subpage_kmalloc_def)
  qed
qed

section \<open>Freeing a block\<close>

lemma wf_owner_page:
  assumes inv: "heap_wf ok blocks mem (h, s) gs"
  shows "owner_page h ptr (allbase h) =
    Some (case List.find (\<lambda>g. unat ptr \<in> span (hp_page g, 1)) gs of None \<Rightarrow> 0 | Some g \<Rightarrow> hp_ref g)"
proof (rule owner_page_path)
  show "path (\<lambda>p. next_all (pagerefs h p)) (allbase h) (map hp_ref gs)"
    using heap_wfD(3) [OF inv] by (simp add: lists_ok_def)
  show "\<forall>g \<in> set gs. unat (PR_BLOCKTYPE (pagerefs h (hp_ref g))) < NSIZES \<and>
      (PR_PAGEADDR (pagerefs h (hp_ref g)) \<le> ptr \<and> ptr < PR_PAGEADDR (pagerefs h (hp_ref g)) + 4096 \<longleftrightarrow> unat ptr \<in> span (hp_page g, 1))"
  proof
    fix g
    assume g: "g \<in> set gs"
    note p = heap_wfD(4) [OF inv g] and b = heap_wfD(10) [OF inv g]
    have a: "kpage (hp_page g)" by (rule kpage_block [OF heap_wfD(1) [OF inv] heap_wfD(7) [OF inv g]])
    have "pageaddr_and_blocktype (pagerefs h (hp_ref g)) = of_nat (hp_page g + hp_type g)" using p by (simp add: page_ok_def)
    note pk = packed [OF a b this]
    have "unat (PR_PAGEADDR (pagerefs h (hp_ref g)) + 4096) = hp_page g + 4096"
      using pk(1) a by (subst unat_add_small) (simp_all add: kpage_def)
    then show "unat (PR_BLOCKTYPE (pagerefs h (hp_ref g))) < NSIZES \<and>
      (PR_PAGEADDR (pagerefs h (hp_ref g)) \<le> ptr \<and> ptr < PR_PAGEADDR (pagerefs h (hp_ref g)) + 4096 \<longleftrightarrow> unat ptr \<in> span (hp_page g, 1))"
      using pk(1,3) b by (simp add: word_le_nat_alt word_less_nat_alt span_def)
  qed
qed

lemma live_blocks_put:
  assumes inv: "heap_wf ok blocks mem (h, s) (xs @ g # ys)" and i: "i \<in> blocks_of (hp_size g)" "i \<notin> set (hp_free g)"
    and same: "blocks s' = blocks s" "root_pages (kheaproots h') = root_pages (kheaproots h)"
  shows "live blocks (h', s') (xs @ g\<lparr>hp_free := i # hp_free g\<rparr> # ys) = live blocks (h, s) (xs @ g # ys) - {(hp_page g + i, hp_size g)}"
proof -
  let ?b = "(hp_page g + i, hp_size g)"
  have g: "g \<in> set (xs @ g # ys)" by simp
  note b = heap_wfD(10) [OF inv g]
  have y: "hp_page g + i \<in> span (hp_page g, 1)" using i(1) by (simp add: blocks_of_def span_def)
  have yb: "hp_page g + i \<in> bytes ?b" using size_facts(6) [OF b] by (simp add: bytes_def)
  have "?b \<notin> live_blocks zs" if zs: "set zs \<subseteq> set xs \<union> set ys" for zs
  proof
    assume "?b \<in> live_blocks zs"
    then obtain g' j where g': "g' \<in> set zs" "?b = (hp_page g' + j, hp_size g')" "j \<in> blocks_of (hp_size g')"
      by (auto simp: live_blocks_def)
    then have "hp_page g + i \<in> span (hp_page g', 1)" by (simp add: blocks_of_def span_def)
    moreover have "g' \<in> set xs \<union> set ys" using g'(1) zs by blast
    ultimately show False using other_pages(2) [OF inv] y by blast
  qed
  then have n: "?b \<notin> live_blocks xs" "?b \<notin> live_blocks ys" by auto
  have "?b \<notin> page_blocks (blocks s) h (xs @ g # ys)"
  proof
    assume "?b \<in> page_blocks (blocks s) h (xs @ g # ys)"
    then obtain a n where an: "(a, n) \<in> blocks s" "?b = (a, n * PAGE_SIZE)" "(a, n) \<notin> heap_pages (xs @ g # ys)"
      by (auto simp: page_blocks_def)
    have "hp_page g + i \<in> span (a, n)" using yb unfolding an(2) by (simp add: bytes_def span_def)
    moreover have "(a, n) \<noteq> (hp_page g, 1)" using an(3) by (auto simp: heap_pages_def)
    ultimately show False using y apart [OF heap_wfD(1) [OF inv] an(1) heap_wfD(7) [OF inv g]] by blast
  qed
  moreover have "live_blocks [g\<lparr>hp_free := i # hp_free g\<rparr>] = live_blocks [g] - {?b}" by (auto simp: live_blocks_def)
  moreover have "page_blocks (blocks s') h' (xs @ g\<lparr>hp_free := i # hp_free g\<rparr> # ys) = page_blocks (blocks s) h (xs @ g # ys)"
    unfolding same(1) by (rule page_blocks_cong [OF heap_pages_replace same(2)])
  ultimately show ?thesis using n unfolding live_def live_blocks_Un by auto
qed

text \<open>A block of a heap page: it is filled and goes to the free list; an entirely free page is given back.\<close>

lemma subpage_kfree_spec:
  assumes inv: "heap_inv ok blocks mem (h, s) gs" and g: "g \<in> set gs" and i: "i \<in> blocks_of (hp_size g)" "i \<notin> set (hp_free g)"
  shows "\<exists>h' s' gs'. subpage_kfree po (of_nat (hp_page g + i)) (h, s) = Some (0, h', s') \<and> heap_inv ok blocks mem (h', s') gs' \<and>
    view s' = view s \<and> live blocks (h', s') gs' = live blocks (h, s) gs - {(hp_page g + i, hp_size g)} \<and>
    (\<forall>x. x \<notin> bytes (hp_page g + i, hp_size g) \<longrightarrow> mem s' x = mem s x)"
proof -
  have wf: "heap_wf ok blocks mem (h, s) gs" and nf: "\<forall>g \<in> set gs. length (hp_free g) < PAGE_SIZE div hp_size g"
    using inv by (simp_all add: heap_inv_def)
  let ?a = "hp_page g" let ?sz = "hp_size g" let ?ptr = "of_nat (?a + i) :: vaddr" let ?n = "PAGE_SIZE div ?sz"
  obtain xs ys where gs: "gs = xs @ g # ys" using split_list [OF g] by blast
  note wf' = wf [unfolded gs]
  note ok = heap_wfD(1) [OF wf] and p = heap_wfD(4) [OF wf g] and bl = heap_wfD(7) [OF wf g] and b = heap_wfD(10) [OF wf g]
  have a: "kpage ?a" by (rule kpage_block [OF ok bl])
  have i': "i < PAGE_SIZE" "?sz dvd i" using i(1) by (simp_all add: blocks_of_def)
  have u: "unat ?ptr = ?a + i" by (rule kpage_unat [OF a i'(1)])
  have g0: "hp_ref g \<noteq> 0"
    using heap_wfD(3) [OF wf'] path_nonzero [of "\<lambda>p. next_all (pagerefs h p)" "allbase h" "map hp_ref (xs @ g # ys)"]
    by (auto simp: lists_ok_def)
  have own: "owner_page h ?ptr (allbase h) = Some (hp_ref g)"
  proof -
    have y: "unat ?ptr \<in> span (?a, 1)" using u i'(1) by (simp add: span_def)
    have "List.find (\<lambda>g. unat ?ptr \<in> span (hp_page g, 1)) gs = Some g"
    proof (cases "List.find (\<lambda>g. unat ?ptr \<in> span (hp_page g, 1)) gs")
      case None
      with g y show ?thesis by (auto simp: find_None_iff)
    next
      case (Some g')
      then have g': "g' \<in> set gs" "unat ?ptr \<in> span (hp_page g', 1)" unfolding find_Some_iff by (metis nth_mem)+
      have "g' = g"
      proof (rule ccontr)
        assume "g' \<noteq> g"
        then have "g' \<in> set xs \<union> set ys" using g'(1) gs by simp
        from other_pages(2) [OF wf' this] g'(2) y show False by blast
      qed
      with Some show ?thesis by simp
    qed
    then show ?thesis using wf_owner_page [OF wf, of ?ptr] by simp
  qed
  have "pageaddr_and_blocktype (pagerefs h (hp_ref g)) = of_nat (?a + hp_type g)" using p by (simp add: page_ok_def)
  note pk = packed [OF a b this]
  have off: "?ptr - PR_PAGEADDR (pagerefs h (hp_ref g)) = of_nat i" by (simp add: pk(2))
  have ui: "unat (of_nat i :: vaddr) = i" using i'(1) by (intro unat_of_nat32) simp
  obtain s1 where s1: "fill_deadbeef po ?ptr [0..<?sz div 4] s = Some s1" "ok s1" "blocks s1 = blocks s" "view s1 = view s"
    "\<forall>x. x \<notin> bytes (?a + i, ?sz) \<longrightarrow> mem s1 x = mem s x" by (rule fill_block [OF ok bl b i(1)])
  have p1: "page_ok (mem s1) (pagerefs h (hp_ref g)) g"
  proof -
    have "?a + j \<notin> bytes (?a + i, ?sz)" if "j \<in> set (hp_free g)" for j
    proof -
      have "j \<in> blocks_of ?sz" using p that by (auto simp: page_ok_def)
      then have "bytes (?a + i, ?sz) \<inter> bytes (?a + j, ?sz) = {}" using bytes_apart [OF b i(1)] i(2) that by metis
      moreover have "?a + j \<in> bytes (?a + j, ?sz)" using size_facts(6) [OF b] by (simp add: bytes_def)
      ultimately show ?thesis by blast
    qed
    then have "page_ok (mem s1) (pagerefs h (hp_ref g)) g \<longleftrightarrow> page_ok (mem s) (pagerefs h (hp_ref g)) g"
      using s1(5) by (intro page_ok_mem) blast
    with p show ?thesis by simp
  qed
  have bl1: "(?a, 1) \<in> blocks s1" using bl s1(3) by simp
  obtain pr s2 where s2: "putblock po (hp_ref g) (of_nat i) (h, s1) = Some (set_pageref (hp_ref g) pr h, s2)" "ok s2"
    "blocks s2 = blocks s1" "view s2 = view s1" "\<forall>x. x \<noteq> ?a + i \<longrightarrow> mem s2 x = mem s1 x"
    "page_ok (mem s2) pr (g\<lparr>hp_free := i # hp_free g\<rparr>)" "next_samesize pr = next_samesize (pagerefs h (hp_ref g))"
    "next_all pr = next_all (pagerefs h (hp_ref g))" by (rule putblock_spec [OF s1(2) bl1 p1 i])
  let ?h2 = "set_pageref (hp_ref g) pr h" let ?g = "g\<lparr>hp_free := i # hp_free g\<rparr>"
  have mem: "\<forall>x. x \<notin> bytes (?a + i, ?sz) \<longrightarrow> mem s2 x = mem s x"
  proof (intro allI impI)
    fix x assume "x \<notin> bytes (?a + i, ?sz)"
    moreover from this have "x \<noteq> ?a + i" using size_facts(6) [OF b] by (auto simp: bytes_def)
    ultimately show "mem s2 x = mem s x" using s1(5) s2(5) by simp
  qed
  have "bytes (?a + i, ?sz) \<subseteq> span (?a, 1)" using block_fits [OF b i(1)] by (auto simp: bytes_def span_def)
  then have mem': "\<forall>x. x \<notin> span (?a, 1) \<longrightarrow> mem s2 x = mem s x" using mem by blast
  have bl2: "blocks s2 = blocks s" using s1(3) s2(3) by simp
  have wf2: "heap_wf ok blocks mem (?h2, s2) (xs @ ?g # ys)" by (rule wf_replace [OF wf' s2(2) bl2 mem' s2(6-8)])
  have L2: "live blocks (?h2, s2) (xs @ ?g # ys) = live blocks (h, s) gs - {(?a + i, ?sz)}"
    unfolding gs by (rule live_blocks_put [OF wf' i bl2]) (simp add: set_pageref_def)
  have pg: "page_ok (mem s2) (pagerefs ?h2 (hp_ref g)) ?g" using s2(6) by simp
  have len: "length (hp_free ?g) \<le> ?n" "length (hp_free ?g) \<le> 256"
    using free_list_length(1,2) [of "hp_type ?g" "hp_free ?g"] pg b by (simp_all add: page_ok_def)
  have "nfree pr = of_nat (length (hp_free ?g))" using s2(6) by (simp only: page_ok_def)
  moreover have "unat (of_nat (length (hp_free ?g)) :: 16 word) = length (hp_free ?g)"
    using len(2) by (simp only: unat_of_nat) simp
  ultimately have nfree: "unat (nfree pr) = length (hp_free ?g)" by (simp only:)
  have step: "subpage_kfree po ?ptr (h, s) = (if length (hp_free ?g) = ?n then do {
         h \<leftarrow> remove_lists (hp_ref g) (hp_type g) ?h2;
         h \<leftarrow> freepageref (hp_ref g) h;
         s \<leftarrow> po_free po (of_nat ?a) s2;
         Some (0, h, s) }
       else Some (0, ?h2, s2))"
    using own g0 s1(1) s2(1) off ui i' pk len(1) nfree by (simp add: subpage_kfree_def Let_def dvd_imp_mod_0)
  have nf': "length (hp_free g') < PAGE_SIZE div hp_size g'" if "g' \<in> set xs \<union> set ys" for g'
    using nf that gs by auto
  show ?thesis
  proof (cases "length (hp_free ?g) = ?n")
    case False
    then have "heap_inv ok blocks mem (?h2, s2) (xs @ ?g # ys)" using wf2 nf' len(1) by (auto simp: heap_inv_def)
    with step False L2 mem s1(4) s2(4) show ?thesis by (intro exI [of _ ?h2] exI [of _ s2] exI [of _ "xs @ ?g # ys"]) simp
  next
    case True
    obtain h3 h4 s3 where r: "remove_lists (hp_ref ?g) (hp_type ?g) ?h2 = Some h3" "freepageref (hp_ref ?g) h3 = Some h4"
      "po_free po (of_nat (hp_page ?g)) s2 = Some s3" "heap_wf ok blocks mem (h4, s3) (xs @ ys)"
      "blocks s3 = blocks s2 - {(hp_page ?g, 1)}" "mem s3 = mem s2" "view s3 = view s2"
      "root_pages (kheaproots h4) = root_pages (kheaproots ?h2)" by (rule wf_remove [OF wf2])
    have inv4: "heap_inv ok blocks mem (h4, s3) (xs @ ys)" using r(4) nf' by (auto simp: heap_inv_def)
    have "set (hp_free ?g) = blocks_of (hp_size ?g)"
      using free_list_length(3) [of "hp_type ?g" "hp_free ?g"] pg b True by (simp add: page_ok_def)
    then have "live_blocks [?g] = {}" by (auto simp: live_blocks_def)
    then have "live_blocks (xs @ ?g # ys) = live_blocks (xs @ ys)" unfolding live_blocks_Un by (auto simp: live_blocks_def)
    moreover have "(?a, 1) \<notin> heap_pages (xs @ ys)" using heap_wfD(6) [OF wf'] by (auto simp: heap_pages_def image_iff)
    then have "blocks s3 - heap_pages (xs @ ys) = blocks s2 - heap_pages (xs @ ?g # ys)"
      unfolding r(5) by (auto simp: heap_pages_def)
    then have "page_blocks (blocks s3) h4 (xs @ ys) = page_blocks (blocks s2) ?h2 (xs @ ?g # ys)"
      unfolding page_blocks_def r(8) by simp
    ultimately have "live blocks (h4, s3) (xs @ ys) = live blocks (h, s) gs - {(?a + i, ?sz)}"
      using L2 by (simp add: live_def)
    moreover have "subpage_kfree po ?ptr (h, s) = Some (0, h4, s3)" using step True r(1-3) by simp
    ultimately show ?thesis using inv4 mem r(6,7) s1(4) s2(4) by (intro exI [of _ h4] exI [of _ s3] exI [of _ "xs @ ys"]) simp
  qed
qed

text \<open>The contract of \<^verbatim>\<open>kfree\<close>.\<close>

lemma kfree_spec:
  assumes inv: "heap_inv ok blocks mem (h, s) gs" and b: "(unat p, n) \<in> live blocks (h, s) gs"
  shows "\<exists>h' s' gs'. kfree po p (h, s) = Some (h', s') \<and> heap_inv ok blocks mem (h', s') gs' \<and> view s' = view s \<and>
    live blocks (h', s') gs' = live blocks (h, s) gs - {(unat p, n)} \<and>
    kept (mem s) (mem s') (live blocks (h, s) gs - {(unat p, n)})"
proof -
  have wf: "heap_wf ok blocks mem (h, s) gs" using inv by (simp add: heap_inv_def)
  note ok = heap_wfD(1) [OF wf]
  have p: "p = of_nat (unat p)" by simp
  from wf b show ?thesis
  proof (cases rule: live_cases)
    case (sub g i)
    have pg: "p = of_nat (hp_page g + i)" and n: "n = hp_size g" "unat p = hp_page g + i" using sub(2) p by (auto simp del: of_nat_add)
    obtain h' s' gs' where f: "subpage_kfree po (of_nat (hp_page g + i)) (h, s) = Some (0, h', s')" "heap_inv ok blocks mem (h', s') gs'"
      "view s' = view s" "live blocks (h', s') gs' = live blocks (h, s) gs - {(hp_page g + i, hp_size g)}"
      "\<forall>x. x \<notin> bytes (hp_page g + i, hp_size g) \<longrightarrow> mem s' x = mem s x"
      using subpage_kfree_spec [OF inv sub(1,3,4)] by blast
    have "kpage (hp_page g)" by (rule kpage_block [OF ok heap_wfD(7) [OF wf sub(1)]])
    then have "p \<noteq> 0" by (rule kpage_nonzero [OF _ n(2)])
    then have "kfree po p (h, s) = Some (h', s')" using f(1) pg by (simp add: kfree_def del: of_nat_add)
    moreover have "x \<notin> bytes (unat p, n)" if "c \<in> live blocks (h, s) gs - {(unat p, n)}" "x \<in> bytes c" for c x
      using live_disjoint [OF wf _ b, of c] that by blast
    then have "kept (mem s) (mem s') (live blocks (h, s) gs - {(unat p, n)})" using f(5) unfolding n kept_def by metis
    ultimately show ?thesis using f(2-4) n by auto
  next
    case (whole a k)
    then have k: "unat p = a" "n = k * PAGE_SIZE" by simp_all
    have kb: "0 < k" "a mod PAGE_SIZE = 0" "unat MIPS_KSEG0 \<le> a" using block [OF ok whole(2)] by simp_all
    then have p0: "p \<noteq> 0" using k by auto
    have "a \<notin> span (hp_page g, 1)" if g: "g \<in> set gs" for g
    proof -
      have "(a, k) \<noteq> (hp_page g, 1)" using whole(3) g by (auto simp: heap_pages_def)
      then have "span (a, k) \<inter> span (hp_page g, 1) = {}" by (rule apart [OF ok whole(2) heap_wfD(7) [OF wf g]])
      moreover have "a \<in> span (a, k)" using kb(1) by (simp add: span_def)
      ultimately show ?thesis by blast
    qed
    then have "List.find (\<lambda>g. unat p \<in> span (hp_page g, 1)) gs = None" using k by (simp add: find_None_iff)
    then have "subpage_kfree po p (h, s) = Some (- 1, h, s)"
      using wf_owner_page [OF wf, of p] by (simp add: subpage_kfree_def)
    moreover obtain s' where s': "po_free po (of_nat a) s = Some s'" "ok s'" "blocks s' = blocks s - {(a, k)}" "mem s' = mem s"
      "view s' = view s" using free [OF ok whole(2)] by blast
    moreover have "p = of_nat a" using p k by simp
    ultimately have r: "kfree po p (h, s) = Some (h, s')" using p0 kb(2) k by (simp add: kfree_def)
    have "heap_wf ok blocks mem (h, s') gs" using wf s'(2-4) whole(3,4) by (auto simp: heap_wf_def)
    then have i': "heap_inv ok blocks mem (h, s') gs" using inv by (simp add: heap_inv_def)
    have "(\<lambda>(a, n). (a, n * PAGE_SIZE)) ` (blocks s - {(a, k)} - heap_pages gs - root_pages (kheaproots h)) =
        page_blocks (blocks s) h gs - {(a, k * PAGE_SIZE)}" by (auto simp: page_blocks_def)
    then have "page_blocks (blocks s') h gs = page_blocks (blocks s) h gs - {(unat p, n)}"
      unfolding k by (simp add: page_blocks_def s'(3))
    moreover have "(unat p, n) \<notin> live_blocks gs"
    proof
      assume "(unat p, n) \<in> live_blocks gs"
      then obtain g j where g: "g \<in> set gs" "unat p = hp_page g + j" "j \<in> blocks_of (hp_size g)" by (auto simp: live_blocks_def)
      then have "a \<in> span (hp_page g, 1)" using k by (simp add: blocks_of_def span_def)
      with \<open>\<And>g. g \<in> set gs \<Longrightarrow> a \<notin> span (hp_page g, 1)\<close> g(1) show False by blast
    qed
    ultimately have "live blocks (h, s') gs = live blocks (h, s) gs - {(unat p, n)}" by (auto simp: live_def)
    then show ?thesis using r i' s'(4,5) by (auto simp: kept_def)
  qed
qed

section \<open>The description is unique\<close>

lemma free_list_unique:
  assumes "kpage a" and "free_links m a fs" and "free_links m a fs'" and "length fs = length fs'"
    and "offset_of fs = offset_of fs'" and "set fs \<subseteq> {..<PAGE_SIZE}" and "set fs' \<subseteq> {..<PAGE_SIZE}"
  shows "fs = fs'"
  using assms(2-)
proof (induction fs arbitrary: fs')
  case (Cons i "is")
  then obtain j js where fs': "fs' = j # js" by (cases fs') auto
  have ij: "i < PAGE_SIZE" "j < PAGE_SIZE" using Cons.prems fs' by auto
  have u: "unat (of_nat i :: 16 word) = i" "unat (of_nat j :: 16 word) = j" using ij by (simp_all add: unat_of_nat)
  have "(of_nat i :: 16 word) = of_nat j" using Cons.prems(4) fs' by (simp add: offset_of_def)
  then have "unat (of_nat i :: 16 word) = unat (of_nat j :: 16 word)" by (rule arg_cong)
  then have "i = j" by (simp only: u)
  have "offset_of is = offset_of js"
  proof (cases "is")
    case Nil
    then show ?thesis using Cons.prems(3) fs' by simp
  next
    case (Cons k ks)
    then obtain l ls where js: "js = l # ls" using Cons.prems(3) fs' by (cases js) auto
    have kl: "k < PAGE_SIZE" "l < PAGE_SIZE" using Cons.prems(5,6) fs' js Cons by auto
    have "(of_nat (a + k) :: vaddr) = of_nat (a + l)" using Cons.prems(1,2) fs' js Cons \<open>i = j\<close> by (auto simp del: of_nat_add)
    then have "unat (of_nat (a + k) :: vaddr) = unat (of_nat (a + l) :: vaddr)" by (rule arg_cong)
    then have "k = l" unfolding kpage_unat [OF assms(1) kl(1)] kpage_unat [OF assms(1) kl(2)] by simp
    then show ?thesis using Cons js by (simp add: offset_of_def)
  qed
  with Cons.IH [of js] Cons.prems fs' \<open>i = j\<close> show ?case by simp
qed simp

lemma path_unique: "path nx a xs \<Longrightarrow> path nx a ys \<Longrightarrow> xs = ys"
proof (induction xs arbitrary: a ys)
  case Nil
  then show ?case by (cases ys) auto
next
  case (Cons x xs)
  then show ?case by (cases ys) auto
qed

lemma page_unique:
  assumes "page_ok m pr g" and "page_ok m pr g'" and "kpage (hp_page g)" and "kpage (hp_page g')" and "hp_ref g = hp_ref g'"
  shows "g = g'"
proof -
  have b: "hp_type g < NSIZES" "hp_type g' < NSIZES" and pa: "pageaddr_and_blocktype pr = of_nat (hp_page g + hp_type g)"
    "pageaddr_and_blocktype pr = of_nat (hp_page g' + hp_type g')" using assms(1,2) by (simp_all add: page_ok_def)
  have eq: "hp_page g = hp_page g'" "hp_type g = hp_type g'"
    using packed(1,3) [OF assms(3) b(1) pa(1)] packed(1,3) [OF assms(4) b(2) pa(2)] by simp_all
  have d: "distinct (hp_free g)" "set (hp_free g) \<subseteq> blocks_of (hp_size g)" "distinct (hp_free g')" "set (hp_free g') \<subseteq> blocks_of (hp_size g')"
    using assms(1,2) by (simp_all add: page_ok_def)
  have len: "length (hp_free g) \<le> 256" "length (hp_free g') \<le> 256"
    using free_list_length(2) [OF b(1) d(1,2)] free_list_length(2) [OF b(2) d(3,4)] by simp_all
  have "(of_nat (length (hp_free g)) :: 16 word) = of_nat (length (hp_free g'))" using assms(1,2) by (simp add: page_ok_def)
  then have "unat (of_nat (length (hp_free g)) :: 16 word) = unat (of_nat (length (hp_free g')) :: 16 word)" by (rule arg_cong)
  then have l: "length (hp_free g) = length (hp_free g')" using len by (simp add: unat_of_nat)
  have "hp_free g = hp_free g'"
  proof (rule free_list_unique [OF assms(3)])
    show "free_links m (hp_page g) (hp_free g)" "free_links m (hp_page g) (hp_free g')"
      "offset_of (hp_free g) = offset_of (hp_free g')" using assms(1,2) eq by (simp_all add: page_ok_def)
    show "set (hp_free g) \<subseteq> {..<PAGE_SIZE}" "set (hp_free g') \<subseteq> {..<PAGE_SIZE}" using d by (auto simp: blocks_of_def)
  qed (rule l)
  with eq assms(5) show ?thesis by simp
qed

lemma heap_unique:
  assumes wf: "heap_wf ok blocks mem (h, s) gs" and wf': "heap_wf ok blocks mem (h, s) gs'"
  shows "gs = gs'"
proof -
  have m: "map hp_ref gs = map hp_ref gs'"
    using heap_wfD(3) [OF wf] heap_wfD(3) [OF wf'] path_unique by (auto simp: lists_ok_def)
  then have len: "length gs = length gs'" by (rule map_eq_imp_length_eq)
  show ?thesis
  proof (rule nth_equalityI [OF len])
    fix i
    assume i: "i < length gs"
    have g: "gs ! i \<in> set gs" "gs' ! i \<in> set gs'" using i len by simp_all
    have r: "hp_ref (gs ! i) = hp_ref (gs' ! i)" using arg_cong [OF m, of "\<lambda>xs. xs ! i"] i len by simp
    show "gs ! i = gs' ! i"
      by (rule page_unique [OF heap_wfD(4) [OF wf g(1)] _ kpage_block [OF heap_wfD(1) [OF wf] heap_wfD(7) [OF wf g(1)]]
            kpage_block [OF heap_wfD(1) [OF wf'] heap_wfD(7) [OF wf' g(2)]] r])
        (use heap_wfD(4) [OF wf' g(2)] r in simp)
  qed
qed

end

section \<open>Enough pages\<close>

text \<open>A page layer that says how many single pages it can surely hand out.\<close>

locale page_supply = page_layer +
  fixes room :: "'a \<Rightarrow> nat"
  assumes supplied: "ok s \<Longrightarrow> 0 < room s \<Longrightarrow> \<exists>va s'. po_alloc po 1 s = Some (va, s') \<and> room s \<le> room s' + 1"
begin

lemma kmalloc_supplied:
  assumes inv: "heap_inv ok blocks mem (h, s) gs" and sz: "unat sz < 2048" and room: "2 \<le> room s"
    and refs: "card (used (kheaproots h)) < NUM_PAGEREFPAGES * NPAGEREFS_PER_PAGE"
  shows "\<exists>p h' s'. kmalloc po sz (h, s) = Some (p, h', s') \<and> p \<noteq> 0"
proof -
  have ok: "ok s" using inv by (simp add: heap_inv_def heap_wf_def)
  obtain va s1 where al: "po_alloc po 1 s = Some (va, s1)" "room s \<le> room s1 + 1" using supplied [OF ok] room by auto
  have "ok s1" using alloc [OF ok _ _ al(1)] by simp
  then have "po_alloc po 1 s1 \<noteq> None" using supplied [of s1] al(2) room by force
  then obtain p h' s' where r: "subpage_kmalloc po sz (h, s) = Some (p, h', s')"
    using subpage_kmalloc_total [OF inv sz] al(1) by (cases "subpage_kmalloc po sz (h, s)") auto
  moreover have eq: "kmalloc po sz (h, s) = subpage_kmalloc po sz (h, s)" using sz by (simp add: kmalloc_def word_le_nat_alt)
  moreover have "p \<noteq> 0" using kmalloc_spec [OF inv, of sz p h' s'] r eq sz refs by auto
  ultimately show ?thesis by simp
qed

end

text \<open>Free frames are such a supply.\<close>

definition free_frames :: "('f, 'a) vm_st_scheme \<Rightarrow> nat" where
  "free_frames s = card {i. i < length (coremap s) \<and> \<not> cm_free (coremap s ! i)}"

lemma alloc_kpages_supply:
  fixes s :: "('f, 'a) sys_st_scheme"
  assumes inv: "sys_inv vo content s" and room: "0 < free_frames s"
  shows "\<exists>va s'. alloc_kpages vo 1 s = Some (va, s') \<and> free_frames s \<le> free_frames s' + 1"
proof -
  obtain img ro where vi: "vm_inv vo content img ro (cur_tr s) None s" using inv by (auto simp: sys_inv_def)
  obtain i where "i < length (coremap s)" "\<not> cm_free (coremap s ! i)"
    using room unfolding free_frames_def by (auto simp: card_gt_0_iff)
  then have "free_run (coremap s) i 1" by (auto simp: free_run_def le_less_Suc_eq)
  then have can: "can_alloc vo 1 s" by (auto simp: can_alloc_def)
  obtain b0 s1 where g: "coremap_getppages vo 1 None s = Some (frame_addr b0, s1)" and b0: "b0 \<noteq> 0" "b0 + 1 \<le> length (coremap s)"
    by (rule coremap_getppages_spec [where ptentry = None, OF vi _ _ _ can]) simp_all
  obtain b where b: "b + 1 \<le> length (coremap s)" "coremap s1 = coremap_mark b 1 None (coremap s)"
    by (rule getppages_frames [OF vi _ _ g]) simp_all
  have "coremap s1 ! j = coremap s ! j" if "j < length (coremap s)" "j \<noteq> b" for j
    using nth_coremap_mark [OF b(1) that(1), of None] that(2) b(2) by auto
  moreover have "length (coremap s1) = length (coremap s)" using length_coremap_mark [OF b(1), of None] b(2) by simp
  ultimately have "{i. i < length (coremap s) \<and> \<not> cm_free (coremap s ! i)} \<subseteq>
      insert b {i. i < length (coremap s1) \<and> \<not> cm_free (coremap s1 ! i)}" by auto
  then have "free_frames s \<le> card (insert b {i. i < length (coremap s1) \<and> \<not> cm_free (coremap s1 ! i)})"
    unfolding free_frames_def by (intro card_mono) simp_all
  also have "\<dots> \<le> free_frames s1 + 1" unfolding free_frames_def by (simp add: card_insert_if)
  finally have "free_frames s \<le> free_frames s1 + 1" .
  moreover have "length (coremap s) \<le> 2 ^ 17" using vi by (simp add: vm_inv_def cm_ok_def)
  then have "frame_addr b0 \<noteq> 0" using b0 frame_addr_inject [of b0 0] by (simp add: frame_addr_def)
  ultimately show ?thesis using g by (simp add: alloc_kpages_def getppages_def)
qed

interpretation kf: page_supply "vm_pages vo" "sys_inv vo content" kernel_blocks kernel_word
  "\<lambda>s :: ('f, 'a) sys_st_scheme. (user_byte content s, vm_st.more s)" free_frames for vo content
  by unfold_locales (use alloc_kpages_supply in \<open>simp add: vm_pages_def\<close>)

section \<open>The heap of the kernel\<close>

definition kernel_heap_inv :: "'f vnode_ops \<Rightarrow> ('f \<Rightarrow> byte list) \<Rightarrow> kheap \<times> ('f, 'a) sys_st_scheme \<Rightarrow> bool" where
  "kernel_heap_inv vo content x \<longleftrightarrow> (\<exists>gs. heap_inv (sys_inv vo content) kernel_blocks kernel_word x gs)"

text \<open>The blocks allocated in a state, as address and size: the description of a heap is unique.\<close>

definition kernel_allocated :: "'f vnode_ops \<Rightarrow> ('f \<Rightarrow> byte list) \<Rightarrow> kheap \<times> ('f, 'a) sys_st_scheme \<Rightarrow> (nat \<times> nat) set" where
  "kernel_allocated vo content x = live kernel_blocks x (THE gs. heap_wf (sys_inv vo content) kernel_blocks kernel_word x gs)"

lemma kernel_allocated_eq:
  assumes "heap_inv (sys_inv vo content) kernel_blocks kernel_word x gs"
  shows "kernel_allocated vo content x = live kernel_blocks x gs"
proof -
  obtain h s where x: "x = (h, s)" by (cases x)
  have wf: "heap_wf (sys_inv vo content) kernel_blocks kernel_word (h, s) gs" using assms by (simp add: x heap_inv_def)
  then have "(THE gs. heap_wf (sys_inv vo content) kernel_blocks kernel_word (h, s) gs) = gs"
    using kp.heap_unique by (intro the_equality) blast+
  then show ?thesis by (simp add: kernel_allocated_def x)
qed

lemma kernel_kmalloc:
  assumes inv: "kernel_heap_inv vo content (h, s)" and sz: "unat sz \<le> 2 ^ 32 - PAGE_SIZE"
    and run: "kmalloc (vm_pages vo) sz (h, s) = Some (p, h', s')"
  shows "kernel_heap_inv vo content (h', s')" and "user_byte content s' = user_byte content s" and "vm_st.more s' = vm_st.more s"
    and "kept (kernel_word s) (kernel_word s') (kernel_allocated vo content (h, s))"
    and "p = 0 \<Longrightarrow> kernel_allocated vo content (h', s') = kernel_allocated vo content (h, s) \<and>
       card (used (kheaproots h)) = NUM_PAGEREFPAGES * NPAGEREFS_PER_PAGE"
    and "p \<noteq> 0 \<Longrightarrow> fresh_block (unat sz) (unat p) (kernel_allocated vo content (h, s)) (kernel_allocated vo content (h', s'))"
proof -
  obtain gs where gs: "heap_inv (sys_inv vo content) kernel_blocks kernel_word (h, s) gs" using inv by (auto simp: kernel_heap_inv_def)
  obtain gs' where r: "heap_inv (sys_inv vo content) kernel_blocks kernel_word (h', s') gs'"
    "(user_byte content s', vm_st.more s') = (user_byte content s, vm_st.more s)"
    "kept (kernel_word s) (kernel_word s') (live kernel_blocks (h, s) gs)"
    "if p = 0 then live kernel_blocks (h', s') gs' = live kernel_blocks (h, s) gs \<and> card (used (kheaproots h)) = NUM_PAGEREFPAGES * NPAGEREFS_PER_PAGE
     else fresh_block (unat sz) (unat p) (live kernel_blocks (h, s) gs) (live kernel_blocks (h', s') gs')"
    using kp.kmalloc_spec [OF gs sz run] by blast
  then show "kernel_heap_inv vo content (h', s')" and "user_byte content s' = user_byte content s" and "vm_st.more s' = vm_st.more s"
    and "kept (kernel_word s) (kernel_word s') (kernel_allocated vo content (h, s))"
    and "p = 0 \<Longrightarrow> kernel_allocated vo content (h', s') = kernel_allocated vo content (h, s) \<and>
       card (used (kheaproots h)) = NUM_PAGEREFPAGES * NPAGEREFS_PER_PAGE"
    and "p \<noteq> 0 \<Longrightarrow> fresh_block (unat sz) (unat p) (kernel_allocated vo content (h, s)) (kernel_allocated vo content (h', s'))"
    using kernel_allocated_eq [OF gs] kernel_allocated_eq [OF r(1)] by (auto simp: kernel_heap_inv_def)
qed

lemma kernel_kfree:
  assumes inv: "kernel_heap_inv vo content (h, s)" and b: "(unat p, n) \<in> kernel_allocated vo content (h, s)"
  obtains h' s' where "kfree (vm_pages vo) p (h, s) = Some (h', s')" and "kernel_heap_inv vo content (h', s')"
    and "user_byte content s' = user_byte content s" and "vm_st.more s' = vm_st.more s"
    and "kernel_allocated vo content (h', s') = kernel_allocated vo content (h, s) - {(unat p, n)}"
    and "kept (kernel_word s) (kernel_word s') (kernel_allocated vo content (h', s'))"
proof -
  obtain gs where gs: "heap_inv (sys_inv vo content) kernel_blocks kernel_word (h, s) gs" using inv by (auto simp: kernel_heap_inv_def)
  note b' = b [unfolded kernel_allocated_eq [OF gs]]
  obtain h' s' gs' where r: "kfree (vm_pages vo) p (h, s) = Some (h', s')"
    "heap_inv (sys_inv vo content) kernel_blocks kernel_word (h', s') gs'"
    "(user_byte content s', vm_st.more s') = (user_byte content s, vm_st.more s)"
    "live kernel_blocks (h', s') gs' = live kernel_blocks (h, s) gs - {(unat p, n)}"
    "kept (kernel_word s) (kernel_word s') (live kernel_blocks (h, s) gs - {(unat p, n)})"
    using kp.kfree_spec [OF gs b'] by blast
  show thesis
    by (rule that [OF r(1)]) (use r kernel_allocated_eq [OF gs] kernel_allocated_eq [OF r(2)] in \<open>auto simp: kernel_heap_inv_def\<close>)
qed

text \<open>The heap when the kernel starts.\<close>

lemma used_empty: "used (kheaproots (empty_kheap refs)) = {}"
proof -
  have "used_of (kheaproots (empty_kheap refs) ! w) = {}" if "w < NUM_PAGEREFPAGES" for w
  proof -
    have "k div 32 < INUSE_WORDS" if "k < NPAGEREFS_PER_PAGE" for k using that by simp
    then show ?thesis using that by (auto simp: empty_kheap_def used_of_def)
  qed
  then show ?thesis by (auto simp: used_def)
qed

lemma empty_heap_inv:
  assumes "sys_inv vo content s"
  shows "heap_inv (sys_inv vo content) kernel_blocks kernel_word (empty_kheap refs, s) []"
proof -
  have r: "root_ok r" "kr_page r = 0" if "r \<in> set (kheaproots (empty_kheap refs))" for r
  proof -
    have r: "r = \<lparr>kr_page = 0, pagerefs_inuse = replicate INUSE_WORDS 0, numinuse = 0\<rparr>" using that by (simp add: empty_kheap_def)
    have "used_of r = {}" using r by (auto simp: used_of_def)
    then show "root_ok r" "kr_page r = 0" by (simp_all add: r root_ok_def)
  qed
  then have "roots_ok (kheaproots (empty_kheap refs))" by (auto simp: roots_ok_def) (simp_all add: empty_kheap_def)
  moreover have "root_pages (kheaproots (empty_kheap refs)) = {}" using r by (auto simp: root_pages_def)
  moreover have "lists_ok (empty_kheap refs) []" by (simp add: lists_ok_def empty_kheap_def)
  ultimately show ?thesis using assms used_empty [of refs] by (simp add: heap_inv_def heap_wf_def heap_pages_def)
qed

lemma empty_kernel_heap:
  assumes "sys_inv vo content s"
  shows "kernel_heap_inv vo content (empty_kheap refs, s)"
    and "kernel_allocated vo content (empty_kheap refs, s) = (\<lambda>(a, n). (a, n * PAGE_SIZE)) ` kernel_blocks s"
proof -
  note e = empty_heap_inv [OF assms, of refs]
  show "kernel_heap_inv vo content (empty_kheap refs, s)" using e by (auto simp: kernel_heap_inv_def)
  have "root_pages (kheaproots (empty_kheap refs)) = {}" by (auto simp: root_pages_def empty_kheap_def)
  then show "kernel_allocated vo content (empty_kheap refs, s) = (\<lambda>(a, n). (a, n * PAGE_SIZE)) ` kernel_blocks s"
    unfolding kernel_allocated_eq [OF e] by (simp add: live_def live_blocks_def page_blocks_def heap_pages_def)
qed

text \<open>Sequences of operations, and the allocator they implement. A client frees only what is allocated, or \<^verbatim>\<open>NULL\<close>.\<close>

datatype heap_op = Malloc uint32 vaddr | Free vaddr

definition heap_step :: "'f vnode_ops \<Rightarrow> ('f \<Rightarrow> byte list) \<Rightarrow> kheap \<times> ('f, 'a) sys_st_scheme \<Rightarrow> heap_op \<Rightarrow>
    kheap \<times> ('f, 'a) sys_st_scheme \<Rightarrow> bool" where
  "heap_step vo content x e x' = (case e of
     Malloc sz p \<Rightarrow> unat sz \<le> 2 ^ 32 - PAGE_SIZE \<and> kmalloc (vm_pages vo) sz x = Some (p, x')
   | Free p \<Rightarrow> (p = 0 \<or> (\<exists>n. (unat p, n) \<in> kernel_allocated vo content x)) \<and> kfree (vm_pages vo) p x = Some x')"

definition alloc_step :: "(nat \<times> nat) set \<Rightarrow> heap_op \<Rightarrow> (nat \<times> nat) set \<Rightarrow> bool" where
  "alloc_step L e L' = (case e of
     Malloc sz p \<Rightarrow> (if p = 0 then L' = L else fresh_block (unat sz) (unat p) L L')
   | Free p \<Rightarrow> (if p = 0 then L' = L else \<exists>n. (unat p, n) \<in> L \<and> L' = L - {(unat p, n)}))"

interpretation kh: simulation "kernel_heap_inv vo content" "heap_step vo content" alloc_step "kernel_allocated vo content"
  for vo content
proof
  fix x x' e
  assume inv: "kernel_heap_inv vo content x" and step: "heap_step vo content x e x'"
  obtain h s h' s' where x: "x = (h, s)" "x' = (h', s')" by (cases x, cases x')
  show "kernel_heap_inv vo content x' \<and> alloc_step (kernel_allocated vo content x) e (kernel_allocated vo content x')"
  proof (cases e)
    case (Malloc sz p)
    with step x have m: "unat sz \<le> 2 ^ 32 - PAGE_SIZE" "kmalloc (vm_pages vo) sz (h, s) = Some (p, h', s')" by (simp_all add: heap_step_def)
    from kernel_kmalloc [OF inv [unfolded x] m] show ?thesis using Malloc x by (simp add: alloc_step_def)
  next
    case (Free p)
    show ?thesis
    proof (cases "p = 0")
      case True
      with Free step inv show ?thesis by (simp add: heap_step_def alloc_step_def kfree_def)
    next
      case False
      with Free step x obtain n where n: "(unat p, n) \<in> kernel_allocated vo content (h, s)"
        and r: "kfree (vm_pages vo) p (h, s) = Some (h', s')" by (auto simp: heap_step_def)
      obtain h1 s1 where "kfree (vm_pages vo) p (h, s) = Some (h1, s1)" "kernel_heap_inv vo content (h1, s1)"
        "kernel_allocated vo content (h1, s1) = kernel_allocated vo content (h, s) - {(unat p, n)}"
        by (rule kernel_kfree [OF inv [unfolded x(1)] n])
      then show ?thesis using Free False x n r by (auto simp: alloc_step_def)
    qed
  qed
qed

end
