(* ===== verification/Kernelheap.thy ===== *)
theory Kernelheap
  imports Kcontract Boot
begin

text \<open>
  The properties of the kernel heap over the virtual memory system.
\<close>

section \<open>An example\<close>

definition example_kheap :: kheap where
  "example_kheap = empty_kheap (\<lambda>_. \<lparr>next_samesize = 0, next_all = 0, pageaddr_and_blocktype = 0, freelist_offset = 0, nfree = 0\<rparr>)"

lemma example_kmalloc:
  obtains s s' :: "byte list kern_st" and p h'
  where "kernel_heap_inv list_vnode_ops (\<lambda>f. f) (example_kheap, s)" and "2 \<le> free_frames s"
    and "kmalloc (vm_pages list_vnode_ops) 100 (example_kheap, s) = Some (p, h', s')" and "p \<noteq> 0"
proof -
  obtain s :: "byte list kern_st" where s: "sys_inv list_vnode_ops (\<lambda>f. f) s" "coremap s = boot_coremap 128 17"
    by (rule example_boot) blast
  have "{17, 18} \<subseteq> {i. i < length (coremap s) \<and> \<not> cm_free (coremap s ! i)}" by (auto simp: s(2))
  then have "card {17, 18 :: nat} \<le> free_frames s" unfolding free_frames_def by (intro card_mono) simp_all
  then have r: "2 \<le> free_frames s" by simp
  note e = empty_heap_inv [OF s(1)]
  obtain p h' s' where "kmalloc (vm_pages list_vnode_ops) 100 (example_kheap, s) = Some (p, h', s')" "p \<noteq> 0"
    using kf.kmalloc_supplied [OF e, of 100] r used_empty unfolding example_kheap_def by fastforce
  moreover have "kernel_heap_inv list_vnode_ops (\<lambda>f. f) (example_kheap, s)"
    unfolding example_kheap_def by (rule empty_kernel_heap [OF s(1)])
  ultimately show thesis using that r by blast
qed

section \<open>Properties\<close>



text \<open>
  Claim C38: \<^verbatim>\<open>kmalloc\<close> disturbs nothing. Whenever it returns, for any size up to 4 GB less a
  page, the contents of the blocks allocated so far, the memory of every user process and the rest of the
  kernel's state are as before. It returns \<^verbatim>\<open>NULL\<close> only when all 4096 page references
  are in use, and then it has given back the page it took.
\<close>

theorem kmalloc_safe:
  assumes "kernel_heap_inv vo content (h, s)" and "unat sz \<le> 2 ^ 32 - PAGE_SIZE"
    and "kmalloc (vm_pages vo) sz (h, s) = Some (p, h', s')"
  shows "kept (kernel_word s) (kernel_word s') (kernel_allocated vo content (h, s)) \<and>
    user_byte content s' = user_byte content s \<and> procs s' = procs s \<and> curproc s' = curproc s \<and>
    (p = 0 \<longrightarrow> card (used (kheaproots h)) = 4096 \<and> kernel_allocated vo content (h', s') = kernel_allocated vo content (h, s)) \<and>
    (p \<noteq> 0 \<longrightarrow> fresh_block (unat sz) (unat p) (kernel_allocated vo content (h, s)) (kernel_allocated vo content (h', s')))"
  using kernel_kmalloc [OF assms] vm_more_sys [of s' s] by auto

theorem kmalloc_safe_witness:
  "\<exists>(s :: byte list kern_st) s' p h' n. kmalloc (vm_pages list_vnode_ops) 100 (example_kheap, s) = Some (p, h', s') \<and>
     100 \<le> n \<and> (unat p, n) \<in> kernel_allocated list_vnode_ops (\<lambda>f. f) (h', s') \<and> user_byte (\<lambda>f. f) s' = user_byte (\<lambda>f. f) s"
proof -
  obtain s s' :: "byte list kern_st" and p h' where e: "kernel_heap_inv list_vnode_ops (\<lambda>f. f) (example_kheap, s)"
    "kmalloc (vm_pages list_vnode_ops) 100 (example_kheap, s) = Some (p, h', s')" "p \<noteq> 0" by (rule example_kmalloc)
  have sz: "unat (100 :: uint32) \<le> 2 ^ 32 - PAGE_SIZE" by simp
  note k = kmalloc_safe [OF e(1) sz e(2)]
  obtain n where n: "100 \<le> n" "(unat p, n) \<in> kernel_allocated list_vnode_ops (\<lambda>f. f) (h', s')"
    using k e(3) by (auto simp: fresh_block_def)
  with k e(2) show ?thesis by blast
qed

text \<open>
  Claim C39: \<^verbatim>\<open>kfree\<close> of an allocated block returns: no assertion fails, the block and nothing else is
  released, and the contents of the other blocks and all user memory stay. This covers
  the case in which the last block of a page goes and the page is unlinked from both lists, its
  page reference released and its frame given back.
\<close>

theorem kfree_releases:
  assumes "kernel_heap_inv vo content (h, s)" and "(unat p, n) \<in> kernel_allocated vo content (h, s)"
  shows "\<exists>h' s'. kfree (vm_pages vo) p (h, s) = Some (h', s') \<and> kernel_heap_inv vo content (h', s') \<and>
    kernel_allocated vo content (h', s') = kernel_allocated vo content (h, s) - {(unat p, n)} \<and>
    kept (kernel_word s) (kernel_word s') (kernel_allocated vo content (h', s')) \<and>
    user_byte content s' = user_byte content s"
  by (rule kernel_kfree [OF assms]) blast

theorem kfree_releases_witness:
  "\<exists>(s :: byte list kern_st) h p n h' s'. (unat p, n) \<in> kernel_allocated list_vnode_ops (\<lambda>f. f) (h, s) \<and>
     kfree (vm_pages list_vnode_ops) p (h, s) = Some (h', s') \<and>
     (unat p, n) \<notin> kernel_allocated list_vnode_ops (\<lambda>f. f) (h', s')"
proof -
  obtain s s' :: "byte list kern_st" and p h' where e: "kernel_heap_inv list_vnode_ops (\<lambda>f. f) (example_kheap, s)"
    "kmalloc (vm_pages list_vnode_ops) 100 (example_kheap, s) = Some (p, h', s')" "p \<noteq> 0" by (rule example_kmalloc)
  have sz: "unat (100 :: uint32) \<le> 2 ^ 32 - PAGE_SIZE" by simp
  note k = kernel_kmalloc [OF e(1) sz e(2)]
  obtain n where n: "(unat p, n) \<in> kernel_allocated list_vnode_ops (\<lambda>f. f) (h', s')" using k(6) [OF e(3)] by (auto simp: fresh_block_def)
  from kfree_releases [OF k(1) n] n show ?thesis by blast
qed

text \<open>
  Claim C40: small allocations succeed while memory lasts. With two free frames (one for a heap page, one for
  a page of page references) and an unused page reference, \<^verbatim>\<open>kmalloc\<close> of less than 2048 bytes
  returns a block.
\<close>

theorem kmalloc_succeeds:
  assumes "kernel_heap_inv vo content (h, s)" and "unat sz < 2048" and "2 \<le> free_frames s"
    and "card (used (kheaproots h)) < 4096"
  shows "\<exists>p h' s'. kmalloc (vm_pages vo) sz (h, s) = Some (p, h', s') \<and> p \<noteq> 0"
proof -
  obtain gs where "heap_inv (sys_inv vo content) kernel_blocks kernel_word (h, s) gs"
    using assms(1) by (auto simp: kernel_heap_inv_def)
  from kf.kmalloc_supplied [OF this assms(2,3)] assms(4) show ?thesis by simp
qed

theorem kmalloc_succeeds_witness:
  "\<exists>(s :: byte list kern_st) p h' s'. 2 \<le> free_frames s \<and>
     kmalloc (vm_pages list_vnode_ops) 2047 (example_kheap, s) = Some (p, h', s') \<and> p \<noteq> 0"
proof -
  obtain s :: "byte list kern_st" where e: "kernel_heap_inv list_vnode_ops (\<lambda>f. f) (example_kheap, s)" "2 \<le> free_frames s"
    by (rule example_kmalloc)
  have "card (used (kheaproots example_kheap)) < 4096" by (simp add: example_kheap_def used_empty)
  from kmalloc_succeeds [OF e(1) _ e(2) this, of 2047] e(2) show ?thesis by auto
qed

text \<open>
  The bound on the size is needed: for the last 4095 sizes the rounding overflows, and \<^verbatim>\<open>kmalloc\<close> asks for no page at all.
\<close>

lemma kmalloc_overflow:
  assumes "2 ^ 32 - PAGE_SIZE < unat sz" and "po_alloc po 0 s = Some (va, s')" and "va \<noteq> 0" and "unat va mod PAGE_SIZE = 0"
  shows "kmalloc po sz (h, s) = Some (va, h, s')"
proof -
  have lt: "unat sz < 4294967296" by (rule unat_less_2p32)
  have gt: "4294967296 \<le> unat sz + 4095" using assms(1) by simp
  have "(unat sz + 4095 - 4294967296) mod 4294967296 = unat sz + 4095 - 4294967296" using lt by (intro mod_less) linarith
  then have "unat (sz + 4095) = unat sz + 4095 - 4294967296" using le_mod_geq [OF gt] by (simp add: unat_word_ariths)
  moreover have "unat sz + 4095 - 4294967296 < PAGE_SIZE" using lt by linarith
  ultimately have "unat ((sz + 4096 - 1) div 4096) = 0" by (simp add: unat_div_distrib add.commute [of 4095 sz])
  moreover have "sz \<ge> LARGEST_SUBPAGE_SIZE" using assms(1) by (simp add: word_le_nat_alt)
  ultimately show ?thesis using assms(2-) by (simp add: kmalloc_def)
qed

end
