(* ===== verification/Spec2Isabelle.thy ===== *)
theory Spec2Isabelle
  imports Syscall Kernelheap
begin

text \<open>
  A verification of an OS/161 kernel with demand paging (\<^verbatim>\<open>src/os161-base-2.0.3\<close>, configuration
  \<^verbatim>\<open>DEMANDVM\<close>): its virtual memory system from the TLB up to the loading and the end of user programs,
  and the library code under it.

  \<^bold>\<open>The program.\<close> A user address that is not in the TLB traps to \<^verbatim>\<open>vm_fault\<close> (\<^verbatim>\<open>kern/vm/vm.c\<close>). It finds
  the segment of the address (\<^verbatim>\<open>addrspace.c\<close>, \<^verbatim>\<open>segment.c\<close>) and the entry of the per-process page table
  (\<^verbatim>\<open>pt.c\<close>); a page that is not in memory gets a frame from the core map (\<^verbatim>\<open>coremap.c\<close>), which evicts another
  page to the swap file (\<^verbatim>\<open>swapfile.c\<close>, with a bitmap from \<^verbatim>\<open>lib/bitmap.c\<close>) when memory is full, and is then
  zeroed, read from the executable or read back from the swap file; at last the translation goes into the TLB
  (\<^verbatim>\<open>vm_tlb.c\<close>). \<^verbatim>\<open>runprogram\<close> and \<^verbatim>\<open>load_elf\<close> set up the address space of a process, \<^verbatim>\<open>sys__exit\<close> ends it,
  \<^verbatim>\<open>proc_wait\<close> collects it. Programs call the kernel through \<^verbatim>\<open>mips_trap\<close> and \<^verbatim>\<open>syscall\<close>, which read and write
  their memory (\<^verbatim>\<open>copyinout.c\<close>) and the console (\<^verbatim>\<open>console.c\<close> on \<^verbatim>\<open>lser.c\<close>). Under all this are the string
  routines, the 64-bit arithmetic the compiler calls and formatted output.

  \<^bold>\<open>Conventions.\<close> A function that can panic, fail an assertion, use an invalid pointer, block or run forever has
  a result of type \<open>'a option\<close> and \<^const>\<open>None\<close> means that it does not return; theorems that a function returns
  say so. Error numbers are the left summand of \<open>errno + 'a\<close>. Machine words are \<^verbatim>\<open>32 word\<close>, \<^verbatim>\<open>64 word\<close> and
  \<^verbatim>\<open>8 word\<close> where they can overflow. State is an extensible record: \<open>stats_st\<close>, \<open>tlb_st\<close>, \<open>swap_st\<close>, \<open>pt_st\<close>,
  \<open>vm_st\<close>, \<open>sys_st\<close>, \<open>kern_st\<close>, each adding the globals of one more source file. Files are a parameter
  \<open>vo\<close> (\<^verbatim>\<open>VOP_READ\<close> and \<^verbatim>\<open>VOP_WRITE\<close>) with the hypothesis \<open>regular_file\<close>; the instance
  \<open>list_vnode_ops\<close> satisfies it. The outcome of \<^verbatim>\<open>vfs_open\<close> is an argument, and so is that of \<^verbatim>\<open>kmalloc\<close> in the virtual
  memory system, whose own records are not kept in the words of the heap.

  \<^bold>\<open>Theories.\<close>
  \<^item> \<open>Prelude\<close>: machine types, \<open>kassert\<close>, page arithmetic, runs of a step relation and the locale \<open>simulation\<close>.
  \<^item> \<open>Cstring\<close>: memory, \<^verbatim>\<open>libc/string\<close> and \<^verbatim>\<open>atoi\<close>; block moves are right for every overlap.
  \<^item> \<open>Millicode\<close>, \<open>Qdivrem\<close>: \<^verbatim>\<open>gcc-millicode\<close>; each routine is the operation on 64-bit words, division by Knuth's
    Algorithm D included.
  \<^item> \<open>Printf\<close>: \<^verbatim>\<open>__printf.c\<close>, \<^verbatim>\<open>snprintf.c\<close>, the console of \<^verbatim>\<open>kprintf.c\<close>; the locale \<open>print_sink\<close> is the contract
    of a back end, interpreted on the buffer of \<^verbatim>\<open>snprintf\<close> and on the console.
  \<^item> \<open>Bitmap\<close>: \<^verbatim>\<open>lib/bitmap.c\<close>; the locale \<open>slot_map\<close> (allocate, free, test) interpreted on it.
  \<^item> \<open>Tlb\<close>: \<^verbatim>\<open>vm_tlb.c\<close>, \<^verbatim>\<open>tlb.h\<close>, \<^verbatim>\<open>vmstats.c\<close>; the locale \<open>translation_cache\<close>.
  \<^item> \<open>Vnode\<close>, \<open>Swapfile\<close>: files, page frames and \<^verbatim>\<open>swapfile.c\<close>; the locale \<open>page_store\<close>.
  \<^item> \<open>Addrspace\<close>, \<open>Pagetable\<close>: \<^verbatim>\<open>segment.c\<close>, \<^verbatim>\<open>addrspace.c\<close>, \<^verbatim>\<open>pt.c\<close>; the invariant \<open>as_wf\<close> and the numbering of
    pages by table indices.
  \<^item> \<open>Coremap\<close>: \<^verbatim>\<open>coremap.c\<close>, the search for free frames (its loop ends when blocks are well formed) and
    eviction; \<open>Replacement\<close>: the invariant \<open>vm_inv\<close> and that replacement keeps it and every page's contents.
  \<^item> \<open>Vm\<close>, \<open>Vmfault\<close>, \<open>Vmsystem\<close>, \<open>Vmdestroy\<close>: the fault handler, allocation of kernel pages, exit, context switch and the
    release of an address space, each with the lemma that it keeps the invariant \<open>sys_inv\<close> and the bytes
    \<open>user_byte\<close> of every process.
  \<^item> \<open>Process\<close>, \<open>Processes\<close>: \<^verbatim>\<open>proc.c\<close>, \<^verbatim>\<open>loadelf.c\<close>, \<^verbatim>\<open>runprogram.c\<close>.
  \<^item> \<open>Paging\<close>: the step relation \<open>sys_step\<close> of the whole system, the abstract \<open>flat_step\<close> in which every process has a
    private memory, and the refinement of the second by the first.
  \<^item> \<open>Boot\<close>: start-up and the properties of the whole.
  \<^item> \<open>Usermem\<close>: loads and stores of the kernel at user addresses, with the faults they take, and \<^verbatim>\<open>copyinout.c\<close>.
  \<^item> \<open>Console\<close>: \<^verbatim>\<open>console.c\<close>, \<^verbatim>\<open>lser.c\<close>, \<^verbatim>\<open>beep.c\<close>, \<^verbatim>\<open>kgets.c\<close>. The step relation \<open>con_step\<close> interleaves threads,
    interrupt handler and device; the locale \<open>char_queue\<close> is the contract of the input ring and \<open>char_device\<close> that of
    \<^verbatim>\<open>putch\<close> and \<^verbatim>\<open>getch\<close>, in which the line editor is proved.
  \<^item> \<open>Syscall\<close>: \<^verbatim>\<open>file_syscall.c\<close>, \<^verbatim>\<open>time_syscalls.c\<close>, \<^verbatim>\<open>syscall.c\<close>, \<^verbatim>\<open>trap.c\<close>; what \<^verbatim>\<open>read\<close> and \<^verbatim>\<open>write\<close> do to the
    memory of the program and to the console.

  \<^item> \<open>Kpages\<close>: \<^verbatim>\<open>alloc_kpages\<close> and \<^verbatim>\<open>free_kpages\<close> as an interface, the locale \<open>page_layer\<close>, interpreted on the virtual memory
    system: fresh kernel pages overlap no other kernel page, and using them changes no user memory.
  \<^item> \<open>Kmalloc\<close>: \<^verbatim>\<open>kmalloc.c\<close>, with the free lists in the words of the heap pages; \<open>Kheap\<close>: its invariant \<open>heap_inv\<close> and the page references;
    \<open>Kalloc\<close>: free lists, page lists and blocks of one page; \<open>Kcontract\<close>: \<^verbatim>\<open>kmalloc\<close> and \<^verbatim>\<open>kfree\<close> in the locale \<open>page_layer\<close>, and
    that they return while frames last, in \<open>page_supply\<close>; \<open>Kernelheap\<close>: the properties of the heap over the virtual memory system.

  \<^bold>\<open>Bounds and fuel.\<close> No definition uses fuel. Loops that may not end are partial functions, and the
  theorems show that they return where the invariant holds. The swap file has \<^verbatim>\<open>SWAPFILE_NPAGES\<close> slots and
  the TLB 64 entries, as in the source; memory sizes and the size of a core map entry are arguments.

  \<^bold>\<open>Not modelled.\<close> Concurrency in the virtual memory system: its operations run one after the other, so spinlocks
  and sleeping are left out, with the windows a released lock opens. (The console is modelled with its
  interleavings.) The other device drivers and assembly are register accesses; the old \<^verbatim>\<open>dumbvm.c\<close> is not compiled; \<^verbatim>\<open>kern/test\<close> and \<^verbatim>\<open>userland\<close> exercise the system.
\<close>

end
